(* ===== verification/Prelude.thy ===== *)
theory Prelude
  imports Main "HOL-Library.Word"
begin

unbundle bit_operations_syntax

text \<open>
  Generic vocabulary of the development: the widths of the code's integers, byte strings,
  the return codes of \<open>common/common_define.h\<close>, big-endian numbers, and the operations of
  \<open>std::string\<close> that the sources call. Nothing here is specific to one component.
\<close>

section \<open>Widths, bytes and return codes\<close>

type_synonym u8 = "8 word"
type_synonym u16 = "16 word"
type_synonym u32 = "32 word"
type_synonym u64 = "64 word"
type_synonym bytes = "8 word list"

named_theorems be_simps \<open>big-endian encoding and decoding\<close>

text \<open>\<open>enum RetCode\<close>: the value every protocol's \<open>Parse\<close> returns to its read loop.\<close>

datatype ret_code = kError | kSuccess | kClose | kNoEnoughData | kPending

section \<open>String literals as bytes\<close>

definition bs :: "string \<Rightarrow> bytes" where
  "bs s = map of_char s"

lemma length_bs [simp]: "length (bs s) = length s"
  by (simp add: bs_def)

lemma bs_Nil [simp]: "bs [] = []"
  by (simp add: bs_def)

lemma bs_append [simp]: "bs (s @ t) = bs s @ bs t"
  by (simp add: bs_def)

text \<open>What \<open>operator<<\<close> prints for an unsigned integer.\<close>

fun dec :: "nat \<Rightarrow> bytes" where
  "dec n = (if n < 10 then [word_of_nat (48 + n)] else dec (n div 10) @ [word_of_nat (48 + n mod 10)])"

declare dec.simps [simp del]

definition byte_at :: "bytes \<Rightarrow> nat \<Rightarrow> u8" where
  \<comment> \<open>\<open>s[i]\<close> of a \<open>std::string\<close>; the terminator (and, in this model, what follows it) reads 0\<close>
  "byte_at s i = (if i < length s then s ! i else 0)"

section \<open>Big-endian numbers\<close>

text \<open>\<open>be n v\<close>: the low \<open>n\<close> bytes of \<open>v\<close>, most significant first.\<close>

fun be :: "nat \<Rightarrow> nat \<Rightarrow> bytes" where
  "be 0 v = []"
| "be (Suc n) v = be n (v div 256) @ [word_of_nat v]"

definition be_val :: "bytes \<Rightarrow> nat" where
  "be_val xs = foldl (\<lambda>a b. a * 256 + unat b) 0 xs"

lemma unat_u8: "unat (b :: u8) < 256"
proof -
  have "(unsigned b :: nat) < 2 ^ LENGTH(8)" by (rule unsigned_less)
  then show ?thesis by simp
qed

lemma u8_256 [simp]: "(256 :: u8) = 0"
  by transfer (simp add: take_bit_eq_mod)

lemma length_be [simp]: "length (be n v) = n"
  by (induction n arbitrary: v) auto

lemma be_val_Nil [simp]: "be_val [] = 0"
  by (simp add: be_val_def)

lemma be_val_snoc [simp]: "be_val (xs @ [b]) = be_val xs * 256 + unat b"
  by (simp add: be_val_def)

lemma be_val_be [be_simps]: "be_val (be n v) = v mod 256 ^ n"
proof (induction n arbitrary: v)
  case (Suc n)
  have "be_val (be (Suc n) v) = (v div 256) mod 256 ^ n * 256 + v mod 256"
    using Suc [of "v div 256"] by (simp add: unat_of_nat)
  also have "\<dots> = v mod 256 ^ Suc n"
    by (simp add: mod_mult2_eq mult.commute)
  finally show ?case .
qed simp

lemma be_val_bound: "be_val xs < 256 ^ length xs"
proof (induction xs rule: rev_induct)
  case (snoc b xs)
  have "unat b < 256" by (rule unat_u8)
  moreover have "Suc (be_val xs) \<le> 256 ^ length xs" using snoc by simp
  then have "Suc (be_val xs) * 256 \<le> 256 ^ length xs * 256" by (rule mult_le_mono1)
  ultimately show ?case by simp
qed simp

lemma be_be_val [be_simps]: "be (length xs) (be_val xs) = xs"
proof (induction xs rule: rev_induct)
  case (snoc b xs)
  have "unat b < 256" by (rule unat_u8)
  then have "(be_val xs * 256 + unat b) div 256 = be_val xs" by simp
  moreover have "(word_of_nat (be_val xs * 256 + unat b) :: u8) = b"
    by simp
  ultimately show ?case using snoc by simp
qed simp

lemma be_val_be_unat [be_simps]:
  assumes "LENGTH('a::len) = 8 * n"
  shows "be_val (be n (unat (x :: 'a word))) = unat x"
proof -
  have "(unsigned x :: nat) < 2 ^ LENGTH('a)" by (rule unsigned_less)
  moreover have "(2::nat) ^ LENGTH('a) = 256 ^ n" by (simp add: assms power_mult)
  ultimately show ?thesis by (simp add: be_val_be)
qed

lemma drop_be [be_simps]: "drop k (be (k + n) v) = be n v"
  by (induction n arbitrary: v) (simp_all add: drop_append)

text \<open>
  The code assembles a number by \<open>v <<= 8; v |= byte\<close>; on a word wide enough this is
  \<open>256 v + byte\<close>.
\<close>

lemma shl8_or_byte:
  assumes "8 \<le> LENGTH('a::len)"
  shows "(push_bit 8 x OR ucast (b :: u8) :: 'a word) = x * 256 + ucast b"
proof -
  have "push_bit 8 x AND (ucast b :: 'a word) = 0"
    by (rule bit_eqI) (auto simp: bit_simps dest: bit_imp_le_length)
  then have "push_bit 8 x OR (ucast b :: 'a word) = push_bit 8 x + ucast b"
    by (simp add: disjunctive_add_eq_or)
  then show ?thesis by (simp add: push_bit_eq_mult mult.commute)
qed

section \<open>\<open>std::string\<close> searching\<close>

text \<open>\<open>s.find(pat)\<close>: the first position where \<open>pat\<close> occurs, \<open>None\<close> for \<open>npos\<close>.\<close>

fun str_find :: "'a list \<Rightarrow> 'a list \<Rightarrow> nat option" where
  "str_find [] pat = (if pat = [] then Some 0 else None)"
| "str_find (x # xs) pat =
     (if take (length pat) (x # xs) = pat then Some 0
      else map_option Suc (str_find xs pat))"

definition str_find_from :: "'a list \<Rightarrow> 'a list \<Rightarrow> nat \<Rightarrow> nat option" where
  "str_find_from s pat pos =
     (if pos \<le> length s then map_option (\<lambda>i. pos + i) (str_find (drop pos s) pat) else None)"

definition substr :: "'a list \<Rightarrow> nat \<Rightarrow> nat \<Rightarrow> 'a list" where
  "substr s pos n = take n (drop pos s)"

lemma str_find_bound: "str_find s pat = Some i \<Longrightarrow> i + length pat \<le> length s"
proof (induction s arbitrary: i)
  case (Cons x xs)
  show ?case
  proof (cases "take (length pat) (x # xs) = pat")
    case True
    then have "length pat \<le> length (x # xs)"
      by (metis length_take min.cobounded1)
    with True Cons.prems show ?thesis by (simp split: if_splits)
  next
    case False
    with Cons.prems obtain j where "str_find xs pat = Some j" and "i = Suc j"
      by (auto simp: if_not_P)
    with Cons.IH show ?thesis by force
  qed
qed (auto split: if_splits)

lemma str_find_occurs:
  "str_find s pat = Some i \<Longrightarrow> take (length pat) (drop i s) = pat"
  by (induction s arbitrary: i) (auto split: if_splits)

lemma str_find_skip1: "c \<notin> set p \<Longrightarrow> str_find (p @ c # t) [c] = Some (length p)"
  by (induction p) auto

lemma str_find_none1: "c \<notin> set s \<Longrightarrow> str_find s [c] = None"
  by (induction s) auto

end
