(* ===== verification/IoBuffer.thy ===== *)
theory IoBuffer
  imports Prelude
begin

text \<open>
  \<open>common/io_buffer.h\<close>, \<open>common/io_buffer.cpp\<close>: the growable byte buffer between a socket
  and a protocol. The record keeps the malloc'd block, its capacity and the two cursors as
  offsets into the block. Memory errors and failed \<open>assert\<close>s set \<open>io_fault\<close>. What the
  allocator does is part of the state: \<open>io_grant n\<close> says whether a block of \<open>n\<close> bytes is
  granted, \<open>io_fresh\<close> is what uninitialised memory holds.

  \<open>io_content\<close> is the abstraction: the bytes between the cursors, oldest first. The lemmas
  show that every operation is the corresponding operation of a byte queue (locale
  \<open>byte_queue\<close>, interpreted on these definitions), and that no operation leaves the block.
\<close>

section \<open>State\<close>

definition kDefaultSize :: nat where "kDefaultSize = 1024 * 64"
definition kShrinkSize :: nat where "kShrinkSize = 2 * 1024 * 64"
definition kEnlargeSize :: nat where "kEnlargeSize = 1024 * 64"
definition kUdpMaxSize :: nat where "kUdpMaxSize = 1460"

record io_buffer =
  io_buf :: "bytes option"
  io_capacity :: nat
  io_start :: nat
  io_end :: nat
  io_fault :: bool
  io_grant :: "nat \<Rightarrow> bool"
  io_fresh :: "nat \<Rightarrow> u8"

definition io_malloc :: "(nat \<Rightarrow> bool) \<Rightarrow> (nat \<Rightarrow> u8) \<Rightarrow> nat \<Rightarrow> bytes option" where
  "io_malloc grant fresh n = (if grant n then Some (map fresh [0..<n]) else None)"

definition io_realloc :: "(nat \<Rightarrow> bool) \<Rightarrow> (nat \<Rightarrow> u8) \<Rightarrow> bytes option \<Rightarrow> nat \<Rightarrow> bytes option" where
  "io_realloc grant fresh blk n =
     (if grant n
      then (let old = (case blk of None \<Rightarrow> [] | Some xs \<Rightarrow> xs)
            in Some (take n old @ map fresh [length old..<n]))
      else None)"

definition io_new :: "(nat \<Rightarrow> bool) \<Rightarrow> (nat \<Rightarrow> u8) \<Rightarrow> nat \<Rightarrow> io_buffer" where
  "io_new grant fresh capacity =
     \<lparr>io_buf = (if capacity \<noteq> 0 then io_malloc grant fresh capacity else None),
      io_capacity = capacity, io_start = 0, io_end = 0, io_fault = False,
      io_grant = grant, io_fresh = fresh\<rparr>"

section \<open>Operations\<close>

definition io_int :: "nat \<Rightarrow> int" where
  \<comment> \<open>a \<open>size_t\<close> returned as \<open>int\<close>\<close>
  "io_int n = sint (word_of_nat n :: u32)"

definition io_capacity_left :: "io_buffer \<Rightarrow> int" where
  "io_capacity_left b = sint (word_of_int (int (io_capacity b) - int (io_end b)) :: u32)"

definition io_assert_order :: "io_buffer \<Rightarrow> io_buffer" where
  \<comment> \<open>\<open>assert(end_ >= start_)\<close>\<close>
  "io_assert_order b = (if io_start b \<le> io_end b then b else b\<lparr>io_fault := True\<rparr>)"

definition io_shrink_capacity :: "nat \<Rightarrow> io_buffer \<Rightarrow> io_buffer" where
  "io_shrink_capacity capacity b =
     (let b1 = (if kShrinkSize < io_capacity b
                then b\<lparr>io_capacity := capacity,
                       io_buf := io_malloc (io_grant b) (io_fresh b) capacity\<rparr>
                else b)
      in b1\<lparr>io_start := 0, io_end := 0\<rparr>)"

definition io_size :: "io_buffer \<Rightarrow> nat \<times> io_buffer" where
  "io_size b =
     (if io_buf b = None then (0, b)
      else let b1 = (if io_end b = io_start b then io_shrink_capacity kDefaultSize b else b);
               b2 = io_assert_order b1
           in (io_end b2 - io_start b2, b2))"

definition io_empty :: "io_buffer \<Rightarrow> bool \<times> io_buffer" where
  "io_empty b = (let (n, b1) = io_size b in (n = 0, b1))"

definition io_make_space :: "nat \<Rightarrow> io_buffer \<Rightarrow> int \<times> io_buffer" where
  "io_make_space len b0 =
     (let b = io_assert_order b0;
          cur_capacity = nat (io_capacity_left b mod 2 ^ 64)
      in if len \<le> cur_capacity then (0, b)
         else let new_capacity = max ((io_capacity b + len) mod 2 ^ 64) ((io_capacity b * 2) mod 2 ^ 64)
              in case io_realloc (io_grant b) (io_fresh b) (io_buf b) new_capacity of
                   None \<Rightarrow> (-1, b\<lparr>io_buf := None\<rparr>)
                 | Some blk \<Rightarrow> (0, b\<lparr>io_buf := Some blk, io_capacity := new_capacity\<rparr>))"

definition io_memcpy :: "nat \<Rightarrow> bytes \<Rightarrow> io_buffer \<Rightarrow> io_buffer" where
  \<comment> \<open>copy into the block at an offset; outside the block is a fault\<close>
  "io_memcpy pos xs b =
     (case io_buf b of
        None \<Rightarrow> if xs = [] then b else b\<lparr>io_fault := True\<rparr>
      | Some blk \<Rightarrow>
          if pos + length xs \<le> length blk
          then b\<lparr>io_buf := Some (take pos blk @ xs @ drop (pos + length xs) blk)\<rparr>
          else b\<lparr>io_fault := True\<rparr>)"

definition io_write :: "bytes \<Rightarrow> io_buffer \<Rightarrow> int \<times> io_buffer" where
  "io_write data b =
     (let (ret, b1) = io_make_space (length data) b
      in if ret < 0 then (ret, b1)
         else let b2 = io_memcpy (io_end b1) data b1
              in (io_int (length data), b2\<lparr>io_end := io_end b2 + length data\<rparr>))"

definition io_write_u8 :: "u8 \<Rightarrow> io_buffer \<Rightarrow> int \<times> io_buffer" where
  "io_write_u8 u = io_write [u]"

definition io_write_u16 :: "u16 \<Rightarrow> io_buffer \<Rightarrow> int \<times> io_buffer" where
  "io_write_u16 u = io_write (be 2 (unat u))"

definition io_write_u24 :: "u32 \<Rightarrow> io_buffer \<Rightarrow> int \<times> io_buffer" where
  \<comment> \<open>the four bytes of \<open>htobe32(u24)\<close>, from the second on\<close>
  "io_write_u24 u = io_write (drop 1 (be 4 (unat u)))"

definition io_write_u32 :: "u32 \<Rightarrow> io_buffer \<Rightarrow> int \<times> io_buffer" where
  "io_write_u32 u = io_write (be 4 (unat u))"

definition io_write_u64 :: "u64 \<Rightarrow> io_buffer \<Rightarrow> int \<times> io_buffer" where
  "io_write_u64 u = io_write (be 8 (unat u))"

definition io_write_fake :: "nat \<Rightarrow> io_buffer \<Rightarrow> int \<times> io_buffer" where
  "io_write_fake len b =
     (let (ret, b1) = io_make_space len b
      in if ret < 0 then (ret, b1) else (ret, b1\<lparr>io_end := io_end b1 + len\<rparr>))"

definition io_view :: "io_buffer \<Rightarrow> nat \<Rightarrow> nat \<Rightarrow> bytes" where
  \<comment> \<open>the \<open>n\<close> bytes that \<open>start_ + pos\<close> points at\<close>
  "io_view b pos n = (case io_buf b of None \<Rightarrow> [] | Some blk \<Rightarrow> take n (drop (io_start b + pos) blk))"

definition io_read_and_copy :: "nat \<Rightarrow> io_buffer \<Rightarrow> (int \<times> bytes) \<times> io_buffer" where
  "io_read_and_copy len b =
     (let (size, b1) = io_size b
      in if size = 0 then ((0, []), b1)
         else if size \<le> len
         then ((io_int size, io_view b1 0 size), b1\<lparr>io_start := io_start b1 + size\<rparr>)
         else ((io_int len, io_view b1 0 len), b1\<lparr>io_start := io_start b1 + len\<rparr>))"

definition io_read :: "nat \<Rightarrow> io_buffer \<Rightarrow> (int \<times> bytes option) \<times> io_buffer" where
  \<comment> \<open>hands out a pointer into the block (the bytes it points at); \<open>None\<close>: pointer untouched\<close>
  "io_read len b =
     (let (size, b1) = io_size b
      in if size = 0 then ((0, None), b1)
         else if size \<le> len
         then ((io_int size, Some (io_view b1 0 size)), b1\<lparr>io_start := io_start b1 + size\<rparr>)
         else ((io_int len, Some (io_view b1 0 len)), b1\<lparr>io_start := io_start b1 + len\<rparr>))"

definition io_acc :: "bytes \<Rightarrow> 'w::len word" where
  \<comment> \<open>\<open>v = 0; v |= p[0]; v <<= 8; v |= p[1]; ...\<close>\<close>
  "io_acc xs = foldl (\<lambda>v b. push_bit 8 v OR ucast b) 0 xs"

definition io_read_num :: "nat \<Rightarrow> io_buffer \<Rightarrow> 'w::len word option \<times> io_buffer" where
  \<comment> \<open>the common body of \<open>ReadU16\<close>, \<open>ReadU32\<close>, \<open>ReadU64\<close>; \<open>None\<close> is the return value -1\<close>
  "io_read_num n b =
     (let (size, b1) = io_size b
      in if size < n then (None, b1)
         else (Some (io_acc (io_view b1 0 n)), b1\<lparr>io_start := io_start b1 + n\<rparr>))"

definition io_read_u8 :: "io_buffer \<Rightarrow> u8 option \<times> io_buffer" where
  "io_read_u8 b =
     (let (size, b1) = io_size b
      in if size < 1 then (None, b1)
         else (Some (hd (io_view b1 0 1)), b1\<lparr>io_start := io_start b1 + 1\<rparr>))"

definition io_read_u16 :: "io_buffer \<Rightarrow> u16 option \<times> io_buffer" where
  "io_read_u16 = io_read_num 2"

definition io_read_u32 :: "io_buffer \<Rightarrow> u32 option \<times> io_buffer" where
  "io_read_u32 = io_read_num 4"

definition io_read_u64 :: "io_buffer \<Rightarrow> u64 option \<times> io_buffer" where
  "io_read_u64 = io_read_num 8"

definition io_peek :: "nat \<Rightarrow> nat \<Rightarrow> io_buffer \<Rightarrow> bytes option \<times> io_buffer" where
  "io_peek begin_pos len b =
     (let (size, b1) = io_size b
      in if size < begin_pos + len then (None, b1) else (Some (io_view b1 begin_pos len), b1))"

definition io_peek_num :: "nat \<Rightarrow> io_buffer \<Rightarrow> 'w::len word option \<times> io_buffer" where
  "io_peek_num n b =
     (let (size, b1) = io_size b
      in if size < n then (None, b1) else (Some (io_acc (io_view b1 0 n)), b1))"

definition io_peek_u8 :: "io_buffer \<Rightarrow> u8 option \<times> io_buffer" where
  "io_peek_u8 = io_peek_num 1"

definition io_peek_u16 :: "io_buffer \<Rightarrow> u16 option \<times> io_buffer" where
  "io_peek_u16 = io_peek_num 2"

definition io_peek_u32 :: "io_buffer \<Rightarrow> u32 option \<times> io_buffer" where
  "io_peek_u32 = io_peek_num 4"

definition io_peek_u64 :: "io_buffer \<Rightarrow> u64 option \<times> io_buffer" where
  "io_peek_u64 = io_peek_num 8"

definition io_skip :: "nat \<Rightarrow> io_buffer \<Rightarrow> int \<times> io_buffer" where
  \<comment> \<open>the overflow is logged, then the cursor moves all the same\<close>
  "io_skip len b = (let (size, b1) = io_size b in (io_int len, b1\<lparr>io_start := io_start b1 + len\<rparr>))"

definition io_fill_from_fd :: "nat \<Rightarrow> bytes option \<Rightarrow> io_buffer \<Rightarrow> int \<times> io_buffer" where
  \<comment> \<open>\<open>read\<close>/\<open>recvfrom\<close> of at most \<open>max_read\<close> bytes: \<open>pending\<close> is what the kernel holds,
     \<open>None\<close> an error\<close>
  "io_fill_from_fd max_read pending b =
     (case pending of
        None \<Rightarrow> (-1, b)
      | Some xs \<Rightarrow>
          let got = take max_read xs; b1 = io_memcpy (io_end b) got b
          in (io_int (length got), b1\<lparr>io_end := io_end b1 + length got\<rparr>))"

definition io_read_from_fd :: "bytes option \<Rightarrow> io_buffer \<Rightarrow> int \<times> io_buffer" where
  "io_read_from_fd pending b =
     (let b1 = snd (io_make_space kEnlargeSize b);
          max_read = min (nat (io_capacity_left b1 mod 2 ^ 64)) (1024 * 64)
      in io_fill_from_fd max_read pending b1)"

definition io_recv_from_fd :: "bytes option \<Rightarrow> io_buffer \<Rightarrow> int \<times> io_buffer" where
  "io_recv_from_fd pending b =
     (let b1 = snd (io_make_space kUdpMaxSize b);
          (ret, b2) = io_fill_from_fd (nat (io_capacity_left b1 mod 2 ^ 64)) pending b1
      in if ret = 0 then (ret, b2\<lparr>io_fault := True\<rparr>) else (ret, b2))"

definition io_write_to_fd :: "int \<Rightarrow> io_buffer \<Rightarrow> (int \<times> bytes) \<times> io_buffer" where
  \<comment> \<open>\<open>accepts\<close>: how many bytes the kernel takes, negative for an error\<close>
  "io_write_to_fd accepts b =
     (let (size, b1) = io_size b
      in if size = 0 then ((0, []), b1)
         else let ret = min accepts (int size)
              in if 0 < ret
                 then ((ret, io_view b1 0 (nat ret)), b1\<lparr>io_start := io_start b1 + nat ret\<rparr>)
                 else ((ret, []), b1))"

section \<open>Abstraction and invariant\<close>

definition io_content :: "io_buffer \<Rightarrow> bytes" where
  "io_content b =
     (case io_buf b of None \<Rightarrow> []
      | Some blk \<Rightarrow> take (io_end b - io_start b) (drop (io_start b) blk))"

text \<open>
  The allocator: it grants no block of 2 GiB or more (\<open>CapacityLeft\<close> returns an \<open>int\<close>, so
  beyond that the room computation is wrong), and it does grant the 64 KiB block that an
  emptied large buffer is replaced by.
\<close>

definition heap_ok :: "(nat \<Rightarrow> bool) \<Rightarrow> bool" where
  "heap_ok g \<longleftrightarrow> (\<forall>n. g n \<longrightarrow> n < 2 ^ 31) \<and> g kDefaultSize"

definition io_inv :: "io_buffer \<Rightarrow> bool" where
  "io_inv b \<longleftrightarrow> \<not> io_fault b \<and> heap_ok (io_grant b) \<and> io_capacity b < 2 ^ 31 \<and>
     io_start b \<le> io_end b \<and> io_end b \<le> io_capacity b \<and>
     (case io_buf b of None \<Rightarrow> io_capacity b = 0 | Some blk \<Rightarrow> length blk = io_capacity b)"

lemma io_inv_len: "io_inv b \<Longrightarrow> length (io_content b) = io_end b - io_start b"
  by (auto simp: io_inv_def io_content_def split: option.splits)

lemma io_inv_bound: "io_inv b \<Longrightarrow> length (io_content b) < 2 ^ 31"
  by (simp add: io_inv_len) (auto simp: io_inv_def)

lemma io_int_small: "n < 2 ^ 31 \<Longrightarrow> io_int n = int n"
  by (simp add: io_int_def sint_uint uint_nat unat_of_nat signed_take_bit_eq_if_positive
        take_bit_eq_mod bit_iff_odd)

section \<open>Every operation is a queue operation\<close>

lemma io_capacity_left_inv:
  assumes "io_inv b"
  shows "io_capacity_left b = int (io_capacity b - io_end b)"
proof -
  have le: "io_end b \<le> io_capacity b" and small: "io_capacity b - io_end b < 2 ^ 31"
    using assms by (auto simp: io_inv_def)
  have "(word_of_int (int (io_capacity b) - int (io_end b)) :: u32) = word_of_nat (io_capacity b - io_end b)"
    using le by (simp add: of_nat_diff)
  then show ?thesis
    using io_int_small [OF small] by (simp add: io_capacity_left_def io_int_def)
qed

lemma io_room_inv: "io_inv b \<Longrightarrow> nat (io_capacity_left b mod 2 ^ 64) = io_capacity b - io_end b"
  by (simp add: io_capacity_left_inv) (auto simp: io_inv_def nat_eq_iff intro!: mod_pos_pos_trivial)

lemma io_order_inv [simp]: "io_inv b \<Longrightarrow> io_assert_order b = b"
  by (simp add: io_inv_def io_assert_order_def)

lemma io_size_ok:
  assumes "io_inv b"
  shows "io_size b = (length (io_content b), snd (io_size b))"
    and "io_inv (snd (io_size b))" and "io_content (snd (io_size b)) = io_content b"
    and "io_start (snd (io_size b)) + length (io_content b) = io_end (snd (io_size b))"
    and "io_grant (snd (io_size b)) = io_grant b"
proof -
  have "fst (io_size b) = length (io_content b) \<and> io_inv (snd (io_size b)) \<and>
    io_content (snd (io_size b)) = io_content b \<and>
    io_start (snd (io_size b)) + length (io_content b) = io_end (snd (io_size b)) \<and>
    io_grant (snd (io_size b)) = io_grant b"
  proof (cases "io_buf b")
    case None
    with assms show ?thesis by (auto simp: io_size_def io_content_def io_inv_def)
  next
    case (Some blk)
    show ?thesis
    proof (cases "io_end b = io_start b")
      case True
      with Some assms show ?thesis
        by (auto simp: io_size_def io_content_def io_inv_def io_shrink_capacity_def Let_def
            io_malloc_def heap_ok_def io_assert_order_def)
    next
      case False
      with Some assms show ?thesis
        by (auto simp: io_size_def io_content_def io_inv_def Let_def io_assert_order_def)
    qed
  qed
  then show "io_size b = (length (io_content b), snd (io_size b))"
    and "io_inv (snd (io_size b))" and "io_content (snd (io_size b)) = io_content b"
    and "io_start (snd (io_size b)) + length (io_content b) = io_end (snd (io_size b))"
    and "io_grant (snd (io_size b)) = io_grant b"
    by (auto simp: prod_eq_iff)
qed

lemma io_size_fst: "io_inv b \<Longrightarrow> fst (io_size b) = length (io_content b)"
  by (subst io_size_ok) simp_all

lemma io_view_content:
  assumes "io_inv b" and "pos + n \<le> length (io_content b)"
  shows "io_view b pos n = take n (drop pos (io_content b))"
  using assms io_inv_len [OF assms(1)]
  by (auto simp: io_view_def io_content_def drop_take min_def add.commute split: option.splits)

lemma io_advance:
  assumes "io_inv b" and "n \<le> length (io_content b)"
  shows "io_inv (b\<lparr>io_start := io_start b + n\<rparr>)"
    and "io_content (b\<lparr>io_start := io_start b + n\<rparr>) = drop n (io_content b)"
  using assms io_inv_len [OF assms(1)]
  by (auto simp: io_inv_def io_content_def drop_take min_def add.commute split: option.splits)

lemma io_make_space_ok:
  assumes inv: "io_inv b" and mk: "io_make_space n b = (r, b')" and r: "0 \<le> r" and n: "n < 2 ^ 32"
  shows "io_inv b'" and "io_content b' = io_content b" and "io_end b' + n \<le> io_capacity b'"
    and "io_start b' = io_start b" and "io_end b' = io_end b" and "io_grant b' = io_grant b"
proof -
  let ?new = "max ((io_capacity b + n) mod 2 ^ 64) (io_capacity b * 2 mod 2 ^ 64)"
  have cap: "io_capacity b < 2 ^ 31" and ends: "io_start b \<le> io_end b" "io_end b \<le> io_capacity b"
    using inv by (auto simp: io_inv_def)
  have new: "?new = max (io_capacity b + n) (io_capacity b * 2)" using cap n by simp
  note mk' = mk [unfolded io_make_space_def Let_def io_order_inv [OF inv] io_room_inv [OF inv] new]
  have "io_inv b' \<and> io_content b' = io_content b \<and> io_end b' + n \<le> io_capacity b' \<and>
    io_start b' = io_start b \<and> io_end b' = io_end b \<and> io_grant b' = io_grant b"
  proof (cases "n \<le> io_capacity b - io_end b")
    case True
    with mk' have "b' = b" by simp
    with True inv ends show ?thesis by simp
  next
    case False
    let ?N = "max (io_capacity b + n) (io_capacity b * 2)"
    from False mk' r have g: "io_grant b ?N"
      and b': "b' = b\<lparr>io_buf := io_realloc (io_grant b) (io_fresh b) (io_buf b) ?N,
                      io_capacity := ?N\<rparr>"
      by (auto simp: io_realloc_def Let_def split: if_splits)
    have "?N < 2 ^ 31" using g inv unfolding io_inv_def heap_ok_def by blast
    with b' g inv ends False show ?thesis
      by (cases "io_buf b") (auto simp: io_inv_def io_realloc_def io_content_def Let_def)
  qed
  then show "io_inv b'" and "io_content b' = io_content b" and "io_end b' + n \<le> io_capacity b'"
    and "io_start b' = io_start b" and "io_end b' = io_end b" and "io_grant b' = io_grant b"
    by auto
qed

lemma io_memcpy_end:
  assumes inv: "io_inv b" and room: "io_end b + length xs \<le> io_capacity b"
  shows "io_inv (io_memcpy (io_end b) xs b\<lparr>io_end := io_end b + length xs\<rparr>)"
    and "io_content (io_memcpy (io_end b) xs b\<lparr>io_end := io_end b + length xs\<rparr>) = io_content b @ xs"
    and "io_end (io_memcpy (io_end b) xs b) = io_end b"
    and "\<not> io_fault (io_memcpy (io_end b) xs b)"
    and "io_grant (io_memcpy (io_end b) xs b) = io_grant b"
proof -
  let ?b = "io_memcpy (io_end b) xs b"
  have "io_inv (?b\<lparr>io_end := io_end b + length xs\<rparr>) \<and>
    io_content (?b\<lparr>io_end := io_end b + length xs\<rparr>) = io_content b @ xs \<and>
    io_end ?b = io_end b \<and> \<not> io_fault ?b \<and> io_grant ?b = io_grant b"
  proof (cases "io_buf b")
    case None
    with assms show ?thesis by (auto simp: io_memcpy_def io_inv_def io_content_def)
  next
    case (Some blk)
    with inv have len: "io_start b \<le> io_end b" "length blk = io_capacity b"
      by (auto simp: io_inv_def)
    have "drop (io_start b) (take (io_end b) blk @ xs @ ys) =
        take (io_end b - io_start b) (drop (io_start b) blk) @ xs @ ys" for ys
      using len room by (simp add: drop_take)
    with Some assms len show ?thesis
      by (auto simp: io_memcpy_def io_inv_def io_content_def)
  qed
  then show "io_inv (?b\<lparr>io_end := io_end b + length xs\<rparr>)"
    and "io_content (?b\<lparr>io_end := io_end b + length xs\<rparr>) = io_content b @ xs"
    and "io_end ?b = io_end b" and "\<not> io_fault ?b" and "io_grant ?b = io_grant b"
    by auto
qed

lemma io_write_ok:
  assumes inv: "io_inv b" and w: "io_write xs b = (r, b')" and r: "0 \<le> r" and n: "length xs < 2 ^ 32"
  shows "io_inv b'" and "io_content b' = io_content b @ xs" and "r = int (length xs)"
    and "io_grant b' = io_grant b"
proof -
  obtain s b1 where mk: "io_make_space (length xs) b = (s, b1)" by (cases "io_make_space (length xs) b")
  with w r have s: "0 \<le> s" by (auto simp: io_write_def Let_def split: if_splits)
  note sp = io_make_space_ok [OF inv mk s n]
  have b': "b' = io_memcpy (io_end b1) xs b1\<lparr>io_end := io_end b1 + length xs\<rparr>"
    and rr: "r = io_int (length xs)"
    using w mk s io_memcpy_end(3) [OF sp(1,3)] by (auto simp: io_write_def Let_def)
  show "io_inv b'" and c: "io_content b' = io_content b @ xs"
    using io_memcpy_end(1,2) [OF sp(1,3)] b' sp(2) by simp_all
  then have "length xs < 2 ^ 31" using io_inv_bound [of b'] by simp
  then show "r = int (length xs)" using rr io_int_small by simp
  show "io_grant b' = io_grant b" using b' sp(6) io_memcpy_end(5) [OF sp(1,3)] by simp
qed

lemma io_write_succeeds:
  assumes inv: "io_inv b" and g: "\<And>n. n < 2 ^ 31 \<Longrightarrow> io_grant b n"
    and small: "io_capacity b + length xs < 2 ^ 30"
  shows "0 \<le> fst (io_write xs b)"
proof -
  have new: "max ((io_capacity b + length xs) mod 2 ^ 64) (io_capacity b * 2 mod 2 ^ 64) < 2 ^ 31"
    using small by simp
  have "fst (io_make_space (length xs) b) = 0"
    using g [OF new] inv by (auto simp: io_make_space_def Let_def io_realloc_def)
  moreover have "io_int (length xs) = int (length xs)"
    using small by (intro io_int_small) simp
  ultimately show ?thesis
    by (auto simp: io_write_def Let_def split: prod.splits)
qed

lemma io_write_capacity:
  assumes inv: "io_inv b" and small: "io_capacity b + length xs < 2 ^ 30"
  shows "io_capacity (snd (io_write xs b)) \<le> 2 * (io_capacity b + length xs)"
  using assms
  by (auto simp: io_write_def io_make_space_def Let_def io_memcpy_def io_realloc_def
      split: prod.splits option.splits if_splits)

lemma io_read_ok:
  assumes inv: "io_inv b" and rd: "io_read n b = ((r, d), b')"
  shows "io_inv b'" and "io_content b' = drop n (io_content b)"
    and "r = int (min n (length (io_content b)))"
    and "d = (if io_content b = [] then None else Some (take n (io_content b)))"
proof -
  let ?b = "snd (io_size b)" and ?n = "min n (length (io_content b))"
  note sz = io_size_ok [OF inv]
  have "r = io_int ?n \<and> b' = ?b\<lparr>io_start := io_start ?b + ?n\<rparr> \<or> io_content b = [] \<and> r = 0 \<and> b' = ?b"
    using rd sz(1) by (auto simp: io_read_def Let_def min_def split: prod.splits if_splits)
  moreover have "io_int ?n = int ?n" using io_inv_bound [OF inv] by (intro io_int_small) simp
  ultimately show "io_inv b'" and "io_content b' = drop n (io_content b)"
    and "r = int (min n (length (io_content b)))"
    using io_advance [OF sz(2), of ?n] sz(2,3) by (auto simp: min_def)
  show "d = (if io_content b = [] then None else Some (take n (io_content b)))"
    using rd sz(1,3) io_view_content [OF sz(2), of 0 n]
      io_view_content [OF sz(2), of 0 "length (io_content b)"]
    by (auto simp: io_read_def Let_def split: prod.splits if_splits)
qed

lemma io_read_and_copy_ok:
  assumes inv: "io_inv b"
  shows "io_read_and_copy n b =
    ((int (min n (length (io_content b))), take n (io_content b)), snd (io_read n b))"
  using io_read_ok [OF inv, of n "fst (fst (io_read n b))" "snd (fst (io_read n b))" "snd (io_read n b)"]
  by (auto simp: io_read_and_copy_def io_read_def Let_def split: prod.splits if_splits)

lemma io_skip_ok:
  assumes inv: "io_inv b" and n: "n \<le> length (io_content b)"
  shows "io_inv (snd (io_skip n b))" and "io_content (snd (io_skip n b)) = drop n (io_content b)"
  using io_advance [OF io_size_ok(2) [OF inv], of n] io_size_ok(3) [OF inv] n
  by (simp_all add: io_skip_def split_def Let_def)

lemma io_peek_ok:
  assumes inv: "io_inv b"
  shows "io_peek pos n b =
    (if length (io_content b) < pos + n then None else Some (take n (drop pos (io_content b))),
     snd (io_size b))"
  using io_size_ok(3) [OF inv] io_view_content [OF io_size_ok(2) [OF inv], of pos n] inv
  by (auto simp: io_peek_def split_def Let_def io_size_fst)

section \<open>The interface: a queue of bytes\<close>

datatype io_op = OpWrite bytes | OpRead nat

fun op_bytes :: "io_op \<Rightarrow> nat" where
  "op_bytes (OpWrite xs) = length xs"
| "op_bytes (OpRead n) = 0"

text \<open>A client's calls on any buffer with a \<open>Write\<close> and a \<open>Read\<close>; \<open>None\<close> when a write fails.\<close>

fun q_run :: "(bytes \<Rightarrow> 'q \<Rightarrow> int \<times> 'q) \<Rightarrow> (nat \<Rightarrow> 'q \<Rightarrow> (int \<times> bytes option) \<times> 'q) \<Rightarrow>
    io_op list \<Rightarrow> 'q \<Rightarrow> (bytes list \<times> 'q) option" where
  "q_run wr rd [] q = Some ([], q)"
| "q_run wr rd (OpWrite xs # ops) q =
     (let (r, q1) = wr xs q in if r < 0 then None else q_run wr rd ops q1)"
| "q_run wr rd (OpRead n # ops) q =
     (let ((r, d), q1) = rd n q
      in map_option (\<lambda>(out, q2). (case_option [] id d # out, q2)) (q_run wr rd ops q1))"

text \<open>The same calls on the abstract queue, a byte string.\<close>

fun fifo_run :: "io_op list \<Rightarrow> bytes \<Rightarrow> bytes list \<times> bytes" where
  "fifo_run [] c = ([], c)"
| "fifo_run (OpWrite xs # ops) c = fifo_run ops (c @ xs)"
| "fifo_run (OpRead n # ops) c = (let (out, c1) = fifo_run ops (drop n c) in (take n c # out, c1))"

locale byte_queue =
  fixes inv :: "'q \<Rightarrow> bool"
    and content :: "'q \<Rightarrow> bytes"
    and put :: "bytes \<Rightarrow> 'q \<Rightarrow> int \<times> 'q"
    and get :: "nat \<Rightarrow> 'q \<Rightarrow> (int \<times> bytes option) \<times> 'q"
  assumes write_law: "inv q \<Longrightarrow> put xs q = (r, q1) \<Longrightarrow> 0 \<le> r \<Longrightarrow> length xs < 2 ^ 32 \<Longrightarrow>
      inv q1 \<and> content q1 = content q @ xs \<and> r = int (length xs)"
    and read_law: "inv q \<Longrightarrow> get n q = ((s, d), q1) \<Longrightarrow>
      inv q1 \<and> content q1 = drop n (content q) \<and> case_option [] id d = take n (content q)"
begin

lemma run_refines:
  "inv q \<Longrightarrow> \<forall>p \<in> set ops. op_bytes p < 2 ^ 32 \<Longrightarrow> q_run put get ops q = Some (out, q1) \<Longrightarrow>
     inv q1 \<and> fifo_run ops (content q) = (out, content q1)"
proof (induction ops arbitrary: q out)
  case (Cons p ops)
  show ?case
  proof (cases p)
    case (OpWrite xs)
    obtain r q2 where w: "put xs q = (r, q2)" by (cases "put xs q")
    with Cons.prems OpWrite have "0 \<le> r" and run: "q_run put get ops q2 = Some (out, q1)"
      by (auto split: if_splits)
    with write_law [OF Cons.prems(1) w] Cons.prems(2) OpWrite
    have "inv q2" and "content q2 = content q @ xs" by auto
    with Cons.IH [OF _ _ run] Cons.prems(2) OpWrite show ?thesis by simp
  next
    case (OpRead n)
    obtain s d q2 where rd: "get n q = ((s, d), q2)" by (metis surj_pair)
    with Cons.prems OpRead obtain out' where run: "q_run put get ops q2 = Some (out', q1)"
      and out: "out = case_option [] id d # out'"
      by auto
    from read_law [OF Cons.prems(1) rd] Cons.IH [OF _ _ run] Cons.prems(2) OpRead out
    show ?thesis by (auto simp: Let_def)
  qed
qed simp

lemma write_then_read:
  assumes "inv q" and "content q = []" and "put xs q = (r, q1)" and "0 \<le> r" and "length xs < 2 ^ 32"
    and "get (length xs) q1 = ((s, d), q2)"
  shows "case_option [] id d = xs \<and> content q2 = [] \<and> inv q2"
  using write_law [OF assms(1,3,4,5)] read_law [OF _ assms(6)] assms(2) by auto

end

interpretation iob: byte_queue io_inv io_content io_write io_read
proof (unfold_locales, goal_cases)
  case (1 q xs r q1)
  then show ?case using io_write_ok by blast
next
  case (2 q n s d q1)
  then show ?case using io_read_ok [OF 2] by (auto split: if_splits)
qed

section \<open>Numbers through the buffer\<close>

lemma io_acc_be_val:
  assumes "8 \<le> LENGTH('w::len)"
  shows "(io_acc xs :: 'w word) = word_of_nat (be_val xs)"
proof (induction xs rule: rev_induct)
  case Nil
  show ?case by (simp add: io_acc_def)
next
  case (snoc b xs)
  have "(io_acc (xs @ [b]) :: 'w word) = push_bit 8 (io_acc xs) OR ucast b"
    by (simp add: io_acc_def)
  with snoc show ?case
    by (simp add: shl8_or_byte [OF assms])
qed

lemma io_read_num_ok:
  assumes inv: "io_inv b" and w: "8 \<le> LENGTH('w::len)"
  shows "(io_read_num n b :: 'w word option \<times> io_buffer) =
     (if length (io_content b) < n then (None, snd (io_size b))
      else (Some (word_of_nat (be_val (take n (io_content b)))),
            snd (io_size b)\<lparr>io_start := io_start (snd (io_size b)) + n\<rparr>))"
  using io_size_ok(3) [OF inv] io_view_content [OF io_size_ok(2) [OF inv], of 0 n] inv
  by (auto simp: io_read_num_def split_def Let_def io_size_fst io_acc_be_val [OF w])

section \<open>Properties\<close>

lemma io_write_capacity_end:
  assumes inv: "io_inv b" and small: "io_end b + length xs < 2 ^ 30"
  shows "io_capacity (snd (io_write xs b)) \<le> max (io_capacity b) (2 * (io_end b + length xs))"
    and "io_end (snd (io_write xs b)) \<le> io_end b + length xs"
proof -
  have cap: "io_capacity b < 2 ^ 31" and e: "io_end b \<le> io_capacity b"
    using inv by (auto simp: io_inv_def)
  have "(io_capacity b + length xs) mod 2 ^ 64 = io_capacity b + length xs"
    and "io_capacity b * 2 mod 2 ^ 64 = io_capacity b * 2"
    using cap small by simp_all
  note mk = io_make_space_def [of "length xs" b, unfolded Let_def io_order_inv [OF inv] io_room_inv [OF inv] this]
  show "io_capacity (snd (io_write xs b)) \<le> max (io_capacity b) (2 * (io_end b + length xs))"
    and "io_end (snd (io_write xs b)) \<le> io_end b + length xs"
    using e by (auto simp: io_write_def mk io_memcpy_def Let_def split: option.splits)
qed

lemma io_read_shrinks:
  assumes inv: "io_inv b"
  shows "io_capacity (snd (io_read n b)) \<le> io_capacity b" and "io_end (snd (io_read n b)) \<le> io_end b"
    and "io_grant (snd (io_read n b)) = io_grant b"
  using inv
  by (auto simp: io_read_def io_size_def io_shrink_capacity_def io_assert_order_def Let_def
      kShrinkSize_def kDefaultSize_def)

lemma io_run_total:
  assumes "io_inv b" and "\<And>n. n < 2 ^ 31 \<Longrightarrow> io_grant b n"
    and "sum_list (map op_bytes ops) + io_end b \<le> M" and "io_capacity b \<le> 2 * M" and M: "M < 2 ^ 28"
  shows "\<exists>out b1. q_run io_write io_read ops b = Some (out, b1)"
  using assms(1-4)
proof (induction ops arbitrary: b)
  case (Cons p ops)
  show ?case
  proof (cases p)
    case (OpWrite xs)
    obtain r b1 where w: "io_write xs b = (r, b1)" by (cases "io_write xs b")
    have len: "io_end b + length xs \<le> M" using Cons.prems(3) OpWrite by simp
    have "io_capacity b + length xs < 2 ^ 30" using len Cons.prems(4) M by simp
    then have r: "0 \<le> r" using io_write_succeeds [OF Cons.prems(1,2)] w by force
    have small: "io_end b + length xs < 2 ^ 30" and "length xs < 2 ^ 32" using len M by simp_all
    with io_write_ok [OF Cons.prems(1) w r] io_write_capacity_end [OF Cons.prems(1) small] w len
      Cons.prems OpWrite
    have "io_inv b1" and "\<And>n. n < 2 ^ 31 \<Longrightarrow> io_grant b1 n"
      and "sum_list (map op_bytes ops) + io_end b1 \<le> M" and "io_capacity b1 \<le> 2 * M"
      by auto
    from Cons.IH [OF this] OpWrite w r show ?thesis by auto
  next
    case (OpRead n)
    obtain s d b1 where rd: "io_read n b = ((s, d), b1)" by (metis surj_pair)
    with io_read_ok(1) [OF Cons.prems(1) rd] io_read_shrinks [OF Cons.prems(1), of n] Cons.prems OpRead
    have "io_inv b1" and "\<And>n. n < 2 ^ 31 \<Longrightarrow> io_grant b1 n"
      and "sum_list (map op_bytes ops) + io_end b1 \<le> M" and "io_capacity b1 \<le> 2 * M"
      by auto
    from Cons.IH [OF this] OpRead rd show ?thesis by fastforce
  qed
qed simp

text \<open>
  C25: an \<open>IoBuffer\<close> is a first-in first-out queue of bytes. For every sequence of \<open>Write\<close> and
  \<open>Read\<close> calls, starting from any well-formed buffer with enough memory (blocks below 2 GiB
  are granted, the calls write less than 256 MiB), no call fails, every \<open>Read\<close> hands out
  exactly the bytes the abstract queue gives, and the buffer that is left is well formed and
  holds exactly the bytes left in the queue: no byte is lost, duplicated, reordered or written
  outside the block by growing, reallocating, shrinking or resetting the cursors.
\<close>

theorem io_buffer_refines_queue:
  assumes "io_inv b" and "\<And>n. n < 2 ^ 31 \<Longrightarrow> io_grant b n"
    and "sum_list (map op_bytes ops) + io_capacity b < 2 ^ 28"
  shows "\<exists>out b1. q_run io_write io_read ops b = Some (out, b1) \<and>
    fifo_run ops (io_content b) = (out, io_content b1) \<and> io_inv b1"
proof -
  let ?M = "sum_list (map op_bytes ops) + io_capacity b"
  have "io_end b \<le> io_capacity b" using assms(1) by (simp add: io_inv_def)
  then have "\<exists>out b1. q_run io_write io_read ops b = Some (out, b1)"
    using assms by (intro io_run_total [of b ops ?M]) auto
  moreover have "\<forall>p \<in> set ops. op_bytes p < 2 ^ 32"
    using assms(3) member_le_sum_list [of _ "map op_bytes ops"] by fastforce
  ultimately show ?thesis using iob.run_refines [OF assms(1)] by blast
qed

theorem io_buffer_refines_queue_witness:
  "\<exists>out b1. q_run io_write io_read
      [OpWrite [1, 2, 3], OpRead 2, OpWrite [4], OpRead 5]
      (io_new (\<lambda>n. n < 2 ^ 31) (\<lambda>_. 0) 0) = Some (out, b1) \<and> out = [[1, 2], [3, 4]]"
proof -
  have "io_inv (io_new (\<lambda>n. n < 2 ^ 31) (\<lambda>_. 0) 0)"
    by (simp add: io_new_def io_inv_def heap_ok_def kDefaultSize_def)
  from io_buffer_refines_queue [OF this, of "[OpWrite [1, 2, 3], OpRead 2, OpWrite [4], OpRead 5]"]
  show ?thesis by (auto simp: io_new_def io_content_def)
qed

text \<open>
  integers survive the buffer. A 16, 32 or 64-bit integer written into an empty buffer is
  read back unchanged by the matching read, and a 24-bit one is its three low bytes, most
  significant first.
\<close>

theorem io_integers_roundtrip:
  assumes "io_inv b" and "io_content b = []" and "\<And>n. n < 2 ^ 31 \<Longrightarrow> io_grant b n"
    and "io_capacity b < 2 ^ 29"
  shows "fst (io_read_u16 (snd (io_write_u16 x b))) = Some x \<and>
    fst (io_read_u32 (snd (io_write_u32 y b))) = Some y \<and>
    fst (io_read_u64 (snd (io_write_u64 z b))) = Some z \<and>
    io_content (snd (io_write_u24 y b)) = be 3 (unat y)"
proof -
  have w: "io_inv (snd (io_write xs b)) \<and> io_content (snd (io_write xs b)) = xs" if "length xs \<le> 8" for xs
    using io_write_succeeds [OF assms(1,3), of xs] that assms(4)
      io_write_ok [OF assms(1), of xs "fst (io_write xs b)" "snd (io_write xs b)"] assms(2)
    by simp
  show ?thesis
    using w [of "be 2 (unat x)"] w [of "be 4 (unat y)"] w [of "be 8 (unat z)"] w [of "be 3 (unat y)"]
    by (simp add: io_write_u16_def io_write_u32_def io_write_u64_def io_write_u24_def io_read_u16_def
        io_read_u32_def io_read_u64_def io_read_num_ok be_val_be_unat drop_be [of 1 3, simplified]
        del: be.simps)
qed

theorem io_integers_roundtrip_witness:
  "fst (io_read_u32 (snd (io_write_u32 0xDEADBEEF (io_new (\<lambda>n. n < 2 ^ 31) (\<lambda>_. 7) 0)))) = Some 0xDEADBEEF"
proof -
  let ?b = "io_new (\<lambda>n. n < 2 ^ 31) (\<lambda>_. 7) 0"
  have "io_inv ?b" and "io_content ?b = []" and "\<And>n. n < 2 ^ 31 \<Longrightarrow> io_grant ?b n"
    and "io_capacity ?b < 2 ^ 29"
    by (simp_all add: io_new_def io_inv_def io_content_def heap_ok_def kDefaultSize_def)
  from io_integers_roundtrip [OF this] show ?thesis by simp
qed

lemma io_size_overrun: "io_buf b \<noteq> None \<Longrightarrow> io_end b < io_start b \<Longrightarrow> io_fault (snd (io_size b))"
  by (auto simp: io_size_def Let_def io_assert_order_def)

text \<open>
  \<open>Skip\<close> past the end is not refused. It logs the overflow and moves the read cursor all
  the same, so the next call that asks for the size of the buffer hits the failed
  \<open>assert(end_ >= start_)\<close>; within the content, \<open>Skip\<close> is \<open>drop\<close>.
\<close>

theorem io_skip_past_end_faults:
  assumes "io_inv b" and "io_content b \<noteq> []"
  shows "if n \<le> length (io_content b)
    then \<not> io_fault (snd (io_size (snd (io_skip n b)))) \<and>
         io_content (snd (io_skip n b)) = drop n (io_content b)
    else io_fault (snd (io_size (snd (io_skip n b))))"
proof (cases "n \<le> length (io_content b)")
  case True
  have "io_inv (snd (io_size (snd (io_skip n b))))"
    using io_size_ok(2) [OF io_skip_ok(1) [OF assms(1) True]] .
  with True io_skip_ok(2) [OF assms(1) True] show ?thesis by (simp add: io_inv_def)
next
  case False
  let ?b = "snd (io_size b)"
  have "io_buf ?b \<noteq> None"
    using io_size_ok(3) [OF assms(1)] assms(2) by (auto simp: io_content_def split: option.splits)
  moreover have "io_end ?b < io_start ?b + n"
    using io_size_ok(4) [OF assms(1)] False by simp
  ultimately show ?thesis using False
    by (simp add: io_skip_def split_def Let_def io_size_overrun)
qed

theorem io_skip_past_end_faults_witness:
  "io_fault (snd (io_size (snd (io_skip 4 (snd (io_write [1, 2] (io_new (\<lambda>n. n < 2 ^ 31) (\<lambda>_. 0) 8)))))))"
proof -
  let ?b = "snd (io_write [1, 2] (io_new (\<lambda>n. n < 2 ^ 31) (\<lambda>_. 0) 8))"
  have n8: "[0..<8] = [0, 1, 2, 3, 4, 5, 6, 7 :: nat]" by (simp add: upt_rec)
  have "io_inv ?b" and "io_content ?b = [1, 2]"
    by (simp_all add: io_new_def io_write_def io_make_space_def io_malloc_def io_assert_order_def
        io_capacity_left_def io_memcpy_def io_inv_def heap_ok_def kDefaultSize_def io_content_def n8)
  with io_skip_past_end_faults [of ?b 4] show ?thesis by simp
qed

end
