(* ===== verification/Base64.thy ===== *)
theory Base64
  imports Prelude
begin

text \<open>
  \<open>src/base_64.cpp\<close>: the encoder answers the WebSocket handshake. The two loops walk the input
  in groups of three (encode) and four (decode) bytes, so they are recursions over the list;
  indices are computed with the code's masks and shifts at the code's widths. The list is the \<open>len\<close> bytes
  at \<open>input\<close>; \<open>len\<close> is a \<open>uint32_t\<close>, and the two functions on strings pass \<open>size()\<close> for it, which cuts longer
  strings at their length modulo 2^32. The counters, which stop at the last multiple of three or four, do not wrap. Reading a key
  that \<open>kDecodeBase64Map\<close> does not have inserts and gives 0 (\<open>std::map::operator[]\<close>).

  The lemmas give the four indices of a group as its 6-bit digits and show that decoding
  inverts encoding, up to that cut.
\<close>

section \<open>The dictionary\<close>

definition kEncodeBase64Dict :: bytes where
  "kEncodeBase64Dict = bs ''ABCDEFGHIJKLMNOPQRSTUVWXYZabcdefghijklmnopqrstuvwxyz0123456789+/''"

definition kDecodeBase64Map :: "u8 \<Rightarrow> u8 option" where
  "kDecodeBase64Map = map_of (zip kEncodeBase64Dict (map word_of_nat [0..<64]))"

definition b64_digit :: "u8 \<Rightarrow> u8" where
  "b64_digit i = kEncodeBase64Dict ! unat i"

definition b64_value :: "u8 \<Rightarrow> u8" where
  "b64_value c = (case kDecodeBase64Map c of None \<Rightarrow> 0 | Some v \<Rightarrow> v)"

definition b64_pad :: u8 where "b64_pad = of_char (CHR ''='')"

section \<open>\<open>Encode\<close>\<close>

definition b64_word3 :: "u8 \<Rightarrow> u8 \<Rightarrow> u8 \<Rightarrow> u32" where
  "b64_word3 x y z = push_bit 16 (ucast x) OR push_bit 8 (ucast y) OR ucast z"

fun b64_encode :: "bytes \<Rightarrow> bytes" where
  "b64_encode (x # y # z # rest) =
     (let tmp = b64_word3 x y z
      in [b64_digit (ucast (drop_bit 18 (tmp AND 0x00FC0000))),
          b64_digit (ucast (drop_bit 12 (tmp AND 0x0003F000))),
          b64_digit (ucast (drop_bit 6 (tmp AND 0x00000FC0))),
          b64_digit (ucast (tmp AND 0x0000003F))] @ b64_encode rest)"
| "b64_encode [x, y] =
     (let tmp = push_bit 8 (ucast x) OR ucast y :: u16
      in [b64_digit (ucast (drop_bit 10 (tmp AND 0xFC00))),
          b64_digit (ucast (drop_bit 4 (tmp AND 0x03F0))),
          b64_digit (ucast (push_bit 2 (tmp AND 0x000F))), b64_pad])"
| "b64_encode [x] =
     [b64_digit (drop_bit 2 (x AND 0xFC)), b64_digit (push_bit 4 (x AND 0x03)), b64_pad, b64_pad]"
| "b64_encode [] = []"

definition b64_encode_string :: "bytes \<Rightarrow> bytes" where
  \<comment> \<open>\<open>Encode(const std::string&, std::string&)\<close>\<close>
  "b64_encode_string input = (let len = word_of_nat (length input) :: u32 in b64_encode (take (unat len) input))"

section \<open>\<open>Decode\<close>\<close>

definition b64_word4 :: "u8 \<Rightarrow> u8 \<Rightarrow> u8 \<Rightarrow> u8 \<Rightarrow> u32" where
  "b64_word4 a b c d =
     push_bit 18 (ucast (b64_value a)) OR push_bit 12 (ucast (b64_value b))
     OR push_bit 6 (ucast (b64_value c)) OR ucast (b64_value d)"

definition b64_byte1 :: "u32 \<Rightarrow> u8" where "b64_byte1 tmp = ucast (drop_bit 16 (tmp AND 0x00FF0000))"
definition b64_byte2 :: "u32 \<Rightarrow> u8" where "b64_byte2 tmp = ucast (drop_bit 8 (tmp AND 0x0000FF00))"
definition b64_byte3 :: "u32 \<Rightarrow> u8" where "b64_byte3 tmp = ucast (tmp AND 0x000000FF)"

fun b64_decode :: "bytes \<Rightarrow> bytes" where
  "b64_decode (a # b # c # d # rest) =
     (let tmp = b64_word4 a b c d
      in if 4 \<le> length rest
         then [b64_byte1 tmp, b64_byte2 tmp, b64_byte3 tmp] @ b64_decode rest
         else \<comment> \<open>\<open>i == four_times_len - 4\<close>: the last whole group; up to three bytes more are ignored\<close>
           if c = b64_pad \<and> d = b64_pad then [b64_byte1 tmp]
           else if d = b64_pad then [b64_byte1 tmp, b64_byte2 tmp]
           else [b64_byte1 tmp, b64_byte2 tmp, b64_byte3 tmp])"
| "b64_decode _ = []"

definition b64_decode_string :: "bytes \<Rightarrow> bytes" where
  \<comment> \<open>\<open>Decode(const std::string&, std::string&)\<close>\<close>
  "b64_decode_string input = (let len = word_of_nat (length input) :: u32 in b64_decode (take (unat len) input))"

section \<open>Digits\<close>

lemma dict_eval:
  "kEncodeBase64Dict = map word_of_nat ([65..<91] @ [97..<123] @ [48..<58] @ [43, 47])"
  by (simp add: kEncodeBase64Dict_def bs_def upt_rec_numeral)

lemma dict_distinct: "distinct kEncodeBase64Dict" "length kEncodeBase64Dict = 64"
proof -
  have "inj_on (word_of_nat :: nat \<Rightarrow> u8) {0..<256}"
    by (rule inj_on_inverseI [where g = unat]) (simp add: unat_of_nat)
  then have "inj_on (word_of_nat :: nat \<Rightarrow> u8) (set ([65..<91] @ [97..<123] @ [48..<58] @ [43, 47]))"
    by (rule inj_on_subset) auto
  moreover have "distinct ([65..<91] @ [97..<123] @ [48..<58] @ [43, 47::nat])" by auto
  ultimately show "distinct kEncodeBase64Dict" unfolding dict_eval distinct_map by blast
  show "length kEncodeBase64Dict = 64" by (simp add: dict_eval)
qed

lemma b64_value_digit: "unat i < 64 \<Longrightarrow> b64_value (b64_digit i) = i"
proof -
  assume "unat i < 64"
  then have "map_of (zip kEncodeBase64Dict (map word_of_nat [0..<64])) (kEncodeBase64Dict ! unat i)
      = Some (map word_of_nat [0..<64] ! unat i :: u8)"
    using dict_distinct by (intro map_of_zip_nth) simp_all
  then show ?thesis
    using \<open>unat i < 64\<close> by (simp add: b64_value_def b64_digit_def kDecodeBase64Map_def del: upt_rec_numeral)
qed

lemma pad_notin: "b64_pad \<notin> set kEncodeBase64Dict"
  by (simp add: kEncodeBase64Dict_def bs_def b64_pad_def)

lemma b64_digit_not_pad: "unat i < 64 \<Longrightarrow> b64_digit i \<noteq> b64_pad"
  using pad_notin dict_distinct(2) nth_mem unfolding b64_digit_def by metis

lemma b64_value_pad: "b64_value b64_pad = 0"
proof -
  have "kDecodeBase64Map b64_pad = None"
    using pad_notin dict_distinct(2) by (simp add: kDecodeBase64Map_def map_of_zip_is_None)
  then show ?thesis by (simp add: b64_value_def)
qed


section \<open>Decoding an encoded group\<close>

definition b64_sextet :: "nat \<Rightarrow> 'a::len word \<Rightarrow> u8" where
  "b64_sextet k t = ucast (take_bit 6 (drop_bit k t))"

lemma unat_sextet: "unat (b64_sextet k t) < 64"
proof -
  have "take_bit 6 (b64_sextet k t) = b64_sextet k t"
    by (rule bit_eqI) (auto simp: b64_sextet_def bit_simps)
  then have "unat (b64_sextet k t) = take_bit 6 (unat (b64_sextet k t))"
    by (metis unsigned_take_bit_eq)
  also have "\<dots> < 2 ^ 6" by (rule take_bit_nat_less_exp)
  finally show ?thesis by simp
qed

lemma sextet_value [simp]: "b64_value (b64_digit (b64_sextet k t)) = b64_sextet k t"
  by (rule b64_value_digit) (rule unat_sextet)

lemma sextet_not_pad [simp]: "b64_digit (b64_sextet k t) \<noteq> b64_pad"
  by (rule b64_digit_not_pad) (rule unat_sextet)

lemma masks32:
  "(0x00FC0000 :: u32) = push_bit 18 (mask 6)" "(0x0003F000 :: u32) = push_bit 12 (mask 6)"
  "(0x00000FC0 :: u32) = push_bit 6 (mask 6)" "(0x0000003F :: u32) = mask 6"
  "(0x00FF0000 :: u32) = push_bit 16 (mask 8)" "(0x0000FF00 :: u32) = push_bit 8 (mask 8)"
  "(0x000000FF :: u32) = mask 8"
  by (simp_all add: mask_eq_exp_minus_1)

lemma masks16:
  "(0xFC00 :: u16) = push_bit 10 (mask 6)" "(0x03F0 :: u16) = push_bit 4 (mask 6)"
  "(0x000F :: u16) = mask 4"
  by (simp_all add: mask_eq_exp_minus_1)

lemma masks8: "(0xFC :: u8) = push_bit 2 (mask 6)" "(0x03 :: u8) = mask 2"
  by (simp_all add: mask_eq_exp_minus_1)

lemma indices32:
  "ucast (drop_bit 18 ((t :: u32) AND push_bit 18 (mask 6))) = b64_sextet 18 t"
  "ucast (drop_bit 12 (t AND push_bit 12 (mask 6))) = b64_sextet 12 t"
  "ucast (drop_bit 6 (t AND push_bit 6 (mask 6))) = b64_sextet 6 t"
  "ucast (t AND mask 6) = b64_sextet 0 t"
  by (rule bit_eqI; auto simp: b64_sextet_def bit_simps)+

lemma indices16:
  "ucast (drop_bit 10 ((t :: u16) AND push_bit 10 (mask 6))) = b64_sextet 10 t"
  "ucast (drop_bit 4 (t AND push_bit 4 (mask 6))) = b64_sextet 4 t"
  "ucast (push_bit 2 (t AND mask 4)) = b64_sextet 0 (push_bit 2 t)"
  by (rule bit_eqI; auto simp: b64_sextet_def bit_simps)+

lemma indices8:
  "drop_bit 2 ((t :: u8) AND push_bit 2 (mask 6)) = b64_sextet 2 t"
  "push_bit 4 (t AND mask 2) = b64_sextet 0 (push_bit 4 t)"
  by (rule bit_eqI; auto simp: b64_sextet_def bit_simps)+

lemma word3_bytes:
  "b64_byte1 (b64_word3 x y z) = x" "b64_byte2 (b64_word3 x y z) = y" "b64_byte3 (b64_word3 x y z) = z"
  unfolding b64_byte1_def b64_byte2_def b64_byte3_def b64_word3_def masks32
  by (rule bit_eqI; auto simp: bit_simps dest: bit_imp_le_length)+

lemma sextets_join:
  "(push_bit 18 (ucast (b64_sextet 18 t)) OR push_bit 12 (ucast (b64_sextet 12 t))
     OR push_bit 6 (ucast (b64_sextet 6 t)) OR ucast (b64_sextet 0 t) :: u32) = take_bit 24 (t :: u32)"
proof (rule bit_word_eqI)
  fix n :: nat assume "n < LENGTH(32)"
  consider "n < 6" | "6 \<le> n \<and> n < 12" | "12 \<le> n \<and> n < 18" | "18 \<le> n \<and> n < 24" | "24 \<le> n" by linarith
  then show "bit (push_bit 18 (ucast (b64_sextet 18 t)) OR push_bit 12 (ucast (b64_sextet 12 t))
     OR push_bit 6 (ucast (b64_sextet 6 t)) OR ucast (b64_sextet 0 t) :: u32) n \<longleftrightarrow> bit (take_bit 24 t) n"
    using \<open>n < LENGTH(32)\<close> by cases (auto simp: b64_sextet_def bit_simps)
qed

lemma group3:
  "b64_word4 (b64_digit (b64_sextet 18 (b64_word3 x y z))) (b64_digit (b64_sextet 12 (b64_word3 x y z)))
     (b64_digit (b64_sextet 6 (b64_word3 x y z))) (b64_digit (b64_sextet 0 (b64_word3 x y z)))
   = b64_word3 x y z"
proof -
  have "take_bit 24 (b64_word3 x y z) = b64_word3 x y z"
    by (rule bit_eqI) (auto simp: b64_word3_def bit_simps dest: bit_imp_le_length)
  then show ?thesis by (simp add: b64_word4_def sextets_join)
qed

lemma group2:
  fixes x y :: u8
  defines "t \<equiv> push_bit 8 (ucast x) OR ucast y :: u16"
  shows "b64_byte1 (b64_word4 (b64_digit (b64_sextet 10 t)) (b64_digit (b64_sextet 4 t))
           (b64_digit (b64_sextet 0 (push_bit 2 t))) b64_pad) = x"
    and "b64_byte2 (b64_word4 (b64_digit (b64_sextet 10 t)) (b64_digit (b64_sextet 4 t))
           (b64_digit (b64_sextet 0 (push_bit 2 t))) b64_pad) = y"
proof -
  have bits: "bit (b64_word4 (b64_digit (b64_sextet 10 t)) (b64_digit (b64_sextet 4 t))
           (b64_digit (b64_sextet 0 (push_bit 2 t))) b64_pad) n \<longleftrightarrow> 8 \<le> n \<and> n < 24 \<and> bit t (n - 8)" for n
  proof -
    consider "n < 6" | "6 \<le> n \<and> n < 8" | "8 \<le> n \<and> n < 12" | "12 \<le> n \<and> n < 18" | "18 \<le> n \<and> n < 24" | "24 \<le> n"
      by linarith
    then show ?thesis
      unfolding b64_word4_def sextet_value b64_value_pad by cases (auto simp: b64_sextet_def bit_simps)
  qed
  have t: "bit t n \<longleftrightarrow> (if n < 8 then bit y n else bit x (n - 8))" for n
    unfolding t_def by (auto simp: bit_simps dest: bit_imp_le_length)
  show "b64_byte1 (b64_word4 (b64_digit (b64_sextet 10 t)) (b64_digit (b64_sextet 4 t))
           (b64_digit (b64_sextet 0 (push_bit 2 t))) b64_pad) = x"
    unfolding b64_byte1_def masks32 by (rule bit_eqI) (auto simp: bit_simps bits t)
  show "b64_byte2 (b64_word4 (b64_digit (b64_sextet 10 t)) (b64_digit (b64_sextet 4 t))
           (b64_digit (b64_sextet 0 (push_bit 2 t))) b64_pad) = y"
    unfolding b64_byte2_def masks32 by (rule bit_eqI) (auto simp: bit_simps bits t)
qed

lemma group1:
  "b64_byte1 (b64_word4 (b64_digit (b64_sextet 2 x)) (b64_digit (b64_sextet 0 (push_bit 4 x)))
     b64_pad b64_pad) = (x :: u8)"
proof -
  have "bit (b64_word4 (b64_digit (b64_sextet 2 x)) (b64_digit (b64_sextet 0 (push_bit 4 x)))
     b64_pad b64_pad) n \<longleftrightarrow> 16 \<le> n \<and> n < 24 \<and> bit x (n - 16)" for n
  proof -
    have "18 \<le> n \<Longrightarrow> Suc (Suc (n - 18)) = n - 16" by simp
    consider "n < 12" | "12 \<le> n \<and> n < 16" | "16 \<le> n \<and> n < 18" | "18 \<le> n \<and> n < 24" | "24 \<le> n"
      by linarith
    then show ?thesis 
      unfolding b64_word4_def sextet_value b64_value_pad
      by cases (auto simp: \<open>18 \<le> n \<Longrightarrow> Suc (Suc (n - 18)) = n - 16\<close> b64_sextet_def bit_simps)
  qed
  then show ?thesis unfolding b64_byte1_def masks32 by (intro bit_eqI) (auto simp: bit_simps)
qed

lemmas indices = indices32 indices16 indices8

lemma b64_encode_eqs:
  "b64_encode (x # y # z # rest) =
     map (\<lambda>k. b64_digit (b64_sextet k (b64_word3 x y z))) [18, 12, 6, 0] @ b64_encode rest"
  "b64_encode [x, y] =
     map (\<lambda>k. b64_digit (b64_sextet k (push_bit 8 (ucast x) OR ucast y :: u16))) [10, 4]
     @ [b64_digit (b64_sextet 0 (push_bit 2 (push_bit 8 (ucast x) OR ucast y :: u16))), b64_pad]"
  "b64_encode [x] = [b64_digit (b64_sextet 2 x), b64_digit (b64_sextet 0 (push_bit 4 x)), b64_pad, b64_pad]"
  unfolding b64_encode.simps Let_def masks32 masks16 masks8 indices by simp_all

lemma b64_encode_length: "4 \<le> length (b64_encode xs) \<longleftrightarrow> xs \<noteq> []"
  by (induction xs rule: b64_encode.induct) (simp_all add: Let_def)

lemma b64_decode_encode: "b64_decode (b64_encode xs) = xs"
proof (induction xs rule: b64_encode.induct)
  case (1 x y z rest)
  show ?case
  proof (cases "rest = []")
    case True
    then show ?thesis by (simp add: b64_encode_eqs group3 word3_bytes del: b64_encode.simps(1))
  next
    case False
    then show ?thesis using 1 b64_encode_length [of rest]
      by (simp add: b64_encode_eqs group3 word3_bytes del: b64_encode.simps(1))
  qed
next
  case (2 x y)
  then show ?case by (simp add: b64_encode_eqs group2 Let_def del: b64_encode.simps push_bit_or)
next
  case (3 x)
  then show ?case by (simp add: b64_encode_eqs group1 del: b64_encode.simps)
qed simp

lemma b64_encode_size: "length (b64_encode xs) = 4 * ((length xs + 2) div 3)"
proof (induction xs rule: b64_encode.induct)
  case (1 x y z rest)
  have "(length (x # y # z # rest) + 2) div 3 = Suc ((length rest + 2) div 3)" by simp
  then show ?case using 1 by (simp add: Let_def)
qed (simp_all add: Let_def)

text \<open>
  C38: decoding is the inverse of encoding, whatever the length modulo three (so with none, one or two padding characters), up to what a
  length of 32 bits can say: a string comes back cut at its length modulo 2^32, so every string below 2^32 bytes comes back as it was. That length is at most
  3 * 2^30 - 3, so that the encoded string is itself below 2^32 bytes.
\<close>

theorem base64_roundtrip:
  assumes "length xs mod 2 ^ 32 \<le> 3 * 2 ^ 30 - 3"
  shows "b64_decode_string (b64_encode_string xs) = take (length xs mod 2 ^ 32) xs \<and>
    (length xs < 2 ^ 32 \<longrightarrow> b64_decode_string (b64_encode_string xs) = xs)"
proof -
  define n where "n = length xs mod 2 ^ 32"
  have n: "unat (word_of_nat (length xs) :: u32) = n" by (simp add: n_def unat_of_nat take_bit_eq_mod)
  have "length (take n xs) = n" by (simp add: n_def)
  then have "length (b64_encode (take n xs)) = 4 * ((n + 2) div 3)" by (simp add: b64_encode_size)
  also have "\<dots> < 2 ^ 32" using assms by (simp add: n_def)
  finally have "unat (word_of_nat (length (b64_encode (take n xs))) :: u32) = length (b64_encode (take n xs))"
    by (simp add: unat_of_nat take_bit_nat_eq_self_iff)
  then have "b64_decode_string (b64_encode_string xs) = take n xs"
    by (simp add: b64_encode_string_def b64_decode_string_def n b64_decode_encode)
  then show ?thesis by (simp add: n_def)
qed

lemma base64_roundtrip_witness:
  "b64_decode_string (b64_encode_string [77, 97, 110, 0]) = [77, 97, 110, 0]"
  using base64_roundtrip [of "[77, 97, 110, 0]"] by simp

end
