(* ===== verification/Crc32.thy ===== *)
theory Crc32
  imports Prelude "HOL-Library.While_Combinator"
begin

text \<open>
  \<open>src/crc32.cpp\<close>: the checksums of MPEG-TS sections (HLS), of STUN and of SCTP packets, all
  table driven. The static tables are a record: two are filled by the first constructor call
  that needs them, the third is a literal of the source. The loop that computes an HLS entry
  runs until its marker bit arrives at the top, so it is a \<open>while_option\<close>, and that it ends is a
  lemma.

  The lemmas relate each table-driven checksum to polynomial division one bit at a time
  (\<open>crc_msb\<close>, \<open>crc_lsb\<close>), through the linearity of a division step over exclusive or.
\<close>

section \<open>The code\<close>

datatype crc_type = CRC32_HLS | CRC32_STUN | CRC32_SCTP

definition crc32_sctp_table :: "u32 list" where
  "crc32_sctp_table =
   [0x00000000, 0xF26B8303, 0xE13B70F7, 0x1350F3F4, 0xC79A971F, 0x35F1141C,
    0x26A1E7E8, 0xD4CA64EB, 0x8AD958CF, 0x78B2DBCC, 0x6BE22838, 0x9989AB3B,
    0x4D43CFD0, 0xBF284CD3, 0xAC78BF27, 0x5E133C24, 0x105EC76F, 0xE235446C,
    0xF165B798, 0x030E349B, 0xD7C45070, 0x25AFD373, 0x36FF2087, 0xC494A384,
    0x9A879FA0, 0x68EC1CA3, 0x7BBCEF57, 0x89D76C54, 0x5D1D08BF, 0xAF768BBC,
    0xBC267848, 0x4E4DFB4B, 0x20BD8EDE, 0xD2D60DDD, 0xC186FE29, 0x33ED7D2A,
    0xE72719C1, 0x154C9AC2, 0x061C6936, 0xF477EA35, 0xAA64D611, 0x580F5512,
    0x4B5FA6E6, 0xB93425E5, 0x6DFE410E, 0x9F95C20D, 0x8CC531F9, 0x7EAEB2FA,
    0x30E349B1, 0xC288CAB2, 0xD1D83946, 0x23B3BA45, 0xF779DEAE, 0x05125DAD,
    0x1642AE59, 0xE4292D5A, 0xBA3A117E, 0x4851927D, 0x5B016189, 0xA96AE28A,
    0x7DA08661, 0x8FCB0562, 0x9C9BF696, 0x6EF07595, 0x417B1DBC, 0xB3109EBF,
    0xA0406D4B, 0x522BEE48, 0x86E18AA3, 0x748A09A0, 0x67DAFA54, 0x95B17957,
    0xCBA24573, 0x39C9C670, 0x2A993584, 0xD8F2B687, 0x0C38D26C, 0xFE53516F,
    0xED03A29B, 0x1F682198, 0x5125DAD3, 0xA34E59D0, 0xB01EAA24, 0x42752927,
    0x96BF4DCC, 0x64D4CECF, 0x77843D3B, 0x85EFBE38, 0xDBFC821C, 0x2997011F,
    0x3AC7F2EB, 0xC8AC71E8, 0x1C661503, 0xEE0D9600, 0xFD5D65F4, 0x0F36E6F7,
    0x61C69362, 0x93AD1061, 0x80FDE395, 0x72966096, 0xA65C047D, 0x5437877E,
    0x4767748A, 0xB50CF789, 0xEB1FCBAD, 0x197448AE, 0x0A24BB5A, 0xF84F3859,
    0x2C855CB2, 0xDEEEDFB1, 0xCDBE2C45, 0x3FD5AF46, 0x7198540D, 0x83F3D70E,
    0x90A324FA, 0x62C8A7F9, 0xB602C312, 0x44694011, 0x5739B3E5, 0xA55230E6,
    0xFB410CC2, 0x092A8FC1, 0x1A7A7C35, 0xE811FF36, 0x3CDB9BDD, 0xCEB018DE,
    0xDDE0EB2A, 0x2F8B6829, 0x82F63B78, 0x709DB87B, 0x63CD4B8F, 0x91A6C88C,
    0x456CAC67, 0xB7072F64, 0xA457DC90, 0x563C5F93, 0x082F63B7, 0xFA44E0B4,
    0xE9141340, 0x1B7F9043, 0xCFB5F4A8, 0x3DDE77AB, 0x2E8E845F, 0xDCE5075C,
    0x92A8FC17, 0x60C37F14, 0x73938CE0, 0x81F80FE3, 0x55326B08, 0xA759E80B,
    0xB4091BFF, 0x466298FC, 0x1871A4D8, 0xEA1A27DB, 0xF94AD42F, 0x0B21572C,
    0xDFEB33C7, 0x2D80B0C4, 0x3ED04330, 0xCCBBC033, 0xA24BB5A6, 0x502036A5,
    0x4370C551, 0xB11B4652, 0x65D122B9, 0x97BAA1BA, 0x84EA524E, 0x7681D14D,
    0x2892ED69, 0xDAF96E6A, 0xC9A99D9E, 0x3BC21E9D, 0xEF087A76, 0x1D63F975,
    0x0E330A81, 0xFC588982, 0xB21572C9, 0x407EF1CA, 0x532E023E, 0xA145813D,
    0x758FE5D6, 0x87E466D5, 0x94B49521, 0x66DF1622, 0x38CC2A06, 0xCAA7A905,
    0xD9F75AF1, 0x2B9CD9F2, 0xFF56BD19, 0x0D3D3E1A, 0x1E6DCDEE, 0xEC064EED,
    0xC38D26C4, 0x31E6A5C7, 0x22B65633, 0xD0DDD530, 0x0417B1DB, 0xF67C32D8,
    0xE52CC12C, 0x1747422F, 0x49547E0B, 0xBB3FFD08, 0xA86F0EFC, 0x5A048DFF,
    0x8ECEE914, 0x7CA56A17, 0x6FF599E3, 0x9D9E1AE0, 0xD3D3E1AB, 0x21B862A8,
    0x32E8915C, 0xC083125F, 0x144976B4, 0xE622F5B7, 0xF5720643, 0x07198540,
    0x590AB964, 0xAB613A67, 0xB831C993, 0x4A5A4A90, 0x9E902E7B, 0x6CFBAD78,
    0x7FAB5E8C, 0x8DC0DD8F, 0xE330A81A, 0x115B2B19, 0x020BD8ED, 0xF0605BEE,
    0x24AA3F05, 0xD6C1BC06, 0xC5914FF2, 0x37FACCF1, 0x69E9F0D5, 0x9B8273D6,
    0x88D28022, 0x7AB90321, 0xAE7367CA, 0x5C18E4C9, 0x4F48173D, 0xBD23943E,
    0xF36E6F75, 0x0105EC76, 0x12551F82, 0xE03E9C81, 0x34F4F86A, 0xC69F7B69,
    0xD5CF889D, 0x27A40B9E, 0x79B737BA, 0x8BDCB4B9, 0x988C474D, 0x6AE7C44E,
    0xBE2DA0A5, 0x4C4623A6, 0x5F16D052, 0xAD7D5351]"

record crc_tables =
  crc_stun :: "u32 list"
  crc_hls :: "u32 list"
  crc_sctp :: "u32 list"

definition crc_initial :: crc_tables where
  "crc_initial = \<lparr>crc_stun = replicate 256 0, crc_hls = replicate 256 0, crc_sctp = crc32_sctp_table\<rparr>"

definition crc_lsb_step :: "u32 \<Rightarrow> u32 \<Rightarrow> u32" where
  \<comment> \<open>the body of the inner loop of \<open>MakeStunTable\<close> and \<open>MakeSctpTable\<close>\<close>
  "crc_lsb_step polynomial c =
     (if c AND 1 \<noteq> 0 then polynomial XOR drop_bit 1 c else drop_bit 1 c)"

definition crc_lsb_table :: "u32 \<Rightarrow> u32 list" where
  "crc_lsb_table polynomial = map (\<lambda>i. (crc_lsb_step polynomial ^^ 8) (word_of_nat i)) [0..<256]"

definition crc_make_stun_table :: "crc_tables \<Rightarrow> crc_tables" where
  "crc_make_stun_table t =
     (if crc_stun t ! 1 \<noteq> 0 then t else t\<lparr>crc_stun := crc_lsb_table 0xEDB88320\<rparr>)"

definition crc_make_sctp_table :: "crc_tables \<Rightarrow> crc_tables" where
  "crc_make_sctp_table t =
     (if crc_sctp t ! 1 \<noteq> 0 then t else t\<lparr>crc_sctp := crc_lsb_table 0x1EDC6F41\<rparr>)"

definition crc_hls_loop :: "u32 \<times> u32 \<Rightarrow> (u32 \<times> u32) option" where
  \<comment> \<open>\<open>for (...; j != 0x80000000; j <<= 1) k = (k << 1) ^ ...\<close> on \<open>(j, k)\<close>\<close>
  "crc_hls_loop = while_option (\<lambda>(j, k). j \<noteq> 0x80000000)
     (\<lambda>(j, k). (push_bit 1 j, push_bit 1 k XOR (if (k XOR j) AND 0x80000000 \<noteq> 0 then 0x04c11db7 else 0)))"

definition crc_hls_entry :: "nat \<Rightarrow> u32 option" where
  "crc_hls_entry i = map_option snd (crc_hls_loop (push_bit 24 (word_of_nat i) OR 0x800000, 0))"

definition crc_make_hls_table :: "crc_tables \<Rightarrow> crc_tables option" where
  "crc_make_hls_table t =
     (if crc_hls t ! 1 \<noteq> 0 then Some t
      else map_option (\<lambda>tab. t\<lparr>crc_hls := tab\<rparr>) (those (map crc_hls_entry [0..<256])))"

definition crc_construct :: "crc_type \<Rightarrow> crc_tables \<Rightarrow> crc_tables option" where
  \<comment> \<open>\<open>CRC32::CRC32(type)\<close>; \<open>None\<close>: a loop that does not end\<close>
  "crc_construct ty t =
     (case ty of
        CRC32_HLS \<Rightarrow> crc_make_hls_table t
      | CRC32_STUN \<Rightarrow> Some (crc_make_stun_table t)
      | CRC32_SCTP \<Rightarrow> Some (crc_make_sctp_table t))"

definition crc_stun_byte :: "u32 list \<Rightarrow> u8 \<Rightarrow> u32 \<Rightarrow> u32" where
  "crc_stun_byte tab b c = (tab ! unat ((c XOR ucast b) AND 0xFF)) XOR drop_bit 8 c"

definition crc_hls_byte :: "u32 list \<Rightarrow> u8 \<Rightarrow> u32 \<Rightarrow> u32" where
  "crc_hls_byte tab b c = push_bit 8 c XOR (tab ! unat ((drop_bit 24 c XOR ucast b) AND 0xff))"

definition crc_sctp_byte :: "u32 list \<Rightarrow> u8 \<Rightarrow> u32 \<Rightarrow> u32" where
  "crc_sctp_byte tab b c = drop_bit 8 c XOR (tab ! unat ((c XOR ucast b) AND 0xFF))"

definition crc_swap :: "u32 \<Rightarrow> u32" where
  "crc_swap r =
     (let byte0 = r AND 0xff; byte1 = drop_bit 8 r AND 0xff;
          byte2 = drop_bit 16 r AND 0xff; byte3 = drop_bit 24 r AND 0xff
      in push_bit 24 byte0 OR push_bit 16 byte1 OR push_bit 8 byte2 OR byte3)"

definition crc_get :: "crc_tables \<Rightarrow> crc_type \<Rightarrow> bytes \<Rightarrow> u32" where
  "crc_get t ty data =
     (case ty of
        CRC32_STUN \<Rightarrow> fold (crc_stun_byte (crc_stun t)) data (0 XOR 0xFFFFFFFF) XOR 0xFFFFFFFF
      | CRC32_HLS \<Rightarrow> fold (crc_hls_byte (crc_hls t)) data 0xffffffff
      | CRC32_SCTP \<Rightarrow> crc_swap (NOT (fold (crc_sctp_byte (crc_sctp t)) data 0xFFFFFFFF)))"

section \<open>Division of polynomials, one bit at a time\<close>

definition crc_msb_step :: "u32 \<Rightarrow> u32 \<Rightarrow> u32" where
  "crc_msb_step poly x = push_bit 1 x XOR (if bit x 31 then poly else 0)"

definition crc_msb :: "u32 \<Rightarrow> bytes \<Rightarrow> u32 \<Rightarrow> u32" where
  "crc_msb poly = fold (\<lambda>b c. (crc_msb_step poly ^^ 8) (c XOR push_bit 24 (ucast b)))"

definition crc_lsb :: "u32 \<Rightarrow> bytes \<Rightarrow> u32 \<Rightarrow> u32" where
  "crc_lsb poly = fold (\<lambda>b c. (crc_lsb_step poly ^^ 8) (c XOR ucast b))"

lemma msb_step_xor: "crc_msb_step p (x XOR y) = crc_msb_step p x XOR crc_msb_step p y"
  by (rule bit_word_eqI) (auto simp: crc_msb_step_def bit_simps)

lemma lsb_step_alt: "crc_lsb_step p c = drop_bit 1 c XOR (if bit c 0 then p else 0)"
proof -
  have "c AND 1 \<noteq> 0 \<longleftrightarrow> bit c 0" by (simp add: and_one_eq bit_0 mod_2_eq_odd)
  then show ?thesis by (simp add: crc_lsb_step_def xor.commute)
qed

lemma lsb_step_xor: "crc_lsb_step p (x XOR y) = crc_lsb_step p x XOR crc_lsb_step p y"
  by (rule bit_word_eqI) (auto simp: lsb_step_alt bit_simps)

lemma msb_steps_xor: "(crc_msb_step p ^^ n) (x XOR y) = (crc_msb_step p ^^ n) x XOR (crc_msb_step p ^^ n) y"
  by (induction n) (simp_all add: msb_step_xor)

lemma lsb_steps_xor: "(crc_lsb_step p ^^ n) (x XOR y) = (crc_lsb_step p ^^ n) x XOR (crc_lsb_step p ^^ n) y"
  by (induction n) (simp_all add: lsb_step_xor)

lemma msb_steps_low:
  "n \<le> 32 \<Longrightarrow> \<forall>i. bit x i \<longrightarrow> i + n < 32 \<Longrightarrow> (crc_msb_step p ^^ n) x = push_bit n x"
proof (induction n)
  case (Suc n)
  then have IH: "(crc_msb_step p ^^ n) x = push_bit n x" by fastforce
  have "\<not> bit x (31 - n)" using Suc.prems by fastforce
  then have "\<not> bit (push_bit n x) 31" by (simp add: bit_push_bit_iff)
  then have "crc_msb_step p (push_bit n x) = push_bit 1 (push_bit n x)" by (simp add: crc_msb_step_def)
  then show ?case by (simp only: funpow.simps o_apply IH push_bit_push_bit plus_1_eq_Suc)
qed simp

lemma lsb_steps_high:
  "\<forall>i. bit x i \<longrightarrow> n \<le> i \<Longrightarrow> (crc_lsb_step p ^^ n) x = drop_bit n x"
proof (induction n)
  case (Suc n)
  then have IH: "(crc_lsb_step p ^^ n) x = drop_bit n x" by fastforce
  have "\<not> bit x n" using Suc.prems by fastforce
  then have "\<not> bit (drop_bit n x) 0" by (simp add: bit_drop_bit_eq)
  then have "crc_lsb_step p (drop_bit n x) = drop_bit 1 (drop_bit n x)" by (simp add: lsb_step_alt)
  then show ?case by (simp only: funpow.simps o_apply IH drop_bit_drop_bit plus_1_eq_Suc)
qed simp


section \<open>The tables\<close>

lemma hls_loop_step:
  "crc_hls_loop (j, k) =
     (if j \<noteq> 0x80000000
      then crc_hls_loop (push_bit 1 j, push_bit 1 k XOR (if (k XOR j) AND 0x80000000 \<noteq> 0 then 0x04c11db7 else 0))
      else Some (j, k))"
  unfolding crc_hls_loop_def by (subst while_option_unfold) (simp only: prod.case)

lemma hls_loop_steps:
  fixes i :: u32
  defines "J \<equiv> push_bit 24 i OR 0x800000"
  assumes "i < 256" and "m \<le> 8"
  shows "crc_hls_loop (push_bit (8 - m) J, (crc_msb_step 0x04c11db7 ^^ (8 - m)) (push_bit 24 i) XOR push_bit (24 + (8 - m)) i)
    = Some (0x80000000, (crc_msb_step 0x04c11db7 ^^ 8) (push_bit 24 i))"
  using assms(3)
proof (induction m)
  case 0
  have "push_bit 8 J = 0x80000000" by (simp add: J_def push_bit_or)
  then show ?case unfolding crc_hls_loop_def by (subst while_option_unfold) simp
next
  case (Suc m)
  define n where "n = 8 - Suc m"
  define x where "x = (crc_msb_step 0x04c11db7 ^^ n) (push_bit 24 i)"
  have n: "n < 8" "8 - m = Suc n" using Suc.prems by (auto simp: n_def)
  have J: "bit J k \<longleftrightarrow> k < 32 \<and> (k = 23 \<or> 24 \<le> k \<and> bit i (k - 24))" for k
  proof -
    have "(0x800000 :: u32) = push_bit 23 1" by simp
    then have "bit (0x800000 :: u32) k \<longleftrightarrow> k = 23" by (simp only: bit_push_bit_iff bit_1_iff) auto
    then show ?thesis unfolding J_def by (auto simp: bit_simps)
  qed
  have top: "(0x80000000 :: u32) = push_bit 31 1" by simp
  have "bit (push_bit n J) (23 + n)" using n by (simp add: bit_push_bit_iff J)
  moreover have "\<not> bit (0x80000000 :: u32) (23 + n)" unfolding top using n by (simp only: bit_push_bit_iff bit_1_iff) auto
  ultimately have go: "push_bit n J \<noteq> 0x80000000" by metis
  have "bit ((x XOR push_bit (24 + n) i) XOR push_bit n J) 31 \<longleftrightarrow> bit x 31"
    using n by (auto simp: bit_simps J)
  moreover have "w AND 0x80000000 \<noteq> 0 \<longleftrightarrow> bit w 31" for w :: u32
    unfolding top by (simp add: bit_iff_and_push_bit_not_eq_0)
  ultimately have k: "push_bit 1 (x XOR push_bit (24 + n) i) XOR
      (if ((x XOR push_bit (24 + n) i) XOR push_bit n J) AND 0x80000000 \<noteq> 0 then 0x04c11db7 else 0)
    = crc_msb_step 0x04c11db7 x XOR push_bit (24 + Suc n) i"
    by (simp add: crc_msb_step_def push_bit_xor xor.assoc xor.left_commute xor.commute)
  have "crc_hls_loop (push_bit n J, x XOR push_bit (24 + n) i)
      = crc_hls_loop (push_bit (Suc n) J, crc_msb_step 0x04c11db7 x XOR push_bit (24 + Suc n) i)"
    by (subst hls_loop_step, subst k) (simp only: go push_bit_push_bit plus_1_eq_Suc simp_thms if_True)
  moreover have "crc_hls_loop (push_bit (Suc n) J, crc_msb_step 0x04c11db7 x XOR push_bit (24 + Suc n) i)
      = Some (0x80000000, (crc_msb_step 0x04c11db7 ^^ 8) (push_bit 24 i))"
    using Suc.IH Suc.prems unfolding n(2) by (simp only: funpow.simps o_apply x_def Suc_leD)
  ultimately show ?case unfolding n_def [symmetric] x_def [symmetric] by (rule trans)
qed

lemma hls_entry: "i < 256 \<Longrightarrow> crc_hls_entry i = Some ((crc_msb_step 0x04c11db7 ^^ 8) (push_bit 24 (word_of_nat i)))"
proof -
  assume "i < 256"
  then have "(word_of_nat i :: u32) < 256" by (simp add: word_less_nat_alt unat_of_nat)
  moreover have "push_bit 24 (word_of_nat i :: u32) XOR push_bit 24 (word_of_nat i) = 0" by simp
  ultimately show ?thesis
    using hls_loop_steps [of "word_of_nat i" 8] by (simp add: crc_hls_entry_def)
qed

definition crc_msb_table :: "u32 \<Rightarrow> u32 list" where
  "crc_msb_table p = map (\<lambda>i. (crc_msb_step p ^^ 8) (push_bit 24 (word_of_nat i))) [0..<256]"

lemma those_Some: "(\<And>x. x \<in> set xs \<Longrightarrow> f x = Some (g x)) \<Longrightarrow> those (map f xs) = Some (map g xs)"
  by (induction xs) auto

lemma hls_table: "those (map crc_hls_entry [0..<256]) = Some (crc_msb_table 0x04c11db7)"
  unfolding crc_msb_table_def by (rule those_Some) (simp add: hls_entry)

lemma xor_table_double:
  assumes "\<And>x y :: u32. f (x XOR y) = f x XOR (f y :: u32)" and "k < 32"
  shows "map (\<lambda>i. f (word_of_nat i)) [0..<2 ^ Suc k] =
    map (\<lambda>i. f (word_of_nat i)) [0..<2 ^ k] @ map (\<lambda>v. v XOR f (push_bit k 1)) (map (\<lambda>i. f (word_of_nat i)) [0..<2 ^ k])"
proof -
  have "f (word_of_nat (2 ^ k + i)) = f (word_of_nat i) XOR f (push_bit k 1)" if "i < 2 ^ k" for i
  proof -
    have "\<not> bit i k" using that by (simp add: bit_iff_odd)
    then have "(word_of_nat i :: u32) AND push_bit k 1 = 0"
    proof (intro bit_word_eqI)
      fix j
      show "bit ((word_of_nat i :: u32) AND push_bit k 1) j = bit (0 :: u32) j"
        unfolding bit_and_iff bit_push_bit_iff bit_1_iff bit_0_eq bit_of_nat_iff possible_bit_word
        using \<open>\<not> bit i k\<close> by (cases "j = k") auto
    qed
    from disjunctive_add_eq_xor [OF this]
    have "word_of_nat i XOR push_bit k 1 = (word_of_nat i + 2 ^ k :: u32)" by (simp only: push_bit_of_1)
    also have "\<dots> = word_of_nat (2 ^ k + i)" by (simp only: of_nat_add of_nat_power of_nat_numeral add.commute)
    finally have "(word_of_nat (2 ^ k + i) :: u32) = word_of_nat i XOR push_bit k 1" by (rule sym)
    then show ?thesis by (simp only: assms(1))
  qed
  then have "map (\<lambda>i. f (word_of_nat (i + 2 ^ k))) [0..<2 ^ k]
      = map (\<lambda>i. f (word_of_nat i) XOR f (push_bit k 1)) [0..<2 ^ k]"
    by (intro map_cong [OF refl]) (simp only: set_upt atLeastLessThan_iff add.commute)
  moreover have "[0..<2 ^ Suc k] = [0..<2 ^ k] @ map (\<lambda>i. i + 2 ^ k) [0..<2 ^ k]"
  proof -
    have "[0..<2 ^ k + 2 ^ k] = [0..<2 ^ k] @ [2 ^ k..<2 ^ k + 2 ^ k]" by (rule upt_add_eq_append) simp
    also have "[2 ^ k..<2 ^ k + 2 ^ k] = map (\<lambda>i. i + 2 ^ k) [0..<2 ^ k]" by (rule map_add_upt [symmetric])
    finally show ?thesis by (simp only: power_Suc mult_2)
  qed
  ultimately show ?thesis by (simp only: map_append map_map o_def)
qed

lemma table_by_doubling:
  assumes "\<And>x y :: u32. f (x XOR y) = f x XOR (f y :: u32)" and "f 0 = 0"
    and "\<And>k. k < 8 \<Longrightarrow> f (2 ^ k) = ws ! k"
  shows "map (\<lambda>i. f (word_of_nat i)) [0..<256] =
    fold (\<lambda>w t. t @ map (\<lambda>v. v XOR w) t) (map ((!) ws) [0..<8]) [0]"
proof -
  have "map (\<lambda>i. f (word_of_nat i)) [0..<2 ^ k] = fold (\<lambda>w t. t @ map (\<lambda>v. v XOR w) t) (map ((!) ws) [0..<k]) [0]"
    if "k \<le> 8" for k
    using that
  proof (induction k)
    case (Suc k)
    then show ?case by (simp add: xor_table_double [OF assms(1)] assms(3) del: power_Suc)
  qed (simp add: assms(2))
  from this [of 8] show ?thesis by simp
qed

lemma funpow_8: "(f ^^ 8) x = f (f (f (f (f (f (f (f x)))))))"
  by (simp add: eval_nat_numeral)

lemma sctp_basis:
  "k < 8 \<Longrightarrow> (crc_lsb_step 0x82F63B78 ^^ 8) (2 ^ k) =
    [0xF26B8303, 0xE13B70F7, 0xC79A971F, 0x8AD958CF, 0x105EC76F, 0x20BD8EDE, 0x417B1DBC, 0x82F63B78] ! k"
proof -
  assume "k < 8"
  then consider "k = 0" | "k = 1" | "k = 2" | "k = 3" | "k = 4" | "k = 5" | "k = 6" | "k = 7" by linarith
  then show ?thesis by cases (simp_all add: funpow_8 crc_lsb_step_def)
qed

lemma sctp_table: "crc_lsb_table 0x82F63B78 = crc32_sctp_table"
proof -
  have "(crc_lsb_step 0x82F63B78 ^^ 8) 0 = 0" by (simp add: funpow_8 crc_lsb_step_def)
  from table_by_doubling [OF lsb_steps_xor this sctp_basis]
  moreover have "[0..<8] = [0, 1, 2, 3, 4, 5, 6, 7 :: nat]" by (simp add: upt_rec)
  ultimately have "crc_lsb_table 0x82F63B78 = fold (\<lambda>w t. t @ map (\<lambda>v. v XOR w) t)
      [0xF26B8303, 0xE13B70F7, 0xC79A971F, 0x8AD958CF, 0x105EC76F, 0x20BD8EDE, 0x417B1DBC, 0x82F63B78] [0]"
    unfolding crc_lsb_table_def by simp
  also have "\<dots> = crc32_sctp_table"
    unfolding crc32_sctp_table_def by (simp only: fold.simps o_apply id_apply list.map append.simps) simp
  finally show ?thesis .
qed

section \<open>Table-driven checksum and bitwise division\<close>

lemma u32_bit31: "bit (c :: u32) i \<Longrightarrow> i < 32"
  using bit_imp_le_length [of c i] by simp

lemma byte_index: "unat ((c :: u32) AND 0xFF) < 256"
proof -
  have "(0xFF :: u32) = mask 8" by (simp add: mask_eq_exp_minus_1)
  then have "c AND 0xFF = take_bit 8 c" by (simp only: take_bit_eq_mask)
  then have "unat (c AND 0xFF) = take_bit 8 (unat c)" by (simp only: unsigned_take_bit_eq)
  also have "\<dots> < 2 ^ 8" by (rule take_bit_nat_less_exp)
  finally show ?thesis by simp
qed

lemma lsb_table_nth:
  "crc_lsb_table p ! unat ((c :: u32) AND 0xFF) = (crc_lsb_step p ^^ 8) (c AND 0xFF)"
  using byte_index [of c] by (simp add: crc_lsb_table_def)

lemma msb_table_nth:
  "crc_msb_table p ! unat ((c :: u32) AND 0xFF) = (crc_msb_step p ^^ 8) (push_bit 24 (c AND 0xFF))"
  using byte_index [of c] by (simp add: crc_msb_table_def)

lemma lsb_split:
  fixes c :: u32
  shows "(crc_lsb_step p ^^ 8) c = (crc_lsb_step p ^^ 8) (c AND 0xFF) XOR drop_bit 8 c"
proof -
  have FF: "(0xFF :: u32) = mask 8" by (simp add: mask_eq_exp_minus_1)
  have "c = (c AND mask 8) XOR push_bit 8 (drop_bit 8 c)"
    by (rule bit_word_eqI) (auto simp: bit_simps)
  then have "(crc_lsb_step p ^^ 8) c
      = (crc_lsb_step p ^^ 8) (c AND mask 8) XOR (crc_lsb_step p ^^ 8) (push_bit 8 (drop_bit 8 c))"
    by (metis lsb_steps_xor)
  also have "(crc_lsb_step p ^^ 8) (push_bit 8 (drop_bit 8 c)) = drop_bit 8 (push_bit 8 (drop_bit 8 c))"
    by (rule lsb_steps_high) (auto simp: bit_simps)
  also have "\<dots> = drop_bit 8 c" by (rule bit_word_eqI) (auto simp: bit_simps dest: u32_bit31)
  finally show ?thesis by (simp only: FF)
qed

lemma drop8_byte: "drop_bit 8 (c XOR ucast (b :: u8)) = drop_bit 8 (c :: u32)"
  by (rule bit_word_eqI) (auto simp: bit_simps dest: bit_imp_le_length)

lemma stun_byte: "crc_stun_byte (crc_lsb_table p) b c = (crc_lsb_step p ^^ 8) (c XOR ucast b)"
  by (simp only: crc_stun_byte_def lsb_table_nth drop8_byte lsb_split [of p "c XOR ucast b"])

lemma sctp_byte: "crc_sctp_byte (crc_lsb_table p) b c = (crc_lsb_step p ^^ 8) (c XOR ucast b)"
  using stun_byte [of p b c] by (simp add: crc_sctp_byte_def crc_stun_byte_def xor.commute)

lemma hls_byte: "crc_hls_byte (crc_msb_table p) b c = (crc_msb_step p ^^ 8) (c XOR push_bit 24 (ucast b))"
proof -
  have FF: "(0xFF :: u32) = mask 8" by (simp add: mask_eq_exp_minus_1)
  have "c XOR push_bit 24 (ucast b) = push_bit 24 ((drop_bit 24 c XOR ucast b) AND mask 8) XOR take_bit 24 c"
    by (rule bit_word_eqI) (auto simp: bit_simps dest: u32_bit31)
  then have "(crc_msb_step p ^^ 8) (c XOR push_bit 24 (ucast b))
      = (crc_msb_step p ^^ 8) (push_bit 24 ((drop_bit 24 c XOR ucast b) AND mask 8))
        XOR (crc_msb_step p ^^ 8) (take_bit 24 c)"
    by (simp only: msb_steps_xor)
  also have "(crc_msb_step p ^^ 8) (take_bit 24 c) = push_bit 8 (take_bit 24 c)"
    by (rule msb_steps_low) (auto simp: bit_simps)
  also have "push_bit 8 (take_bit 24 c) = push_bit 8 c"
    by (rule bit_word_eqI) (auto simp: bit_simps)
  finally have "(crc_msb_step p ^^ 8) (c XOR push_bit 24 (ucast b)) =
      (crc_msb_step p ^^ 8) (push_bit 24 ((drop_bit 24 c XOR ucast b) AND 0xFF)) XOR push_bit 8 c"
    by (simp only: FF)
  then show ?thesis by (simp only: crc_hls_byte_def msb_table_nth xor.commute)
qed

definition crc_of :: "crc_type \<Rightarrow> bytes \<Rightarrow> u32 option" where
  \<comment> \<open>\<open>CRC32(type).GetCrc32(data)\<close> in a fresh process\<close>
  "crc_of ty data = map_option (\<lambda>t. crc_get t ty data) (crc_construct ty crc_initial)"

lemma crc_of_eqs:
  "crc_of CRC32_HLS data = Some (fold (crc_hls_byte (crc_msb_table 0x04c11db7)) data 0xffffffff)"
  "crc_of CRC32_STUN data = Some (fold (crc_stun_byte (crc_lsb_table 0xEDB88320)) data 0xFFFFFFFF XOR 0xFFFFFFFF)"
  "crc_of CRC32_SCTP data = Some (crc_swap (NOT (fold (crc_sctp_byte (crc_lsb_table 0x82F63B78)) data 0xFFFFFFFF)))"
proof -
  have "crc_hls crc_initial ! 1 = 0" "crc_stun crc_initial ! 1 = 0"
    by (simp_all only: crc_initial_def crc_tables.simps nth_replicate)
  then show "crc_of CRC32_HLS data = Some (fold (crc_hls_byte (crc_msb_table 0x04c11db7)) data 0xffffffff)"
    "crc_of CRC32_STUN data = Some (fold (crc_stun_byte (crc_lsb_table 0xEDB88320)) data 0xFFFFFFFF XOR 0xFFFFFFFF)"
    by (simp_all add: crc_of_def crc_construct_def crc_make_hls_table_def crc_make_stun_table_def hls_table crc_get_def
        del: One_nat_def)
  have "crc32_sctp_table ! 1 \<noteq> 0" by (simp add: crc32_sctp_table_def)
  then show "crc_of CRC32_SCTP data = Some (crc_swap (NOT (fold (crc_sctp_byte (crc_lsb_table 0x82F63B78)) data 0xFFFFFFFF)))"
    by (simp add: crc_of_def crc_construct_def crc_make_sctp_table_def crc_get_def sctp_table crc_initial_def
        del: One_nat_def)
qed

text \<open>
  C37: the table-driven checksums are the standard CRCs. For every input, building the tables
  ends, and \<open>GetCrc32\<close> agrees with division one bit at a time: for HLS the most significant bit
  first by 0x04C11DB7 from all ones (CRC-32/MPEG-2), for STUN the least significant bit first
  by the reflected 0xEDB88320, complemented (CRC-32), and for SCTP the same with the reflected
  Castagnoli polynomial 0x82F63B78, the result byte-swapped: the 256 literals of the source are
  that polynomial's table.
\<close>

theorem crc32_is_bitwise_division:
  "crc_of CRC32_HLS data = Some (crc_msb 0x04c11db7 data 0xFFFFFFFF)
   \<and> crc_of CRC32_STUN data = Some (NOT (crc_lsb 0xEDB88320 data 0xFFFFFFFF))
   \<and> crc_of CRC32_SCTP data = Some (crc_swap (NOT (crc_lsb 0x82F63B78 data 0xFFFFFFFF)))"
proof -
  have "x XOR 0xFFFFFFFF = NOT (x :: u32)" for x
  proof -
    have "(0xFFFFFFFF :: u32) = - 1" by simp
    moreover have "bit (x XOR - 1) n \<longleftrightarrow> bit (NOT x) n" if "n < 32" for n
      using that by (simp only: bit_xor_iff bit_not_iff bit_minus_1_iff possible_bit_word) simp
    ultimately show ?thesis by (metis (no_types) bit_word_eqI len_of_numeral_defs(2) u32_bit31 bit_imp_le_length)
  qed
  moreover have "crc_hls_byte (crc_msb_table 0x04c11db7) = (\<lambda>b c. (crc_msb_step 0x04c11db7 ^^ 8) (c XOR push_bit 24 (ucast b)))"
    by (intro ext) (rule hls_byte)
  moreover have "crc_stun_byte (crc_lsb_table p) = (\<lambda>b c. (crc_lsb_step p ^^ 8) (c XOR ucast b))"
    and "crc_sctp_byte (crc_lsb_table p) = (\<lambda>b c. (crc_lsb_step p ^^ 8) (c XOR ucast b))" for p
    by (intro ext, rule stun_byte, intro ext, rule sctp_byte)
  ultimately show ?thesis by (simp only: crc_of_eqs crc_msb_def crc_lsb_def simp_thms)
qed

lemma unat_drop_bit: "unat (drop_bit k (c :: 'a::len word)) = unat c div 2 ^ k"
proof -
  have "take_bit LENGTH('a) (unat c) = unat c" by (simp add: take_bit_nat_eq_self)
  then have "unat (drop_bit k c) = drop_bit k (unat c)" by (simp only: unsigned_drop_bit_eq)
  then show ?thesis by (simp only: drop_bit_eq_div)
qed

lemma be4_bytes: "be 4 (unat (c :: u32)) =
    [ucast (drop_bit 24 c), ucast (drop_bit 16 c), ucast (drop_bit 8 c), ucast c]"
proof -
  have "word_of_nat (unat c div 2 ^ k) = (ucast (drop_bit k c) :: u8)" for k
    by (simp only: unat_drop_bit [symmetric] of_nat_unat)
  from this [of 8] this [of 16] this [of 24]
  have d: "word_of_nat (unat c div 256) = (ucast (drop_bit 8 c) :: u8)"
    "word_of_nat (unat c div 256 div 256) = (ucast (drop_bit 16 c) :: u8)"
    "word_of_nat (unat c div 256 div 256 div 256) = (ucast (drop_bit 24 c) :: u8)"
    by (simp_all add: div_mult2_eq [symmetric])
  have "(4 :: nat) = Suc (Suc (Suc (Suc 0)))" by simp
  then show ?thesis by (simp only: be.simps append.simps d of_nat_unat)
qed


lemma hls_table_0: "crc_msb_table p ! 0 = 0"
  using msb_steps_low [of 8 0 p] by (simp add: crc_msb_table_def)

lemma hls_feed:
  assumes "drop_bit 24 c = (ucast b :: u32)"
  shows "crc_hls_byte (crc_msb_table p) b c = push_bit 8 c"
  by (simp add: crc_hls_byte_def assms hls_table_0)

lemma hls_residue:
  "\<exists>c. crc_of CRC32_HLS data = Some c \<and> crc_of CRC32_HLS (data @ be 4 (unat c)) = Some 0"
proof -
  define c where "c = fold (crc_hls_byte (crc_msb_table 0x04c11db7)) data 0xffffffff"
  have k: "drop_bit 24 (push_bit k c) = ucast (ucast (drop_bit (24 - k) c) :: u8)" if "k \<in> {0, 8, 16, 24}" for k
    using that by (intro bit_word_eqI) (auto simp: bit_simps)
  have "fold (crc_hls_byte (crc_msb_table 0x04c11db7)) (be 4 (unat c)) c = push_bit 8 (push_bit 24 c)"
    using k [of 0] k [of 8] k [of 16] k [of 24]
    by (simp add: be4_bytes hls_feed)
  also have "\<dots> = 0" by (rule bit_word_eqI) (auto simp: bit_simps)
  finally show ?thesis by (simp add: crc_of_eqs c_def)
qed

text \<open>
  a receiver can check an MPEG-TS section by running the checksum over the section with its
  checksum attached: when the four bytes of the HLS checksum are appended most significant
  first, the checksum of the whole is zero.
\<close>

theorem crc32_hls_residue:
  "\<exists>c. crc_of CRC32_HLS data = Some c \<and> crc_of CRC32_HLS (data @ be 4 (unat c)) = Some 0"
  by (rule hls_residue)

end
