(* ===== verification/BitIO.thy ===== *)
theory BitIO
  imports Prelude
begin

text \<open>
  \<open>src/bit_buffer.h\<close>, \<open>src/bit_buffer.cpp\<close> (the bit reader every parser uses) and
  \<open>src/bit_stream.h\<close> (the bit writer of the muxers). Integer targets of the templates are
  words of the target's width. A reader that runs out of bits returns -1 and leaves the
  target as it was; the writer's byte operations check no bound, so leaving its buffer is
  recorded in \<open>bw_fault\<close>.

  The lemmas give the value read as a number in the bits of the data, show that reading whole
  bytes at an aligned position is big-endian decoding, and that what the writer packs the
  reader unpacks.
\<close>

section \<open>\<open>BitBuffer\<close>\<close>

record bit_buffer =
  bb_data :: bytes
  bb_len :: nat
  bb_pos :: nat

definition bb_new :: "bytes \<Rightarrow> bit_buffer" where
  "bb_new d = \<lparr>bb_data = d, bb_len = length d * 8, bb_pos = 0\<rparr>"

definition bb_bits_left :: "bit_buffer \<Rightarrow> nat" where
  "bb_bits_left b = (if bb_pos b \<le> bb_len b then bb_len b - bb_pos b else 0)"

definition bb_bytes_left :: "bit_buffer \<Rightarrow> nat" where
  "bb_bytes_left b = bb_bits_left b div 8"

definition bb_more_bits :: "nat \<Rightarrow> bit_buffer \<Rightarrow> bool" where
  "bb_more_bits n b \<longleftrightarrow> n \<le> bb_bits_left b"

definition bb_more_bytes :: "nat \<Rightarrow> bit_buffer \<Rightarrow> bool" where
  "bb_more_bytes n b = bb_more_bits (n * 8) b"

fun bb_loop :: "nat \<Rightarrow> 'w::len word \<Rightarrow> bit_buffer \<Rightarrow> 'w word \<times> bit_buffer" where
  "bb_loop 0 r b = (r, b)"
| "bb_loop (Suc n) r b =
     (let r1 = push_bit 1 r;
          msk = push_bit (7 - bb_pos b mod 8) 1 :: u8;
          r2 = (if (bb_data b ! (bb_pos b div 8)) AND msk \<noteq> 0 then r1 OR 1 else r1)
      in bb_loop n r2 (b\<lparr>bb_pos := bb_pos b + 1\<rparr>))"

definition bb_get_bits :: "nat \<Rightarrow> 'w::len word \<Rightarrow> bit_buffer \<Rightarrow> int \<times> 'w word \<times> bit_buffer" where
  \<comment> \<open>the status, the target after the call (before it: \<open>old\<close>), the reader\<close>
  "bb_get_bits n old b =
     (if \<not> bb_more_bits n b then (-1, old, b) else let (v, b1) = bb_loop n 0 b in (0, v, b1))"

definition bb_get_bytes :: "nat \<Rightarrow> bit_buffer \<Rightarrow> int \<times> 'w::len word \<times> bit_buffer" where
  "bb_get_bytes n b =
     (let (ret, tmp, b1) = bb_get_bits (n * 8) (0 :: u64) b in (ret, ucast tmp, b1))"

definition bb_peek_bits :: "nat \<Rightarrow> u64 \<Rightarrow> bit_buffer \<Rightarrow> int \<times> u64" where
  \<comment> \<open>returns the value itself (as \<open>int\<close>) where the other reads return a status\<close>
  "bb_peek_bits n old b =
     (if \<not> bb_more_bits n b then (-1, old)
      else let v = fst (bb_loop n (0 :: u64) b) in (sint (ucast v :: u32), v))"

definition bb_peek_bytes :: "nat \<Rightarrow> u64 \<Rightarrow> bit_buffer \<Rightarrow> int \<times> 'w::len word" where
  "bb_peek_bytes n uninit b = (let (ret, tmp) = bb_peek_bits (n * 8) uninit b in (ret, ucast tmp))"

definition bb_get_string :: "nat \<Rightarrow> bytes \<Rightarrow> bit_buffer \<Rightarrow> int \<times> bytes \<times> bit_buffer" where
  "bb_get_string len old b =
     (if \<not> bb_more_bytes len b then (-1, old, b)
      else if bb_pos b mod 8 \<noteq> 0 then (-1, old, b)
      else (0, take len (drop (bb_pos b div 8) (bb_data b)), b\<lparr>bb_pos := bb_pos b + len * 8\<rparr>))"

definition bb_have_read_bytes :: "bit_buffer \<Rightarrow> nat" where
  "bb_have_read_bytes b = bb_pos b div 8"

definition bb_cur_len :: "bit_buffer \<Rightarrow> nat" where
  "bb_cur_len b = (bb_len b - bb_pos b) div 8"

definition bb_cur_data :: "bit_buffer \<Rightarrow> bytes" where
  "bb_cur_data b = drop (bb_pos b div 8) (bb_data b)"

definition bb_skip_bits :: "nat \<Rightarrow> bit_buffer \<Rightarrow> bit_buffer" where
  "bb_skip_bits n b =
     (let left = bb_bits_left b in b\<lparr>bb_pos := bb_pos b + (if left \<le> n then left else n)\<rparr>)"

definition bb_skip_bytes :: "nat \<Rightarrow> bit_buffer \<Rightarrow> bit_buffer" where
  "bb_skip_bytes n b =
     (let left = bb_bytes_left b in b\<lparr>bb_pos := bb_pos b + (if left \<le> n then left else n) * 8\<rparr>)"

section \<open>\<open>BitStream\<close>\<close>

record bit_stream =
  bw_buf :: bytes
  bw_len :: nat
  bw_pos :: nat
  bw_fault :: bool

definition bw_new :: "nat \<Rightarrow> bit_stream" where
  "bw_new buf_size = \<lparr>bw_buf = replicate buf_size 0, bw_len = buf_size * 8, bw_pos = 0, bw_fault = False\<rparr>"

definition bw_default :: bit_stream where
  "bw_default = bw_new (1024 * 16)"

fun bw_loop :: "nat \<Rightarrow> 'w::len word \<Rightarrow> 'w word \<Rightarrow> bit_stream \<Rightarrow> bit_stream" where
  "bw_loop 0 val msk s = s"
| "bw_loop (Suc n) val msk s =
     (let i = bw_pos s div 8;
          buf1 = (if val AND msk \<noteq> 0
                  then (bw_buf s)[i := (bw_buf s ! i) OR push_bit (7 - bw_pos s mod 8) 1]
                  else bw_buf s)
      in bw_loop n val (drop_bit 1 msk) (s\<lparr>bw_buf := buf1, bw_pos := bw_pos s + 1\<rparr>))"

definition bw_write_bits :: "nat \<Rightarrow> 'w::len word \<Rightarrow> bit_stream \<Rightarrow> int \<times> bit_stream" where
  "bw_write_bits n val s =
     (if bw_len s < bw_pos s + n then (-1, s)
      else (0, bw_loop n val (push_bit (n - 1) 1) s))"

definition bw_val_bytes :: "nat \<Rightarrow> 'w::len word \<Rightarrow> bytes" where
  \<comment> \<open>\<open>p[bytes - 1 - i]\<close> for \<open>i < bytes\<close>, \<open>p\<close> the little-endian object \<open>val\<close>\<close>
  "bw_val_bytes n val = map (\<lambda>i. ucast (drop_bit (8 * (n - 1 - i)) val)) [0..<n]"

definition bw_put :: "nat \<Rightarrow> bytes \<Rightarrow> bit_stream \<Rightarrow> bit_stream" where
  "bw_put at xs s =
     (if at + length xs \<le> length (bw_buf s)
      then s\<lparr>bw_buf := take at (bw_buf s) @ xs @ drop (at + length xs) (bw_buf s)\<rparr>
      else s\<lparr>bw_fault := True\<rparr>)"

definition bw_write_bytes :: "nat \<Rightarrow> 'w::len word \<Rightarrow> bit_stream \<Rightarrow> int \<times> bit_stream" where
  "bw_write_bytes n val s =
     (let s1 = bw_put (bw_pos s div 8) (bw_val_bytes n val) s
      in (0, s1\<lparr>bw_pos := bw_pos s + n * 8\<rparr>))"

definition bw_write_data :: "bytes \<Rightarrow> bit_stream \<Rightarrow> int \<times> bit_stream" where
  "bw_write_data d s =
     (let s1 = bw_put (bw_pos s div 8) d s in (0, s1\<lparr>bw_pos := bw_pos s + length d * 8\<rparr>))"

definition bw_replace_bytes :: "int \<Rightarrow> nat \<Rightarrow> 'w::len word \<Rightarrow> bit_stream \<Rightarrow> int \<times> bit_stream" where
  "bw_replace_bytes pos n val s =
     (if int (bw_pos s div 8) < pos then (-1, s)
      else if pos < 0 then (0, s\<lparr>bw_fault := True\<rparr>)
      else (0, bw_put (nat pos) (bw_val_bytes n val) s))"

definition bw_modify_bytes :: "nat \<Rightarrow> nat \<Rightarrow> 'w::len word \<Rightarrow> bit_stream \<Rightarrow> int \<times> bit_stream" where
  "bw_modify_bytes pos n val s =
     (if bw_pos s div 8 \<le> pos then (-1, s) else (0, bw_put pos (bw_val_bytes n val) s))"

definition bw_size_in_bytes :: "bit_stream \<Rightarrow> nat" where
  "bw_size_in_bytes s = bw_pos s div 8"

definition bw_data :: "bit_stream \<Rightarrow> bytes" where
  \<comment> \<open>what callers take: \<open>GetData()\<close> for \<open>SizeInBytes()\<close> bytes\<close>
  "bw_data s = take (bw_size_in_bytes s) (bw_buf s)"

section \<open>The value of a bit field\<close>

definition bit_at :: "bytes \<Rightarrow> nat \<Rightarrow> bool" where
  "bit_at d i = bit (d ! (i div 8)) (7 - i mod 8)"

fun bits_num :: "bytes \<Rightarrow> nat \<Rightarrow> nat \<Rightarrow> nat" where
  "bits_num d p 0 = 0"
| "bits_num d p (Suc n) = 2 * bits_num d p n + of_bool (bit_at d (p + n))"

lemma bits_num_front: "bits_num d p (Suc n) = of_bool (bit_at d p) * 2 ^ n + bits_num d (Suc p) n"
  by (induction n) auto

lemma bits_num_bound: "bits_num d p n < 2 ^ n"
  by (induction n) (auto split: if_splits)

lemma bits_num_add: "bits_num d p (m + n) = bits_num d p m * 2 ^ n + bits_num d (p + m) n"
  by (induction n) (auto simp: algebra_simps)

lemma shl1_or_bit: "push_bit 1 (r :: 'w::len word) OR 1 = 2 * r + 1"
proof -
  have "push_bit 1 r AND 1 = 0"
    by (rule bit_eqI) (auto simp: bit_simps bit_0 intro!: gr0I)
  then show ?thesis by (simp flip: disjunctive_add_eq_or)
qed

lemma bb_loop_value:
  "bb_loop n (r :: 'w::len word) b =
     (r * 2 ^ n + word_of_nat (bits_num (bb_data b) (bb_pos b) n), b\<lparr>bb_pos := bb_pos b + n\<rparr>)"
proof (induction n arbitrary: r b)
  case (Suc n)
  have "(bb_data b ! (bb_pos b div 8)) AND push_bit (7 - bb_pos b mod 8) 1 \<noteq> 0
      \<longleftrightarrow> bit_at (bb_data b) (bb_pos b)"
    by (simp add: bit_at_def bit_iff_and_push_bit_not_eq_0)
  then have "bb_loop (Suc n) r b =
      bb_loop n (2 * r + of_bool (bit_at (bb_data b) (bb_pos b))) (b\<lparr>bb_pos := bb_pos b + 1\<rparr>)"
    using shl1_or_bit [of r] by (auto simp: Let_def push_bit_eq_mult mult.commute)
  then show ?case
    by (simp add: Suc.IH bits_num_front algebra_simps del: bits_num.simps(2) bb_loop.simps)
qed simp

lemma bb_get_bits_value:
  "bb_get_bits n old b =
     (if bb_more_bits n b
      then (0, word_of_nat (bits_num (bb_data b) (bb_pos b) n), b\<lparr>bb_pos := bb_pos b + n\<rparr>)
      else (-1, old, b))"
  by (simp add: bb_get_bits_def bb_loop_value)

text \<open>A reader over a whole byte string, standing at the byte boundary \<open>p\<close>.\<close>

definition bb_at :: "bytes \<Rightarrow> nat \<Rightarrow> bit_buffer" where
  "bb_at d p = \<lparr>bb_data = d, bb_len = length d * 8, bb_pos = p * 8\<rparr>"

lemma bb_new_at: "bb_new d = bb_at d 0"
  by (simp add: bb_new_def bb_at_def)

lemma bb_at_simps [simp]:
  "bb_data (bb_at d p) = d" "bb_len (bb_at d p) = length d * 8" "bb_pos (bb_at d p) = p * 8"
  "bb_more_bytes n (bb_at d p) \<longleftrightarrow> n = 0 \<or> p + n \<le> length d"
  "bb_bytes_left (bb_at d p) = length d - p"
  "bb_cur_data (bb_at d p) = drop p d"
  "bb_cur_len (bb_at d p) = length d - p"
  by (auto simp: bb_at_def bb_more_bytes_def bb_more_bits_def bb_bits_left_def bb_bytes_left_def
      bb_cur_data_def bb_cur_len_def simp flip: diff_mult_distrib)

lemma drop_bit_step: "drop_bit k (x :: nat) = 2 * drop_bit (Suc k) x + of_bool (bit x k)"
proof -
  have "x div 2 ^ Suc k = x div 2 ^ k div 2" by (simp only: power_Suc2 div_mult2_eq)
  moreover have "of_bool (bit x k) = x div 2 ^ k mod 2" by (simp add: bit_iff_odd mod_2_eq_odd)
  ultimately show ?thesis by (simp only: drop_bit_eq_div) presburger
qed

lemma bits_num_prefix: "n \<le> 8 \<Longrightarrow> bits_num d (p * 8) n = drop_bit (8 - n) (unat (d ! p))"
proof (induction n)
  case 0
  show ?case using unat_u8 [of "d ! p"] by (simp add: drop_bit_eq_div)
next
  case (Suc n)
  have "(p * 8 + n) div 8 = p" and "7 - (p * 8 + n) mod 8 = 7 - n"
    and "8 - n = Suc (7 - n)"
    using Suc.prems by auto
  with Suc drop_bit_step [of "7 - n" "unat (d ! p)"] show ?case
    by (simp add: bit_at_def bit_unsigned_iff Suc_diff_le del: drop_bit_Suc)
qed

lemma bits_num_byte: "bits_num d (p * 8) 8 = unat (d ! p)"
  using bits_num_prefix [of 8 d p] by simp

lemma bits_num_bytes:
  "p + n \<le> length d \<Longrightarrow> bits_num d (p * 8) (n * 8) = be_val (take n (drop p d))"
proof (induction n)
  case (Suc n)
  have "take (Suc n) (drop p d) = take n (drop p d) @ [d ! (p + n)]"
    using Suc.prems by (simp add: take_Suc_conv_app_nth)
  moreover have "bits_num d (p * 8) (Suc n * 8) = bits_num d (p * 8) (n * 8) * 2 ^ 8 + bits_num d ((p + n) * 8) 8"
    using bits_num_add [of d "p * 8" "n * 8" 8] by (simp add: algebra_simps)
  ultimately show ?case using Suc bits_num_byte [of d "p + n"] by (simp add: algebra_simps)
qed simp

lemma bb_get_bits_at:
  "bb_get_bits (n * 8) old (bb_at d p) =
     (if n = 0 \<or> p + n \<le> length d then (0, word_of_nat (be_val (take n (drop p d))), bb_at d (p + n))
      else (-1, old, bb_at d p))"
  using bits_num_bytes [of p n d]
  by (auto simp: bb_get_bits_value bb_more_bits_def bb_bits_left_def bb_at_def)

lemma ucast_of_nat_u64: "v < 2 ^ 64 \<Longrightarrow> (ucast (word_of_nat v :: u64) :: 'w::len word) = word_of_nat v"
  by (simp add: unsigned_of_nat take_bit_eq_mod)

lemma bb_get_bytes_at:
  assumes "n \<le> 8"
  shows "(bb_get_bytes n (bb_at d p) :: int \<times> 'w::len word \<times> bit_buffer) =
     (if n = 0 \<or> p + n \<le> length d then (0, word_of_nat (be_val (take n (drop p d))), bb_at d (p + n))
      else (-1, 0, bb_at d p))"
proof -
  have "be_val (take n (drop p d)) < 256 ^ length (take n (drop p d))" by (rule be_val_bound)
  also have "\<dots> \<le> 256 ^ 8" using assms by (intro power_increasing) auto
  finally have "be_val (take n (drop p d)) < 2 ^ 64" by simp
  from ucast_of_nat_u64 [OF this, where ?'w = 'w] show ?thesis
    by (simp add: bb_get_bytes_def bb_get_bits_at)
qed

lemma bb_get_string_at:
  "bb_get_string n old (bb_at d p) =
     (if n = 0 \<or> p + n \<le> length d then (0, take n (drop p d), bb_at d (p + n)) else (-1, old, bb_at d p))"
  by (auto simp: bb_get_string_def bb_at_def algebra_simps bb_more_bytes_def bb_more_bits_def bb_bits_left_def)

section \<open>What is written is what is read\<close>

lemma bit_or_single: "k < 8 \<Longrightarrow> bit ((x :: u8) OR push_bit k 1) j \<longleftrightarrow> bit x j \<or> j = k"
  by (auto simp: bit_or_iff bit_push_bit_iff bit_1_iff simp del: push_bit_of_1)

lemma same_byte_bit:
  assumes "i div 8 = p div (8::nat)"
  shows "7 - i mod 8 = 7 - p mod 8 \<longleftrightarrow> i = p"
proof -
  have "7 - a = 7 - b \<longleftrightarrow> a = b" if "a < 8" and "b < 8" for a b :: nat using that by linarith
  then have "7 - i mod 8 = 7 - p mod 8 \<longleftrightarrow> i mod 8 = p mod 8" by simp
  also have "\<dots> \<longleftrightarrow> i = p" using assms by (metis div_mult_mod_eq)
  finally show ?thesis .
qed

lemma bit_at_set:
  assumes "p < 8 * length d"
  shows "bit_at (d[p div 8 := (d ! (p div 8)) OR push_bit (7 - p mod 8) 1]) i \<longleftrightarrow> bit_at d i \<or> i = p"
proof (cases "i div 8 = p div 8")
  case True
  have "p div 8 < length d" using assms by linarith
  then show ?thesis
    by (simp only: bit_at_def True nth_list_update_eq bit_or_single same_byte_bit [OF True])
next
  case False
  then have "i \<noteq> p" by blast
  then show ?thesis using False by (simp only: bit_at_def nth_list_update_neq simp_thms not_sym)
qed

lemma bw_loop_ok:
  assumes "n \<le> LENGTH('w::len)" and "bw_pos s + n \<le> 8 * length (bw_buf s)"
  shows "length (bw_buf (bw_loop n (v :: 'w word) (push_bit (n - 1) 1) s)) = length (bw_buf s)
    \<and> bw_pos (bw_loop n v (push_bit (n - 1) 1) s) = bw_pos s + n
    \<and> bw_len (bw_loop n v (push_bit (n - 1) 1) s) = bw_len s
    \<and> bw_fault (bw_loop n v (push_bit (n - 1) 1) s) = bw_fault s
    \<and> (\<forall>i < 8 * length (bw_buf s). bit_at (bw_buf (bw_loop n v (push_bit (n - 1) 1) s)) i
        \<longleftrightarrow> bit_at (bw_buf s) i \<or> bw_pos s \<le> i \<and> i < bw_pos s + n \<and> bit v (n - 1 - (i - bw_pos s)))"
  using assms
proof (induction n arbitrary: s)
  case (Suc n)
  define s1 where "s1 = s\<lparr>bw_buf := if bit v n
      then (bw_buf s)[bw_pos s div 8 := (bw_buf s ! (bw_pos s div 8)) OR push_bit (7 - bw_pos s mod 8) 1]
      else bw_buf s, bw_pos := bw_pos s + 1\<rparr>"
  have msk: "v AND push_bit n 1 \<noteq> 0 \<longleftrightarrow> bit v n" by (simp add: bit_iff_and_push_bit_not_eq_0)
  have shr: "n \<noteq> 0 \<Longrightarrow> drop_bit 1 (push_bit n 1 :: 'w word) = push_bit (n - 1) 1"
    using Suc.prems(1) by (intro bit_eqI) (auto simp: bit_simps dest: bit_imp_le_length)
  have step: "bw_loop (Suc n) v (push_bit n 1) s = bw_loop n v (push_bit (n - 1) 1) s1"
    using shr msk by (cases n) (simp_all add: s1_def Let_def)
  have len: "length (bw_buf s1) = length (bw_buf s)" and pos: "bw_pos s1 = Suc (bw_pos s)"
    and "bw_len s1 = bw_len s" and "bw_fault s1 = bw_fault s"
    by (simp_all add: s1_def)
  have bits: "bit_at (bw_buf s1) i \<longleftrightarrow> bit_at (bw_buf s) i \<or> i = bw_pos s \<and> bit v n"
    if "i < 8 * length (bw_buf s)" for i
    using Suc.prems(2) bit_at_set [of "bw_pos s" "bw_buf s" i] by (simp add: s1_def)
  have idx: "bit v (n - 1 - (i - Suc (bw_pos s))) = bit v (n - (i - bw_pos s))"
    if "Suc (bw_pos s) \<le> i" for i
    using that by (simp add: Suc_diff_Suc)
  have cases: "i = bw_pos s \<and> bit v n \<or> Suc (bw_pos s) \<le> i \<and> i < Suc (bw_pos s) + n \<and> bit v (n - (i - bw_pos s))
     \<longleftrightarrow> bw_pos s \<le> i \<and> i < bw_pos s + Suc n \<and> bit v (n - (i - bw_pos s))" for i
    by (cases "i = bw_pos s") auto
  have "bw_pos s1 + n \<le> 8 * length (bw_buf s1)" using Suc.prems(2) by (simp add: len pos)
  note IH = Suc.IH [OF Suc_leD [OF Suc.prems(1)] this, unfolded len pos]
  have "\<forall>i < 8 * length (bw_buf s). bit_at (bw_buf (bw_loop n v (push_bit (n - 1) 1) s1)) i
        \<longleftrightarrow> bit_at (bw_buf s) i \<or> bw_pos s \<le> i \<and> i < bw_pos s + Suc n \<and> bit v (n - (i - bw_pos s))"
    using IH bits idx cases by blast
  moreover have "bw_loop (Suc n) v (push_bit (Suc n - 1) 1) s = bw_loop n v (push_bit (n - 1) 1) s1"
    using step by (simp del: bw_loop.simps)
  ultimately show ?case
    using IH \<open>bw_len s1 = bw_len s\<close> \<open>bw_fault s1 = bw_fault s\<close>
    by (simp only: add_Suc add_Suc_right diff_Suc_1)
qed auto

definition bw_clean :: "bit_stream \<Rightarrow> bool" where
  \<comment> \<open>the writer only sets bits: the ones it has still to write must be zero\<close>
  "bw_clean s \<longleftrightarrow> bw_len s = 8 * length (bw_buf s)
     \<and> (\<forall>i < 8 * length (bw_buf s). bw_pos s \<le> i \<longrightarrow> \<not> bit_at (bw_buf s) i)"

lemma bw_new_clean: "bw_clean (bw_new n)"
  by (auto simp: bw_clean_def bw_new_def bit_at_def)

lemma bw_write_bits_ok:
  fixes v :: "'w::len word"
  assumes "bw_clean s" and "n \<le> LENGTH('w)" and "bw_pos s + n \<le> bw_len s"
  obtains s' where "bw_write_bits n v s = (0, s')" and "bw_clean s'" and "bw_pos s' = bw_pos s + n"
    and "bw_len s' = bw_len s"
    and "\<forall>i < bw_pos s. bit_at (bw_buf s') i \<longleftrightarrow> bit_at (bw_buf s) i"
    and "\<forall>k < n. bit_at (bw_buf s') (bw_pos s + k) \<longleftrightarrow> bit v (n - 1 - k)"
proof -
  let ?s' = "bw_loop n v (push_bit (n - 1) 1) s"
  have len: "bw_len s = 8 * length (bw_buf s)" using assms(1) by (simp add: bw_clean_def)
  have "bw_pos s + n \<le> 8 * length (bw_buf s)" using assms(3) len by simp
  note ok = bw_loop_ok [OF assms(2) this, of v]
  have wr: "bw_write_bits n v s = (0, ?s')" using assms(3) by (simp add: bw_write_bits_def)
  have "bw_clean ?s'" using ok assms(1) by (auto simp: bw_clean_def)
  moreover have "\<forall>i < bw_pos s. bit_at (bw_buf ?s') i \<longleftrightarrow> bit_at (bw_buf s) i"
    using ok assms(3) len by auto
  moreover have "\<forall>k < n. bit_at (bw_buf ?s') (bw_pos s + k) \<longleftrightarrow> bit v (n - 1 - k)"
    using ok assms(1,3) len by (auto simp: bw_clean_def)
  ultimately show thesis using that [OF wr] ok by blast
qed

lemma bits_num_field:
  assumes "\<forall>k < n. bit_at d (p + k) \<longleftrightarrow> bit x (n - 1 - k)" and "x < 2 ^ n" and "m \<le> n"
  shows "bits_num d p m = drop_bit (n - m) (x :: nat)"
  using assms(3)
proof (induction m)
  case 0
  show ?case using assms(2) by (simp add: drop_bit_eq_div)
next
  case (Suc m)
  then have "n - m = Suc (n - Suc m)" and "bit_at d (p + m) \<longleftrightarrow> bit x (n - Suc m)"
    using assms(1) by (auto simp: Suc_diff_Suc)
  with Suc drop_bit_step [of "n - Suc m" x] show ?case by (simp del: drop_bit_Suc)
qed

lemma bits_num_word:
  assumes "\<forall>k < n. bit_at d (p + k) \<longleftrightarrow> bit (v :: u64) (n - 1 - k)"
  shows "word_of_nat (bits_num d p n) = take_bit n v"
proof -
  have "unat (take_bit n v) < 2 ^ n" by (simp add: unsigned_take_bit_eq)
  moreover have "\<forall>k < n. bit_at d (p + k) \<longleftrightarrow> bit (unat (take_bit n v)) (n - 1 - k)"
    using assms by (auto simp: bit_unsigned_iff bit_take_bit_iff)
  ultimately have "bits_num d p n = unat (take_bit n v)"
    using bits_num_field [of n d p "unat (take_bit n v)" n] by simp
  then show ?thesis by simp
qed

text \<open>A record of bit fields written one after the other, and read back with the same widths.\<close>

fun bw_fields :: "(nat \<times> u64) list \<Rightarrow> bit_stream \<Rightarrow> int list \<times> bit_stream" where
  "bw_fields [] s = ([], s)"
| "bw_fields ((n, v) # fs) s =
     (let (r, s1) = bw_write_bits n v s; (rs, s2) = bw_fields fs s1 in (r # rs, s2))"

fun bb_fields :: "nat list \<Rightarrow> bit_buffer \<Rightarrow> (int \<times> u64) list \<times> bit_buffer" where
  "bb_fields [] b = ([], b)"
| "bb_fields (n # ns) b =
     (let (r, v, b1) = bb_get_bits n 0 b; (rs, b2) = bb_fields ns b1 in ((r, v) # rs, b2))"

lemma bw_fields_ok:
  assumes "bw_clean s" and "\<forall>(n, v) \<in> set fs. n \<le> 64" and "bw_pos s + sum_list (map fst fs) \<le> bw_len s"
  shows "\<exists>s'. bw_fields fs s = (map (\<lambda>_. 0) fs, s') \<and> bw_len s' = bw_len s \<and> bw_clean s'
     \<and> bw_pos s' = bw_pos s + sum_list (map fst fs)
     \<and> (\<forall>i < bw_pos s. bit_at (bw_buf s') i \<longleftrightarrow> bit_at (bw_buf s) i)
     \<and> fst (bb_fields (map fst fs) \<lparr>bb_data = bw_buf s', bb_len = bw_len s', bb_pos = bw_pos s\<rparr>)
         = map (\<lambda>(n, v). (0, take_bit n v)) fs"
  using assms
proof (induction fs arbitrary: s)
  case (Cons f fs)
  obtain n v where f: "f = (n, v)" by fastforce
  have "n \<le> LENGTH(64)" and "bw_pos s + n \<le> bw_len s" using Cons.prems by (auto simp: f)
  from bw_write_bits_ok [OF Cons.prems(1) this, of v] obtain s1 where
    s1: "bw_write_bits n v s = (0, s1)" "bw_clean s1" "bw_pos s1 = bw_pos s + n" "bw_len s1 = bw_len s"
      "\<forall>i < bw_pos s. bit_at (bw_buf s1) i \<longleftrightarrow> bit_at (bw_buf s) i"
      "\<forall>k < n. bit_at (bw_buf s1) (bw_pos s + k) \<longleftrightarrow> bit v (n - 1 - k)" by metis
  have "\<forall>(n, v) \<in> set fs. n \<le> 64" and "bw_pos s1 + sum_list (map fst fs) \<le> bw_len s1"
    using Cons.prems s1 by (auto simp: f)
  from Cons.IH [OF s1(2) this] obtain s2 where
    s2: "bw_fields fs s1 = (map (\<lambda>_. 0) fs, s2)" "bw_len s2 = bw_len s1" "bw_clean s2"
      "bw_pos s2 = bw_pos s1 + sum_list (map fst fs)"
      "\<forall>i < bw_pos s1. bit_at (bw_buf s2) i \<longleftrightarrow> bit_at (bw_buf s1) i"
      "fst (bb_fields (map fst fs) \<lparr>bb_data = bw_buf s2, bb_len = bw_len s2, bb_pos = bw_pos s1\<rparr>)
         = map (\<lambda>(n, v). (0, take_bit n v)) fs" by blast
  have "\<forall>k < n. bit_at (bw_buf s2) (bw_pos s + k) \<longleftrightarrow> bit v (n - 1 - k)"
    using s1(3,6) s2(5) by simp
  from bits_num_word [OF this]
  have "bb_get_bits n 0 \<lparr>bb_data = bw_buf s2, bb_len = bw_len s2, bb_pos = bw_pos s\<rparr>
      = (0, take_bit n v, \<lparr>bb_data = bw_buf s2, bb_len = bw_len s2, bb_pos = bw_pos s1\<rparr>)"
    using \<open>bw_pos s + n \<le> bw_len s\<close> s1(3,4) s2(2)
    by (simp add: bb_get_bits_value bb_more_bits_def bb_bits_left_def)
  then have "fst (bb_fields (map fst (f # fs)) \<lparr>bb_data = bw_buf s2, bb_len = bw_len s2, bb_pos = bw_pos s\<rparr>)
         = map (\<lambda>(n, v). (0, take_bit n v)) (f # fs)"
    using s2(6) by (simp add: f split_def)
  moreover have "bw_fields (f # fs) s = (map (\<lambda>_. 0) (f # fs), s2)" using s1(1) s2(1) by (simp add: f)
  moreover have "\<forall>i < bw_pos s. bit_at (bw_buf s2) i \<longleftrightarrow> bit_at (bw_buf s) i"
    using s1(3,5) s2(5) by simp
  ultimately show ?case using s1(3,4) s2(2,3,4) by (auto simp: f)
qed simp

text \<open>
  bit fields written by \<open>BitStream::WriteBits\<close> one after the other into a buffer that has
  room for them are all accepted, and \<open>BitBuffer::GetBits\<close> with the same widths reads back the
  low bits of each value, whatever the widths and the alignment.
\<close>

theorem bit_fields_roundtrip:
  assumes "\<forall>(n, v) \<in> set fs. n \<le> 64" and "sum_list (map fst fs) \<le> 8 * buf_size"
  shows "fst (bw_fields fs (bw_new buf_size)) = map (\<lambda>_. 0) fs
     \<and> fst (bb_fields (map fst fs) (bb_new (bw_buf (snd (bw_fields fs (bw_new buf_size))))))
         = map (\<lambda>(n, v). (0, take_bit n v)) fs"
proof -
  have "bw_pos (bw_new buf_size) + sum_list (map fst fs) \<le> bw_len (bw_new buf_size)"
    using assms(2) by (simp add: bw_new_def)
  from bw_fields_ok [OF bw_new_clean assms(1) this] obtain s' where
    s': "bw_fields fs (bw_new buf_size) = (map (\<lambda>_. 0) fs, s')" "bw_clean s'"
      "fst (bb_fields (map fst fs) \<lparr>bb_data = bw_buf s', bb_len = bw_len s', bb_pos = bw_pos (bw_new buf_size)\<rparr>)
         = map (\<lambda>(n, v). (0, take_bit n v)) fs" by blast
  moreover have "bb_new (bw_buf s') = \<lparr>bb_data = bw_buf s', bb_len = bw_len s', bb_pos = bw_pos (bw_new buf_size)\<rparr>"
    using s'(2) by (simp add: bb_new_def bw_clean_def bw_new_def mult.commute)
  ultimately show ?thesis by simp
qed

theorem bit_fields_roundtrip_witness:
  "fst (bw_fields [(1, 1), (13, 0x1abc), (2, 3)] (bw_new 2)) = [0, 0, 0]
   \<and> fst (bb_fields [1, 13, 2] (bb_new (bw_buf (snd (bw_fields [(1, 1), (13, 0x1abc), (2, 3)] (bw_new 2))))))
     = [(0, 1), (0, 0x1abc), (0, 3)]"
  using bit_fields_roundtrip [of "[(1, 1), (13, 0x1abc), (2, 3)]" 2]
  by (simp add: take_bit_eq_mod)

section \<open>A bit stream is the list of the bits written\<close>

text \<open>Runs of writer calls, values zero-extended to 64 bits.\<close>

datatype bw_op = WBits nat u64 | WBytes nat u64 | WData bytes

fun bw_op_run :: "bw_op \<Rightarrow> bit_stream \<Rightarrow> bit_stream" where
  "bw_op_run (WBits n v) s = snd (bw_write_bits n v s)"
| "bw_op_run (WBytes n v) s = snd (bw_write_bytes n v s)"
| "bw_op_run (WData d) s = snd (bw_write_data d s)"

definition bw_run :: "bw_op list \<Rightarrow> bit_stream \<Rightarrow> bit_stream" where
  "bw_run = fold bw_op_run"

definition val_bits :: "nat \<Rightarrow> u64 \<Rightarrow> bool list" where
  "val_bits n v = map (\<lambda>k. bit v (n - 1 - k)) [0..<n]"

definition byte_bits :: "u8 \<Rightarrow> bool list" where
  "byte_bits b = map (\<lambda>k. bit b (7 - k)) [0..<8]"

fun bw_op_bits :: "bw_op \<Rightarrow> bool list" where
  "bw_op_bits (WBits n v) = val_bits n v"
| "bw_op_bits (WBytes n v) = concat (map byte_bits (bw_val_bytes n v))"
| "bw_op_bits (WData d) = concat (map byte_bits d)"

fun bw_op_size :: "bw_op \<Rightarrow> nat" where
  "bw_op_size (WBits n v) = n"
| "bw_op_size (WBytes n v) = n * 8"
| "bw_op_size (WData d) = length d * 8"

fun bw_aligned :: "nat \<Rightarrow> bw_op list \<Rightarrow> bool" where
  \<comment> \<open>byte writes happen at byte positions; fields are at most 64 bits wide\<close>
  "bw_aligned p [] \<longleftrightarrow> True"
| "bw_aligned p (x # xs) \<longleftrightarrow>
     (case x of WBits n v \<Rightarrow> n \<le> 64 | _ \<Rightarrow> p mod 8 = 0) \<and> bw_aligned (p + bw_op_size x) xs"

fun pack :: "bool list \<Rightarrow> bytes" where
  "pack (a # b # c # d # e # f # g # h # r) =
     foldl (\<lambda>v x. 2 * v + of_bool x) 0 [a, b, c, d, e, f, g, h] # pack r"
| "pack _ = []"

lemma length_bw_val_bytes [simp]: "length (bw_val_bytes n v) = n"
  by (simp add: bw_val_bytes_def)

lemma byte_bits_length [simp]: "length (byte_bits b) = 8"
  by (simp add: byte_bits_def)

lemma concat_byte_bits_length [simp]: "length (concat (map byte_bits d)) = length d * 8"
  by (induction d) auto

lemma bw_op_bits_length [simp]: "length (bw_op_bits x) = bw_op_size x"
  by (cases x) (simp_all add: val_bits_def)

lemma byte_bits_eq: "byte_bits b = [bit b 7, bit b 6, bit b 5, bit b 4, bit b 3, bit b 2, bit b 1, bit b 0]"
  by (simp add: byte_bits_def upt_rec)

lemma byte_from_bits: "foldl (\<lambda>v x. 2 * v + of_bool x) 0 (byte_bits b) = b"
proof -
  have "foldl (\<lambda>v x. 2 * v + of_bool x) (0 :: u8) (map (\<lambda>k. bit b (7 - k)) [0..<n]) = word_of_nat (bits_num [b] 0 n)"
    if "n \<le> 8" for n
    using that by (induction n) (auto simp: bit_at_def mult.commute)
  from this [of 8] show ?thesis using bits_num_byte [of "[b]" 0] by (simp add: byte_bits_def)
qed

lemma pack_byte [simp]: "pack (byte_bits b @ r) = b # pack r"
  using byte_from_bits [of b] by (simp add: byte_bits_eq)

lemma pack_bytes [simp]: "pack (concat (map byte_bits d) @ r) = d @ pack r"
  by (induction d) auto

definition bw_bits :: "bit_stream \<Rightarrow> bool list" where
  "bw_bits s = map (bit_at (bw_buf s)) [0..<bw_pos s]"

lemma bit_at_concat: "i < 8 * length d \<Longrightarrow> concat (map byte_bits d) ! i = bit_at d i"
proof (induction d arbitrary: i)
  case (Cons b d)
  show ?case
  proof (cases "i < 8")
    case True
    then show ?thesis by (simp add: nth_append byte_bits_def bit_at_def)
  next
    case False
    then have "(b # d) ! (i div 8) = d ! ((i - 8) div 8)" and "i mod 8 = (i - 8) mod 8"
      by (simp_all add: nth_Cons' div_if le_mod_geq)
    then show ?thesis using Cons False by (simp add: nth_append bit_at_def)
  qed
qed simp

lemma bits_of_bytes: "map (bit_at d) [0..<8 * length d] = concat (map byte_bits d)"
  by (rule nth_equalityI) (simp_all add: bit_at_concat mult.commute)

lemma pack_bits: "pack (map (bit_at d) [0..<8 * length d]) = d"
  using pack_bytes [of d "[]"] by (simp add: bits_of_bytes)

lemma bw_data_pack:
  assumes "bw_pos s mod 8 = 0" and "bw_pos s \<le> 8 * length (bw_buf s)"
  shows "bw_data s = pack (bw_bits s)"
proof -
  define k where "k = bw_pos s div 8"
  have k: "bw_pos s = 8 * k" "k \<le> length (bw_buf s)" using assms by (auto simp: k_def)
  have "map (bit_at (bw_buf s)) [0..<8 * k] = map (bit_at (take k (bw_buf s))) [0..<8 * length (take k (bw_buf s))]"
    using k(2) by (intro nth_equalityI) (auto simp: bit_at_def min_def)
  then show ?thesis using pack_bits [of "take k (bw_buf s)"]
    by (simp add: bw_data_def bw_size_in_bytes_def bw_bits_def k(1))
qed

lemma bw_put_bits:
  assumes "bw_clean s" and "bw_pos s = 8 * k" and "k + length d \<le> length (bw_buf s)"
  defines "s' \<equiv> (bw_put k d s)\<lparr>bw_pos := bw_pos s + 8 * length d\<rparr>"
  shows "bw_clean s'" and "bw_bits s' = bw_bits s @ concat (map byte_bits d)" and "bw_len s' = bw_len s"
    and "length (bw_buf s') = length (bw_buf s)" and "bw_fault s' = bw_fault s"
proof -
  have buf: "bw_buf s' = take k (bw_buf s) @ d @ drop (k + length d) (bw_buf s)"
    using assms(3) by (simp add: s'_def bw_put_def)
  have at: "bit_at (bw_buf s') i \<longleftrightarrow>
      (if i < 8 * k then bit_at (bw_buf s) i
       else if i < 8 * (k + length d) then bit_at d (i - 8 * k) else bit_at (bw_buf s) i)"
    if "i < 8 * length (bw_buf s)" for i
  proof -
    consider "i < 8 * k" | "8 * k \<le> i" "i < 8 * (k + length d)" | "8 * (k + length d) \<le> i" by linarith
    then show ?thesis
    proof cases
      case 1
      then have "i div 8 < k" by linarith
      then show ?thesis using 1 assms(3) by (simp add: bit_at_def buf nth_append)
    next
      case 2
      then obtain j where j: "i = 8 * k + j" using le_Suc_ex by blast
      then have "i div 8 = k + j div 8" "i mod 8 = j mod 8" "j div 8 < length d" using 2 by auto
      then show ?thesis using 2 j assms(3) by (simp add: bit_at_def buf nth_append)
    next
      case 3
      then have "k + length d \<le> i div 8" by (simp add: less_eq_div_iff_mult_less_eq mult.commute)
      then have "\<not> i div 8 < k" "\<not> i div 8 - k < length d" by simp_all
      then show ?thesis using 3 assms(3) by (simp add: bit_at_def buf nth_append)
    qed
  qed
  show len: "length (bw_buf s') = length (bw_buf s)" using assms(3) by (simp add: buf)
  show "bw_len s' = bw_len s" "bw_fault s' = bw_fault s" using assms(3) by (simp_all add: s'_def bw_put_def)
  then show "bw_clean s'" using assms(1,2) at len by (auto simp: bw_clean_def s'_def)
  show "bw_bits s' = bw_bits s @ concat (map byte_bits d)"
  proof (rule nth_equalityI)
    show "length (bw_bits s') = length (bw_bits s @ concat (map byte_bits d))"
      by (simp add: bw_bits_def s'_def)
    fix i assume "i < length (bw_bits s')"
    then have i: "i < 8 * k + 8 * length d" by (simp add: bw_bits_def s'_def assms(2))
    then have "i < 8 * length (bw_buf s)" using assms(3) by linarith
    from at [OF this] show "bw_bits s' ! i = (bw_bits s @ concat (map byte_bits d)) ! i"
      using i assms(2) bit_at_concat [of "i - 8 * k" d]
      by (auto simp: bw_bits_def s'_def nth_append)
  qed
qed

definition ops_bytes :: "bw_op list \<Rightarrow> bytes" where
  \<comment> \<open>the bytes of a list of writes\<close>
  "ops_bytes xs = pack (concat (map bw_op_bits xs))"

lemma bits_whole:
  "length bl = 8 * m \<Longrightarrow> \<exists>ys. bl = concat (map byte_bits ys) \<and> length ys = m"
proof (induction m arbitrary: bl)
  case (Suc m)
  define w :: u8 where "w = horner_sum of_bool 2 (rev (take 8 bl))"
  have "length (take 8 bl) = 8" using Suc.prems by simp
  then have w: "byte_bits w = take 8 bl"
    by (intro nth_equalityI) (auto simp: byte_bits_def w_def bit_horner_sum_bit_word_iff rev_nth)
  have "length (drop 8 bl) = 8 * m" using Suc.prems by simp
  from Suc.IH [OF this] obtain zs where "drop 8 bl = concat (map byte_bits zs)" "length zs = m" by blast
  then have "bl = concat (map byte_bits (w # zs)) \<and> length (w # zs) = Suc m"
    using w append_take_drop_id [of 8 bl] by simp
  then show ?case by blast
qed simp

lemma bw_op_run_bits:
  assumes "bw_clean s" and "bw_pos s + bw_op_size x \<le> bw_len s"
    and "case x of WBits n v \<Rightarrow> n \<le> 64 | _ \<Rightarrow> bw_pos s mod 8 = 0"
  shows "bw_clean (bw_op_run x s) \<and> bw_bits (bw_op_run x s) = bw_bits s @ bw_op_bits x \<and>
    bw_len (bw_op_run x s) = bw_len s \<and> bw_pos (bw_op_run x s) = bw_pos s + bw_op_size x \<and>
    bw_fault (bw_op_run x s) = bw_fault s"
proof (cases x)
  case (WBits n v)
  have "n \<le> LENGTH(64)" using assms(3) WBits by simp
  moreover have le: "bw_pos s + n \<le> 8 * length (bw_buf s)" using assms(1,2) WBits by (simp add: bw_clean_def)
  ultimately have ok: "bw_pos (bw_loop n v (push_bit (n - 1) 1) s) = bw_pos s + n
    \<and> bw_fault (bw_loop n v (push_bit (n - 1) 1) s) = bw_fault s"
    using bw_loop_ok by blast
  obtain s' where s': "bw_write_bits n v s = (0, s')" "bw_clean s'" "bw_pos s' = bw_pos s + n" "bw_len s' = bw_len s"
    "\<forall>i < bw_pos s. bit_at (bw_buf s') i \<longleftrightarrow> bit_at (bw_buf s) i"
    "\<forall>k < n. bit_at (bw_buf s') (bw_pos s + k) \<longleftrightarrow> bit v (n - 1 - k)"
    using bw_write_bits_ok [OF assms(1) \<open>n \<le> LENGTH(64)\<close>] assms(2) WBits by (metis bw_op_size.simps(1))
  have fault: "bw_fault s' = bw_fault s" using s'(1) ok assms(2) WBits by (auto simp: bw_write_bits_def split: if_splits)
  have new: "bit_at (bw_buf s') i \<longleftrightarrow> bit v (n - 1 - (i - bw_pos s))"
    if "\<not> i < bw_pos s" "i < bw_pos s + n" for i
    using spec [OF s'(6), of "i - bw_pos s"] that by simp
  have "bw_bits s' = bw_bits s @ val_bits n v"
    using s'(3,5) new by (intro nth_equalityI) (auto simp: bw_bits_def val_bits_def nth_append)
  then show ?thesis using s' WBits fault by simp
next
  case (WBytes n v)
  then obtain k where k: "bw_pos s = 8 * k" using assms(3) by (auto elim: dvdE simp: mod_eq_0_iff_dvd)
  have "k + length (bw_val_bytes n v) \<le> length (bw_buf s)" using assms(1,2) WBytes k by (simp add: bw_clean_def)
  note p = bw_put_bits [OF assms(1) k this]
  have "bw_op_run x s = (bw_put k (bw_val_bytes n v) s)\<lparr>bw_pos := bw_pos s + 8 * length (bw_val_bytes n v)\<rparr>"
    using WBytes k by (simp add: bw_write_bytes_def Let_def bw_put_def mult.commute)
  then show ?thesis using p WBytes by simp
next
  case (WData d)
  then obtain k where k: "bw_pos s = 8 * k" using assms(3) by (auto elim: dvdE simp: mod_eq_0_iff_dvd)
  have "k + length d \<le> length (bw_buf s)" using assms(1,2) WData k by (simp add: bw_clean_def)
  note p = bw_put_bits [OF assms(1) k this]
  have "bw_op_run x s = (bw_put k d s)\<lparr>bw_pos := bw_pos s + 8 * length d\<rparr>"
    using WData k by (simp add: bw_write_data_def Let_def bw_put_def mult.commute)
  then show ?thesis using p WData by simp
qed

lemma bw_run_bits:
  assumes "bw_clean s" and "bw_pos s + sum_list (map bw_op_size xs) \<le> bw_len s" and "bw_aligned (bw_pos s) xs"
  shows "bw_clean (bw_run xs s) \<and> bw_bits (bw_run xs s) = bw_bits s @ concat (map bw_op_bits xs) \<and>
    bw_len (bw_run xs s) = bw_len s \<and> bw_pos (bw_run xs s) = bw_pos s + sum_list (map bw_op_size xs) \<and>
    bw_fault (bw_run xs s) = bw_fault s"
  using assms
proof (induction xs arbitrary: s)
  case (Cons x xs)
  have 1: "bw_clean (bw_op_run x s) \<and> bw_bits (bw_op_run x s) = bw_bits s @ bw_op_bits x \<and>
    bw_len (bw_op_run x s) = bw_len s \<and> bw_pos (bw_op_run x s) = bw_pos s + bw_op_size x \<and>
    bw_fault (bw_op_run x s) = bw_fault s"
    using Cons.prems by (intro bw_op_run_bits) auto
  have "bw_clean (bw_run xs (bw_op_run x s)) \<and>
    bw_bits (bw_run xs (bw_op_run x s)) = bw_bits (bw_op_run x s) @ concat (map bw_op_bits xs) \<and>
    bw_len (bw_run xs (bw_op_run x s)) = bw_len (bw_op_run x s) \<and>
    bw_pos (bw_run xs (bw_op_run x s)) = bw_pos (bw_op_run x s) + sum_list (map bw_op_size xs) \<and>
    bw_fault (bw_run xs (bw_op_run x s)) = bw_fault (bw_op_run x s)"
    using 1 Cons.prems by (intro Cons.IH) auto
  with 1 show ?case by (simp add: bw_run_def)
qed (simp add: bw_run_def)

lemma bw_run_default:
  assumes "sum_list (map bw_op_size xs) \<le> 131072" and "bw_aligned 0 xs"
  shows "bw_pos (bw_run xs bw_default) = sum_list (map bw_op_size xs)"
    and "sum_list (map bw_op_size xs) mod 8 = 0 \<Longrightarrow> bw_data (bw_run xs bw_default) = pack (concat (map bw_op_bits xs))"
    and "\<not> bw_fault (bw_run xs bw_default)"
proof -
  have d: "bw_clean bw_default" "bw_pos bw_default = 0" "bw_len bw_default = 131072" "bw_bits bw_default = []"
      "\<not> bw_fault bw_default"
    using bw_new_clean [of "1024 * 16"] by (simp_all add: bw_default_def bw_new_def bw_bits_def)
  note r = bw_run_bits [of bw_default xs]
  show "bw_pos (bw_run xs bw_default) = sum_list (map bw_op_size xs)" using r assms d by simp
  show "\<not> bw_fault (bw_run xs bw_default)" using r assms d by simp
  assume "sum_list (map bw_op_size xs) mod 8 = 0"
  then show "bw_data (bw_run xs bw_default) = pack (concat (map bw_op_bits xs))"
    using r assms d bw_data_pack [of "bw_run xs bw_default"] by (simp add: bw_clean_def)
qed

lemma be_word: "bw_val_bytes n (v :: 'w::len word) = be n (unat v)"
proof (induction n arbitrary: v)
  case (Suc n)
  have u: "unat (drop_bit 8 v) = unat v div 256"
    by (subst unat_drop_bit_eq) (simp add: drop_bit_eq_div)
  have "(drop_bit (8 * (Suc n - 1 - i)) v) = drop_bit (8 * (n - 1 - i)) (drop_bit 8 v)" if "i < n" for i
  proof -
    have "8 * (Suc n - 1 - i) = 8 * (n - 1 - i) + 8" using that by simp
    then show ?thesis unfolding drop_bit_drop_bit by (simp only:)
  qed
  then have "map (\<lambda>i. ucast (drop_bit (8 * (Suc n - 1 - i)) v) :: u8) [0..<n] = bw_val_bytes n (drop_bit 8 v)"
    unfolding bw_val_bytes_def by (intro map_cong) auto
  then have "bw_val_bytes (Suc n) v = bw_val_bytes n (drop_bit 8 v) @ [ucast v]"
    unfolding bw_val_bytes_def by simp
  moreover have "(ucast v :: u8) = word_of_nat (unat v)" by (simp add: of_nat_unat)
  ultimately show ?case using Suc.IH [of "drop_bit 8 v"] u by (simp only: be.simps)
qed (simp add: bw_val_bytes_def)

end
