(* ===== verification/Payload.thy ===== *)
theory Payload
  imports Prelude
begin

text \<open>
  \<open>src/ref_ptr.h\<close>: \<open>Payload\<close>, the frame that travels from a publisher to the muxers and the
  subscribers, and \<open>RefPtr\<close>, the counted owner of its bytes.

  The record \<open>payload\<close> is the value of a \<open>Payload\<close>: the bytes its pointer refers to and the
  other members. The ownership is modelled apart, on \<open>ref_heap\<close>: a heap of counted blocks and
  the \<open>ref_ptr_\<close> member of every live \<open>Payload\<close> object. The lemmas show that constructing,
  copying, assigning and destroying payloads never touches a freed block, and that without
  assignment over a live payload the last destructor frees the block.
\<close>

section \<open>\<open>Payload\<close> as a value\<close>

record payload =
  pl_data :: "bytes option"
  pl_len :: u64
  pl_frame :: u8
  pl_kind :: u8
  pl_pts :: u64
  pl_dts :: u64

definition kIframe :: u8 where "kIframe = 1"
definition kVideoPayload :: u8 where "kVideoPayload = 1"
definition kAudioPayload :: u8 where "kAudioPayload = 2"

text \<open>The NAL unit types of \<open>common_define.h\<close>.\<close>

definition H264NalType_SLICE :: u8 where "H264NalType_SLICE = 1"
definition H264NalType_IDR_SLICE :: u8 where "H264NalType_IDR_SLICE = 5"
definition H264NalType_SEI :: u8 where "H264NalType_SEI = 6"
definition H264NalType_SPS :: u8 where "H264NalType_SPS = 7"
definition H264NalType_PPS :: u8 where "H264NalType_PPS = 8"

lemmas nal_types = H264NalType_SLICE_def H264NalType_IDR_SLICE_def H264NalType_SEI_def H264NalType_SPS_def H264NalType_PPS_def

definition pl_empty :: "u64 \<Rightarrow> u64 \<Rightarrow> payload" where
  \<comment> \<open>the arguments are what the two uninitialised members hold\<close>
  "pl_empty pts dts = \<lparr>pl_data = None, pl_len = 0, pl_frame = - 1, pl_kind = - 1, pl_pts = pts, pl_dts = dts\<rparr>"

definition pl_new :: "u64 \<Rightarrow> u64 \<Rightarrow> bytes \<Rightarrow> u64 \<Rightarrow> payload" where
  "pl_new pts dts ptr len =
     \<lparr>pl_data = Some ptr, pl_len = len, pl_frame = - 1, pl_kind = - 1, pl_pts = pts, pl_dts = dts\<rparr>"

definition pl_set_iframe :: "payload \<Rightarrow> payload" where "pl_set_iframe p = p\<lparr>pl_frame := kIframe\<rparr>"
definition pl_is_iframe :: "payload \<Rightarrow> bool" where "pl_is_iframe p \<longleftrightarrow> pl_frame p = kIframe"
definition pl_set_pts :: "u64 \<Rightarrow> payload \<Rightarrow> payload" where "pl_set_pts t p = p\<lparr>pl_pts := t\<rparr>"
definition pl_set_dts :: "u64 \<Rightarrow> payload \<Rightarrow> payload" where "pl_set_dts t p = p\<lparr>pl_dts := t\<rparr>"
definition pl_pts32 :: "payload \<Rightarrow> u32" where "pl_pts32 p = ucast (pl_pts p)"
definition pl_dts32 :: "payload \<Rightarrow> u32" where "pl_dts32 p = ucast (pl_dts p)"
definition pl_set_audio :: "payload \<Rightarrow> payload" where "pl_set_audio p = p\<lparr>pl_kind := kAudioPayload\<rparr>"
definition pl_set_video :: "payload \<Rightarrow> payload" where "pl_set_video p = p\<lparr>pl_kind := kVideoPayload\<rparr>"
definition pl_is_audio :: "payload \<Rightarrow> bool" where "pl_is_audio p \<longleftrightarrow> pl_kind p = kAudioPayload"
definition pl_is_video :: "payload \<Rightarrow> bool" where "pl_is_video p \<longleftrightarrow> pl_kind p = kVideoPayload"
definition pl_add_len :: "u64 \<Rightarrow> payload \<Rightarrow> payload" where "pl_add_len d p = p\<lparr>pl_len := pl_len p + d\<rparr>"

definition pl_raw_data :: "payload \<Rightarrow> bytes option" where
  "pl_raw_data p =
     (case pl_data p of
        None \<Rightarrow> None
      | Some d \<Rightarrow>
          if pl_is_audio p then Some (drop 2 d)
          else if pl_is_video p then Some (drop 4 d)
          else None)"

definition pl_raw_len :: "payload \<Rightarrow> u64" where
  "pl_raw_len p =
     (if pl_is_audio p then pl_len p - 2 else if pl_is_video p then pl_len p - 4 else 0)"

lemmas pl_defs = pl_empty_def pl_new_def pl_set_iframe_def pl_is_iframe_def pl_set_pts_def pl_set_dts_def
  pl_pts32_def pl_dts32_def pl_set_audio_def pl_set_video_def pl_is_audio_def pl_is_video_def pl_add_len_def
  kIframe_def kVideoPayload_def kAudioPayload_def

section \<open>\<open>RefPtr\<close>: ownership of the bytes\<close>

record ref_heap =
  rh_count :: "nat \<Rightarrow> u32 option" \<comment> \<open>\<open>ref_count_\<close> of the live \<open>RefPtr\<close> objects\<close>
  rh_var :: "nat \<Rightarrow> nat option option" \<comment> \<open>live \<open>Payload\<close> objects and their \<open>ref_ptr_\<close>\<close>
  rh_fault :: bool \<comment> \<open>NULL or a freed \<open>RefPtr\<close> was used\<close>

definition rh_init :: ref_heap where
  "rh_init = \<lparr>rh_count = (\<lambda>_. None), rh_var = (\<lambda>_. None), rh_fault = False\<rparr>"

definition rh_construct :: "nat \<Rightarrow> nat \<Rightarrow> ref_heap \<Rightarrow> ref_heap" where
  \<comment> \<open>\<open>Payload v(ptr, len)\<close>; \<open>r\<close> is the \<open>RefPtr\<close> that \<open>new\<close> returns\<close>
  "rh_construct v r h = h\<lparr>rh_count := (rh_count h)(r \<mapsto> 1), rh_var := (rh_var h)(v \<mapsto> Some r)\<rparr>"

definition rh_default :: "nat \<Rightarrow> ref_heap \<Rightarrow> ref_heap" where
  "rh_default v h = h\<lparr>rh_var := (rh_var h)(v \<mapsto> None)\<rparr>"

definition rh_add_ref :: "nat option \<Rightarrow> ref_heap \<Rightarrow> ref_heap" where
  "rh_add_ref r h =
     (case r of
        None \<Rightarrow> h\<lparr>rh_fault := True\<rparr>
      | Some r \<Rightarrow>
          (case rh_count h r of
             None \<Rightarrow> h\<lparr>rh_fault := True\<rparr>
           | Some c \<Rightarrow> h\<lparr>rh_count := (rh_count h)(r \<mapsto> c + 1)\<rparr>))"

definition rh_drop_ref :: "nat option \<Rightarrow> ref_heap \<Rightarrow> ref_heap" where
  \<comment> \<open>\<open>if (ref_ptr_ != NULL && ref_ptr_->DecRefCount() == 0) delete ref_ptr_\<close>\<close>
  "rh_drop_ref r h =
     (case r of
        None \<Rightarrow> h
      | Some r \<Rightarrow>
          (case rh_count h r of
             None \<Rightarrow> h\<lparr>rh_fault := True\<rparr>
           | Some c \<Rightarrow> h\<lparr>rh_count := (rh_count h)(r := if c - 1 = 0 then None else Some (c - 1))\<rparr>))"

definition rh_assign :: "nat \<Rightarrow> nat \<Rightarrow> ref_heap \<Rightarrow> ref_heap" where
  \<comment> \<open>\<open>w = v\<close>; the \<open>RefPtr\<close> that \<open>w\<close> had is forgotten, not released\<close>
  "rh_assign w v h =
     (if w = v then h
      else case rh_var h v of
        None \<Rightarrow> h\<lparr>rh_fault := True\<rparr>
      | Some r \<Rightarrow> rh_add_ref r (h\<lparr>rh_var := (rh_var h)(w \<mapsto> r)\<rparr>))"

definition rh_copy :: "nat \<Rightarrow> nat \<Rightarrow> ref_heap \<Rightarrow> ref_heap" where
  \<comment> \<open>\<open>Payload w(v)\<close> is \<open>operator=\<close> on the new object\<close>
  "rh_copy w v h = rh_assign w v h"

definition rh_destroy :: "nat \<Rightarrow> ref_heap \<Rightarrow> ref_heap" where
  "rh_destroy v h =
     (case rh_var h v of
        None \<Rightarrow> h\<lparr>rh_fault := True\<rparr>
      | Some r \<Rightarrow> rh_drop_ref r (h\<lparr>rh_var := (rh_var h)(v := None)\<rparr>))"

definition rh_reset :: "nat \<Rightarrow> nat \<Rightarrow> ref_heap \<Rightarrow> ref_heap" where
  \<comment> \<open>\<open>v.Reset(ptr, len)\<close>: a payload that has a block releases it and keeps the pointer\<close>
  "rh_reset v r h =
     (case rh_var h v of
        None \<Rightarrow> h\<lparr>rh_fault := True\<rparr>
      | Some (Some old) \<Rightarrow> rh_drop_ref (Some old) h
      | Some None \<Rightarrow> h\<lparr>rh_count := (rh_count h)(r \<mapsto> 1), rh_var := (rh_var h)(v \<mapsto> Some r)\<rparr>)"

datatype rh_op = New nat nat | Copy nat nat | Assign nat nat | Destroy nat

text \<open>A step of a client: names of new objects are fresh, sources hold a block.\<close>

fun rh_step :: "rh_op \<Rightarrow> ref_heap \<Rightarrow> ref_heap" where
  "rh_step (New v r) h = rh_construct v r h"
| "rh_step (Copy w v) h = rh_copy w v h"
| "rh_step (Assign w v) h = rh_assign w v h"
| "rh_step (Destroy v) h = rh_destroy v h"

fun rh_legal :: "rh_op \<Rightarrow> ref_heap \<Rightarrow> bool" where
  "rh_legal (New v r) h \<longleftrightarrow> rh_var h v = None \<and> rh_count h r = None"
| "rh_legal (Copy w v) h \<longleftrightarrow> rh_var h w = None \<and> (case rh_var h v of Some (Some _) \<Rightarrow> True | _ \<Rightarrow> False)"
| "rh_legal (Assign w v) h \<longleftrightarrow> rh_var h w \<noteq> None \<and> (case rh_var h v of Some (Some _) \<Rightarrow> True | _ \<Rightarrow> False)"
| "rh_legal (Destroy v) h \<longleftrightarrow> rh_var h v \<noteq> None"

fun rh_run :: "rh_op list \<Rightarrow> ref_heap \<Rightarrow> ref_heap option" where
  "rh_run [] h = Some h"
| "rh_run (x # xs) h = (if rh_legal x h then rh_run xs (rh_step x h) else None)"

section \<open>The count and the live handles\<close>

definition rh_handles :: "(nat \<Rightarrow> nat option option) \<Rightarrow> nat \<Rightarrow> nat set" where
  "rh_handles var r = {v. var v = Some (Some r)}"

definition rh_inv :: "bool \<Rightarrow> nat \<Rightarrow> ref_heap \<Rightarrow> bool" where
  \<comment> \<open>after \<open>n\<close> steps; \<open>exact\<close>: no live payload was assigned over\<close>
  "rh_inv exact n h \<longleftrightarrow>
     \<not> rh_fault h \<and> (\<forall>r. finite (rh_handles (rh_var h) r)) \<and>
     (\<forall>r. rh_handles (rh_var h) r \<noteq> {} \<longrightarrow> rh_count h r \<noteq> None) \<and>
     (\<forall>r c. rh_count h r = Some c \<longrightarrow>
        card (rh_handles (rh_var h) r) \<le> unat c \<and> 0 < unat c \<and> unat c \<le> n \<and>
        (exact \<longrightarrow> card (rh_handles (rh_var h) r) = unat c))"

lemma rh_handles_upd:
  "rh_handles (var(v := x)) r =
     (if x = Some (Some r) then insert v (rh_handles var r) else rh_handles var r - {v})"
  by (auto simp: rh_handles_def)

lemma u32_inc: "unat (c :: u32) < 2 ^ 32 - 1 \<Longrightarrow> unat (c + 1) = unat c + 1"
  by (simp add: unat_word_ariths)

lemma u32_dec: "0 < unat (c :: u32) \<Longrightarrow> unat (c - 1) = unat c - 1"
  by (simp add: unat_minus_one unat_gt_0)

lemma rh_inv_handle:
  assumes "rh_inv exact n h" and "v \<in> rh_handles (rh_var h) r"
  obtains c where "rh_count h r = Some c" "unat c \<le> n" "0 < unat c"
    "card (rh_handles (rh_var h) r) \<le> unat c" "exact \<longrightarrow> card (rh_handles (rh_var h) r) = unat c"
proof -
  have "rh_handles (rh_var h) r \<noteq> {}" using assms(2) by blast
  then obtain c where "rh_count h r = Some c" using assms(1) unfolding rh_inv_def by blast
  moreover from this have "card (rh_handles (rh_var h) r) \<le> unat c \<and> 0 < unat c \<and> unat c \<le> n \<and>
      (exact \<longrightarrow> card (rh_handles (rh_var h) r) = unat c)"
    using assms(1) unfolding rh_inv_def by blast
  ultimately show thesis using that by blast
qed

lemma rh_inv_init: "rh_inv exact 0 rh_init"
  by (auto simp: rh_inv_def rh_init_def rh_handles_def)

lemma rh_inv_new:
  assumes "rh_inv exact n h" and "rh_legal (New v r) h"
  shows "rh_inv exact (Suc n) (rh_construct v r h)"
proof -
  have "rh_handles (rh_var h) r = {}" and "\<And>r. v \<notin> rh_handles (rh_var h) r"
    using assms by (auto simp: rh_inv_def rh_handles_def)
  then show ?thesis
    using assms(1) by (auto simp: rh_inv_def rh_construct_def rh_handles_upd le_Suc_eq)
qed

lemma rh_inv_share:
  assumes "rh_inv exact n h" and "rh_var h v = Some (Some r)" and "Suc n < 2 ^ 32"
    and "rh_var h w = None \<or> \<not> exact" and "w \<noteq> v"
  shows "rh_inv exact (Suc n) (rh_assign w v h)"
proof -
  have "v \<in> rh_handles (rh_var h) r" using assms(2) by (simp add: rh_handles_def)
  then obtain c where c: "rh_count h r = Some c" "unat c \<le> n"
      "card (rh_handles (rh_var h) r) \<le> unat c" "exact \<longrightarrow> card (rh_handles (rh_var h) r) = unat c"
    using rh_inv_handle [OF assms(1)] by metis
  have inc: "unat (c + 1) = Suc (unat c)" using c(2) assms(3) u32_inc [of c] by simp
  have fin: "finite (rh_handles (rh_var h) r)" using assms(1) by (simp add: rh_inv_def)
  have card_le: "card (insert w (rh_handles (rh_var h) r)) \<le> Suc (card (rh_handles (rh_var h) r))"
    using fin by (rule card_insert_le_m1 [rotated] | simp add: card_insert_if)+
  have fresh: "exact \<Longrightarrow> w \<notin> rh_handles (rh_var h) r'" for r'
    using assms(4) by (simp add: rh_handles_def)
  have minus: "card (rh_handles (rh_var h) r' - {w}) \<le> card (rh_handles (rh_var h) r')" for r'
    using assms(1) by (intro card_mono) (auto simp: rh_inv_def)
  have a: "rh_assign w v h =
      h\<lparr>rh_var := (rh_var h)(w \<mapsto> Some r), rh_count := (rh_count h)(r \<mapsto> c + 1)\<rparr>"
    using assms(2,5) c(1) by (simp add: rh_assign_def rh_add_ref_def)
  have "card (rh_handles ((rh_var h)(w \<mapsto> Some r)) r') \<le> unat c' \<and> 0 < unat c' \<and> unat c' \<le> Suc n \<and>
        (exact \<longrightarrow> card (rh_handles ((rh_var h)(w \<mapsto> Some r)) r') = unat c')"
    if "((rh_count h)(r \<mapsto> c + 1)) r' = Some c'" for r' c'
  proof (cases "r' = r")
    case True
    then have "unat c' = Suc (unat c)" using that inc by simp
    then show ?thesis using True c card_le fin fresh by (auto simp: rh_handles_upd)
  next
    case False
    then have "rh_count h r' = Some c'" using that by simp
    then have "card (rh_handles (rh_var h) r') \<le> unat c' \<and> 0 < unat c' \<and> unat c' \<le> n \<and>
        (exact \<longrightarrow> card (rh_handles (rh_var h) r') = unat c')"
      using assms(1) unfolding rh_inv_def by blast
    with False minus [of r'] fresh [of r'] show ?thesis
      by (cases exact) (auto simp: rh_handles_upd)
  qed
  moreover have "\<forall>r'. rh_handles ((rh_var h)(w \<mapsto> Some r)) r' \<noteq> {} \<longrightarrow> ((rh_count h)(r \<mapsto> c + 1)) r' \<noteq> None"
    using assms(1) by (auto simp: rh_inv_def rh_handles_upd)
  ultimately show ?thesis using assms(1) by (auto simp: rh_inv_def a rh_handles_upd)
qed

lemma rh_inv_destroy:
  assumes "rh_inv exact n h" and "rh_var h v = Some x"
  shows "rh_inv exact (Suc n) (rh_destroy v h)"
proof (cases x)
  case None
  then have "rh_handles ((rh_var h)(v := None)) r = rh_handles (rh_var h) r" for r
    using assms(2) by (auto simp: rh_handles_def)
  moreover have "rh_destroy v h = h\<lparr>rh_var := (rh_var h)(v := None)\<rparr>"
    using assms(2) None by (simp add: rh_destroy_def rh_drop_ref_def)
  ultimately show ?thesis using assms(1) unfolding rh_inv_def by (simp add: le_SucI)
next
  case (Some r)
  then have v: "v \<in> rh_handles (rh_var h) r" and other: "\<And>r'. r' \<noteq> r \<Longrightarrow> v \<notin> rh_handles (rh_var h) r'"
    using assms(2) by (auto simp: rh_handles_def)
  from rh_inv_handle [OF assms(1) this(1)]
  obtain c where c: "rh_count h r = Some c" "unat c \<le> n" "0 < unat c"
      "card (rh_handles (rh_var h) r) \<le> unat c" "exact \<longrightarrow> card (rh_handles (rh_var h) r) = unat c"
    by blast
  have fin: "finite (rh_handles (rh_var h) r)" using assms(1) by (simp add: rh_inv_def)
  have card: "card (rh_handles (rh_var h) r - {v}) = card (rh_handles (rh_var h) r) - 1"
    using v fin by (simp add: card_Diff_singleton)
  have dec: "unat (c - 1) = unat c - 1" using c(3) by (rule u32_dec)
  have zero: "c - 1 = 0 \<Longrightarrow> rh_handles (rh_var h) r - {v} = {}"
  proof -
    assume "c - 1 = 0"
    then have "unat c \<le> 1" using dec by simp
    then have "card (rh_handles (rh_var h) r - {v}) = 0" using c(4) card by simp
    then show ?thesis using fin by simp
  qed
  have pos: "c - 1 \<noteq> 0 \<Longrightarrow> 0 < unat (c - 1)" by (simp add: unat_gt_0)
  have d: "rh_destroy v h = h\<lparr>rh_var := (rh_var h)(v := None),
      rh_count := (rh_count h)(r := if c - 1 = 0 then None else Some (c - 1))\<rparr>"
    using assms(2) Some c(1) by (simp add: rh_destroy_def rh_drop_ref_def)
  have "card (rh_handles ((rh_var h)(v := None)) r') \<le> unat c' \<and> 0 < unat c' \<and> unat c' \<le> Suc n \<and>
        (exact \<longrightarrow> card (rh_handles ((rh_var h)(v := None)) r') = unat c')"
    if "((rh_count h)(r := if c - 1 = 0 then None else Some (c - 1))) r' = Some c'" for r' c'
  proof (cases "r' = r")
    case True
    then have c': "c' = c - 1" "c - 1 \<noteq> 0" using that by (auto split: if_splits)
    then have "unat c' = unat c - 1" and "0 < unat c'" using dec pos by simp_all
    moreover have "rh_handles ((rh_var h)(v := None)) r' = rh_handles (rh_var h) r - {v}"
      using True by (simp add: rh_handles_upd)
    ultimately show ?thesis using c(2,4,5) card by (cases exact) (simp_all add: le_diff_conv)
  next
    case False
    then have "rh_count h r' = Some c'" using that by simp
    then have "card (rh_handles (rh_var h) r') \<le> unat c' \<and> 0 < unat c' \<and> unat c' \<le> n \<and>
        (exact \<longrightarrow> card (rh_handles (rh_var h) r') = unat c')"
      using assms(1) unfolding rh_inv_def by blast
    moreover have "rh_handles ((rh_var h)(v := None)) r' = rh_handles (rh_var h) r'"
      using other [OF False] by (simp add: rh_handles_upd)
    ultimately show ?thesis by simp
  qed
  moreover have "\<forall>r'. rh_handles ((rh_var h)(v := None)) r' \<noteq> {} \<longrightarrow>
      ((rh_count h)(r := if c - 1 = 0 then None else Some (c - 1))) r' \<noteq> None"
    using assms(1) zero by (auto simp: rh_inv_def rh_handles_upd)
  moreover have "finite (rh_handles ((rh_var h)(v := None)) r')" for r'
    using assms(1) by (simp add: rh_inv_def rh_handles_upd)
  moreover have "\<not> rh_fault h" using assms(1) by (simp add: rh_inv_def)
  ultimately show ?thesis unfolding rh_inv_def d by simp
qed

fun rh_exact :: "rh_op \<Rightarrow> bool" where
  "rh_exact (Assign _ _) = False"
| "rh_exact _ = True"

lemma rh_inv_step:
  assumes "rh_inv exact n h" and "rh_legal op h" and "Suc n < 2 ^ 32" and "exact \<longrightarrow> rh_exact op"
  shows "rh_inv exact (Suc n) (rh_step op h)"
proof (cases op)
  case (New v r)
  then show ?thesis using assms rh_inv_new by simp
next
  case (Copy w v)
  with assms(2) obtain r where "rh_var h v = Some (Some r)" "rh_var h w = None"
    by (auto split: option.splits)
  moreover from this have "w \<noteq> v" by auto
  ultimately show ?thesis using assms rh_inv_share Copy by (simp add: rh_copy_def)
next
  case (Assign w v)
  with assms(2) obtain r where r: "rh_var h v = Some (Some r)" by (auto split: option.splits)
  show ?thesis
  proof (cases "w = v")
    case True
    then show ?thesis using assms(1) Assign by (auto simp: rh_assign_def rh_inv_def intro: le_SucI)
  next
    case False
    then show ?thesis using assms r rh_inv_share Assign by simp
  qed
next
  case (Destroy v)
  then show ?thesis using assms rh_inv_destroy by auto
qed

lemma rh_inv_run:
  "rh_run ops h = Some h' \<Longrightarrow> rh_inv exact n h \<Longrightarrow> n + length ops < 2 ^ 32 \<Longrightarrow>
   exact \<longrightarrow> list_all rh_exact ops \<Longrightarrow> rh_inv exact (n + length ops) h'"
proof (induction ops arbitrary: h n)
  case (Cons op ops)
  then have "rh_legal op h" and run: "rh_run ops (rh_step op h) = Some h'" by (auto split: if_splits)
  then have "rh_inv exact (Suc n) (rh_step op h)" using Cons.prems by (intro rh_inv_step) auto
  from Cons.IH [OF run this] Cons.prems show ?case by simp
qed auto

text \<open>
  C26: payloads share their bytes safely. Along any sequence (shorter than 2^32 steps) of
  constructing, copying, assigning and destroying payloads, with fresh names for new objects
  and sources that hold a block, the counted owner is never used after it was freed, and the
  block of every live payload is allocated, its count at least the number of payloads that
  share it. When no live payload is assigned over, the count is exactly that number, so a block
  without a live payload has been freed.
\<close>

theorem payload_refcount_safe:
  assumes "rh_run ops rh_init = Some h" and "length ops < 2 ^ 32"
  shows "\<not> rh_fault h
    \<and> (\<forall>v r. rh_var h v = Some (Some r) \<longrightarrow>
         (\<exists>c. rh_count h r = Some c \<and> card (rh_handles (rh_var h) r) \<le> unat c))
    \<and> (list_all rh_exact ops \<longrightarrow>
         (\<forall>r c. rh_count h r = Some c \<longrightarrow>
            card (rh_handles (rh_var h) r) = unat c \<and> (\<exists>v. rh_var h v = Some (Some r))))"
proof -
  have "rh_inv False (length ops) h"
    using rh_inv_run [OF assms(1) rh_inv_init, of False] assms(2) by simp
  moreover have "rh_inv True (length ops) h" if "list_all rh_exact ops"
    using rh_inv_run [OF assms(1) rh_inv_init, of True] assms(2) that by simp
  moreover have "\<exists>v. rh_var h v = Some (Some r)" if "0 < card (rh_handles (rh_var h) r)" for r
    using that by (auto simp: rh_handles_def card_gt_0_iff)
  ultimately show ?thesis by (fastforce simp: rh_inv_def rh_handles_def)
qed

theorem payload_refcount_safe_witness:
  "case rh_run [New 0 7, Copy 1 0, Destroy 0, Copy 2 1, Destroy 1] rh_init of
     None \<Rightarrow> False
   | Some h \<Rightarrow> \<not> rh_fault h \<and> rh_count h 7 = Some 1"
proof -
  let ?ops = "[New 0 7, Copy 1 0, Destroy 0, Copy 2 1, Destroy 1]"
  obtain h where h: "rh_run ?ops rh_init = Some h" "rh_count h 7 = Some 1"
    by (simp add: rh_init_def rh_construct_def rh_copy_def rh_assign_def rh_add_ref_def rh_destroy_def rh_drop_ref_def)
  then show ?thesis using payload_refcount_safe [OF h(1)] by simp
qed

lemma rh_double_free:
  "rh_legal (New v r) h \<Longrightarrow> rh_fault (rh_destroy v (rh_reset v r' (rh_construct v r h)))"
  by (simp add: rh_construct_def rh_reset_def rh_destroy_def rh_drop_ref_def)

text \<open>
  \<open>Payload::Reset\<close> on a payload that owns its bytes alone frees them and keeps the pointer
  (and does not take the new bytes), so the destructor that follows uses the freed owner.
\<close>

theorem payload_reset_dangles:
  assumes "rh_var h v = None" and "rh_count h r = None" and "\<not> rh_fault h"
  shows "rh_var (rh_reset v r' (rh_construct v r h)) v = Some (Some r)
    \<and> rh_count (rh_reset v r' (rh_construct v r h)) r = None
    \<and> rh_fault (rh_destroy v (rh_reset v r' (rh_construct v r h)))"
  using rh_double_free [of v r h r'] assms
  by (simp add: rh_construct_def rh_reset_def rh_drop_ref_def)

theorem payload_reset_dangles_witness:
  "rh_fault (rh_destroy 0 (rh_reset 0 8 (rh_construct 0 7 rh_init)))"
  using payload_reset_dangles [of rh_init 0 7 8] by (simp add: rh_init_def)

end
