(* ===== verification/RtmpChunk.thy ===== *)
theory RtmpChunk
  imports BitIO Payload
begin

text \<open>
  The chunk layer of \<open>src/rtmp_protocol.cpp\<close>: the part of \<open>RtmpProtocol::Parse\<close> that runs once
  the handshake is done (lines 288 to 447), and \<open>SendData\<close> with the senders built on it.

  A receive buffer is its content. \<open>csid_head_\<close> and \<open>csid_pre_info_\<close> are maps from chunk stream
  ids to messages; \<open>operator[]\<close> creates the entry (\<open>rm_ref\<close>). The block a message is assembled
  in is its allocated size and the bytes written so far; writing past it sets \<open>ri_fault\<close>.
  \<open>malloc\<close> is taken to succeed here.

  The lemmas give one step of the parser on each header format, show that no length the peer
  sends makes the parser leave the block as long as the announced length does not change inside
  a message, and that the bytes \<open>SendData\<close> sends hold exactly its messages, for a reader that takes up
  announced chunk sizes (\<open>rtmp_recv\<close>). \<open>OnRtmpMessage\<close> and \<open>HandleRead\<close> are in theory \<open>RtmpSession\<close>;
  theory \<open>RtmpLink\<close> states these facts of them.
\<close>

section \<open>Messages\<close>

record rtmp_message =
  rm_cs_id :: u32
  rm_timestamp :: u32
  rm_timestamp_delta :: u32
  rm_timestamp_calc :: u32
  rm_message_length :: u32
  rm_message_type_id :: u8
  rm_message_stream_id :: u32
  rm_msg :: bytes \<comment> \<open>the bytes behind \<open>msg\<close> that have been written\<close>
  rm_block :: "nat option" \<comment> \<open>the size of the block \<open>msg\<close> points to; \<open>None\<close>: NULL\<close>
  rm_len :: u32

definition rm_new :: rtmp_message where
  "rm_new = \<lparr>rm_cs_id = 0, rm_timestamp = 0, rm_timestamp_delta = 0, rm_timestamp_calc = 0,
     rm_message_length = 0, rm_message_type_id = 0, rm_message_stream_id = 0,
     rm_msg = [], rm_block = None, rm_len = 0\<rparr>"

definition rm_assign :: "rtmp_message \<Rightarrow> rtmp_message" where
  \<comment> \<open>\<open>operator=\<close>: everything but the block\<close>
  "rm_assign other = other\<lparr>rm_msg := [], rm_block := None, rm_len := 0\<rparr>"

definition rm_ref :: "(u32 \<Rightarrow> rtmp_message option) \<Rightarrow> u32 \<Rightarrow> rtmp_message" where
  "rm_ref m cs = (case m cs of None \<Rightarrow> rm_new | Some x \<Rightarrow> x)"

definition kSetChunkSize :: u8 where "kSetChunkSize = 1"
definition kAcknowledgement :: u8 where "kAcknowledgement = 3"
definition kUserControlMessage :: u8 where "kUserControlMessage = 4"
definition kWindowAcknowledgementSize :: u8 where "kWindowAcknowledgementSize = 5"
definition kSetPeerBandwidth :: u8 where "kSetPeerBandwidth = 6"
definition kAudio :: u8 where "kAudio = 8"
definition kVideo :: u8 where "kVideo = 9"
definition kMetaData_AMF0 :: u8 where "kMetaData_AMF0 = 18"
definition kAmf0Command :: u8 where "kAmf0Command = 20"

definition bswap32 :: "u32 \<Rightarrow> u32" where
  \<comment> \<open>\<open>be32toh\<close> and \<open>htobe32\<close> on a little-endian host\<close>
  "bswap32 x = word_of_nat (be_val (rev (be 4 (unat x))))"

section \<open>Receiving: one chunk\<close>

record rtmp_in =
  ri_chunk_size :: u32
  ri_head :: "u32 \<Rightarrow> rtmp_message option"
  ri_fault :: bool

datatype chunk_result = ChunkNoData | ChunkMore | ChunkMessage u32

definition rtmp_basic_header :: "bytes \<Rightarrow> (u8 \<times> u32 \<times> nat) option" where
  \<comment> \<open>\<open>fmt\<close>, \<open>cs_id\<close>, \<open>chunk_header_len\<close>\<close>
  "rtmp_basic_header xs =
     (if length xs < 1 then None
      else let (_, fmt, b) = bb_get_bits 2 (0 :: u8) (bb_new (take 1 xs));
               (_, cs_id, _) = bb_get_bits 6 (0 :: u32) b
           in if cs_id = 0 then
                (if 2 \<le> length xs
                 then let (_, c, _) = bb_get_bits 8 cs_id (bb_new (take 1 (drop 1 xs))) in Some (fmt, c + 64, 2)
                 else None)
              else if cs_id = 1 then
                (if 3 \<le> length xs
                 then let (_, c, _) = bb_get_bits 16 cs_id (bb_new (take 2 (drop 1 xs))) in Some (fmt, c + 64, 3)
                 else None)
              else Some (fmt, cs_id, 1))"

definition rtmp_message_header_len :: "u8 \<Rightarrow> nat" where
  "rtmp_message_header_len fmt = (if fmt = 0 then 11 else if fmt = 1 then 7 else if fmt = 2 then 3 else 0)"

definition rtmp_message_header :: "u8 \<Rightarrow> bytes \<Rightarrow> rtmp_message \<Rightarrow> rtmp_message" where
  "rtmp_message_header fmt hdr m =
     (if fmt = 0 then
        let (_, timestamp, b1) = bb_get_bytes 3 (bb_new hdr);
            (_, message_length, b2) = bb_get_bytes 3 b1;
            (_, message_type_id, b3) = bb_get_bytes 1 b2;
            (_, message_stream_id, _) = bb_get_bytes 4 b3
        in m\<lparr>rm_timestamp := timestamp, rm_timestamp_calc := timestamp,
             rm_message_length := message_length, rm_message_type_id := message_type_id,
             rm_message_stream_id := bswap32 message_stream_id\<rparr>
      else if fmt = 1 then
        let (_, timestamp_delta, b1) = bb_get_bytes 3 (bb_new hdr);
            (_, message_length, b2) = bb_get_bytes 3 b1;
            (_, message_type_id, _) = bb_get_bytes 1 b2
        in m\<lparr>rm_timestamp_delta := timestamp_delta, rm_message_length := message_length,
             rm_message_type_id := message_type_id\<rparr>
      else if fmt = 2 then
        let (_, timestamp_delta, _) = bb_get_bytes 3 (bb_new hdr) in m\<lparr>rm_timestamp_delta := timestamp_delta\<rparr>
      else m)"

definition rtmp_read_len :: "u32 \<Rightarrow> rtmp_message \<Rightarrow> u32" where
  "rtmp_read_len chunk_size m =
     (let read_len = rm_message_length m - rm_len m
      in if chunk_size < read_len then chunk_size else read_len)"

definition rtmp_store :: "bytes \<Rightarrow> rtmp_message \<Rightarrow> rtmp_message \<times> bool" where
  \<comment> \<open>copies into the block (allocated when \<open>len == 0\<close>) at offset \<open>len\<close>; the flag: within the block\<close>
  "rtmp_store data m =
     (let m1 = (if rm_len m = 0
                then m\<lparr>rm_block := Some (unat (rm_message_length m)), rm_msg := []\<rparr> else m)
      in (m1\<lparr>rm_msg := take (unat (rm_len m1)) (rm_msg m1) @ data\<rparr>,
          data = [] \<or> (case rm_block m1 of None \<Rightarrow> False | Some n \<Rightarrow> unat (rm_len m1) + length data \<le> n)))"

definition rtmp_read_chunk :: "rtmp_in \<Rightarrow> bytes \<Rightarrow> chunk_result \<times> rtmp_in \<times> bytes" where
  "rtmp_read_chunk st xs =
     (case rtmp_basic_header xs of
        None \<Rightarrow> (ChunkNoData, st, xs)
      | Some (fmt, cs_id, chl) \<Rightarrow>
          let m = rm_ref (ri_head st) cs_id;
              mhl = rtmp_message_header_len fmt
          in if length xs < chl + mhl
             then (ChunkNoData, st\<lparr>ri_head := (ri_head st)(cs_id \<mapsto> m)\<rparr>, xs)
             else
               let m1 = rtmp_message_header fmt (take mhl (drop chl xs)) m;
                   read_len = rtmp_read_len (ri_chunk_size st) m1
               in if length xs < unat (word_of_nat (chl + mhl) + read_len)
                  then (ChunkNoData, st\<lparr>ri_head := (ri_head st)(cs_id \<mapsto> m1)\<rparr>, xs)
                  else
                    let rest = drop (chl + mhl) xs;
                        data = take (unat read_len) rest;
                        (m2, ok) = rtmp_store data m1;
                        m3 = m2\<lparr>rm_len := rm_len m2 + read_len\<rparr>;
                        m4 = (if rm_len m3 = rm_message_length m3
                              then m3\<lparr>rm_timestamp_calc := rm_timestamp_calc m3 + rm_timestamp_delta m3\<rparr>
                              else m3)
                    in (if rm_len m3 = rm_message_length m3 then ChunkMessage cs_id else ChunkMore,
                        st\<lparr>ri_head := (ri_head st)(cs_id \<mapsto> m4), ri_fault := ri_fault st \<or> \<not> ok\<rparr>,
                        drop (unat read_len) rest))"

definition rtmp_take_message :: "u32 \<Rightarrow> rtmp_in \<Rightarrow> rtmp_message \<times> rtmp_in" where
  \<comment> \<open>the message handed to \<open>OnRtmpMessage\<close>, and the state once its block is freed\<close>
  "rtmp_take_message cs_id st =
     (let m = (rm_ref (ri_head st) cs_id)\<lparr>rm_cs_id := cs_id\<rparr>
      in (m, st\<lparr>ri_head := (ri_head st)(cs_id \<mapsto> m\<lparr>rm_msg := [], rm_block := None, rm_len := 0\<rparr>)\<rparr>))"

section \<open>Sending\<close>

record rtmp_out =
  ro_chunk_size :: u32
  ro_pre :: "u32 \<Rightarrow> rtmp_message option"

definition rtmp_chunk_count :: "u32 \<Rightarrow> u32 \<Rightarrow> nat" where
  "rtmp_chunk_count chunk_size len =
     (if chunk_size < len
      then unat len div unat chunk_size + (if unat len mod unat chunk_size \<noteq> 0 then 1 else 0)
      else 1)"

definition rtmp_fmt :: "rtmp_message \<Rightarrow> rtmp_message \<Rightarrow> bool \<Rightarrow> nat" where
  "rtmp_fmt pre cur force_fmt0 =
     (if rm_message_length pre = 0 \<or> force_fmt0 then 0
      else if rm_message_length pre = rm_message_length cur then
        if rm_message_type_id pre = rm_message_type_id cur then
          if rm_timestamp_delta pre = rm_timestamp_delta cur then 3 else 2
        else 1
      else 1)"

definition rtmp_first_byte :: "nat \<Rightarrow> u32 \<Rightarrow> u8" where
  \<comment> \<open>\<open>header.WriteU8(fmt << 6 | cs_id)\<close>\<close>
  "rtmp_first_byte fmt cs_id = ucast (push_bit 6 (word_of_nat fmt) OR cs_id)"

definition rtmp_u24 :: "u32 \<Rightarrow> bytes" where
  "rtmp_u24 x = drop 1 (be 4 (unat x))"

definition rtmp_header :: "nat \<Rightarrow> rtmp_message \<Rightarrow> bytes" where
  "rtmp_header fmt cur =
     [rtmp_first_byte fmt (rm_cs_id cur)] @
     (if fmt = 0 then
        rtmp_u24 (rm_timestamp_delta cur) @ rtmp_u24 (rm_message_length cur) @
        [rm_message_type_id cur] @ be 4 (unat (bswap32 (rm_message_stream_id cur)))
      else if fmt = 1 then
        rtmp_u24 (rm_timestamp_delta cur) @ rtmp_u24 (rm_message_length cur) @ [rm_message_type_id cur]
      else if fmt = 2 then rtmp_u24 (rm_timestamp_delta cur)
      else [])"

definition rtmp_video_header :: "payload \<Rightarrow> bytes" where
  "rtmp_video_header p =
     (if pl_is_video p
      then [if pl_is_iframe p then 0x17 else 0x27, 0x01] @ rtmp_u24 (pl_pts32 p - pl_dts32 p)
      else [])"

fun rtmp_send_chunks :: "nat \<Rightarrow> nat \<Rightarrow> u32 \<Rightarrow> rtmp_message \<Rightarrow> bytes \<Rightarrow> nat \<Rightarrow> bytes list" where
  \<comment> \<open>the chunks \<open>i\<close>, \<open>i + 1\<close>, ... after the first (\<open>left\<close> of them), \<open>pos\<close> the position in the message\<close>
  "rtmp_send_chunks 0 i chunk_size cur data pos = []"
| "rtmp_send_chunks (Suc left) i chunk_size cur data pos =
     (let send_len0 = rm_message_length cur - word_of_nat i * chunk_size;
          send_len = unat (if chunk_size < send_len0 then chunk_size else send_len0)
      in [[rtmp_first_byte 3 (rm_cs_id cur)], take send_len (drop pos data)]
         @ rtmp_send_chunks left (i + 1) chunk_size cur data (pos + send_len))"

definition rtmp_send_data :: "rtmp_message \<Rightarrow> bytes \<Rightarrow> payload \<Rightarrow> bool \<Rightarrow> rtmp_out \<Rightarrow> bytes list \<times> rtmp_out" where
  \<comment> \<open>\<open>SendData(cur_info, payload, force_fmt0)\<close>; \<open>data\<close> is what \<open>cur_info.msg\<close> points to; the
     result is the list of \<open>socket_->Send\<close> calls\<close>
  "rtmp_send_data cur data p force_fmt0 st =
     (let pre = rm_ref (ro_pre st) (rm_cs_id cur);
          chunk_size = ro_chunk_size st;
          count = rtmp_chunk_count chunk_size (rm_message_length cur);
          fmt = rtmp_fmt pre cur force_fmt0;
          send_len = unat (if chunk_size < rm_message_length cur then chunk_size else rm_message_length cur);
          n = (if pl_is_video p then send_len - 5 else send_len)
      in ([rtmp_header fmt cur @ rtmp_video_header p, take n data]
            @ rtmp_send_chunks (count - 1) 1 chunk_size cur data n,
          st\<lparr>ro_pre := (ro_pre st)(rm_cs_id cur \<mapsto> rm_assign cur)\<rparr>))"

definition rtmp_send_message :: "u32 \<Rightarrow> u32 \<Rightarrow> u8 \<Rightarrow> bytes \<Rightarrow> rtmp_out \<Rightarrow> bytes list \<times> rtmp_out" where
  \<comment> \<open>\<open>SendRtmpMessage\<close>\<close>
  "rtmp_send_message cs_id message_stream_id message_type_id data =
     rtmp_send_data
       (rm_new\<lparr>rm_cs_id := cs_id, rm_timestamp := 0, rm_timestamp_delta := 0,
          rm_message_length := word_of_nat (length data), rm_message_type_id := message_type_id,
          rm_message_stream_id := message_stream_id, rm_len := word_of_nat (length data)\<rparr>)
       data (pl_empty 0 0) (message_type_id \<noteq> kAudio \<and> message_type_id \<noteq> kVideo)"

definition rtmp_media_message :: "payload \<Rightarrow> rtmp_out \<Rightarrow> rtmp_message" where
  "rtmp_media_message p st =
     (let cs_id = (if pl_is_audio p then 4 else 6);
          timestamp = ucast (pl_dts p);
          delta = (case ro_pre st cs_id of None \<Rightarrow> 0 | Some pre \<Rightarrow> timestamp - rm_timestamp pre);
          len = ucast (pl_len p)
      in rm_new\<lparr>rm_cs_id := cs_id, rm_timestamp := timestamp, rm_timestamp_delta := delta,
           rm_message_length := (if pl_is_audio p then len else if pl_is_video p then len + 5 else len),
           rm_message_type_id := (if pl_is_audio p then kAudio else if pl_is_video p then kVideo else 0),
           rm_len := len\<rparr>)"

definition rtmp_send_media :: "payload \<Rightarrow> rtmp_out \<Rightarrow> bytes list \<times> rtmp_out" where
  \<comment> \<open>\<open>SendMediaData\<close>\<close>
  "rtmp_send_media p st =
     rtmp_send_data (rtmp_media_message p st) (case pl_data p of None \<Rightarrow> [] | Some d \<Rightarrow> d) p False st"

definition rtmp_send_video_header :: "bytes \<Rightarrow> rtmp_out \<Rightarrow> bytes list \<times> rtmp_out" where
  "rtmp_send_video_header header = rtmp_send_message 6 1 kVideo ([0x17, 0x00, 0x00, 0x00, 0x00] @ header)"

definition rtmp_send_audio_header :: "bytes \<Rightarrow> rtmp_out \<Rightarrow> bytes list \<times> rtmp_out" where
  "rtmp_send_audio_header header = rtmp_send_message 4 1 kAudio ([0xAF, 0x00] @ header)"

definition rtmp_send_metadata :: "bytes \<Rightarrow> rtmp_out \<Rightarrow> bytes list \<times> rtmp_out" where
  "rtmp_send_metadata metadata = rtmp_send_message 4 1 kMetaData_AMF0 metadata"

section \<open>The receive loop\<close>

lemma rtmp_basic_header_bounds:
  "rtmp_basic_header xs = Some (fmt, cs_id, chl) \<Longrightarrow> 1 \<le> chl \<and> chl \<le> length xs"
  by (auto simp: rtmp_basic_header_def Let_def split_def Suc_le_eq split: if_splits)

lemma rtmp_basic_header_append:
  "rtmp_basic_header xs = Some r \<Longrightarrow> rtmp_basic_header (xs @ ys) = Some r"
proof -
  consider "xs = []" | a where "xs = [a]" | a b where "xs = [a, b]" | a b c t where "xs = a # b # c # t"
    by (metis neq_Nil_conv)
  then show "rtmp_basic_header xs = Some r \<Longrightarrow> rtmp_basic_header (xs @ ys) = Some r"
    by cases (simp_all add: rtmp_basic_header_def Let_def split_def numeral_2_eq_2 numeral_3_eq_3 split: if_splits)
qed

lemma rtmp_read_chunk_progress:
  "rtmp_read_chunk st xs = (r, st', ys) \<Longrightarrow> if r = ChunkNoData then ys = xs else length ys < length xs"
  by (auto simp: rtmp_read_chunk_def Let_def split_def split: option.splits if_splits
      dest!: rtmp_basic_header_bounds)

definition rtmp_resized :: "rtmp_message \<Rightarrow> rtmp_in \<Rightarrow> rtmp_in" where
  \<comment> \<open>all that the handlers of messages change in the state of the receiver (\<open>OnSetChunkSize\<close>)\<close>
  "rtmp_resized m st =
     (if rm_message_type_id m = kSetChunkSize
      then let (_, chunk_size, _) = bb_get_bytes 4 (bb_new (rm_msg m)) in st\<lparr>ri_chunk_size := chunk_size\<rparr>
      else st)"

text \<open>
  The messages in a stream of chunks, the state after them and the bytes of an incomplete chunk. A chunk
  size takes effect behind the message that announces it. That \<open>HandleRead\<close> hands exactly these
  messages to \<open>OnRtmpMessage\<close>, until one is not accepted, is proved in theory \<open>RtmpLink\<close>.
\<close>

function rtmp_recv :: "rtmp_in \<Rightarrow> bytes \<Rightarrow> rtmp_message list \<times> rtmp_in \<times> bytes" where
  "rtmp_recv st xs =
     (case rtmp_read_chunk st xs of
        (ChunkNoData, st1, ys) \<Rightarrow> ([], st1, xs)
      | (ChunkMore, st1, ys) \<Rightarrow> rtmp_recv st1 ys
      | (ChunkMessage cs_id, st1, ys) \<Rightarrow>
          let (m, st2) = rtmp_take_message cs_id st1; (ms, st3, zs) = rtmp_recv (rtmp_resized m st2) ys
          in (m # ms, st3, zs))"
  by pat_completeness auto

termination
  by (relation "measure (\<lambda>(st, xs). length xs)") (auto dest!: rtmp_read_chunk_progress [OF sym])

declare rtmp_recv.simps [simp del]

section \<open>TCP may cut the stream anywhere\<close>

lemma rtmp_message_header_idem:
  "rtmp_message_header fmt hdr (rtmp_message_header fmt hdr m) = rtmp_message_header fmt hdr m"
  by (simp add: rtmp_message_header_def Let_def split_def)

lemma rtmp_message_header_keeps [simp]:
  "rm_len (rtmp_message_header fmt hdr m) = rm_len m"
  "rm_msg (rtmp_message_header fmt hdr m) = rm_msg m"
  "rm_block (rtmp_message_header fmt hdr m) = rm_block m"
  "rm_cs_id (rtmp_message_header fmt hdr m) = rm_cs_id m"
  by (simp_all add: rtmp_message_header_def Let_def split_def)

lemma rm_ref_upd [simp]: "rm_ref (h(cs \<mapsto> m)) cs = m"
  by (simp add: rm_ref_def)

lemma rtmp_header_len_le: "rtmp_message_header_len fmt \<le> 11"
  by (simp add: rtmp_message_header_len_def)

lemma basic_header_len_le: "rtmp_basic_header xs = Some (fmt, cs_id, chl) \<Longrightarrow> chl \<le> 3"
  by (auto simp: rtmp_basic_header_def Let_def split_def split: if_splits)

lemma rtmp_read_len_le: "unat (rtmp_read_len c m) \<le> unat c"
  by (simp add: rtmp_read_len_def Let_def word_less_nat_alt not_less)

lemma rtmp_no_wrap:
  assumes "rtmp_basic_header xs = Some (fmt, cs_id, chl)" and "unat c < 2 ^ 31"
  shows "unat (word_of_nat (chl + rtmp_message_header_len fmt) + rtmp_read_len c m)
    = chl + rtmp_message_header_len fmt + unat (rtmp_read_len c m)"
proof -
  have "chl + rtmp_message_header_len fmt \<le> 14"
    using basic_header_len_le [OF assms(1)] rtmp_header_len_le [of fmt] by simp
  moreover have "unat (rtmp_read_len c m) < 2 ^ 31"
    using rtmp_read_len_le [of c m] assms(2) by simp
  ultimately show ?thesis by (simp add: unat_word_ariths unat_of_nat)
qed

definition rtmp_in_ok :: "rtmp_in \<Rightarrow> bool" where
  "rtmp_in_ok st \<longleftrightarrow> unat (ri_chunk_size st) < 2 ^ 31"

lemma rtmp_read_chunk_keeps_size:
  "rtmp_read_chunk st xs = (r, st', ys) \<Longrightarrow> ri_chunk_size st' = ri_chunk_size st"
  by (auto simp: rtmp_read_chunk_def Let_def split_def split: option.splits if_splits)

lemma rtmp_read_chunk_append:
  assumes "rtmp_in_ok st" and "rtmp_read_chunk st xs = (r, st', ys)" and "r \<noteq> ChunkNoData"
  shows "rtmp_read_chunk st (xs @ zs) = (r, st', ys @ zs)"
proof -
  obtain fmt cs chl where h: "rtmp_basic_header xs = Some (fmt, cs, chl)"
    using assms(2,3) by (cases "rtmp_basic_header xs") (auto simp: rtmp_read_chunk_def)
  note b = rtmp_basic_header_bounds [OF h]
  define mhl where "mhl = rtmp_message_header_len fmt"
  define m1 where "m1 = rtmp_message_header fmt (take mhl (drop chl xs)) (rm_ref (ri_head st) cs)"
  define n where "n = unat (rtmp_read_len (ri_chunk_size st) m1)"
  have len: "chl + mhl + n \<le> length xs"
    using assms(2,3) h rtmp_no_wrap [OF h assms(1) [unfolded rtmp_in_ok_def], of m1]
    by (auto simp: rtmp_read_chunk_def Let_def mhl_def [symmetric] m1_def [symmetric] n_def [symmetric]
        split: if_splits)
  have eq: "take mhl (drop chl (xs @ zs)) = take mhl (drop chl xs)"
    "take n (drop (chl + mhl) (xs @ zs)) = take n (drop (chl + mhl) xs)"
    "drop n (drop (chl + mhl) (xs @ zs)) = drop n (drop (chl + mhl) xs) @ zs"
    using len by simp_all
  show ?thesis
    using assms(2,3) len rtmp_no_wrap [OF h assms(1) [unfolded rtmp_in_ok_def], of m1]
    by (simp only: rtmp_read_chunk_def h rtmp_basic_header_append [OF h] Let_def mhl_def [symmetric]
        option.case prod.case eq m1_def [symmetric] n_def [symmetric])
      (auto simp: split_def split: if_splits)
qed

lemma rtmp_read_chunk_retry:
  assumes "rtmp_in_ok st" and "rtmp_read_chunk st xs = (ChunkNoData, st', ys)"
  shows "rtmp_read_chunk st' (xs @ zs) = rtmp_read_chunk st (xs @ zs)"
proof (cases "rtmp_basic_header xs")
  case None
  then show ?thesis using assms(2) by (simp add: rtmp_read_chunk_def)
next
  case (Some h)
  obtain fmt cs chl where h: "rtmp_basic_header xs = Some (fmt, cs, chl)" using Some by (cases h) auto
  define mhl where "mhl = rtmp_message_header_len fmt"
  show ?thesis
  proof (cases "length xs < chl + mhl")
    case True
    then have "st' = st\<lparr>ri_head := (ri_head st)(cs \<mapsto> rm_ref (ri_head st) cs)\<rparr>"
      using assms(2) h by (simp add: rtmp_read_chunk_def Let_def mhl_def)
    then show ?thesis
      by (simp add: rtmp_read_chunk_def rtmp_basic_header_append [OF h] Let_def)
  next
    case False
    define m1 where "m1 = rtmp_message_header fmt (take mhl (drop chl xs)) (rm_ref (ri_head st) cs)"
    have st': "st' = st\<lparr>ri_head := (ri_head st)(cs \<mapsto> m1)\<rparr>"
      using assms(2) h False
      by (auto simp: rtmp_read_chunk_def Let_def mhl_def [symmetric] m1_def split: if_splits prod.splits)
    have t: "take mhl (drop chl (xs @ zs)) = take mhl (drop chl xs)" using False by simp
    have idem: "rtmp_message_header fmt (take mhl (drop chl xs)) m1 = m1"
      by (simp only: m1_def rtmp_message_header_idem)
    have len: "\<not> length (xs @ zs) < chl + mhl" using False by simp
    have upd: "st'\<lparr>ri_head := (ri_head st')(cs \<mapsto> x)\<rparr> = st\<lparr>ri_head := (ri_head st)(cs \<mapsto> x)\<rparr>"
      "ri_chunk_size st' = ri_chunk_size st" "ri_fault st' = ri_fault st" "rm_ref (ri_head st') cs = m1"
      "st'\<lparr>ri_head := (ri_head st')(cs \<mapsto> x), ri_fault := f\<rparr> = st\<lparr>ri_head := (ri_head st)(cs \<mapsto> x), ri_fault := f\<rparr>"
      for x f by (simp_all add: st')
    show ?thesis
      by (simp only: rtmp_read_chunk_def rtmp_basic_header_append [OF h] Let_def option.case prod.case
          mhl_def [symmetric] len t upd idem m1_def [symmetric] if_False)
  qed
qed

lemma rtmp_recv_eqs:
  "rtmp_read_chunk st xs = (ChunkNoData, st1, ys) \<Longrightarrow> rtmp_recv st xs = ([], st1, xs)"
  "rtmp_read_chunk st xs = (ChunkMore, st1, ys) \<Longrightarrow> rtmp_recv st xs = rtmp_recv st1 ys"
  "rtmp_read_chunk st xs = (ChunkMessage cs, st1, ys) \<Longrightarrow> rtmp_take_message cs st1 = (m, st2) \<Longrightarrow>
   rtmp_recv st xs = (let (ms, st3, zs) = rtmp_recv (rtmp_resized m st2) ys in (m # ms, st3, zs))"
  by (simp_all add: rtmp_recv.simps [of st xs])

lemma rtmp_recv_Nil [simp]: "rtmp_recv st [] = ([], st, [])"
  by (simp add: rtmp_recv.simps [of st] rtmp_read_chunk_def rtmp_basic_header_def)

lemma rtmp_resized_other [simp]: "rm_message_type_id m \<noteq> kSetChunkSize \<Longrightarrow> rtmp_resized m st = st"
  by (simp add: rtmp_resized_def)

section \<open>Headers\<close>

lemma first_byte_unat:
  assumes "fmt < 4" and "unat cs < 64"
  shows "unat (rtmp_first_byte fmt cs) = 64 * fmt + unat cs"
proof -
  have bits: "\<not> bit cs j" if "6 \<le> j" for j
  proof -
    have "take_bit 6 (unat cs) = unat cs" using assms(2) by (simp add: take_bit_nat_eq_self_iff)
    then have "\<not> bit (unat cs) j" using that by (metis bit_take_bit_iff not_less)
    then show ?thesis by (simp add: bit_unsigned_iff)
  qed
  then have "push_bit 6 (word_of_nat fmt :: u32) AND cs = 0"
    by (intro bit_word_eqI) (auto simp: bit_simps not_le)
  then have "push_bit 6 (word_of_nat fmt) OR cs = push_bit 6 (word_of_nat fmt) + cs"
    by (simp add: disjunctive_add_eq_or)
  also have "\<dots> = word_of_nat (64 * fmt + unat cs)" by (simp add: push_bit_eq_mult mult.commute)
  finally have "rtmp_first_byte fmt cs = ucast (word_of_nat (64 * fmt + unat cs) :: u32)"
    by (simp add: rtmp_first_byte_def)
  moreover have "64 * fmt + unat cs < 256" using assms by simp
  moreover have "unat (ucast (word_of_nat n :: u32) :: u8) = n" if "n < 256" for n
    using that by (simp add: unsigned_ucast_eq unat_of_nat take_bit_nat_eq_self_iff)
  ultimately show ?thesis by metis
qed

lemma basic_header_first:
  assumes "fmt < 4" and "2 \<le> unat cs" and "unat cs < 64"
  shows "rtmp_basic_header (rtmp_first_byte fmt cs # xs) = Some (word_of_nat fmt, cs, 1)"
proof -
  let ?b = "rtmp_first_byte fmt cs"
  have u: "unat ?b = 64 * fmt + unat cs" using assms by (simp add: first_byte_unat)
  have a: "bits_num [?b] 0 2 = fmt"
    using bits_num_prefix [of 2 "[?b]" 0] u assms by (simp add: drop_bit_eq_div)
  have "bits_num [?b] 0 8 = bits_num [?b] 0 2 * 64 + bits_num [?b] 2 6"
    using bits_num_add [of "[?b]" 0 2 6]
    by (simp del: add_2_eq_Suc add_2_eq_Suc')
  moreover have "bits_num [?b] 0 8 = unat ?b" using bits_num_byte [of "[?b]" 0] by simp
  ultimately have b: "bits_num [?b] 2 6 = unat cs" using u a by simp
  have "cs \<noteq> 0" and "cs \<noteq> 1" using assms(2) by auto
  then show ?thesis
    by (simp add: rtmp_basic_header_def bb_get_bits_value bb_new_def bb_more_bits_def bb_bits_left_def a b
        del: add_2_eq_Suc add_2_eq_Suc')
qed

lemma rtmp_u24_be: "rtmp_u24 x = be 3 (unat x)"
  using drop_be [of 1 3] by (simp add: rtmp_u24_def)

lemma bswap32_bswap32: "bswap32 (bswap32 x) = x"
proof -
  have "unat (bswap32 x) = be_val (rev (be 4 (unat x)))"
    using be_val_bound [of "rev (be 4 (unat x))"] by (simp add: bswap32_def unat_of_nat)
  moreover have "be 4 (be_val (rev (be 4 (unat x)))) = rev (be 4 (unat x))"
    using be_be_val [of "rev (be 4 (unat x))"] by simp
  ultimately have "bswap32 (bswap32 x) = word_of_nat (be_val (be 4 (unat x)))"
    by (simp add: bswap32_def [of "bswap32 x"])
  then show ?thesis by (simp add: be_val_be_unat)
qed

definition rtmp_applied :: "nat \<Rightarrow> rtmp_message \<Rightarrow> rtmp_message \<Rightarrow> rtmp_message" where
  \<comment> \<open>what the receiver's entry becomes on the header of \<open>cur\<close>\<close>
  "rtmp_applied fmt cur m =
     (if fmt = 0 then
        m\<lparr>rm_timestamp := rm_timestamp_delta cur, rm_timestamp_calc := rm_timestamp_delta cur,
          rm_message_length := rm_message_length cur, rm_message_type_id := rm_message_type_id cur,
          rm_message_stream_id := rm_message_stream_id cur\<rparr>
      else if fmt = 1 then
        m\<lparr>rm_timestamp_delta := rm_timestamp_delta cur, rm_message_length := rm_message_length cur,
          rm_message_type_id := rm_message_type_id cur\<rparr>
      else if fmt = 2 then m\<lparr>rm_timestamp_delta := rm_timestamp_delta cur\<rparr>
      else m)"

definition rtmp_fields :: "nat \<Rightarrow> rtmp_message \<Rightarrow> bytes" where
  "rtmp_fields fmt cur =
     (if fmt = 0 then
        rtmp_u24 (rm_timestamp_delta cur) @ rtmp_u24 (rm_message_length cur) @
        [rm_message_type_id cur] @ be 4 (unat (bswap32 (rm_message_stream_id cur)))
      else if fmt = 1 then
        rtmp_u24 (rm_timestamp_delta cur) @ rtmp_u24 (rm_message_length cur) @ [rm_message_type_id cur]
      else if fmt = 2 then rtmp_u24 (rm_timestamp_delta cur)
      else [])"

lemma rtmp_header_fields: "rtmp_header fmt cur = rtmp_first_byte fmt (rm_cs_id cur) # rtmp_fields fmt cur"
  by (simp add: rtmp_header_def rtmp_fields_def)

lemma rtmp_fields_length:
  "fmt < 4 \<Longrightarrow> rtmp_message_header_len (word_of_nat fmt) = length (rtmp_fields fmt cur)"
proof -
  assume "fmt < 4"
  then consider "fmt = 0" | "fmt = 1" | "fmt = 2" | "fmt = 3" by linarith
  then show ?thesis by cases (simp_all add: rtmp_message_header_len_def rtmp_fields_def rtmp_u24_be)
qed

lemma u24_value: "unat (x :: u32) < 2 ^ 24 \<Longrightarrow> word_of_nat (be_val (be 3 (unat x))) = x"
  by (simp add: be_val_be)

lemma be1_value: "be_val [t] = unat t"
  by (simp add: be_val_def)

lemma rtmp_message_header_fields:
  assumes "fmt < 4" and "unat (rm_timestamp_delta cur) < 2 ^ 24" and "unat (rm_message_length cur) < 2 ^ 24"
  shows "rtmp_message_header (word_of_nat fmt) (rtmp_fields fmt cur) m = rtmp_applied fmt cur m"
proof -
  note [simp] = bb_new_at bb_get_bytes_at rtmp_u24_be u24_value [OF assms(2)] u24_value [OF assms(3)]
    be1_value be_val_be_unat bswap32_bswap32 rtmp_message_header_def rtmp_fields_def rtmp_applied_def
  from assms(1) consider "fmt = 0" | "fmt = 1" | "fmt = 2" | "fmt = 3" by linarith
  then show ?thesis by cases simp_all
qed

section \<open>What is sent is what is received\<close>

lemma rtmp_chunk_step:
  assumes hdr: "fmt < 4" "2 \<le> unat cs" "unat cs < 64" "rtmp_in_ok st"
    and flds: "length flds = rtmp_message_header_len (word_of_nat fmt)"
      "rtmp_message_header (word_of_nat fmt) flds (rm_ref (ri_head st) cs) = m1"
    and body: "unat (rm_message_length m1) = length body" "unat (rm_len m1) = k" "k < length body \<or> k = 0"
      "k \<noteq> 0 \<Longrightarrow> rm_msg m1 = take k body \<and> rm_block m1 = Some (length body)"
    and n: "n = min (unat (ri_chunk_size st)) (length body - k)"
  shows "rtmp_read_chunk st (rtmp_first_byte fmt cs # flds @ take n (drop k body) @ zs) =
    (let m2 = m1\<lparr>rm_msg := take (k + n) body, rm_block := Some (length body), rm_len := word_of_nat (k + n)\<rparr>
     in if k + n = length body
        then (ChunkMessage cs, st\<lparr>ri_head := (ri_head st)(cs \<mapsto>
                m2\<lparr>rm_timestamp_calc := rm_timestamp_calc m2 + rm_timestamp_delta m2\<rparr>)\<rparr>, zs)
        else (ChunkMore, st\<lparr>ri_head := (ri_head st)(cs \<mapsto> m2)\<rparr>, zs))"
proof -
  define xs where "xs = rtmp_first_byte fmt cs # flds @ take n (drop k body) @ zs"
  define mhl where "mhl = rtmp_message_header_len (word_of_nat fmt)"
  have h: "rtmp_basic_header xs = Some (word_of_nat fmt, cs, 1)"
    unfolding xs_def by (rule basic_header_first [OF hdr(1,2,3)])
  have k: "k \<le> length body" using body(3) by auto
  have L: "length body < 2 ^ 32" using body(1) unsigned_less [of "rm_message_length m1", where ?'a = nat] by simp
  have "unat (rm_message_length m1 - rm_len m1) = length body - k"
    using body(1,2) k by (simp add: unat_sub word_le_nat_alt)
  then have n': "unat (rtmp_read_len (ri_chunk_size st) m1) = n"
    unfolding n rtmp_read_len_def by (simp add: Let_def word_less_nat_alt)
  have lenn: "length (take n (drop k body)) = n" using n by simp
  have parts: "take mhl (drop 1 xs) = flds" "drop (1 + mhl) xs = take n (drop k body) @ zs"
    "length xs = 1 + mhl + n + length zs"
    using flds(1) lenn by (simp_all add: xs_def mhl_def)
  have data: "take n (take n (drop k body) @ zs) = take n (drop k body)"
    "drop n (take n (drop k body) @ zs) = zs" using lenn by simp_all
  have sum: "unat (word_of_nat (1 + mhl) + rtmp_read_len (ri_chunk_size st) m1) = 1 + mhl + n"
    using rtmp_no_wrap [OF h, of "ri_chunk_size st" m1] hdr(4) n' by (simp only: rtmp_in_ok_def mhl_def)
  have join: "take k body @ take n (drop k body) = take (k + n) body" by (simp add: take_add)
  have store: "rtmp_store (take n (drop k body)) m1 =
      (m1\<lparr>rm_msg := take (k + n) body, rm_block := Some (length body)\<rparr>, True)"
  proof (cases "k = 0")
    case True
    then have "rm_len m1 = 0" using body(2) by (simp add: unat_eq_0)
    then show ?thesis using True body(1) by (simp add: rtmp_store_def)
  next
    case False
    then have "rm_len m1 \<noteq> 0" using body(2) by auto
    moreover have "k + length (take n (drop k body)) \<le> length body" using lenn k n by simp
    ultimately show ?thesis using body(2) body(4) [OF False] join
      by (simp add: rtmp_store_def Let_def del: length_take length_drop)
  qed
  have len: "rm_len m1 + rtmp_read_len (ri_chunk_size st) m1 = word_of_nat (k + n)"
    unfolding body(2) [symmetric] n' [symmetric] of_nat_add by simp
  have "unat (word_of_nat (k + n) :: u32) = k + n"
    using k n L by (simp add: unat_of_nat take_bit_nat_eq_self_iff del: of_nat_add)
  then have fin: "word_of_nat (k + n) = rm_message_length m1 \<longleftrightarrow> k + n = length body"
    unfolding word_unat_eq_iff body(1) by simp
  show ?thesis
    unfolding xs_def [symmetric]
    by (simp only: rtmp_read_chunk_def h option.case prod.case Let_def mhl_def [symmetric] parts sum n' data
        flds(2) store)
      (simp add: len fin del: of_nat_add)
qed

text \<open>The chunks that follow the first one: a one-byte header before each piece.\<close>

function rtmp_split :: "nat \<Rightarrow> u8 \<Rightarrow> bytes \<Rightarrow> bytes" where
  "rtmp_split c h xs = (if c = 0 \<or> xs = [] then [] else h # take c xs @ rtmp_split c h (drop c xs))"
  by pat_completeness auto

termination
  by (relation "measure (\<lambda>(c, h, xs). length xs)") auto

declare rtmp_split.simps [simp del]

lemma rtmp_split_Nil [simp]: "rtmp_split c h [] = []"
  by (simp add: rtmp_split.simps)

lemma rtmp_send_chunks_split:
  assumes "unat (rm_message_length cur) = length body" and "body = front @ data" and "0 < unat c"
    and "left = 0 \<Longrightarrow> length body \<le> i * unat c"
    and "left > 0 \<Longrightarrow> (i + left - 1) * unat c < length body \<and> length body \<le> (i + left) * unat c
      \<and> pos + length front = i * unat c"
  shows "concat (rtmp_send_chunks left i c cur data pos) =
    rtmp_split (unat c) (rtmp_first_byte 3 (rm_cs_id cur)) (drop (i * unat c) body)"
  using assms(4,5)
proof (induction left arbitrary: i pos)
  case 0
  then show ?case by simp
next
  case (Suc left)
  then have p: "(i + left) * unat c < length body" "length body \<le> (i + Suc left) * unat c"
    "pos + length front = i * unat c" by simp_all
  have i: "i * unat c < length body" using p(1) by (meson le_add1 le_less_trans mult_le_mono1)
  have L: "length body < 2 ^ 32"
    using assms(1) unsigned_less [of "rm_message_length cur", where ?'a = nat] by simp
  have ic: "unat (word_of_nat i * c) = i * unat c"
  proof -
    have "word_of_nat i * c = word_of_nat (i * unat c)" by simp
    then show ?thesis using i L by (simp only:) (simp add: unat_of_nat take_bit_nat_eq_self_iff del: of_nat_mult)
  qed
  have s0: "unat (rm_message_length cur - word_of_nat i * c) = length body - i * unat c"
    using assms(1) ic i by (simp add: unat_sub word_le_nat_alt)
  define n where "n = min (unat c) (length body - i * unat c)"
  have n: "unat (if c < rm_message_length cur - word_of_nat i * c then c else rm_message_length cur - word_of_nat i * c) = n"
    using s0 by (simp add: n_def word_less_nat_alt)
  have d: "drop pos data = drop (i * unat c) body"
  proof -
    have "length front \<le> i * unat c" and "i * unat c - length front = pos" using p(3) by simp_all
    then show ?thesis using assms(2) by simp
  qed
  have tk: "take n (drop (i * unat c) body) = take (unat c) (drop (i * unat c) body)"
    by (simp add: n_def min_def)
  have ne: "drop (i * unat c) body \<noteq> []" using i by simp
  have nxt: "left > 0 \<Longrightarrow> pos + n + length front = (i + 1) * unat c"
  proof -
    assume "left > 0"
    then have "(i + 1) * unat c \<le> (i + left) * unat c" by (intro mult_le_mono1) simp
    then have "n = unat c" using p(1) by (simp add: n_def)
    then show ?thesis using p(3) by simp
  qed
  have IH: "concat (rtmp_send_chunks left (i + 1) c cur data (pos + n)) =
      rtmp_split (unat c) (rtmp_first_byte 3 (rm_cs_id cur)) (drop ((i + 1) * unat c) body)"
    using p nxt by (intro Suc.IH) auto
  have "concat (rtmp_send_chunks (Suc left) i c cur data pos) =
      rtmp_first_byte 3 (rm_cs_id cur) # take (unat c) (drop (i * unat c) body)
      @ concat (rtmp_send_chunks left (i + 1) c cur data (pos + n))"
    by (simp only: rtmp_send_chunks.simps Let_def n d tk concat.simps concat_append append.simps append_assoc append_Nil)
  also have "\<dots> = rtmp_split (unat c) (rtmp_first_byte 3 (rm_cs_id cur)) (drop (i * unat c) body)"
    unfolding IH using ne assms(3)
    by (subst (2) rtmp_split.simps) (simp add: add.commute)
  finally show ?case .
qed

definition rtmp_done :: "u32 \<Rightarrow> rtmp_in \<Rightarrow> rtmp_message \<Rightarrow> rtmp_in" where
  "rtmp_done cs st m = st\<lparr>ri_head := (ri_head st)(cs \<mapsto> m\<lparr>rm_msg := [], rm_block := None, rm_len := 0\<rparr>)\<rparr>"

definition rtmp_complete :: "u32 \<Rightarrow> bytes \<Rightarrow> rtmp_message \<Rightarrow> rtmp_message" where
  "rtmp_complete cs body m = m\<lparr>rm_msg := body, rm_block := Some (length body), rm_len := word_of_nat (length body),
     rm_timestamp_calc := rm_timestamp_calc m + rm_timestamp_delta m, rm_cs_id := cs\<rparr>"

text \<open>The first chunk and the following ones, up to the message.\<close>

lemma rtmp_recv_chunks:
  assumes "fmt < 4" "2 \<le> unat cs" "unat cs < 64" "rtmp_in_ok st" "0 < unat (ri_chunk_size st)"
    and "length flds = rtmp_message_header_len (word_of_nat fmt)"
      "rtmp_message_header (word_of_nat fmt) flds (rm_ref (ri_head st) cs) = m1"
    and "unat (rm_message_length m1) = length body" "unat (rm_len m1) = k" "k < length body \<or> k = 0"
      "k \<noteq> 0 \<Longrightarrow> rm_msg m1 = take k body \<and> rm_block m1 = Some (length body)"
  shows "rtmp_recv st (rtmp_first_byte fmt cs # flds @ take (unat (ri_chunk_size st)) (drop k body)
        @ rtmp_split (unat (ri_chunk_size st)) (rtmp_first_byte 3 cs) (drop (unat (ri_chunk_size st)) (drop k body)) @ zs) =
    (let m = rtmp_complete cs body m1; (ms, st', ws) = rtmp_recv (rtmp_resized m (rtmp_done cs st m)) zs in (m # ms, st', ws))"
  using assms
proof (induction "length body - k" arbitrary: k fmt flds m1 st rule: less_induct)
  case less
  define c where "c = unat (ri_chunk_size st)"
  define n where "n = min c (length body - k)"
  define m2 where "m2 = m1\<lparr>rm_msg := take (k + n) body, rm_block := Some (length body), rm_len := word_of_nat (k + n)\<rparr>"
  have L: "length body < 2 ^ 32"
    using less.prems(8) unsigned_less [of "rm_message_length m1", where ?'a = nat] by simp
  have tk: "take c (drop k body) = take n (drop k body)" by (simp add: n_def min_def)
  have dr: "drop c (drop k body) = drop (k + n) body"
    by (cases "c \<le> length body - k") (simp_all add: n_def add.commute)
  define zs' where "zs' = rtmp_split c (rtmp_first_byte 3 cs) (drop (k + n) body) @ zs"
  note step = rtmp_chunk_step [OF less.prems(1-4) less.prems(6-11) n_def [unfolded c_def], where zs = zs',
      folded m2_def, unfolded Let_def, folded m2_def]
  show ?case
  proof (cases "k + n = length body")
    case True
    then have z: "zs' = zs" by (simp add: zs'_def)
    define m3 where "m3 = m2\<lparr>rm_timestamp_calc := rm_timestamp_calc m2 + rm_timestamp_delta m2\<rparr>"
    have "rtmp_read_chunk st (rtmp_first_byte fmt cs # flds @ take n (drop k body) @ zs) =
        (ChunkMessage cs, st\<lparr>ri_head := (ri_head st)(cs \<mapsto> m3)\<rparr>, zs)"
      using step True by (simp add: m3_def z)
    moreover have "rtmp_take_message cs (st\<lparr>ri_head := (ri_head st)(cs \<mapsto> m3)\<rparr>) =
        (rtmp_complete cs body m1, rtmp_done cs st (rtmp_complete cs body m1))"
      using True by (simp add: rtmp_take_message_def Let_def m3_def m2_def rtmp_complete_def rtmp_done_def)
    ultimately have "rtmp_recv st (rtmp_first_byte fmt cs # flds @ take n (drop k body) @ zs) =
        (let (ms, st', ws) = rtmp_recv (rtmp_resized (rtmp_complete cs body m1) (rtmp_done cs st (rtmp_complete cs body m1))) zs
         in (rtmp_complete cs body m1 # ms, st', ws))"
      by (rule rtmp_recv_eqs(3))
    then show ?thesis
      using z unfolding c_def [symmetric] tk dr zs'_def by (simp add: Let_def)
  next
    case False
    define st2 where "st2 = st\<lparr>ri_head := (ri_head st)(cs \<mapsto> m2)\<rparr>"
    have kn: "k + n < length body" "0 < n" "n = c"
      using False less.prems(5,10) by (auto simp: n_def c_def)
    have u: "unat (rm_len m2) = k + n"
      using kn L by (simp add: m2_def unat_of_nat take_bit_nat_eq_self_iff del: of_nat_add)
    have c2: "unat (ri_chunk_size st2) = c" by (simp add: st2_def c_def)
    have zs'': "zs' = rtmp_first_byte 3 cs # [] @ take c (drop (k + n) body)
        @ rtmp_split c (rtmp_first_byte 3 cs) (drop c (drop (k + n) body)) @ zs"
      using kn less.prems(5) unfolding zs'_def by (subst rtmp_split.simps) (simp add: c_def)
    have "rtmp_recv st (rtmp_first_byte fmt cs # flds @ take n (drop k body) @ zs') = rtmp_recv st2 zs'"
      using step False by (intro rtmp_recv_eqs(2)) (simp add: st2_def)
    also have "\<dots> = (let m = rtmp_complete cs body m2; (ms, st', ws) = rtmp_recv (rtmp_resized m (rtmp_done cs st2 m)) zs in (m # ms, st', ws))"
      unfolding zs'' using less.hyps [of "k + n" 3 st2 "[]" m2] less.prems kn u c2
      by (simp add: st2_def rtmp_message_header_len_def rtmp_message_header_def m2_def rtmp_in_ok_def c_def)
    finally have e: "rtmp_recv st (rtmp_first_byte fmt cs # flds @ take n (drop k body) @ zs') =
        (let m = rtmp_complete cs body m2; (ms, st', ws) = rtmp_recv (rtmp_resized m (rtmp_done cs st2 m)) zs in (m # ms, st', ws))" .
    have "rtmp_complete cs body m2 = rtmp_complete cs body m1" by (simp add: rtmp_complete_def m2_def)
    moreover have "rtmp_done cs st2 (rtmp_complete cs body m1) = rtmp_done cs st (rtmp_complete cs body m1)"
      by (simp add: rtmp_done_def st2_def)
    ultimately show ?thesis using e unfolding c_def [symmetric] tk dr zs'_def by (simp only: Let_def)
  qed
qed

text \<open>Sender and receiver agree on what the next header may leave out.\<close>

definition rtmp_agree :: "rtmp_out \<Rightarrow> rtmp_in \<Rightarrow> bool" where
  "rtmp_agree out st \<longleftrightarrow>
     ro_chunk_size out = ri_chunk_size st \<and> 0 < unat (ri_chunk_size st) \<and> unat (ri_chunk_size st) < 2 ^ 31 \<and>
     (\<forall>cs. let pre = rm_ref (ro_pre out) cs; m = rm_ref (ri_head st) cs
           in rm_len m = 0 \<and> (rm_message_length pre \<noteq> 0 \<longrightarrow>
                rm_message_length m = rm_message_length pre \<and> rm_message_type_id m = rm_message_type_id pre))"

definition rtmp_sendable :: "rtmp_out \<Rightarrow> rtmp_message \<Rightarrow> bytes \<Rightarrow> payload \<Rightarrow> bool" where
  "rtmp_sendable out cur data p \<longleftrightarrow>
     2 \<le> unat (rm_cs_id cur) \<and> unat (rm_cs_id cur) < 64 \<and>
     unat (rm_timestamp_delta cur) < 2 ^ 24 \<and> unat (rm_message_length cur) < 2 ^ 24 \<and>
     unat (rm_message_length cur) = length (rtmp_video_header p @ data) \<and>
     (pl_is_video p \<longrightarrow> 5 \<le> unat (ro_chunk_size out))"

lemma rtmp_video_header_length: "length (rtmp_video_header p) = (if pl_is_video p then 5 else 0)"
  by (simp add: rtmp_video_header_def rtmp_u24_be)

lemma rtmp_fmt_less: "rtmp_fmt pre cur f < 4"
  by (simp add: rtmp_fmt_def)

lemma rtmp_chunk_count_ok:
  assumes "0 < unat c" and "n = unat len"
  shows "1 \<le> rtmp_chunk_count c len"
    and "rtmp_chunk_count c len = 1 \<Longrightarrow> n \<le> unat c"
    and "1 < rtmp_chunk_count c len \<Longrightarrow>
      (rtmp_chunk_count c len - 1) * unat c < n \<and> n \<le> rtmp_chunk_count c len * unat c"
proof -
  define q where "q = n div unat c"
  define r where "r = n mod unat c"
  have n: "n = q * unat c + r" by (simp add: q_def r_def)
  have r: "r < unat c" using assms(1) by (simp add: r_def)
  have cnt: "rtmp_chunk_count c len = (if unat c < n then q + (if r \<noteq> 0 then 1 else 0) else 1)"
    using assms(2) by (simp add: rtmp_chunk_count_def word_less_nat_alt q_def r_def)
  have q: "1 \<le> q" if "unat c < n" using n r that by (cases q) simp_all
  show "1 \<le> rtmp_chunk_count c len" using q by (simp add: cnt)
  show "n \<le> unat c" if "rtmp_chunk_count c len = 1"
  proof (rule ccontr)
    assume "\<not> n \<le> unat c"
    then have "unat c < n" by simp
    moreover from this q that have "q = 1" and "r = 0" by (auto simp: cnt split: if_splits)
    ultimately show False using n by simp
  qed
  assume "1 < rtmp_chunk_count c len"
  then have cn: "unat c < n" by (simp add: cnt split: if_splits)
  show "(rtmp_chunk_count c len - 1) * unat c < n \<and> n \<le> rtmp_chunk_count c len * unat c"
  proof (cases "r = 0")
    case True
    obtain q' where "q = Suc q'" using q [OF cn] by (cases q) simp_all
    then show ?thesis using True cn n assms(1) by (simp add: cnt)
  next
    case False
    then show ?thesis using cn n r by (simp add: cnt)
  qed
qed

lemma rtmp_sent_bytes:
  assumes "rtmp_sendable out cur data p" and "0 < unat (ro_chunk_size out)"
  shows "concat (fst (rtmp_send_data cur data p force out)) =
    rtmp_first_byte (rtmp_fmt (rm_ref (ro_pre out) (rm_cs_id cur)) cur force) (rm_cs_id cur)
    # rtmp_fields (rtmp_fmt (rm_ref (ro_pre out) (rm_cs_id cur)) cur force) cur
    @ take (unat (ro_chunk_size out)) (rtmp_video_header p @ data)
    @ rtmp_split (unat (ro_chunk_size out)) (rtmp_first_byte 3 (rm_cs_id cur))
        (drop (unat (ro_chunk_size out)) (rtmp_video_header p @ data))"
proof -
  define body where "body = rtmp_video_header p @ data"
  define c where "c = ro_chunk_size out"
  define count where "count = rtmp_chunk_count c (rm_message_length cur)"
  have len: "unat (rm_message_length cur) = length body" using assms(1) by (simp add: rtmp_sendable_def body_def)
  have c: "0 < unat c" using assms(2) by (simp add: c_def)
  define s where "s = unat (if c < rm_message_length cur then c else rm_message_length cur)"
  have s: "s = min (unat c) (length body)" using len by (simp add: s_def word_less_nat_alt)
  define n where "n = (if pl_is_video p then s - 5 else s)"
  have vh: "length (rtmp_video_header p) \<le> s"
    using assms(1) s len by (auto simp: rtmp_video_header_length rtmp_sendable_def c_def)
  have n: "n + length (rtmp_video_header p) = s"
    using vh by (auto simp: n_def rtmp_video_header_length)
  have first: "rtmp_video_header p @ take n data = take (unat c) body"
  proof -
    have "take s body = rtmp_video_header p @ take (s - length (rtmp_video_header p)) data"
      using vh by (simp add: body_def)
    moreover have "take s body = take (unat c) body" by (simp add: s min_def)
    moreover have "s - length (rtmp_video_header p) = n" using n by simp
    ultimately show ?thesis by simp
  qed
  note cnt = rtmp_chunk_count_ok [OF c len [symmetric], folded count_def]
  have rest: "concat (rtmp_send_chunks (count - 1) 1 c cur data n) =
      rtmp_split (unat c) (rtmp_first_byte 3 (rm_cs_id cur)) (drop (1 * unat c) body)"
  proof (rule rtmp_send_chunks_split [OF len body_def c])
    show "count - 1 = 0 \<Longrightarrow> length body \<le> 1 * unat c" using cnt(1,2) by auto
    assume "0 < count - 1"
    then have "1 < count" by simp
    moreover have "1 * unat c \<le> (count - 1) * unat c" using \<open>1 < count\<close> by (intro mult_le_mono1) simp
    then have "unat c < length body" using cnt(3) \<open>1 < count\<close> by linarith
    ultimately show "(1 + (count - 1) - 1) * unat c < length body \<and> length body \<le> (1 + (count - 1)) * unat c
        \<and> n + length (rtmp_video_header p) = 1 * unat c"
      using cnt(3) n s by auto
  qed
  show ?thesis
    unfolding rtmp_send_data_def Let_def c_def [symmetric] count_def [symmetric] s_def [symmetric] n_def [symmetric]
    using first rest by (simp add: rtmp_header_fields body_def)
qed

lemma rtmp_send_recv_one:
  assumes agree: "rtmp_agree out st" and ok: "rtmp_sendable out cur data p"
  obtains m st' where
    "m = rtmp_complete (rm_cs_id cur) (rtmp_video_header p @ data)
      (rtmp_applied (rtmp_fmt (rm_ref (ro_pre out) (rm_cs_id cur)) cur force) cur (rm_ref (ri_head st) (rm_cs_id cur)))"
    and "st' = rtmp_done (rm_cs_id cur) st m"
    and "rm_cs_id m = rm_cs_id cur" and "rm_message_type_id m = rm_message_type_id cur"
    and "rm_msg m = rtmp_video_header p @ data" and "unat (rm_len m) = length (rm_msg m)"
    and "rtmp_agree (snd (rtmp_send_data cur data p force out)) st'" and "ri_fault st' = ri_fault st"
    and "\<And>zs. rtmp_recv st (concat (fst (rtmp_send_data cur data p force out)) @ zs) =
      (let (ms, st'', ws) = rtmp_recv (rtmp_resized m st') zs in (m # ms, st'', ws))"
proof -
  define cs where "cs = rm_cs_id cur"
  define pre where "pre = rm_ref (ro_pre out) cs"
  define fmt where "fmt = rtmp_fmt pre cur force"
  define body where "body = rtmp_video_header p @ data"
  define m1 where "m1 = rtmp_applied fmt cur (rm_ref (ri_head st) cs)"
  define m where "m = rtmp_complete cs body m1"
  define st' where "st' = rtmp_done cs st m"
  have size: "ro_chunk_size out = ri_chunk_size st" "0 < unat (ri_chunk_size st)" "rtmp_in_ok st"
    using agree by (simp_all add: rtmp_agree_def rtmp_in_ok_def)
  have idle: "rm_len (rm_ref (ri_head st) cs) = 0"
    and same: "rm_message_length pre \<noteq> 0 \<Longrightarrow> rm_message_length (rm_ref (ri_head st) cs) = rm_message_length pre \<and>
      rm_message_type_id (rm_ref (ri_head st) cs) = rm_message_type_id pre"
    using agree by (auto simp: rtmp_agree_def Let_def pre_def)
  have s: "2 \<le> unat cs" "unat cs < 64" "unat (rm_timestamp_delta cur) < 2 ^ 24"
    "unat (rm_message_length cur) < 2 ^ 24" "unat (rm_message_length cur) = length body"
    using ok by (simp_all add: rtmp_sendable_def cs_def body_def)
  have fmt4: "fmt < 4" by (simp add: fmt_def rtmp_fmt_less)
  have m1: "rm_message_length m1 = rm_message_length cur" "rm_message_type_id m1 = rm_message_type_id cur"
    "rm_len m1 = 0"
    using same idle by (auto simp: m1_def rtmp_applied_def fmt_def rtmp_fmt_def split: if_splits)
  have bytes: "concat (fst (rtmp_send_data cur data p force out)) =
      rtmp_first_byte fmt cs # rtmp_fields fmt cur @ take (unat (ri_chunk_size st)) (drop 0 body)
      @ rtmp_split (unat (ri_chunk_size st)) (rtmp_first_byte 3 cs) (drop (unat (ri_chunk_size st)) (drop 0 body))"
    using rtmp_sent_bytes [OF ok, of force] size by (simp add: fmt_def pre_def cs_def body_def)
  have recv: "rtmp_recv st (concat (fst (rtmp_send_data cur data p force out)) @ zs) =
      (let (ms, st'', ws) = rtmp_recv (rtmp_resized m st') zs in (m # ms, st'', ws))" for zs
  proof -
    have "rtmp_recv st (rtmp_first_byte fmt cs # rtmp_fields fmt cur @ take (unat (ri_chunk_size st)) (drop 0 body)
      @ rtmp_split (unat (ri_chunk_size st)) (rtmp_first_byte 3 cs) (drop (unat (ri_chunk_size st)) (drop 0 body)) @ zs) =
      (let m = rtmp_complete cs body m1; (ms, st', ws) = rtmp_recv (rtmp_resized m (rtmp_done cs st m)) zs in (m # ms, st', ws))"
      using s m1 by (intro rtmp_recv_chunks [OF fmt4 s(1,2) size(3,2)])
        (simp_all add: rtmp_fields_length [OF fmt4, of cur, symmetric] rtmp_message_header_fields [OF fmt4] m1_def)
    then show ?thesis by (simp add: bytes m_def st'_def Let_def)
  qed
  have len: "unat (rm_len m) = length (rm_msg m)"
    using s(4,5) by (simp add: m_def rtmp_complete_def unat_of_nat take_bit_nat_eq_self_iff)
  have out': "snd (rtmp_send_data cur data p force out) = out\<lparr>ro_pre := (ro_pre out)(cs \<mapsto> rm_assign cur)\<rparr>"
    by (simp add: rtmp_send_data_def Let_def cs_def)
  have "rm_ref (h(cs \<mapsto> x)) cs' = (if cs' = cs then x else rm_ref h cs')" for h x cs'
    by (simp add: rm_ref_def)
  then have "rtmp_agree (snd (rtmp_send_data cur data p force out)) st'"
    using agree m1 by (auto simp: rtmp_agree_def out' st'_def rtmp_done_def Let_def m_def rtmp_complete_def rm_assign_def)
  moreover have "ri_fault st' = ri_fault st" by (simp add: st'_def rtmp_done_def)
  moreover have "rm_cs_id m = rm_cs_id cur" "rm_message_type_id m = rm_message_type_id cur" "rm_msg m = body"
    using m1 by (simp_all add: m_def rtmp_complete_def cs_def)
  ultimately show thesis using that [OF _ st'_def [unfolded cs_def]] recv len m_def m1_def fmt_def pre_def body_def cs_def by metis
qed

text \<open>
  A session of sends, and what the peer should see of each: messages, and changes of the chunk size, which the
  session announces with a message of its own (\<open>SetOutChunkSize\<close>).
\<close>

datatype rtmp_op = Message rtmp_message bytes payload bool | Resize u32

fun rtmp_op_send :: "rtmp_op \<Rightarrow> rtmp_out \<Rightarrow> bytes list \<times> rtmp_out" where
  "rtmp_op_send (Message cur data p force) out = rtmp_send_data cur data p force out"
| "rtmp_op_send (Resize n) out = rtmp_send_message 2 0 kSetChunkSize (be 4 (unat n)) (out\<lparr>ro_chunk_size := n\<rparr>)"

fun rtmp_send_all :: "rtmp_op list \<Rightarrow> rtmp_out \<Rightarrow> bytes \<times> rtmp_out" where
  "rtmp_send_all [] out = ([], out)"
| "rtmp_send_all (x # xs) out =
     (let (sends, out1) = rtmp_op_send x out; (bs, out2) = rtmp_send_all xs out1 in (concat sends @ bs, out2))"

fun rtmp_op_ok :: "rtmp_op \<Rightarrow> rtmp_out \<Rightarrow> bool" where
  "rtmp_op_ok (Message cur data p force) out \<longleftrightarrow> rtmp_sendable out cur data p \<and> rm_message_type_id cur \<noteq> kSetChunkSize"
| "rtmp_op_ok (Resize n) out \<longleftrightarrow> 4 \<le> unat (ro_chunk_size out) \<and> 4 \<le> unat n \<and> unat n < 2 ^ 31"

fun rtmp_ops_ok :: "rtmp_op list \<Rightarrow> rtmp_out \<Rightarrow> bool" where
  "rtmp_ops_ok [] out \<longleftrightarrow> True"
| "rtmp_ops_ok (x # xs) out \<longleftrightarrow> rtmp_op_ok x out \<and> rtmp_ops_ok xs (snd (rtmp_op_send x out))"

fun rtmp_seen :: "rtmp_op \<Rightarrow> u32 \<times> u8 \<times> bytes" where
  "rtmp_seen (Message cur data p force) = (rm_cs_id cur, rm_message_type_id cur, rtmp_video_header p @ data)"
| "rtmp_seen (Resize n) = (2, kSetChunkSize, be 4 (unat n))"

definition rtmp_key :: "rtmp_message \<Rightarrow> u32 \<times> u8 \<times> bytes" where
  "rtmp_key m = (rm_cs_id m, rm_message_type_id m, rm_msg m)"

definition rtmp_in_init :: "u32 \<Rightarrow> rtmp_in" where
  "rtmp_in_init c = \<lparr>ri_chunk_size = c, ri_head = (\<lambda>_. None), ri_fault = False\<rparr>"

definition rtmp_out_init :: "u32 \<Rightarrow> rtmp_out" where
  "rtmp_out_init c = \<lparr>ro_chunk_size = c, ro_pre = (\<lambda>_. None)\<rparr>"

lemma rtmp_agree_init: "0 < unat c \<Longrightarrow> unat c < 2 ^ 31 \<Longrightarrow> rtmp_agree (rtmp_out_init c) (rtmp_in_init c)"
  by (simp add: rtmp_agree_def rtmp_out_init_def rtmp_in_init_def rm_ref_def rm_new_def)

lemma rtmp_send_keeps_size: "ro_chunk_size (snd (rtmp_send_data cur data p force out)) = ro_chunk_size out"
  by (simp add: rtmp_send_data_def Let_def)

lemma rtmp_send_short:
  \<comment> \<open>a message that fits one chunk of either size is sent the same way\<close>
  assumes "unat (rm_message_length cur) = length data" and "\<not> pl_is_video p"
    and "length data \<le> unat (ro_chunk_size out)" and "length data \<le> unat n"
  shows "rtmp_send_data cur data p force (out\<lparr>ro_chunk_size := n\<rparr>) =
    (let (sends, out1) = rtmp_send_data cur data p force out in (sends, out1\<lparr>ro_chunk_size := n\<rparr>))"
proof -
  have "\<not> ro_chunk_size out < rm_message_length cur" "\<not> n < rm_message_length cur"
    using assms by (simp_all add: word_less_nat_alt)
  then show ?thesis using assms(1,2) by (simp add: rtmp_send_data_def Let_def rtmp_chunk_count_def)
qed

lemma rtmp_agree_resize:
  "rtmp_agree out st \<Longrightarrow> 0 < unat n \<Longrightarrow> unat n < 2 ^ 31 \<Longrightarrow> rtmp_agree (out\<lparr>ro_chunk_size := n\<rparr>) (st\<lparr>ri_chunk_size := n\<rparr>)"
  by (simp add: rtmp_agree_def)

lemma rtmp_op_recv:
  assumes agree: "rtmp_agree out st" and ok: "rtmp_op_ok x out"
  obtains m st' where "rtmp_agree (snd (rtmp_op_send x out)) st'" and "rtmp_key m = rtmp_seen x"
    and "unat (rm_len m) = length (rm_msg m)" and "ri_fault st' = ri_fault st"
    and "\<And>zs. rtmp_recv st (concat (fst (rtmp_op_send x out)) @ zs) =
      (let (ms, st'', ws) = rtmp_recv st' zs in (m # ms, st'', ws))"
proof (cases x)
  case (Message cur data p force)
  have send: "rtmp_sendable out cur data p" and ty: "rm_message_type_id cur \<noteq> kSetChunkSize" using ok Message by simp_all
  from rtmp_send_recv_one [OF agree send, of force] obtain m st' where
    m: "rm_cs_id m = rm_cs_id cur" "rm_message_type_id m = rm_message_type_id cur"
      "rm_msg m = rtmp_video_header p @ data" "unat (rm_len m) = length (rm_msg m)"
      "rtmp_agree (snd (rtmp_send_data cur data p force out)) st'" "ri_fault st' = ri_fault st"
      "\<And>zs. rtmp_recv st (concat (fst (rtmp_send_data cur data p force out)) @ zs) =
        (let (ms, st'', ws) = rtmp_recv (rtmp_resized m st') zs in (m # ms, st'', ws))"
    by blast
  have "rtmp_key m = rtmp_seen x" using m(1-3) by (simp add: Message rtmp_key_def)
  moreover have "rtmp_resized m st' = st'" using ty m(2) by simp
  ultimately show thesis using that [of st' m] m(4-7) by (simp add: Message)
next
  case (Resize n)
  define data where "data = be 4 (unat n)"
  define cur where "cur = rm_new\<lparr>rm_cs_id := 2, rm_timestamp := 0, rm_timestamp_delta := 0,
          rm_message_length := word_of_nat (length data), rm_message_type_id := kSetChunkSize,
          rm_message_stream_id := 0, rm_len := word_of_nat (length data)\<rparr>"
  have n: "4 \<le> unat (ro_chunk_size out)" "4 \<le> unat n" "unat n < 2 ^ 31" using ok Resize by simp_all
  have nv: "\<not> pl_is_video (pl_empty 0 0)" by (simp add: pl_defs)
  then have vh: "rtmp_video_header (pl_empty 0 0) = []" by (simp add: rtmp_video_header_def)
  have len: "unat (rm_message_length cur) = length data" "length data = 4" by (simp_all add: cur_def data_def)
  define out1 where "out1 = snd (rtmp_send_data cur data (pl_empty 0 0) True out)"
  define sends where "sends = fst (rtmp_send_data cur data (pl_empty 0 0) True out)"
  have "rtmp_send_data cur data (pl_empty 0 0) True (out\<lparr>ro_chunk_size := n\<rparr>) = (sends, out1\<lparr>ro_chunk_size := n\<rparr>)"
    using rtmp_send_short [OF len(1) nv, of out n True] n len(2) by (simp add: sends_def out1_def split_def Let_def)
  then have op: "rtmp_op_send x out = (sends, out1\<lparr>ro_chunk_size := n\<rparr>)"
    by (simp add: Resize rtmp_send_message_def kSetChunkSize_def kAudio_def kVideo_def cur_def data_def)
  have "rtmp_sendable out cur data (pl_empty 0 0)"
    using len nv vh by (simp add: rtmp_sendable_def) (simp add: cur_def)
  from rtmp_send_recv_one [OF agree this, of True] obtain m st' where
    m: "rm_cs_id m = rm_cs_id cur" "rm_message_type_id m = rm_message_type_id cur"
      "rm_msg m = data" "unat (rm_len m) = length (rm_msg m)"
      "rtmp_agree out1 st'" "ri_fault st' = ri_fault st"
      "\<And>zs. rtmp_recv st (concat sends @ zs) = (let (ms, st'', ws) = rtmp_recv (rtmp_resized m st') zs in (m # ms, st'', ws))"
    unfolding vh append_Nil sends_def out1_def by blast
  have "rtmp_key m = rtmp_seen x" using m(1-3) by (simp add: Resize rtmp_key_def cur_def data_def)
  moreover have "rtmp_resized m st' = st'\<lparr>ri_chunk_size := n\<rparr>"
    using m(2,3) by (simp add: rtmp_resized_def cur_def data_def bb_new_at bb_get_bytes_at be_val_be_unat)
  moreover have "rtmp_agree (out1\<lparr>ro_chunk_size := n\<rparr>) (st'\<lparr>ri_chunk_size := n\<rparr>)"
    using rtmp_agree_resize [OF m(5)] n by simp
  ultimately show thesis using that [of "st'\<lparr>ri_chunk_size := n\<rparr>" m] m(4,6,7) by (simp add: op)
qed

lemma rtmp_send_recv_all:
  assumes "rtmp_agree out st" and "rtmp_ops_ok xs out"
  shows "\<exists>ms st'. rtmp_recv st (fst (rtmp_send_all xs out)) = (ms, st', []) \<and> map rtmp_key ms = map rtmp_seen xs
    \<and> list_all (\<lambda>m. unat (rm_len m) = length (rm_msg m)) ms \<and> ri_fault st' = ri_fault st"
  using assms
proof (induction xs arbitrary: out st)
  case (Cons x xs)
  have ok: "rtmp_op_ok x out" "rtmp_ops_ok xs (snd (rtmp_op_send x out))" using Cons.prems(2) by simp_all
  obtain m st' where m: "rtmp_agree (snd (rtmp_op_send x out)) st'" "rtmp_key m = rtmp_seen x"
    "unat (rm_len m) = length (rm_msg m)" "ri_fault st' = ri_fault st"
    "\<And>zs. rtmp_recv st (concat (fst (rtmp_op_send x out)) @ zs) = (let (ms, st'', ws) = rtmp_recv st' zs in (m # ms, st'', ws))"
    using rtmp_op_recv [OF Cons.prems(1) ok(1)] by metis
  from Cons.IH [OF m(1) ok(2)] obtain ms st'' where
    "rtmp_recv st' (fst (rtmp_send_all xs (snd (rtmp_op_send x out)))) = (ms, st'', [])" "map rtmp_key ms = map rtmp_seen xs"
    "list_all (\<lambda>m. unat (rm_len m) = length (rm_msg m)) ms" "ri_fault st'' = ri_fault st'"
    by blast
  then show ?case using m by (simp add: split_def Let_def)
qed simp

section \<open>Timestamps\<close>

text \<open>
  Both ends of the audio and the video chunk stream in step: a previous message exists, the
  receiver has the sender's last delta, and its clock shows the sender's last timestamp.
\<close>

definition rtmp_clock :: "u32 \<Rightarrow> u32 \<Rightarrow> rtmp_out \<Rightarrow> rtmp_in \<Rightarrow> bool" where
  "rtmp_clock cs t out st \<longleftrightarrow>
     (\<exists>pre. ro_pre out cs = Some pre \<and> rm_message_length pre \<noteq> 0 \<and> rm_timestamp pre = t \<and>
        rm_timestamp_delta (rm_ref (ri_head st) cs) = rm_timestamp_delta pre \<and>
        rm_timestamp_calc (rm_ref (ri_head st) cs) = t)"

definition rtmp_media_ok :: "u32 \<Rightarrow> payload \<Rightarrow> bool" where
  \<comment> \<open>a frame that fits, at most 2^24 ms after the previous one of its kind (at \<open>t\<close>)\<close>
  "rtmp_media_ok t p \<longleftrightarrow>
     (\<exists>d. pl_data p = Some d \<and> unat (pl_len p) = length d \<and> d \<noteq> [] \<and> length d < 2 ^ 24 - 5) \<and>
     (pl_is_audio p \<or> pl_is_video p) \<and> unat (ucast (pl_dts p) - t :: u32) < 2 ^ 24"

definition rtmp_media_cs :: "payload \<Rightarrow> u32" where
  "rtmp_media_cs p = (if pl_is_audio p then 4 else 6)"

lemma pl_kind_excl: "pl_is_audio p \<Longrightarrow> \<not> pl_is_video p"
  by (simp add: pl_defs)

lemma rtmp_fmt_clocked:
  assumes "rm_message_length pre \<noteq> 0" and "rtmp_fmt pre cur False = fmt" and "rm_timestamp_delta m = rm_timestamp_delta pre"
  shows "rm_timestamp_delta (rtmp_applied fmt cur m) = rm_timestamp_delta cur
    \<and> rm_timestamp_calc (rtmp_applied fmt cur m) = rm_timestamp_calc m"
  using assms by (auto simp: rtmp_fmt_def rtmp_applied_def split: if_splits)

lemma unat_ucast_small: "unat (x :: u64) < 2 ^ 32 \<Longrightarrow> unat (ucast x :: u32) = unat x"
  by (simp add: unsigned_ucast_eq take_bit_nat_eq_self_iff)

lemma rtmp_media_message_ok:
  assumes "rtmp_clock (rtmp_media_cs p) t out st" and "rtmp_media_ok t p" and "5 \<le> unat (ro_chunk_size out)"
  defines "cur \<equiv> rtmp_media_message p out"
  shows "rm_cs_id cur = rtmp_media_cs p" and "rm_timestamp cur = ucast (pl_dts p)"
    and "rm_timestamp_delta cur = ucast (pl_dts p) - t" and "rm_message_length cur \<noteq> 0"
    and "rtmp_sendable out cur (case pl_data p of None \<Rightarrow> [] | Some d \<Rightarrow> d) p"
proof -
  obtain d where d: "pl_data p = Some d" "unat (pl_len p) = length d" "d \<noteq> []" "length d < 2 ^ 24 - 5"
    using assms(2) by (auto simp: rtmp_media_ok_def)
  obtain pre where pre: "ro_pre out (rtmp_media_cs p) = Some pre" "rm_timestamp pre = t"
    using assms(1) by (auto simp: rtmp_clock_def)
  show cs: "rm_cs_id cur = rtmp_media_cs p" and ts: "rm_timestamp cur = ucast (pl_dts p)"
    by (simp_all add: cur_def rtmp_media_message_def Let_def rtmp_media_cs_def)
  show delta: "rm_timestamp_delta cur = ucast (pl_dts p) - t"
    using pre by (simp add: cur_def rtmp_media_message_def Let_def rtmp_media_cs_def split: if_splits)
  have u: "unat (ucast (pl_len p) :: u32) = length d" using d(2,4) unat_ucast_small [of "pl_len p"] by simp
  have u5: "unat (ucast (pl_len p) + 5 :: u32) = length d + 5"
    using u d(4) by (simp add: unat_word_ariths)
  have len: "unat (rm_message_length cur) = length (rtmp_video_header p @ d)"
    using u u5 assms(2) pl_kind_excl [of p]
    by (auto simp: cur_def rtmp_media_message_def Let_def rtmp_video_header_length rtmp_media_ok_def)
  then show "rm_message_length cur \<noteq> 0" using d(3) by (auto simp: unat_eq_0)
  show "rtmp_sendable out cur (case pl_data p of None \<Rightarrow> [] | Some d \<Rightarrow> d) p"
    using len d assms(2,3) delta
    by (auto simp: rtmp_sendable_def cs rtmp_media_cs_def rtmp_video_header_length rtmp_media_ok_def)
qed

definition rtmp_media_data :: "payload \<Rightarrow> bytes" where
  "rtmp_media_data p = (case pl_data p of None \<Rightarrow> [] | Some d \<Rightarrow> d)"

definition rtmp_media_seen :: "payload \<Rightarrow> (u32 \<times> u8 \<times> bytes) \<times> u32" where
  \<comment> \<open>what the peer should see of a frame: chunk stream, type, body and message timestamp\<close>
  "rtmp_media_seen p =
     ((rtmp_media_cs p, if pl_is_audio p then kAudio else kVideo, rtmp_video_header p @ rtmp_media_data p), ucast (pl_dts p))"

lemma rtmp_media_step:
  assumes "rtmp_agree out st" and "5 \<le> unat (ro_chunk_size out)"
    and "rtmp_clock (rtmp_media_cs p) t out st" and "rtmp_media_ok t p"
  obtains m st' where
    "rtmp_agree (snd (rtmp_send_media p out)) st'" and "5 \<le> unat (ro_chunk_size (snd (rtmp_send_media p out)))"
    and "rtmp_clock (rtmp_media_cs p) (ucast (pl_dts p)) (snd (rtmp_send_media p out)) st'"
    and "\<And>cs t'. cs \<noteq> rtmp_media_cs p \<Longrightarrow> rtmp_clock cs t' out st \<Longrightarrow> rtmp_clock cs t' (snd (rtmp_send_media p out)) st'"
    and "(rtmp_key m, rm_timestamp_calc m) = rtmp_media_seen p" and "unat (rm_len m) = length (rm_msg m)"
    and "ri_fault st' = ri_fault st"
    and "\<And>zs. rtmp_recv st (concat (fst (rtmp_send_media p out)) @ zs) =
      (let (ms, st'', ws) = rtmp_recv st' zs in (m # ms, st'', ws))"
proof -
  define cur where "cur = rtmp_media_message p out"
  define data where "data = rtmp_media_data p"
  define cs where "cs = rtmp_media_cs p"
  note ok = rtmp_media_message_ok [OF assms(3,4,2), folded rtmp_media_data_def cur_def data_def cs_def]
  obtain pre where pre: "ro_pre out cs = Some pre" "rm_message_length pre \<noteq> 0" "rm_timestamp pre = t"
      "rm_timestamp_delta (rm_ref (ri_head st) cs) = rm_timestamp_delta pre" "rm_timestamp_calc (rm_ref (ri_head st) cs) = t"
    using assms(3) by (auto simp: rtmp_clock_def cs_def)
  have send: "rtmp_send_media p out = rtmp_send_data cur data p False out"
    by (simp add: rtmp_send_media_def cur_def data_def rtmp_media_data_def)
  have ty: "rm_message_type_id cur = (if pl_is_audio p then kAudio else kVideo)"
    using assms(4) by (auto simp: cur_def rtmp_media_message_def Let_def rtmp_media_ok_def)
  then have nty: "rm_message_type_id cur \<noteq> kSetChunkSize" by (simp add: kAudio_def kVideo_def kSetChunkSize_def)
  obtain m st' where r0:
    "m = rtmp_complete (rm_cs_id cur) (rtmp_video_header p @ data)
      (rtmp_applied (rtmp_fmt (rm_ref (ro_pre out) (rm_cs_id cur)) cur False) cur (rm_ref (ri_head st) (rm_cs_id cur)))"
    "st' = rtmp_done (rm_cs_id cur) st m" "rm_message_type_id m = rm_message_type_id cur" "rm_msg m = rtmp_video_header p @ data"
    "unat (rm_len m) = length (rm_msg m)" "rtmp_agree (snd (rtmp_send_data cur data p False out)) st'" "ri_fault st' = ri_fault st"
    "\<And>zs. rtmp_recv st (concat (fst (rtmp_send_data cur data p False out)) @ zs) =
      (let (ms, st'', ws) = rtmp_recv (rtmp_resized m st') zs in (m # ms, st'', ws))"
    by (rule rtmp_send_recv_one [OF assms(1) ok(5), of False]) (rule that; assumption)
  note r = r0 [unfolded ok(1), folded send]
  have size: "rtmp_resized m st' = st'" using r(3) nty by simp
  have "rm_ref (ro_pre out) cs = pre" by (simp add: rm_ref_def pre(1))
  then have f: "rm_timestamp_delta m = rm_timestamp_delta cur" "rm_timestamp_calc m = t + rm_timestamp_delta cur"
    using rtmp_fmt_clocked [OF pre(2) refl pre(4), of cur] pre(5) by (simp_all add: r(1) rtmp_complete_def)
  have calc: "rm_timestamp_calc m = ucast (pl_dts p)" by (simp add: f(2) ok(3))
  have out': "snd (rtmp_send_media p out) = out\<lparr>ro_pre := (ro_pre out)(cs \<mapsto> rm_assign cur)\<rparr>"
    by (simp add: send rtmp_send_data_def Let_def ok(1))
  have "rm_ref (h(cs \<mapsto> x)) cs' = (if cs' = cs then x else rm_ref h cs')" for h x cs'
    by (simp add: rm_ref_def)
  then have "rtmp_clock cs (ucast (pl_dts p)) (snd (rtmp_send_media p out)) st'"
    and "\<And>cs' t'. cs' \<noteq> cs \<Longrightarrow> rtmp_clock cs' t' out st \<Longrightarrow> rtmp_clock cs' t' (snd (rtmp_send_media p out)) st'"
    using ok(2,4) f calc by (auto simp: rtmp_clock_def out' r(2) rtmp_done_def rm_assign_def)
  moreover have "rm_cs_id m = cs" by (simp add: r(1) rtmp_complete_def)
  then have "(rtmp_key m, rm_timestamp_calc m) = rtmp_media_seen p"
    by (simp add: rtmp_key_def rtmp_media_seen_def r(3,4) ty calc cs_def data_def)
  moreover have "5 \<le> unat (ro_chunk_size (snd (rtmp_send_media p out)))" using assms(2) by (simp add: out')
  ultimately show thesis
    using that [of st' m] r(5,6,7) r(8) [unfolded size] unfolding cs_def by blast
qed

text \<open>What \<open>OnNewSubscriber\<close> sends first, the metadata and the two codec headers; then frames.\<close>

fun rtmp_send_media_all :: "payload list \<Rightarrow> rtmp_out \<Rightarrow> bytes \<times> rtmp_out" where
  "rtmp_send_media_all [] out = ([], out)"
| "rtmp_send_media_all (p # ps) out =
     (let (sends, out1) = rtmp_send_media p out; (bs, out2) = rtmp_send_media_all ps out1
      in (concat sends @ bs, out2))"

definition rtmp_send_session :: "bytes \<Rightarrow> bytes \<Rightarrow> bytes \<Rightarrow> payload list \<Rightarrow> rtmp_out \<Rightarrow> bytes \<times> rtmp_out" where
  \<comment> \<open>\<open>md\<close>: the metadata, sent when there are any\<close>
  "rtmp_send_session md ah vh ps out =
     (let (s0, out0) = (if md = [] then ([], out) else rtmp_send_metadata md out);
          (s1, out1) = rtmp_send_audio_header ah out0;
          (s2, out2) = rtmp_send_video_header vh out1;
          (bs, out3) = rtmp_send_media_all ps out2
      in (concat s0 @ concat s1 @ concat s2 @ bs, out3))"

fun rtmp_frames_ok :: "u32 \<Rightarrow> u32 \<Rightarrow> payload list \<Rightarrow> bool" where
  \<comment> \<open>the last audio and the last video timestamp so far\<close>
  "rtmp_frames_ok ta tv [] \<longleftrightarrow> True"
| "rtmp_frames_ok ta tv (p # ps) \<longleftrightarrow>
     rtmp_media_ok (if pl_is_audio p then ta else tv) p \<and>
     rtmp_frames_ok (if pl_is_audio p then ucast (pl_dts p) else ta) (if pl_is_audio p then tv else ucast (pl_dts p)) ps"

lemma rtmp_media_all_ok:
  assumes "rtmp_agree out st" and "5 \<le> unat (ro_chunk_size out)" and "rtmp_clock 4 ta out st"
    and "rtmp_clock 6 tv out st" and "rtmp_frames_ok ta tv ps"
  shows "\<exists>ms st'. rtmp_recv st (fst (rtmp_send_media_all ps out)) = (ms, st', []) \<and>
    map (\<lambda>m. (rtmp_key m, rm_timestamp_calc m)) ms = map rtmp_media_seen ps \<and>
    list_all (\<lambda>m. unat (rm_len m) = length (rm_msg m)) ms \<and> ri_fault st' = ri_fault st"
  using assms
proof (induction ps arbitrary: out st ta tv)
  case (Cons p ps)
  define out' where "out' = snd (rtmp_send_media p out)"
  have ok: "rtmp_media_ok (if pl_is_audio p then ta else tv) p"
    and clk: "rtmp_clock (rtmp_media_cs p) (if pl_is_audio p then ta else tv) out st"
    using Cons.prems by (auto simp: rtmp_media_cs_def)
  obtain m st' where
    m: "rtmp_agree out' st'" "5 \<le> unat (ro_chunk_size out')"
      "rtmp_clock (rtmp_media_cs p) (ucast (pl_dts p)) out' st'"
      "\<And>cs t'. cs \<noteq> rtmp_media_cs p \<Longrightarrow> rtmp_clock cs t' out st \<Longrightarrow> rtmp_clock cs t' out' st'"
      "(rtmp_key m, rm_timestamp_calc m) = rtmp_media_seen p" "unat (rm_len m) = length (rm_msg m)" "ri_fault st' = ri_fault st"
      "\<And>zs. rtmp_recv st (concat (fst (rtmp_send_media p out)) @ zs) =
        (let (ms, st'', ws) = rtmp_recv st' zs in (m # ms, st'', ws))"
    by (rule rtmp_media_step [OF Cons.prems(1,2) clk ok, folded out'_def]) (rule that; assumption)
  have "rtmp_clock 4 (if pl_is_audio p then ucast (pl_dts p) else ta) out' st'"
    and "rtmp_clock 6 (if pl_is_audio p then tv else ucast (pl_dts p)) out' st'"
    using m(3) m(4) Cons.prems(3,4) by (auto simp: rtmp_media_cs_def)
  from Cons.IH [OF m(1,2) this] Cons.prems(5) obtain ms st'' where
    "rtmp_recv st' (fst (rtmp_send_media_all ps out')) = (ms, st'', [])"
    "map (\<lambda>m. (rtmp_key m, rm_timestamp_calc m)) ms = map rtmp_media_seen ps"
    "list_all (\<lambda>m. unat (rm_len m) = length (rm_msg m)) ms" "ri_fault st'' = ri_fault st'"
    by auto
  moreover have "fst (rtmp_send_media_all (p # ps) out) =
      concat (fst (rtmp_send_media p out)) @ fst (rtmp_send_media_all ps out')"
    by (simp add: split_def Let_def out'_def)
  ultimately show ?case using m(5,6,7,8) by (simp add: split_def Let_def)
qed simp

lemma rtmp_send_message_step:
  assumes "rtmp_agree out st" and "2 \<le> unat cs" and "unat cs < 64" and "data \<noteq> []" and "length data < 2 ^ 24"
    and start: "ro_pre out cs = None \<and> ri_head st cs = None \<or> rtmp_clock cs 0 out st \<and> (ty = kAudio \<or> ty = kVideo)"
    and ty: "ty \<noteq> kSetChunkSize"
  obtains m st' where
    "rtmp_agree (snd (rtmp_send_message cs sid ty data out)) st'"
    and "ro_chunk_size (snd (rtmp_send_message cs sid ty data out)) = ro_chunk_size out"
    and "rtmp_clock cs 0 (snd (rtmp_send_message cs sid ty data out)) st'"
    and "\<And>cs'. cs' \<noteq> cs \<Longrightarrow> ro_pre (snd (rtmp_send_message cs sid ty data out)) cs' = ro_pre out cs'
      \<and> ri_head st' cs' = ri_head st cs'"
    and "rtmp_key m = (cs, ty, data)" and "rm_timestamp_calc m = 0" and "unat (rm_len m) = length (rm_msg m)"
    and "ri_fault st' = ri_fault st"
    and "\<And>zs. rtmp_recv st (concat (fst (rtmp_send_message cs sid ty data out)) @ zs) =
      (let (ms, st'', ws) = rtmp_recv st' zs in (m # ms, st'', ws))"
proof -
  define cur where "cur = rm_new\<lparr>rm_cs_id := cs, rm_timestamp := 0, rm_timestamp_delta := 0,
          rm_message_length := word_of_nat (length data), rm_message_type_id := ty,
          rm_message_stream_id := sid, rm_len := word_of_nat (length data)\<rparr>"
  define f where "f = (ty \<noteq> kAudio \<and> ty \<noteq> kVideo)"
  have send: "rtmp_send_message cs sid ty data out = rtmp_send_data cur data (pl_empty 0 0) f out"
    by (simp add: rtmp_send_message_def cur_def f_def)
  have nv: "\<not> pl_is_video (pl_empty 0 0)" by (simp add: pl_defs)
  have vh: "rtmp_video_header (pl_empty 0 0) = []" using nv by (simp add: rtmp_video_header_def)
  have cs: "rm_cs_id cur = cs" and z: "rm_timestamp cur = 0" "rm_timestamp_delta cur = 0"
    by (simp_all add: cur_def)
  have tyc: "rm_message_type_id cur = ty" by (simp add: cur_def)
  have len: "unat (rm_message_length cur) = length data"
    using assms(5) by (simp add: cur_def unat_of_nat take_bit_nat_eq_self_iff)
  have ok: "rtmp_sendable out cur data (pl_empty 0 0)"
    using assms(2,3,5) len nv by (simp add: rtmp_sendable_def cs z vh)
  obtain m st' where r0:
    "m = rtmp_complete (rm_cs_id cur) (rtmp_video_header (pl_empty 0 0) @ data)
      (rtmp_applied (rtmp_fmt (rm_ref (ro_pre out) (rm_cs_id cur)) cur f) cur (rm_ref (ri_head st) (rm_cs_id cur)))"
    "st' = rtmp_done (rm_cs_id cur) st m" "rm_cs_id m = rm_cs_id cur" "rm_message_type_id m = rm_message_type_id cur"
    "rm_msg m = rtmp_video_header (pl_empty 0 0) @ data" "unat (rm_len m) = length (rm_msg m)"
    "rtmp_agree (snd (rtmp_send_data cur data (pl_empty 0 0) f out)) st'" "ri_fault st' = ri_fault st"
    "\<And>zs. rtmp_recv st (concat (fst (rtmp_send_data cur data (pl_empty 0 0) f out)) @ zs) =
      (let (ms, st'', ws) = rtmp_recv (rtmp_resized m st') zs in (m # ms, st'', ws))"
    by (rule rtmp_send_recv_one [OF assms(1) ok, of f]) (rule that; assumption)
  note r = r0 [unfolded cs tyc vh append_Nil, folded send]
  have size: "rtmp_resized m st' = st'" using ty r(4) by simp
  have clock: "rm_timestamp_calc m = 0 \<and> rm_timestamp_delta m = 0"
    using start
  proof
    assume none: "ro_pre out cs = None \<and> ri_head st cs = None"
    then have pre: "rm_ref (ro_pre out) cs = rm_new" and m0: "rm_ref (ri_head st) cs = rm_new" by (simp_all add: rm_ref_def)
    have "rtmp_fmt (rm_ref (ro_pre out) cs) cur f = 0" by (simp add: pre rtmp_fmt_def rm_new_def)
    then show ?thesis
      by (simp add: r(1) rtmp_complete_def rtmp_applied_def m0 z) (simp add: rm_new_def)
  next
    assume c: "rtmp_clock cs 0 out st \<and> (ty = kAudio \<or> ty = kVideo)"
    then obtain pre where pre: "ro_pre out cs = Some pre" "rm_message_length pre \<noteq> 0"
      "rm_timestamp_delta (rm_ref (ri_head st) cs) = rm_timestamp_delta pre" "rm_timestamp_calc (rm_ref (ri_head st) cs) = 0"
      by (auto simp: rtmp_clock_def)
    have "f = False" using c by (auto simp: f_def)
    then show ?thesis
      using rtmp_fmt_clocked [OF pre(2) refl pre(3), of cur] pre(1,4) z
      by (simp add: r(1) rtmp_complete_def) (simp add: rm_ref_def)
  qed
  moreover have "rm_message_length cur \<noteq> 0" using len assms(4) by (auto simp: unat_eq_0)
  moreover have out': "snd (rtmp_send_message cs sid ty data out) = out\<lparr>ro_pre := (ro_pre out)(cs \<mapsto> rm_assign cur)\<rparr>"
    by (simp add: send rtmp_send_data_def Let_def cs)
  ultimately have "rtmp_clock cs 0 (snd (rtmp_send_message cs sid ty data out)) st'"
    using clock by (simp add: rtmp_clock_def r(2) rtmp_done_def rm_assign_def z)
  then show thesis using that [of st' m] r(3-8) r(9) [unfolded size] clock by (simp add: out' r(2) rtmp_done_def rtmp_key_def)
qed

lemma rtmp_session_recv:
  assumes agree: "rtmp_agree out st" and c: "5 \<le> unat (ro_chunk_size out)"
    and fresh: "\<And>cs. cs = 4 \<or> cs = 6 \<Longrightarrow> ro_pre out cs = None \<and> ri_head st cs = None"
    and size: "length md < 2 ^ 24" "length ah < 2 ^ 24 - 5" "length vh < 2 ^ 24 - 5" and ps: "rtmp_frames_ok 0 0 ps"
  shows "\<exists>ms st'. rtmp_recv st (fst (rtmp_send_session md ah vh ps out)) = (ms, st', []) \<and>
    map (\<lambda>m. (rtmp_key m, rm_timestamp_calc m)) ms =
      (if md = [] then [] else [((4, kMetaData_AMF0, md), 0)]) @
      [((4, kAudio, [0xAF, 0x00] @ ah), 0), ((6, kVideo, [0x17, 0x00, 0x00, 0x00, 0x00] @ vh), 0)] @ map rtmp_media_seen ps \<and>
    list_all (\<lambda>m. unat (rm_len m) = length (rm_msg m)) ms \<and> ri_fault st' = ri_fault st"
proof -
  define r0 where "r0 = (if md = [] then ([], out) else rtmp_send_metadata md out)"
  define o0 where "o0 = snd r0"
  let ?ok = "list_all (\<lambda>m. unat (rm_len m) = length (rm_msg m))"
  obtain ms0 s0 where
    0: "rtmp_agree o0 s0" "ro_chunk_size o0 = ro_chunk_size out"
      "ro_pre o0 4 = None \<and> ri_head s0 4 = None \<or> rtmp_clock 4 0 o0 s0" "ro_pre o0 6 = None \<and> ri_head s0 6 = None"
      "map (\<lambda>m. (rtmp_key m, rm_timestamp_calc m)) ms0 = (if md = [] then [] else [((4, kMetaData_AMF0, md), 0)])" "?ok ms0" "ri_fault s0 = ri_fault st"
      "\<And>zs. rtmp_recv st (concat (fst r0) @ zs) = (let (ms, st'', ws) = rtmp_recv s0 zs in (ms0 @ ms, st'', ws))"
  proof (cases "md = []")
    case True
    then show thesis using that [of st "[]"] agree fresh by (simp add: o0_def r0_def split_def Let_def)
  next
    case False
    then have r: "r0 = rtmp_send_message 4 1 kMetaData_AMF0 md out" by (simp add: r0_def rtmp_send_metadata_def)
    show thesis
      by (rule rtmp_send_message_step [OF agree, of 4 md kMetaData_AMF0 1], goal_cases)
        (use False size(1) fresh that [of _ "[_]"] in \<open>auto simp: r o0_def kMetaData_AMF0_def kSetChunkSize_def\<close>)
  qed
  define o1 where "o1 = snd (rtmp_send_audio_header ah o0)"
  obtain m1 s1 where
    1: "rtmp_agree o1 s1" "ro_chunk_size o1 = ro_chunk_size out" "rtmp_clock 4 0 o1 s1" "ro_pre o1 6 = None \<and> ri_head s1 6 = None"
      "rtmp_key m1 = (4, kAudio, [0xAF, 0x00] @ ah)" "rm_timestamp_calc m1 = 0" "unat (rm_len m1) = length (rm_msg m1)" "ri_fault s1 = ri_fault s0"
      "\<And>zs. rtmp_recv s0 (concat (fst (rtmp_send_audio_header ah o0)) @ zs) =
        (let (ms, st'', ws) = rtmp_recv s1 zs in (m1 # ms, st'', ws))"
    unfolding rtmp_send_audio_header_def o1_def
    by (rule rtmp_send_message_step [OF 0(1), of 4 "[0xAF, 0x00] @ ah" kAudio 1], goal_cases)
      (use size(2) 0(2,3,4) in \<open>auto simp: kAudio_def kSetChunkSize_def\<close>)
  define o2 where "o2 = snd (rtmp_send_video_header vh o1)"
  obtain m2 s2 where
    2: "rtmp_agree o2 s2" "ro_chunk_size o2 = ro_chunk_size out" "rtmp_clock 6 0 o2 s2" "ro_pre o2 4 = ro_pre o1 4 \<and> ri_head s2 4 = ri_head s1 4"
      "rtmp_key m2 = (6, kVideo, [0x17, 0x00, 0x00, 0x00, 0x00] @ vh)" "rm_timestamp_calc m2 = 0" "unat (rm_len m2) = length (rm_msg m2)" "ri_fault s2 = ri_fault s1"
      "\<And>zs. rtmp_recv s1 (concat (fst (rtmp_send_video_header vh o1)) @ zs) =
        (let (ms, st'', ws) = rtmp_recv s2 zs in (m2 # ms, st'', ws))"
    unfolding rtmp_send_video_header_def o2_def
    by (rule rtmp_send_message_step [OF 1(1), of 6 "[0x17, 0x00, 0x00, 0x00, 0x00] @ vh" kVideo 1], goal_cases)
      (use size(3) 1(2,4) in \<open>auto simp: kVideo_def kSetChunkSize_def\<close>)
  have clk4: "rtmp_clock 4 0 o2 s2" using 1(3) 2(4) by (auto simp: rtmp_clock_def rm_ref_def)
  obtain ms st' where 3: "rtmp_recv s2 (fst (rtmp_send_media_all ps o2)) = (ms, st', [])"
      "map (\<lambda>m. (rtmp_key m, rm_timestamp_calc m)) ms = map rtmp_media_seen ps" "?ok ms" "ri_fault st' = ri_fault s2"
    using rtmp_media_all_ok [OF 2(1) _ clk4 2(3) ps] 2(2) c by auto
  have "fst (rtmp_send_session md ah vh ps out) = concat (fst r0) @ concat (fst (rtmp_send_audio_header ah o0))
      @ concat (fst (rtmp_send_video_header vh o1)) @ fst (rtmp_send_media_all ps o2)"
    by (simp add: rtmp_send_session_def split_def Let_def o0_def o1_def o2_def flip: r0_def)
  then have "rtmp_recv st (fst (rtmp_send_session md ah vh ps out)) = (ms0 @ m1 # m2 # ms, st', [])"
    by (simp add: 0(8) 1(9) 2(9) 3(1))
  then show ?thesis using 0(5-7) 1(5-8) 2(5-8) 3(2-4) by auto
qed

section \<open>Memory safety of reassembly\<close>

definition rtmp_asm_ok :: "rtmp_in \<Rightarrow> bool" where
  "rtmp_asm_ok st \<longleftrightarrow> \<not> ri_fault st \<and> (\<forall>cs m. ri_head st cs = Some m \<longrightarrow>
     length (rm_msg m) = unat (rm_len m) \<and>
     (rm_len m \<noteq> 0 \<longrightarrow> rm_block m = Some (unat (rm_message_length m)) \<and> rm_len m \<le> rm_message_length m))"

definition rtmp_stable :: "rtmp_in \<Rightarrow> bytes \<Rightarrow> bool" where
  \<comment> \<open>the next chunk does not change the length announced for a message that has begun\<close>
  "rtmp_stable st xs =
     (case rtmp_basic_header xs of
        None \<Rightarrow> True
      | Some (fmt, cs_id, chl) \<Rightarrow>
          let m = rm_ref (ri_head st) cs_id; mhl = rtmp_message_header_len fmt
          in chl + mhl \<le> length xs \<longrightarrow> rm_len m \<noteq> 0 \<longrightarrow>
             rm_message_length (rtmp_message_header fmt (take mhl (drop chl xs)) m) = rm_message_length m)"

lemma rtmp_read_chunk_safe:
  assumes "rtmp_asm_ok st" and "rtmp_in_ok st" and "rtmp_stable st xs" and "rtmp_read_chunk st xs = (r, st', ys)"
  shows "rtmp_asm_ok st'"
proof (cases "rtmp_basic_header xs")
  case None
  then show ?thesis using assms by (simp add: rtmp_read_chunk_def)
next
  case (Some hd)
  obtain fmt cs chl where h: "rtmp_basic_header xs = Some (fmt, cs, chl)" using Some by (cases hd) auto
  define mhl where "mhl = rtmp_message_header_len fmt"
  define m where "m = rm_ref (ri_head st) cs"
  define m1 where "m1 = rtmp_message_header fmt (take mhl (drop chl xs)) m"
  define rl where "rl = rtmp_read_len (ri_chunk_size st) m1"
  define data where "data = take (unat rl) (drop (chl + mhl) xs)"
  have m: "length (rm_msg m) = unat (rm_len m)"
    "rm_len m \<noteq> 0 \<Longrightarrow> rm_block m = Some (unat (rm_message_length m)) \<and> rm_len m \<le> rm_message_length m"
    using assms(1) by (auto simp: rtmp_asm_ok_def m_def rm_ref_def rm_new_def split: option.splits)
  have upd: "rtmp_asm_ok (st\<lparr>ri_head := (ri_head st)(cs \<mapsto> x)\<rparr>)"
    if "length (rm_msg x) = unat (rm_len x)"
      "rm_len x \<noteq> 0 \<longrightarrow> rm_block x = Some (unat (rm_message_length x)) \<and> rm_len x \<le> rm_message_length x" for x
    using assms(1) that by (simp add: rtmp_asm_ok_def)
  have keep: "rm_msg m1 = rm_msg m" "rm_len m1 = rm_len m" "rm_block m1 = rm_block m"
    by (simp_all add: m1_def)
  show ?thesis
  proof (cases "length xs < chl + mhl")
    case True
    then have "st' = st\<lparr>ri_head := (ri_head st)(cs \<mapsto> m)\<rparr>"
      using assms(4) h by (simp add: rtmp_read_chunk_def Let_def mhl_def m_def)
    then show ?thesis using upd m by simp
  next
    case False
    have same: "rm_len m \<noteq> 0 \<Longrightarrow> rm_message_length m1 = rm_message_length m"
      using assms(3) h False by (simp add: rtmp_stable_def Let_def mhl_def m1_def m_def)
    have le: "rm_len m1 \<le> rm_message_length m1"
      using same m(2) keep(2) by (cases "rm_len m = 0") simp_all
    show ?thesis
    proof (cases "length xs < unat (word_of_nat (chl + mhl) + rl)")
      case True
      then have "st' = st\<lparr>ri_head := (ri_head st)(cs \<mapsto> m1)\<rparr>"
        using assms(4) h False
        by (simp add: rtmp_read_chunk_def Let_def mhl_def [symmetric] m_def [symmetric] m1_def [symmetric] rl_def [symmetric])
      then show ?thesis using upd m same le keep by auto
    next
      case T2: False
      have wrap: "unat (word_of_nat (chl + mhl) + rl) = chl + mhl + unat rl"
        using rtmp_no_wrap [OF h, of "ri_chunk_size st" m1] assms(2) by (simp add: rtmp_in_ok_def mhl_def rl_def)
      have ld: "length data = unat rl" using T2 wrap by (simp add: data_def)
      have "unat rl \<le> unat (rm_message_length m1 - rm_len m1)"
        by (simp add: rl_def rtmp_read_len_def Let_def word_less_nat_alt word_le_nat_alt)
      then have room: "unat (rm_len m1) + unat rl \<le> unat (rm_message_length m1)"
        using le by (simp add: unat_sub word_le_nat_alt)
      have sum: "unat (rm_len m1 + rl) = unat (rm_len m1) + unat rl"
        using room unsigned_less [of "rm_message_length m1", where ?'a = nat] by (simp add: unat_word_ariths)
      obtain m2 ok where s: "rtmp_store data m1 = (m2, ok)" by fastforce
      have ok: "ok" and m2: "rm_len m2 = rm_len m1" "rm_message_length m2 = rm_message_length m1"
        "length (rm_msg m2) = unat (rm_len m1) + unat rl"
        "rm_len m1 + rl \<noteq> 0 \<longrightarrow> rm_block m2 = Some (unat (rm_message_length m1))"
        using s room ld m keep same
        by (auto simp: rtmp_store_def Let_def split: if_splits)
      define m3 where "m3 = m2\<lparr>rm_len := rm_len m2 + rl\<rparr>"
      define m4 where "m4 = (if rm_len m3 = rm_message_length m3
         then m3\<lparr>rm_timestamp_calc := rm_timestamp_calc m3 + rm_timestamp_delta m3\<rparr> else m3)"
      have "st' = st\<lparr>ri_head := (ri_head st)(cs \<mapsto> m4), ri_fault := ri_fault st \<or> \<not> ok\<rparr>"
        using assms(4) h False T2
        by (simp add: rtmp_read_chunk_def Let_def mhl_def [symmetric] m_def [symmetric] m1_def [symmetric]
            rl_def [symmetric] data_def [symmetric] s m3_def m4_def split: if_splits)
      then have "st' = st\<lparr>ri_head := (ri_head st)(cs \<mapsto> m4)\<rparr>" using ok assms(1) by (simp add: rtmp_asm_ok_def)
      moreover have "length (rm_msg m4) = unat (rm_len m4)"
        "rm_len m4 \<noteq> 0 \<longrightarrow> rm_block m4 = Some (unat (rm_message_length m4)) \<and> rm_len m4 \<le> rm_message_length m4"
        using m2 sum room by (auto simp: m4_def m3_def word_le_nat_alt)
      ultimately show ?thesis using upd by simp
    qed
  qed
qed

text \<open>
  The life of a connection after the handshake: bytes arrive, the peer changes the chunk size,
  chunks are parsed and complete messages taken, in any order.
\<close>

inductive rtmp_live :: "rtmp_in \<Rightarrow> bytes \<Rightarrow> bool" where
  start: "rtmp_live (rtmp_in_init 128) []"
| arrive: "rtmp_live st xs \<Longrightarrow> rtmp_live st (xs @ zs)"
| resize: "rtmp_live st xs \<Longrightarrow> unat c < 2 ^ 31 \<Longrightarrow> rtmp_live (st\<lparr>ri_chunk_size := c\<rparr>) xs"
| part: "rtmp_live st xs \<Longrightarrow> rtmp_stable st xs \<Longrightarrow> rtmp_read_chunk st xs = (r, st', ys) \<Longrightarrow>
    r = ChunkNoData \<or> r = ChunkMore \<Longrightarrow> rtmp_live st' ys"
| message: "rtmp_live st xs \<Longrightarrow> rtmp_stable st xs \<Longrightarrow> rtmp_read_chunk st xs = (ChunkMessage cs, st', ys) \<Longrightarrow>
    rtmp_live (snd (rtmp_take_message cs st')) ys"

inductive_cases rtmp_live_startE: "rtmp_live st []"

lemma rtmp_take_message_safe:
  "rtmp_asm_ok st \<Longrightarrow> rtmp_asm_ok (snd (rtmp_take_message cs st))"
  by (simp add: rtmp_asm_ok_def rtmp_take_message_def Let_def)

text \<open>
  C16: reassembly never writes outside its block. In every state a connection can reach, through
  any bytes, any cut of the stream, any interleaving of chunk streams and any changes of the
  chunk size (below 2^31, as the protocol demands), no copy has left the block, and every
  message in progress has exactly the received bytes in a block of the announced length, as long
  as no chunk changes the announced length of a message that has begun.
\<close>

theorem rtmp_reassembly_safe:
  assumes "rtmp_live st xs"
  shows "\<not> ri_fault st \<and> (\<forall>cs m. ri_head st cs = Some m \<longrightarrow>
     length (rm_msg m) = unat (rm_len m) \<and>
     (rm_len m \<noteq> 0 \<longrightarrow> rm_block m = Some (unat (rm_message_length m)) \<and> rm_len m \<le> rm_message_length m))"
proof -
  have "rtmp_asm_ok st \<and> rtmp_in_ok st"
    using assms
  proof (induction rule: rtmp_live.induct)
    case start
    then show ?case by (simp add: rtmp_asm_ok_def rtmp_in_ok_def rtmp_in_init_def)
  next
    case (resize st xs c)
    then show ?case by (simp add: rtmp_asm_ok_def rtmp_in_ok_def)
  next
    case (part st xs r st' ys)
    then show ?case using rtmp_read_chunk_safe rtmp_read_chunk_keeps_size by (metis rtmp_in_ok_def)
  next
    case (message st xs cs st' ys)
    then have "rtmp_asm_ok st'" "rtmp_in_ok st'"
      using rtmp_read_chunk_safe rtmp_read_chunk_keeps_size by (metis rtmp_in_ok_def)+
    then show ?case using rtmp_take_message_safe
      by (simp add: rtmp_in_ok_def rtmp_take_message_def Let_def)
  qed simp
  then show ?thesis by (simp add: rtmp_asm_ok_def)
qed

theorem rtmp_reassembly_safe_witness:
  "\<not> ri_fault (fst (snd (rtmp_read_chunk (rtmp_in_init 128) [3, 0, 0])))"
proof -
  obtain r st' ys where c: "rtmp_read_chunk (rtmp_in_init 128) [3, 0, 0] = (r, st', ys)" using prod_cases3 by blast
  have b: "rtmp_basic_header [3, 0, 0] = Some (0, 3, 1)"
    using basic_header_first [of 0 3 "[0, 0]"] by (simp add: rtmp_first_byte_def)
  then have "r = ChunkNoData" and "rtmp_stable (rtmp_in_init 128) [3, 0, 0]"
    using c by (auto simp: rtmp_read_chunk_def rtmp_stable_def Let_def rtmp_message_header_len_def)
  moreover have "rtmp_live (rtmp_in_init 128) [3, 0, 0]"
    using rtmp_live.arrive [OF rtmp_live.start, of "[3, 0, 0]"] by simp
  ultimately have "rtmp_live st' ys" using c rtmp_live.part by blast
  from rtmp_reassembly_safe [OF this] show ?thesis by (simp add: c)
qed

text \<open>
  the hypothesis of the previous property is needed. A peer that announces a shorter length
  (header format 1) after part of a message has arrived makes the number of missing bytes wrap
  around, so the parser goes on reading whole chunks into the old block; as soon as a chunk does
  not fit in what is left of the block it is written past its end.
\<close>

theorem rtmp_length_shrink_overflows:
  assumes "ri_head st cs = Some m" and "2 \<le> unat cs" and "unat cs < 64"
    and "rm_block m = Some b" and "unat (rm_len m) < 2 ^ 31" and "unat (rm_message_length cur) < unat (rm_len m)"
    and "unat (rm_message_length cur) < 2 ^ 24" and "unat (rm_timestamp_delta cur) < 2 ^ 24" and "rm_cs_id cur = cs"
    and "0 < length data" and "length data = unat (ri_chunk_size st)" and "unat (ri_chunk_size st) < 2 ^ 31"
    and "b < unat (rm_len m) + length data"
  shows "ri_fault (fst (snd (rtmp_read_chunk st (rtmp_header 1 cur @ data))))"
proof -
  define xs where "xs = rtmp_header 1 cur @ data"
  define flds where "flds = rtmp_fields 1 cur"
  define m1 where "m1 = rtmp_applied 1 cur m"
  have xs: "xs = rtmp_first_byte 1 cs # flds @ data"
    by (simp add: xs_def rtmp_header_fields flds_def assms(9))
  have h: "rtmp_basic_header xs = Some (1, cs, 1)"
    using basic_header_first [of 1 cs "flds @ data"] assms(2,3) by (simp add: xs)
  have mhl: "rtmp_message_header_len 1 = length flds"
    using rtmp_fields_length [of 1 cur] by (simp add: flds_def)
  have hdr: "rtmp_message_header 1 flds m = m1"
    using rtmp_message_header_fields [of 1 cur m] assms(7,8) by (simp add: flds_def m1_def)
  have ref: "rm_ref (ri_head st) cs = m" by (simp add: rm_ref_def assms(1))
  have m1: "rm_message_length m1 = rm_message_length cur" "rm_len m1 = rm_len m" "rm_block m1 = Some b"
    by (simp_all add: m1_def rtmp_applied_def assms(4))
  have "unat (rm_message_length m1 - rm_len m1) = 2 ^ 32 + unat (rm_message_length cur) - unat (rm_len m)"
    using assms(5,6) m1 by (simp add: unat_sub_if_size word_size)
  then have "unat (ri_chunk_size st) \<le> unat (rm_message_length m1 - rm_len m1)" using assms(5,12) by simp
  then have rl: "rtmp_read_len (ri_chunk_size st) m1 = ri_chunk_size st"
    by (auto simp: rtmp_read_len_def Let_def word_less_nat_alt word_unat_eq_iff)
  have sum: "unat (word_of_nat (1 + length flds) + rtmp_read_len (ri_chunk_size st) m1) = 1 + length flds + length data"
    using rtmp_no_wrap [OF h assms(12), of m1] by (simp only: mhl rl assms(11))
  have parts: "take (length flds) (drop 1 xs) = flds" "drop (1 + length flds) xs = data"
    "length xs = 1 + length flds + length data" by (simp_all add: xs)
  have "rm_len m \<noteq> 0" using assms(6) by auto
  then have store: "rtmp_store data m1 = (m1\<lparr>rm_msg := take (unat (rm_len m)) (rm_msg m1) @ data\<rparr>, False)"
    using assms(10,13) m1 by (simp add: rtmp_store_def)
  have "take (unat (ri_chunk_size st)) data = data" by (simp add: assms(11) [symmetric])
  then show ?thesis
    unfolding xs_def [symmetric]
    by (simp only: rtmp_read_chunk_def h option.case prod.case Let_def mhl ref parts hdr sum)
      (simp add: rl store)
qed

theorem rtmp_length_shrink_overflows_witness:
  "ri_fault (fst (snd (rtmp_read_chunk
     \<lparr>ri_chunk_size = 2, ri_head = [3 \<mapsto> rm_new\<lparr>rm_message_length := 3, rm_msg := [1, 2], rm_block := Some 3, rm_len := 2\<rparr>],
       ri_fault = False\<rparr>
     (rtmp_header 1 (rm_new\<lparr>rm_cs_id := 3, rm_message_length := 1, rm_message_type_id := 8\<rparr>) @ [9, 9]))))"
  by (rule rtmp_length_shrink_overflows [where b = 3 and cs = 3
        and m = "rm_new\<lparr>rm_message_length := 3, rm_msg := [1, 2], rm_block := Some 3, rm_len := 2\<rparr>"])
    (simp_all add: rm_new_def)

end
