(* ===== verification/RtmpHandshake.thy ===== *)
theory RtmpHandshake
  imports RtmpChunk
begin

text \<open>
  The handshake of \<open>src/rtmp_protocol.cpp\<close>: the part of \<open>RtmpProtocol::Parse\<close> that runs until the
  status is \<open>kStatus_Done\<close> (lines 448 to 721), for the server and the client role, with the layout of the
  complex handshake (digest and key offsets). HMAC-SHA256, the Diffie-Hellman key, random and
  uninitialised bytes and the clock are parameters (\<open>hs_env\<close>). The receive buffer is its content; what it
  is written to for the reply stands behind what is still unread, as in the code, and \<open>WriteToFd\<close> takes
  \<open>env_accepts\<close> of it.

  The lemmas show that the fields of the layout never overlap, that the answer is signed the way a
  client checks it, and that the two roles complete the handshake with each other however the stream is cut.
\<close>

section \<open>State\<close>

datatype handshake_status = kStatus_0 | kStatus_1 | kStatus_2 | kStatus_Done

fun hs_rank :: "handshake_status \<Rightarrow> nat" where
  "hs_rank kStatus_0 = 0" | "hs_rank kStatus_1 = 1" | "hs_rank kStatus_2 = 2" | "hs_rank kStatus_Done = 3"

lemma hs_rank_inject [simp]: "hs_rank a = hs_rank b \<longleftrightarrow> a = b"
  by (cases a; cases b) auto

text \<open>The values of the C++ enumeration are ordered.\<close>

instantiation handshake_status :: linorder
begin

definition less_eq_handshake_status :: "handshake_status \<Rightarrow> handshake_status \<Rightarrow> bool" where
  "less_eq_handshake_status a b \<longleftrightarrow> hs_rank a \<le> hs_rank b"

definition less_handshake_status :: "handshake_status \<Rightarrow> handshake_status \<Rightarrow> bool" where
  "less_handshake_status a b \<longleftrightarrow> hs_rank a < hs_rank b"

instance
  by standard (auto simp: less_eq_handshake_status_def less_handshake_status_def)

end

record rtmp_hs =
  hs_status :: handshake_status
  hs_version :: u8
  hs_scheme :: nat
  hs_encrypted :: bool

record hs_env =
  env_hmac :: "bytes \<Rightarrow> bytes \<Rightarrow> bytes" \<comment> \<open>\<open>HmacEncode("sha256", key, data)\<close>\<close>
  env_pub :: bytes \<comment> \<open>what \<open>CopyPublicKey\<close> writes\<close>
  env_s1 :: bytes \<comment> \<open>1536 random bytes\<close>
  env_s2 :: bytes
  env_fresh :: bytes \<comment> \<open>the 1528 bytes that \<open>WriteFake\<close> and the client's \<open>buf\<close> leave as they are\<close>
  env_now :: u32
  env_accepts :: nat \<comment> \<open>how much \<open>write\<close> takes\<close>

definition kFlashMediaServerKey :: bytes where
  "kFlashMediaServerKey =
    [0x47, 0x65, 0x6e, 0x75, 0x69, 0x6e, 0x65, 0x20, 0x41, 0x64, 0x6f, 0x62,
     0x65, 0x20, 0x46, 0x6c, 0x61, 0x73, 0x68, 0x20, 0x4d, 0x65, 0x64, 0x69,
     0x61, 0x20, 0x53, 0x65, 0x72, 0x76, 0x65, 0x72, 0x20, 0x30, 0x30, 0x31,
     0xf0, 0xee, 0xc2, 0x4a, 0x80, 0x68, 0xbe, 0xe8, 0x2e, 0x00, 0xd0, 0xd1,
     0x02, 0x9e, 0x7e, 0x57, 0x6e, 0xec, 0x5d, 0x2d, 0x29, 0x80, 0x6f, 0xab,
     0x93, 0xb8, 0xe6, 0x36, 0xcf, 0xeb, 0x31, 0xae]"

definition kFlashPlayerKey :: bytes where
  "kFlashPlayerKey =
    [0x47, 0x65, 0x6E, 0x75, 0x69, 0x6E, 0x65, 0x20, 0x41, 0x64, 0x6F,
     0x62, 0x65, 0x20, 0x46, 0x6C, 0x61, 0x73, 0x68, 0x20, 0x50, 0x6C,
     0x61, 0x79, 0x65, 0x72, 0x20, 0x30, 0x30, 0x31, 0xF0, 0xEE, 0xC2,
     0x4A, 0x80, 0x68, 0xBE, 0xE8, 0x2E, 0x00, 0xD0, 0xD1, 0x02, 0x9E,
     0x7E, 0x57, 0x6E, 0xEC, 0x5D, 0x2D, 0x29, 0x80, 0x6F, 0xAB, 0x93,
     0xB8, 0xE6, 0x36, 0xCF, 0xEB, 0x31, 0xAE]"

section \<open>The layout of the complex handshake\<close>

definition sum4 :: "bytes \<Rightarrow> nat \<Rightarrow> nat" where
  "sum4 buf i = unat (buf ! i) + unat (buf ! (i + 1)) + unat (buf ! (i + 2)) + unat (buf ! (i + 3))"

definition rtmp_digest_offset :: "nat \<Rightarrow> bytes \<Rightarrow> nat" where
  "rtmp_digest_offset scheme buf =
     (if scheme = 0 then sum4 buf 8 mod 728 + 12
      else if scheme = 1 then sum4 buf 772 mod 728 + 776
      else 0)"

definition rtmp_key_offset :: "nat \<Rightarrow> bytes \<Rightarrow> nat" where
  "rtmp_key_offset scheme buf =
     (if scheme = 0 then sum4 buf 1532 mod 632 + 772
      else if scheme = 1 then sum4 buf 768 mod 632 + 8
      else 0)"

definition without_digest :: "nat \<Rightarrow> bytes \<Rightarrow> bytes" where
  \<comment> \<open>\<open>cal_buf\<close>: everything but the 32 bytes at the offset\<close>
  "without_digest off buf = take off buf @ take (1536 - off - 32) (drop (off + 32) buf)"

definition overwrite :: "nat \<Rightarrow> bytes \<Rightarrow> bytes \<Rightarrow> bytes" where
  "overwrite off xs buf = take off buf @ xs @ drop (off + length xs) buf"

definition rtmp_guess_scheme :: "(bytes \<Rightarrow> bytes \<Rightarrow> bytes) \<Rightarrow> nat \<Rightarrow> bytes \<Rightarrow> bool" where
  "rtmp_guess_scheme hmac scheme buf =
     (let off = rtmp_digest_offset scheme buf
      in hmac (take 30 kFlashPlayerKey) (without_digest off buf) = take 32 (drop off buf))"

definition rtmp_make_s1 :: "hs_env \<Rightarrow> nat \<Rightarrow> bytes" where
  "rtmp_make_s1 env scheme =
     (let s1 = overwrite (rtmp_key_offset scheme (env_s1 env)) (env_pub env) (env_s1 env);
          off = rtmp_digest_offset scheme s1
      in overwrite off (env_hmac env (take 36 kFlashMediaServerKey) (without_digest off s1)) s1)"

definition rtmp_make_s2 :: "hs_env \<Rightarrow> nat \<Rightarrow> bytes \<Rightarrow> bytes" where
  \<comment> \<open>\<open>c1\<close>: what was received\<close>
  "rtmp_make_s2 env scheme c1 =
     (let digest = take 32 (drop (rtmp_digest_offset scheme c1) c1);
          key = env_hmac env kFlashMediaServerKey digest
      in overwrite (1536 - 32) (env_hmac env key (take (1536 - 32) (env_s2 env))) (env_s2 env))"

section \<open>One round of \<open>Parse\<close>\<close>

datatype parsed =
    Ret ret_code
  | Abort \<comment> \<open>a failed \<open>assert\<close> or an exception nobody catches\<close>
  | Fault \<comment> \<open>a NULL pointer is used, or an access leaves its object\<close>

text \<open>The result, what goes to the socket, the state, and what is left in the buffer.\<close>

type_synonym hs_result = "parsed \<times> bytes \<times> rtmp_hs \<times> bytes"

definition hs_reply :: "hs_env \<Rightarrow> bytes \<Rightarrow> bytes \<Rightarrow> bytes \<times> bytes" where
  \<comment> \<open>the answer is written into the receive buffer, behind what is unread, and the buffer to the socket\<close>
  "hs_reply env rest answer = (take (env_accepts env) (rest @ answer), drop (env_accepts env) (rest @ answer))"

definition hs_server_0 :: "rtmp_hs \<Rightarrow> bytes \<Rightarrow> hs_result" where
  "hs_server_0 hs xs =
     (if 1 \<le> length xs
      then (Ret kSuccess, [], hs\<lparr>hs_version := hd xs, hs_status := kStatus_1\<rparr>, tl xs)
      else (Ret kNoEnoughData, [], hs, xs))"

definition hs_server_1 :: "hs_env \<Rightarrow> rtmp_hs \<Rightarrow> bytes \<Rightarrow> hs_result" where
  "hs_server_1 env hs xs =
     (if length xs < 1536 then (Ret kNoEnoughData, [], hs, xs)
      else if hs_version hs = 3 then
        let c1 = take 1536 xs; rest = drop 1536 xs; timestamp = take 4 xs; zero = take 4 (drop 4 xs)
        in if be_val zero = 0 then
             let answer = [hs_version hs] @ be 4 (unat (env_now env)) @ be 4 0 @ env_fresh env
                            @ timestamp @ be 4 (unat (env_now env)) @ take 1528 (drop 8 xs);
                 (out, left) = hs_reply env rest answer
             in (Ret kSuccess, out, hs\<lparr>hs_status := kStatus_2\<rparr>, left)
           else if rtmp_guess_scheme (env_hmac env) 0 c1 \<or> rtmp_guess_scheme (env_hmac env) 1 c1 then
             let scheme = (if rtmp_guess_scheme (env_hmac env) 0 c1 then 0 else 1);
                 answer = [3] @ rtmp_make_s1 env scheme @ rtmp_make_s2 env scheme c1;
                 (out, left) = hs_reply env rest answer
             in (Ret kSuccess, out, hs\<lparr>hs_scheme := scheme, hs_status := kStatus_2\<rparr>, left)
           else (Ret kClose, [], hs, rest)
      else (Abort, [], if hs_version hs = 6 then hs\<lparr>hs_encrypted := True\<rparr> else hs, xs))"

definition hs_server_2 :: "rtmp_hs \<Rightarrow> bytes \<Rightarrow> hs_result" where
  "hs_server_2 hs xs =
     (if 1536 \<le> length xs then (Ret kSuccess, [], hs\<lparr>hs_status := kStatus_Done\<rparr>, drop 1536 xs)
      else (Ret kNoEnoughData, [], hs, xs))"

definition hs_server :: "hs_env \<Rightarrow> rtmp_hs \<Rightarrow> bytes \<Rightarrow> hs_result" where
  \<comment> \<open>for a status below \<open>kStatus_Done\<close>\<close>
  "hs_server env hs xs =
     (case hs_status hs of
        kStatus_0 \<Rightarrow> hs_server_0 hs xs
      | kStatus_1 \<Rightarrow> hs_server_1 env hs xs
      | kStatus_2 \<Rightarrow> hs_server_2 hs xs
      | kStatus_Done \<Rightarrow> (Abort, [], hs, xs))"

definition hs_client_hello :: "hs_env \<Rightarrow> rtmp_hs \<Rightarrow> bytes \<times> rtmp_hs" where
  \<comment> \<open>\<open>SendHandShakeStatus0\<close> and \<open>SendHandShakeStatus1\<close>\<close>
  "hs_client_hello env hs =
     ([3] @ be 4 (unat (env_now env)) @ be 4 0 @ env_fresh env, hs\<lparr>hs_status := kStatus_2\<rparr>)"

definition hs_client :: "hs_env \<Rightarrow> rtmp_hs \<Rightarrow> bytes \<Rightarrow> hs_result" where
  \<comment> \<open>the 1528 bytes echoed start at the zero field of S1, and the answer is read from the front of the buffer\<close>
  "hs_client env hs xs =
     (if hs_status hs = kStatus_2 then
        if 1 + 1536 + 1536 \<le> length xs then
          let time = take 4 (drop 1 xs);
              buf = take 1532 (drop 5 xs);
              content = drop 3073 xs @ be 4 (unat (env_now env)) @ time @ take 1528 buf
          in (Ret kSuccess, take 1536 content, hs\<lparr>hs_status := kStatus_Done\<rparr>, drop 1536 content)
        else (Ret kNoEnoughData, [], hs, xs)
      else (Ret kError, [], hs, xs))"

section \<open>Fields do not overlap\<close>

definition hs_env_ok :: "hs_env \<Rightarrow> bool" where
  "hs_env_ok env \<longleftrightarrow> (\<forall>k d. length (env_hmac env k d) = 32) \<and> length (env_s1 env) = 1536 \<and> length (env_s2 env) = 1536
     \<and> length (env_fresh env) = 1528 \<and> length (env_pub env) \<le> 128"

text \<open>
  In both layouts of the complex handshake the digest and the key lie inside the 1536 bytes, whatever offsets the
  bytes of a peer give: so the copies of \<open>GuessScheme\<close> and of the answer stay in their arrays and \<open>"invalid offset"\<close> is never printed; the
  two fields do not overlap each other, the time and version fields or the bytes that give the offsets.
\<close>

theorem rtmp_handshake_fields:
  fixes buf :: bytes
  assumes "scheme \<in> {0, 1}"
  defines "d \<equiv> rtmp_digest_offset scheme buf" and "k \<equiv> rtmp_key_offset scheme buf"
    and "dw \<equiv> if scheme = 0 then 8 else 772" and "kw \<equiv> if scheme = 0 then 1532 else (768 :: nat)"
  shows "8 \<le> d \<and> d + 32 < 1536 \<and> 8 \<le> k \<and> k + 128 < 1536 \<and> (d + 32 \<le> k \<or> k + 128 \<le> d)
     \<and> dw + 4 \<le> d \<and> (dw + 4 \<le> k \<or> k + 128 \<le> dw) \<and> (kw + 4 \<le> d \<or> d + 32 \<le> kw) \<and> k + 128 \<le> kw"
proof -
  have "sum4 buf i mod 728 \<le> 727" "sum4 buf i mod 632 \<le> 631" for i
    using mod_less_divisor [of 728 "sum4 buf i"] mod_less_divisor [of 632 "sum4 buf i"] by simp_all
  from this(1) [of 8] this(1) [of 772] this(2) [of 1532] this(2) [of 768] assms(1)
  show ?thesis by (auto simp: d_def k_def dw_def kw_def rtmp_digest_offset_def rtmp_key_offset_def)
qed

lemma rtmp_handshake_fields_witness:
  "rtmp_digest_offset 0 (replicate 1536 255) + 32 < 1536"
  using rtmp_handshake_fields [of 0 "replicate 1536 255"] by simp

section \<open>Signatures\<close>

lemma overwrite_length [simp]: "off + length xs \<le> length buf \<Longrightarrow> length (overwrite off xs buf) = length buf"
  by (simp add: overwrite_def)

lemma overwrite_nth:
  "off + length xs \<le> length buf \<Longrightarrow> i < length buf \<Longrightarrow> overwrite off xs buf ! i = (if off \<le> i \<and> i < off + length xs then xs ! (i - off) else buf ! i)"
  by (auto simp: overwrite_def nth_append min_def)

lemma overwrite_at: "off + length xs \<le> length buf \<Longrightarrow> take (length xs) (drop off (overwrite off xs buf)) = xs"
  by (simp add: overwrite_def)

lemma overwrite_outside:
  "off + length xs \<le> length buf \<Longrightarrow> i + n \<le> off \<or> off + length xs \<le> i \<Longrightarrow> i + n \<le> length buf \<Longrightarrow>
   take n (drop i (overwrite off xs buf)) = take n (drop i buf)"
  by (rule nth_equalityI) (auto simp: overwrite_nth)

lemma overwrite_sum4:
  "off + length xs \<le> length buf \<Longrightarrow> i + 4 \<le> off \<or> off + length xs \<le> i \<Longrightarrow> i + 4 \<le> length buf \<Longrightarrow>
   sum4 (overwrite off xs buf) i = sum4 buf i"
  by (auto simp: sum4_def overwrite_nth)

lemma without_digest_overwrite:
  "length xs = 32 \<Longrightarrow> off + 32 \<le> length buf \<Longrightarrow> length buf = 1536 \<Longrightarrow> without_digest off (overwrite off xs buf) = without_digest off buf"
  by (simp add: without_digest_def overwrite_def)

text \<open>Writing the digest or the key does not move the fields.\<close>

lemma rtmp_offsets_stable:
  assumes "length buf = 1536" and "scheme \<in> {0, 1}"
  shows "length xs = 32 \<Longrightarrow> rtmp_digest_offset scheme (overwrite (rtmp_digest_offset scheme buf) xs buf) = rtmp_digest_offset scheme buf"
    and "length xs = 32 \<Longrightarrow> rtmp_key_offset scheme (overwrite (rtmp_digest_offset scheme buf) xs buf) = rtmp_key_offset scheme buf"
    and "length ys \<le> 128 \<Longrightarrow> rtmp_key_offset scheme (overwrite (rtmp_key_offset scheme buf) ys buf) = rtmp_key_offset scheme buf"
proof -
  have m: "sum4 buf i mod 728 \<le> 727" "sum4 buf i mod 632 \<le> 631" for i
    using mod_less_divisor [of 728 "sum4 buf i"] mod_less_divisor [of 632 "sum4 buf i"] by simp_all
  note m = m(1) [of 8] m(1) [of 772] m(2) [of 1532] m(2) [of 768]
  show "length xs = 32 \<Longrightarrow> rtmp_digest_offset scheme (overwrite (rtmp_digest_offset scheme buf) xs buf) = rtmp_digest_offset scheme buf"
    using assms m by (auto simp: rtmp_digest_offset_def overwrite_sum4)
  show "length xs = 32 \<Longrightarrow> rtmp_key_offset scheme (overwrite (rtmp_digest_offset scheme buf) xs buf) = rtmp_key_offset scheme buf"
    using assms m by (auto simp: rtmp_digest_offset_def rtmp_key_offset_def overwrite_sum4)
  show "length ys \<le> 128 \<Longrightarrow> rtmp_key_offset scheme (overwrite (rtmp_key_offset scheme buf) ys buf) = rtmp_key_offset scheme buf"
    using assms m by (auto simp: rtmp_key_offset_def overwrite_sum4)
qed

text \<open>What a peer that follows the layout does: sign with a key, and check a signature.\<close>

definition rtmp_sign :: "(bytes \<Rightarrow> bytes \<Rightarrow> bytes) \<Rightarrow> bytes \<Rightarrow> nat \<Rightarrow> bytes \<Rightarrow> bytes" where
  "rtmp_sign hmac key scheme buf =
     (let off = rtmp_digest_offset scheme buf in overwrite off (hmac key (without_digest off buf)) buf)"

definition rtmp_signed :: "(bytes \<Rightarrow> bytes \<Rightarrow> bytes) \<Rightarrow> bytes \<Rightarrow> nat \<Rightarrow> bytes \<Rightarrow> bool" where
  "rtmp_signed hmac key scheme buf \<longleftrightarrow>
     (let off = rtmp_digest_offset scheme buf in hmac key (without_digest off buf) = take 32 (drop off buf))"

lemma rtmp_digest_fits: "scheme \<in> {0, 1} \<Longrightarrow> rtmp_digest_offset scheme buf + 32 \<le> 1536"
  and rtmp_key_fits: "scheme \<in> {0, 1} \<Longrightarrow> rtmp_key_offset scheme buf + 128 \<le> 1536"
  using mod_less_divisor [of 728 "sum4 buf 8"] mod_less_divisor [of 728 "sum4 buf 772"]
    mod_less_divisor [of 632 "sum4 buf 1532"] mod_less_divisor [of 632 "sum4 buf 768"]
  by (auto simp: rtmp_digest_offset_def rtmp_key_offset_def)

lemma rtmp_sign_signed:
  assumes "length buf = 1536" and "scheme \<in> {0, 1}" and h: "\<And>k d. length (hmac k d) = 32"
  shows "rtmp_signed hmac key scheme (rtmp_sign hmac key scheme buf)"
proof -
  define off where "off = rtmp_digest_offset scheme buf"
  define dig where "dig = hmac key (without_digest off buf)"
  have l: "length dig = 32" "off + 32 \<le> 1536" using h rtmp_digest_fits [OF assms(2)] by (simp_all add: dig_def off_def)
  have "rtmp_sign hmac key scheme buf = overwrite off dig buf" by (simp add: rtmp_sign_def off_def dig_def Let_def)
  moreover have "rtmp_digest_offset scheme (overwrite off dig buf) = off"
    unfolding off_def using rtmp_offsets_stable(1) [OF assms(1,2) l(1)] by simp
  moreover have "without_digest off (overwrite off dig buf) = without_digest off buf"
    by (rule without_digest_overwrite) (use l assms in auto)
  moreover have "take 32 (drop off (overwrite off dig buf)) = dig"
    using overwrite_at [of off dig buf] l assms(1) by simp
  ultimately show ?thesis by (simp add: rtmp_signed_def dig_def)
qed

text \<open>
  C27: The complex handshake is what the peer expects. A C1 whose digest is made with the first 30 bytes of the player key is
  recognised in its scheme; S1 is 1536 bytes long, carries the server's public key at its key offset and a valid digest under the first
  36 bytes of the server key; and the last 32 bytes of S2 are the HMAC of the rest under the key derived from the digest of C1.
\<close>

theorem rtmp_handshake_signed:
  assumes "hs_env_ok env" and "scheme \<in> {0, 1}" and "length c = 1536"
  shows "rtmp_guess_scheme (env_hmac env) scheme (rtmp_sign (env_hmac env) (take 30 kFlashPlayerKey) scheme c)
    \<and> length (rtmp_make_s1 env scheme) = 1536
    \<and> take (length (env_pub env)) (drop (rtmp_key_offset scheme (rtmp_make_s1 env scheme)) (rtmp_make_s1 env scheme)) = env_pub env
    \<and> rtmp_signed (env_hmac env) (take 36 kFlashMediaServerKey) scheme (rtmp_make_s1 env scheme)
    \<and> length (rtmp_make_s2 env scheme c) = 1536
    \<and> drop 1504 (rtmp_make_s2 env scheme c)
        = env_hmac env (env_hmac env kFlashMediaServerKey (take 32 (drop (rtmp_digest_offset scheme c) c))) (take 1504 (rtmp_make_s2 env scheme c))"
proof -
  note ok = assms(1) [unfolded hs_env_ok_def]
  define k where "k = rtmp_key_offset scheme (env_s1 env)"
  define s where "s = overwrite k (env_pub env) (env_s1 env)"
  define d where "d = rtmp_digest_offset scheme s"
  have kf: "k + length (env_pub env) \<le> 1536" using rtmp_key_fits [OF assms(2), of "env_s1 env"] ok by (simp add: k_def)
  then have s: "length s = 1536" using ok by (simp add: s_def)
  define dig where "dig = env_hmac env (take 36 kFlashMediaServerKey) (without_digest d s)"
  have dig: "length dig = 32" using ok by (simp add: dig_def)
  have df: "d + 32 \<le> 1536" using rtmp_digest_fits [OF assms(2)] by (simp add: d_def)
  have s1: "rtmp_make_s1 env scheme = overwrite d dig s"
    by (simp add: rtmp_make_s1_def Let_def flip: k_def s_def d_def dig_def)
  have ks: "rtmp_key_offset scheme s = k" unfolding s_def k_def
    by (rule rtmp_offsets_stable(3)) (use ok assms(2) in auto)
  have k1: "rtmp_key_offset scheme (overwrite d dig s) = k"
    using rtmp_offsets_stable(2) [OF s assms(2) dig] ks by (simp add: d_def)
  have "rtmp_digest_offset scheme s + 32 \<le> rtmp_key_offset scheme s \<or> rtmp_key_offset scheme s + 128 \<le> rtmp_digest_offset scheme s"
    using assms(2) mod_less_divisor [of 728 "sum4 s 8"] mod_less_divisor [of 632 "sum4 s 768"]
    by (auto simp: rtmp_digest_offset_def rtmp_key_offset_def)
  then have "d + 32 \<le> k \<or> k + length (env_pub env) \<le> d" unfolding d_def [symmetric] ks using ok by auto
  then have "take (length (env_pub env)) (drop k (overwrite d dig s)) = take (length (env_pub env)) (drop k s)"
    using overwrite_outside [of d dig s k "length (env_pub env)"] df dig s kf by auto
  also have "\<dots> = env_pub env" unfolding s_def using overwrite_at [of k "env_pub env" "env_s1 env"] kf ok by simp
  finally have pub: "take (length (env_pub env)) (drop k (overwrite d dig s)) = env_pub env" .
  have "rtmp_make_s1 env scheme = rtmp_sign (env_hmac env) (take 36 kFlashMediaServerKey) scheme s"
    by (simp add: s1 rtmp_sign_def Let_def flip: d_def dig_def)
  then have "rtmp_signed (env_hmac env) (take 36 kFlashMediaServerKey) scheme (rtmp_make_s1 env scheme)"
    using rtmp_sign_signed [OF s assms(2)] ok by simp
  moreover have "rtmp_guess_scheme (env_hmac env) scheme (rtmp_sign (env_hmac env) (take 30 kFlashPlayerKey) scheme c)"
    using rtmp_sign_signed [OF assms(3,2), of "env_hmac env"] ok by (simp add: rtmp_guess_scheme_def rtmp_signed_def)
  moreover have "length (rtmp_make_s1 env scheme) = 1536" using s1 df dig s by simp
  moreover have "length (rtmp_make_s2 env scheme c) = 1536
    \<and> drop 1504 (rtmp_make_s2 env scheme c)
        = env_hmac env (env_hmac env kFlashMediaServerKey (take 32 (drop (rtmp_digest_offset scheme c) c))) (take 1504 (rtmp_make_s2 env scheme c))"
    using ok by (simp add: rtmp_make_s2_def Let_def overwrite_def)
  ultimately show ?thesis using pub k1 s1 by simp
qed

definition hs_test_env :: hs_env where
  "hs_test_env = \<lparr>env_hmac = (\<lambda>k d. replicate 32 (hd d)), env_pub = replicate 128 7, env_s1 = replicate 1536 1, env_s2 = replicate 1536 2,
     env_fresh = replicate 1528 0, env_now = 5, env_accepts = 4096\<rparr>"

lemma hs_test_env_ok: "hs_env_ok hs_test_env"
  by (simp add: hs_env_ok_def hs_test_env_def)

lemma rtmp_handshake_signed_witness:
  "rtmp_signed (env_hmac hs_test_env) (take 36 kFlashMediaServerKey) 0 (rtmp_make_s1 hs_test_env 0)"
  using rtmp_handshake_signed [OF hs_test_env_ok, of 0 "replicate 1536 9"] by simp

section \<open>The read loop\<close>

lemmas hs_steps = hs_server_def hs_server_0_def hs_server_1_def hs_server_2_def

lemma hs_server_advances:
  "hs_server env hs xs = (Ret kSuccess, out, hs', ys) \<Longrightarrow> hs_status hs < hs_status hs'"
  by (auto simp: hs_steps less_handshake_status_def Let_def split_def split: handshake_status.splits if_splits)

lemma hs_rank_le: "hs_rank s \<le> 3"
  by (cases s) auto

text \<open>\<open>HandleRead\<close> until the handshake is done, or needs more bytes, or fails.\<close>

function hs_recv :: "hs_env \<Rightarrow> rtmp_hs \<Rightarrow> bytes \<Rightarrow> hs_result" where
  "hs_recv env hs xs =
     (if hs_status hs = kStatus_Done then (Ret kSuccess, [], hs, xs)
      else case hs_server env hs xs of
        (Ret kSuccess, out, hs1, ys) \<Rightarrow>
          let (r, out2, hs2, zs) = hs_recv env hs1 ys in (r, out @ out2, hs2, zs)
      | res \<Rightarrow> res)"
  by pat_completeness auto

termination
  by (relation "measure (\<lambda>(env, hs, xs). 3 - hs_rank (hs_status hs))")
    (auto simp: less_handshake_status_def dest!: hs_server_advances [OF sym] intro!: diff_less_mono2 less_le_trans [OF _ hs_rank_le])

declare hs_recv.simps [simp del]

definition hs_client_recv :: "hs_env \<Rightarrow> rtmp_hs \<Rightarrow> bytes \<Rightarrow> hs_result" where
  \<comment> \<open>the same for the client role, which is done after its first success\<close>
  "hs_client_recv env hs xs = (if hs_status hs = kStatus_Done then (Ret kSuccess, [], hs, xs) else hs_client env hs xs)"

fun hs_feed :: "(rtmp_hs \<Rightarrow> bytes \<Rightarrow> hs_result) \<Rightarrow> rtmp_hs \<Rightarrow> bytes \<Rightarrow> bytes list \<Rightarrow> hs_result" where
  \<comment> \<open>the reads of a socket: each appends a segment to what is left and calls \<open>HandleRead\<close> (\<open>recv\<close>)\<close>
  "hs_feed recv hs left [] = (Ret kNoEnoughData, [], hs, left)"
| "hs_feed recv hs left (seg # segs) =
     (case recv hs (left @ seg) of
        (Ret r, out, hs1, ys) \<Rightarrow>
          if r = kClose \<or> r = kError then (Ret r, out, hs1, ys)
          else let (r2, out2, hs2, zs) = hs_feed recv hs1 ys segs in (r2, out @ out2, hs2, zs)
      | res \<Rightarrow> res)"

definition hs_answer :: "hs_env \<Rightarrow> bytes \<Rightarrow> bytes" where
  "hs_answer env c1 = [3] @ be 4 (unat (env_now env)) @ be 4 0 @ env_fresh env @ take 4 c1 @ be 4 (unat (env_now env)) @ drop 8 c1"

lemma hs_recv_1:
  assumes "hs_status hs = kStatus_1" "hs_version hs = 3" "be_val (take 4 (drop 4 xs)) = 0" "hs_env_ok env" "3073 \<le> env_accepts env"
  shows "hs_recv env hs xs =
     (if length xs < 1536 then (Ret kNoEnoughData, [], hs, xs)
      else if length xs = 1536 then (Ret kNoEnoughData, hs_answer env xs, hs\<lparr>hs_status := kStatus_2\<rparr>, [])
      else hs_recv env hs xs)"
  using assms by (auto simp: hs_recv.simps [of env hs] hs_recv.simps [of env "hs\<lparr>hs_status := kStatus_2\<rparr>"] hs_steps hs_reply_def
      Let_def hs_answer_def hs_env_ok_def min_def)

lemma hs_recv_0:
  "hs_status hs = kStatus_0 \<Longrightarrow> hs_recv env hs [] = (Ret kNoEnoughData, [], hs, [])"
  "hs_status hs = kStatus_0 \<Longrightarrow> hs_recv env hs (v # xs) = hs_recv env (hs\<lparr>hs_version := v, hs_status := kStatus_1\<rparr>) xs"
  by (simp_all add: hs_recv.simps [of env hs] hs_steps split: prod.splits)

lemma hs_recv_2:
  "hs_status hs = kStatus_2 \<Longrightarrow> hs_recv env hs xs =
     (if 1536 \<le> length xs then (Ret kSuccess, [], hs\<lparr>hs_status := kStatus_Done\<rparr>, drop 1536 xs) else (Ret kNoEnoughData, [], hs, xs))"
  by (simp add: hs_recv.simps [of env hs] hs_recv.simps [of env "hs\<lparr>hs_status := kStatus_Done\<rparr>"] hs_steps)

lemma hs_feed_idle: "hs_status hs = kStatus_2 \<Longrightarrow> concat segs = [] \<Longrightarrow> hs_feed (hs_recv env) hs [] segs = (Ret kNoEnoughData, [], hs, [])"
  by (induction segs) (auto simp: hs_recv_2)

lemma hs_feed_1:
  assumes env: "hs_env_ok env" "3073 \<le> env_accepts env" and z: "be_val (take 4 (drop 4 c1)) = 0" and c1: "length c1 = 1536"
    and hs: "hs_status hs = kStatus_1" "hs_version hs = 3"
  shows "left @ concat segs = c1 \<Longrightarrow> length left < 1536 \<Longrightarrow>
    hs_feed (hs_recv env) hs left segs = (Ret kNoEnoughData, hs_answer env c1, hs\<lparr>hs_status := kStatus_2\<rparr>, [])"
proof (induction segs arbitrary: left)
  case Nil
  then show ?case using c1 by simp
next
  case (Cons seg segs)
  show ?case
  proof (cases "length (left @ seg) < 1536")
    case True
    then have "hs_recv env hs (left @ seg) = (Ret kNoEnoughData, [], hs, left @ seg)"
      using hs by (simp add: hs_recv.simps [of env hs] hs_steps)
    then show ?thesis using Cons.IH [of "left @ seg"] Cons.prems True by simp
  next
    case False
    have len: "length (left @ seg) + length (concat segs) = 1536" using Cons.prems c1 by (metis append.assoc concat.simps(2) length_append)
    moreover have "1536 \<le> length (left @ seg)" using False by simp
    ultimately have c: "concat segs = []" by (metis add_diff_cancel_left' diff_is_0_eq length_0_conv)
    have e: "left @ seg = c1" using Cons.prems(1) c by simp
    have "hs_recv env hs c1 = (Ret kNoEnoughData, hs_answer env c1, hs\<lparr>hs_status := kStatus_2\<rparr>, [])"
      using hs_recv_1 [OF hs z env] c1 by simp
    then show ?thesis using e c hs_feed_idle [of "hs\<lparr>hs_status := kStatus_2\<rparr>" segs env] by simp
  qed
qed

lemma hs_feed_0:
  assumes env: "hs_env_ok env" "3073 \<le> env_accepts env" and z: "be_val (take 4 (drop 4 c1)) = 0" and c1: "length c1 = 1536"
    and hs: "hs_status hs = kStatus_0"
  shows "concat segs = 3 # c1 \<Longrightarrow>
    hs_feed (hs_recv env) hs [] segs = (Ret kNoEnoughData, hs_answer env c1, hs\<lparr>hs_version := 3, hs_status := kStatus_2\<rparr>, [])"
proof (induction segs)
  case (Cons seg segs)
  show ?case
  proof (cases seg)
    case Nil
    then show ?thesis using Cons hs by (simp add: hs_recv_0)
  next
    case (Cons v xs)
    let ?h = "hs\<lparr>hs_version := 3, hs_status := kStatus_1\<rparr>"
    have v: "v = 3" "xs @ concat segs = c1" using Cons Cons.prems by auto
    have "hs_feed (hs_recv env) hs [] (seg # segs) = hs_feed (hs_recv env) ?h [] (xs # segs)"
      using Cons v hs by (simp add: hs_recv_0)
    also have "\<dots> = (Ret kNoEnoughData, hs_answer env c1, ?h\<lparr>hs_status := kStatus_2\<rparr>, [])"
      using hs_feed_1 [OF env z c1, of ?h "[]" "xs # segs"] v by simp
    finally show ?thesis by simp
  qed
qed simp

lemma hs_feed_done:
  "hs_status hs = kStatus_Done \<Longrightarrow> hs_feed (hs_recv env) hs left segs = (Ret kNoEnoughData, [], hs, left @ concat segs)"
  "hs_status hs = kStatus_Done \<Longrightarrow> hs_feed (hs_client_recv env) hs left segs = (Ret kNoEnoughData, [], hs, left @ concat segs)"
  by (induction segs arbitrary: left) (simp_all add: hs_recv.simps [of env hs] hs_client_recv_def)

lemma hs_feed_2:
  assumes "hs_status hs = kStatus_2" and "length c2 = 1536"
  shows "length left < 1536 \<Longrightarrow> left @ concat segs = c2 @ chunks \<Longrightarrow>
    hs_feed (hs_recv env) hs left segs = (Ret kNoEnoughData, [], hs\<lparr>hs_status := kStatus_Done\<rparr>, chunks)"
proof (induction segs arbitrary: left)
  case Nil
  have "length left = length (c2 @ chunks)" using Nil(2) by simp
  then show ?case using Nil(1) assms(2) by simp
next
  case (Cons seg segs)
  show ?case
  proof (cases "1536 \<le> length (left @ seg)")
    case True
    have "drop 1536 ((left @ seg) @ concat segs) = chunks" using Cons.prems(2) assms(2) by simp
    then have "drop 1536 (left @ seg) @ concat segs = chunks" using True by (subst (asm) drop_append) simp
    then show ?thesis using True assms(1) by (simp add: hs_recv_2 hs_feed_done)
  next
    case False
    then show ?thesis using Cons.IH [of "left @ seg"] Cons.prems assms(1) by (simp add: hs_recv_2)
  qed
qed

lemma hs_feed_client:
  assumes "hs_status hs = kStatus_2" and "length answer = 3073"
    and "hs_client env hs answer = (Ret kSuccess, c2, hs\<lparr>hs_status := kStatus_Done\<rparr>, [])"
  shows "length left < 3073 \<Longrightarrow> left @ concat segs = answer \<Longrightarrow>
    hs_feed (hs_client_recv env) hs left segs = (Ret kNoEnoughData, c2, hs\<lparr>hs_status := kStatus_Done\<rparr>, [])"
proof (induction segs arbitrary: left)
  case Nil
  then show ?case using assms(2) by simp
next
  case (Cons seg segs)
  show ?case
  proof (cases "3073 \<le> length (left @ seg)")
    case True
    have "length (left @ seg) + length (concat segs) = 3073" using Cons.prems(2) assms(2)
      by (metis append.assoc concat.simps(2) length_append)
    then have "concat segs = []" using True by (metis add_diff_cancel_left' diff_is_0_eq length_0_conv)
    moreover from this have "left @ seg = answer" using Cons.prems(2) by (simp del: concat_eq_Nil_conv)
    moreover have "hs_client_recv env hs answer = (Ret kSuccess, c2, hs\<lparr>hs_status := kStatus_Done\<rparr>, [])"
      using assms by (simp add: hs_client_recv_def)
    ultimately show ?thesis by (simp add: hs_feed_done del: concat_eq_Nil_conv)
  next
    case False
    then have "hs_client_recv env hs (left @ seg) = (Ret kNoEnoughData, [], hs, left @ seg)"
      using assms(1) by (simp add: hs_client_recv_def hs_client_def)
    then show ?thesis using Cons.IH [of "left @ seg"] Cons.prems False by simp
  qed
qed

text \<open>
  C6: The two roles complete the simple handshake with each other, wherever TCP cuts the three streams, as long as the server's
  \<open>write\<close> takes its 3073 bytes at once. Fed C0 and C1 in any segments the server sends S0, S1 and S2 once and keeps nothing; S2 is the
  time of C1, the time of the server and the random bytes of C1. Fed these in any segments the client sends its 1536 bytes C2 once, which
  are its time, the time of S1 and the bytes of S1 behind it, and is done. Fed C2 and the chunks behind it in any segments
  the server sends nothing, is done, and has exactly the chunks in its buffer.
\<close>

theorem rtmp_handshake_completes:
  assumes "hs_env_ok senv" and "3073 \<le> env_accepts senv" and "hs_env_ok cenv"
    and "hs_status hs = kStatus_0" and "hs_client_hello cenv ch = (hello, ch1)" and "concat segs = hello"
  shows "\<exists>answer hs1. hs_feed (hs_recv senv) hs [] segs = (Ret kNoEnoughData, answer, hs1, [])
    \<and> drop 1537 answer = be 4 (unat (env_now cenv)) @ be 4 (unat (env_now senv)) @ env_fresh cenv
    \<and> (\<exists>c2. c2 = be 4 (unat (env_now cenv)) @ take 4 (drop 1 answer) @ take 1528 (drop 5 answer) \<and> length c2 = 1536
      \<and> (\<forall>segs2. concat segs2 = answer \<longrightarrow>
          hs_feed (hs_client_recv cenv) ch1 [] segs2 = (Ret kNoEnoughData, c2, ch1\<lparr>hs_status := kStatus_Done\<rparr>, []))
      \<and> (\<forall>segs3 chunks. concat segs3 = c2 @ chunks \<longrightarrow>
          hs_feed (hs_recv senv) hs1 [] segs3 = (Ret kNoEnoughData, [], hs1\<lparr>hs_status := kStatus_Done\<rparr>, chunks)))"
proof -
  define c1 where "c1 = be 4 (unat (env_now cenv)) @ be 4 0 @ env_fresh cenv"
  have h: "hello = 3 # c1" "hs_status ch1 = kStatus_2" using assms(5) by (auto simp: hs_client_hello_def c1_def)
  have f: "length (env_fresh cenv) = 1528" "length (env_fresh senv) = 1528" using assms(1,3) by (auto simp: hs_env_ok_def)
  have c1: "length c1 = 1536" "be_val (take 4 (drop 4 c1)) = 0" "take 4 c1 = be 4 (unat (env_now cenv))" "drop 8 c1 = env_fresh cenv"
    using f by (simp_all add: c1_def be_simps)
  define a where "a = hs_answer senv c1"
  have a: "length a = 3073" "drop 1537 a = be 4 (unat (env_now cenv)) @ be 4 (unat (env_now senv)) @ env_fresh cenv"
    using c1 f by (simp_all add: a_def hs_answer_def)
  let ?s = "hs\<lparr>hs_version := 3, hs_status := kStatus_2\<rparr>"
  have fed: "hs_feed (hs_recv senv) hs [] segs = (Ret kNoEnoughData, a, ?s, [])"
    unfolding a_def by (rule hs_feed_0 [OF assms(1,2) c1(2,1) assms(4)]) (use assms(6) h in simp)
  define c2 where "c2 = be 4 (unat (env_now cenv)) @ take 4 (drop 1 a) @ take 1528 (drop 5 a)"
  have c2: "length c2 = 1536" using a(1) by (simp add: c2_def)
  have cl: "hs_client cenv ch1 a = (Ret kSuccess, c2, ch1\<lparr>hs_status := kStatus_Done\<rparr>, [])"
    using h(2) a(1) c2 by (simp add: hs_client_def Let_def c2_def)
  have "hs_feed (hs_client_recv cenv) ch1 [] segs2 = (Ret kNoEnoughData, c2, ch1\<lparr>hs_status := kStatus_Done\<rparr>, [])"
    if "concat segs2 = a" for segs2
    by (rule hs_feed_client [OF h(2) a(1) cl]) (use that in simp_all)
  moreover have "hs_feed (hs_recv senv) ?s [] segs3 = (Ret kNoEnoughData, [], ?s\<lparr>hs_status := kStatus_Done\<rparr>, chunks)"
    if "concat segs3 = c2 @ chunks" for segs3 chunks
    by (rule hs_feed_2 [OF _ c2]) (use that in simp_all)
  ultimately show ?thesis using fed a(2) c2 c2_def by blast
qed

definition hs_new :: rtmp_hs where
  "hs_new = \<lparr>hs_status = kStatus_0, hs_version = 3, hs_scheme = 0, hs_encrypted = False\<rparr>"

lemma rtmp_handshake_completes_witness:
  "\<exists>answer hs1 c2. hs_feed (hs_recv hs_test_env) hs_new [] [[3], be 4 5, be 4 0 @ replicate 1528 0] = (Ret kNoEnoughData, answer, hs1, [])
    \<and> hs_feed (hs_client_recv hs_test_env) (hs_new\<lparr>hs_status := kStatus_2\<rparr>) [] [take 9 answer, drop 9 answer]
        = (Ret kNoEnoughData, c2, hs_new\<lparr>hs_status := kStatus_Done\<rparr>, [])
    \<and> hs_feed (hs_recv hs_test_env) hs1 [] [take 1000 c2, drop 1000 c2 @ [2], [7]] = (Ret kNoEnoughData, [], hs1\<lparr>hs_status := kStatus_Done\<rparr>, [2, 7])"
proof -
  have "hs_client_hello hs_test_env hs_new = ([3] @ be 4 5 @ be 4 0 @ replicate 1528 0, hs_new\<lparr>hs_status := kStatus_2\<rparr>)"
    by (simp add: hs_client_hello_def hs_test_env_def)
  from rtmp_handshake_completes [OF hs_test_env_ok _ hs_test_env_ok _ this, of hs_new "[[3], be 4 5, be 4 0 @ replicate 1528 0]"]
  obtain answer hs1 c2 where "hs_feed (hs_recv hs_test_env) hs_new [] [[3], be 4 5, be 4 0 @ replicate 1528 0] = (Ret kNoEnoughData, answer, hs1, [])"
    and c: "\<And>segs2. concat segs2 = answer \<Longrightarrow> hs_feed (hs_client_recv hs_test_env) (hs_new\<lparr>hs_status := kStatus_2\<rparr>) [] segs2
        = (Ret kNoEnoughData, c2, hs_new\<lparr>hs_status := kStatus_Done\<rparr>, [])"
    and d: "\<And>segs3 chunks. concat segs3 = c2 @ chunks \<Longrightarrow>
        hs_feed (hs_recv hs_test_env) hs1 [] segs3 = (Ret kNoEnoughData, [], hs1\<lparr>hs_status := kStatus_Done\<rparr>, chunks)"
    by (auto simp: hs_new_def hs_test_env_def)
  moreover have "hs_feed (hs_client_recv hs_test_env) (hs_new\<lparr>hs_status := kStatus_2\<rparr>) [] [take 9 answer, drop 9 answer]
        = (Ret kNoEnoughData, c2, hs_new\<lparr>hs_status := kStatus_Done\<rparr>, [])" by (rule c) simp
  moreover have "hs_feed (hs_recv hs_test_env) hs1 [] [take 1000 c2, drop 1000 c2 @ [2], [7]] = (Ret kNoEnoughData, [], hs1\<lparr>hs_status := kStatus_Done\<rparr>, [2, 7])"
    by (rule d) simp
  ultimately show ?thesis by blast
qed

text \<open>
  A client that sends any version byte but 3 and then 1536 bytes of anything makes the server abort (\<open>assert(false)\<close> at the end of \<open>Parse\<close>): neither
  the encrypted handshake, version 6, nor an unknown version returns from the branch.
\<close>

theorem rtmp_version_aborts:
  assumes "hs_status hs = kStatus_0" and "v \<noteq> 3" and "1536 \<le> length xs"
  shows "fst (hs_recv env hs (v # xs)) = Abort"
  using assms by (simp add: hs_recv_0 hs_recv.simps [of env "hs\<lparr>hs_version := v, hs_status := kStatus_1\<rparr>"] hs_steps)

lemma rtmp_version_aborts_witness: "fst (hs_recv hs_test_env hs_new (6 # replicate 1536 0)) = Abort"
  by (rule rtmp_version_aborts) (simp_all add: hs_new_def)

end
