(* ===== verification/StdMap.thy ===== *)
theory StdMap
  imports Prelude "HOL-Library.List_Lexorder" "HOL-Library.Multiset"
begin

text \<open>
  The ordered containers of the C++ library as the sources use them: \<open>std::map\<close> as the list of its
  entries in key order and \<open>std::set\<close> as the list of its elements in order, so that \<open>begin()\<close>,
  iteration, \<open>size()\<close> and \<open>find\<close> followed by an iteration are what they are in the code.
  The locale \<open>ordered_map\<close> is the contract the components rely on.
\<close>

section \<open>\<open>std::map\<close>\<close>

type_synonym ('k, 'v) smap = "('k \<times> 'v) list"

abbreviation sm_find :: "'k \<Rightarrow> ('k, 'v) smap \<Rightarrow> 'v option" where
  "sm_find k m \<equiv> map_of m k"

fun sm_put :: "'k::linorder \<Rightarrow> 'v \<Rightarrow> ('k, 'v) smap \<Rightarrow> ('k, 'v) smap" where
  \<comment> \<open>\<open>m[k] = v\<close>\<close>
  "sm_put k v [] = [(k, v)]"
| "sm_put k v ((a, b) # m) =
     (if k < a then (k, v) # (a, b) # m else if k = a then (k, v) # m else (a, b) # sm_put k v m)"

definition sm_insert :: "'k::linorder \<Rightarrow> 'v \<Rightarrow> ('k, 'v) smap \<Rightarrow> ('k, 'v) smap" where
  \<comment> \<open>\<open>m.insert(make_pair(k, v))\<close>: an entry that is there stays\<close>
  "sm_insert k v m = (case sm_find k m of None \<Rightarrow> sm_put k v m | Some _ \<Rightarrow> m)"

definition sm_erase :: "'k \<Rightarrow> ('k, 'v) smap \<Rightarrow> ('k, 'v) smap" where
  "sm_erase k m = filter (\<lambda>e. fst e \<noteq> k) m"

definition sm_from :: "'k \<Rightarrow> ('k, 'v) smap \<Rightarrow> ('k, 'v) smap" where
  \<comment> \<open>the entries from \<open>m.find(k)\<close> to \<open>m.end()\<close>\<close>
  "sm_from k m = dropWhile (\<lambda>e. fst e \<noteq> k) m"

definition sm_ok :: "('k::linorder, 'v) smap \<Rightarrow> bool" where
  "sm_ok m \<longleftrightarrow> sorted_wrt (<) (map fst m)"

named_theorems sm_simps \<open>lookups and invariants of the ordered map\<close>

lemma sm_ok_nil [simp]: "sm_ok []"
  by (simp add: sm_ok_def)

lemma sm_ok_cons: "sm_ok (e # m) \<longleftrightarrow> (\<forall>x \<in> set m. fst e < fst x) \<and> sm_ok m"
  by (auto simp: sm_ok_def)

lemma sm_keys_put: "fst ` set (sm_put k v m) = insert k (fst ` set m)"
  by (induction k v m rule: sm_put.induct) auto

lemma sm_put_ok [sm_simps]: "sm_ok m \<Longrightarrow> sm_ok (sm_put k v m)"
proof (induction k v m rule: sm_put.induct)
  case (2 k v a b m)
  then have rest: "\<forall>x \<in> set m. a < fst x" "sm_ok m" by (auto simp: sm_ok_cons)
  show ?case
  proof (cases "k < a \<or> k = a")
    case True
    then show ?thesis using 2 by (auto simp: sm_ok_cons dest: less_trans)
  next
    case False
    then have "a < k" by auto
    have "\<forall>y \<in> fst ` set (sm_put k v m). a < y"
      unfolding sm_keys_put using \<open>a < k\<close> rest(1) by auto
    then show ?thesis using False 2 by (auto simp: sm_ok_cons)
  qed
qed (simp add: sm_ok_def)

lemma sm_find_put [sm_simps]: "sm_find k' (sm_put k v m) = (if k' = k then Some v else sm_find k' m)"
  by (induction k v m rule: sm_put.induct) auto

lemma sm_erase_ok [sm_simps]: "sm_ok m \<Longrightarrow> sm_ok (sm_erase k m)"
  by (induction m) (auto simp: sm_erase_def sm_ok_cons)

lemma sm_find_erase [sm_simps]: "sm_find k' (sm_erase k m) = (if k' = k then None else sm_find k' m)"
  by (induction m) (auto simp: sm_erase_def)

lemma sm_put_set: "set (sm_put k v m) \<subseteq> insert (k, v) (set m)"
  by (induction k v m rule: sm_put.induct) auto

lemma sm_put_ne [simp]: "sm_put k v m \<noteq> []"
  by (induction k v m rule: sm_put.induct) auto

lemma sm_insert_ne [simp]: "sm_insert k v m \<noteq> []"
  by (auto simp: sm_insert_def split: option.splits)

lemma sm_insert_simps:
  "sm_ok m \<Longrightarrow> sm_ok (sm_insert k v m)"
  "sm_find k m = None \<Longrightarrow> sm_find k' (sm_insert k v m) = (if k' = k then Some v else sm_find k' m)"
  by (auto simp: sm_insert_def sm_simps split: option.splits)

lemma sm_put_last: "\<forall>x \<in> set m. fst x < k \<Longrightarrow> sm_put k v m = m @ [(k, v)]"
  by (induction k v m rule: sm_put.induct) auto

lemma sm_erase_head: "sm_ok (e # m) \<Longrightarrow> sm_erase (fst e) (e # m) = m"
  by (auto simp: sm_erase_def sm_ok_cons intro!: filter_True)

lemma sm_erase_nil_iff: "sm_erase k m = [] \<longleftrightarrow> (\<forall>x \<in> set m. fst x = k)"
  by (auto simp: sm_erase_def filter_empty_conv)

section \<open>The contract\<close>

locale ordered_map =
  fixes look :: "'k::linorder \<Rightarrow> 'm \<Rightarrow> 'v option"
    and put :: "'k \<Rightarrow> 'v \<Rightarrow> 'm \<Rightarrow> 'm"
    and del :: "'k \<Rightarrow> 'm \<Rightarrow> 'm"
    and emp :: "'m"
    and ok :: "'m \<Rightarrow> bool"
  assumes look_emp: "look k emp = None"
    and look_put: "ok m \<Longrightarrow> look k' (put k v m) = (if k' = k then Some v else look k' m)"
    and look_del: "ok m \<Longrightarrow> look k' (del k m) = (if k' = k then None else look k' m)"
    and ok_emp: "ok emp"
    and ok_put: "ok m \<Longrightarrow> ok (put k v m)"
    and ok_del: "ok m \<Longrightarrow> ok (del k m)"
begin

lemma put_then_del: "ok m \<Longrightarrow> look k' (del k (put k v m)) = (if k' = k then None else look k' m)"
  by (simp add: look_put look_del ok_put)

lemma puts_look:
  "ok m \<Longrightarrow> look k (fold (\<lambda>(a, b). put a b) es m) = (case map_of (rev es) k of None \<Rightarrow> look k m | Some v \<Rightarrow> Some v)"
proof (induction es arbitrary: m)
  case (Cons e es)
  obtain a b where e: "e = (a, b)" by (cases e) auto
  from Cons.IH [OF ok_put [OF Cons.prems]] show ?case
    using Cons.prems by (auto simp: e look_put map_add_def split: option.splits)
qed simp

lemma puts_ok: "ok m \<Longrightarrow> ok (fold (\<lambda>(a, b). put a b) es m)"
  by (induction es arbitrary: m) (auto simp: ok_put)

end

interpretation stdmap: ordered_map sm_find sm_put sm_erase "[]" sm_ok
  by unfold_locales (simp_all add: sm_simps)

section \<open>\<open>std::set\<close>\<close>

type_synonym 'a sset = "'a list"

fun ss_insert :: "'a::linorder \<Rightarrow> 'a sset \<Rightarrow> 'a sset" where
  "ss_insert x [] = [x]"
| "ss_insert x (y # s) = (if x < y then x # y # s else if x = y then y # s else y # ss_insert x s)"

definition ss_erase :: "'a \<Rightarrow> 'a sset \<Rightarrow> 'a sset" where
  "ss_erase x s = filter (\<lambda>y. y \<noteq> x) s"

lemma ss_insert_set [simp]: "set (ss_insert x s) = insert x (set s)"
  by (induction x s rule: ss_insert.induct) auto

lemma ss_erase_set [simp]: "set (ss_erase x s) = set s - {x}"
  by (auto simp: ss_erase_def)

end
