(* ===== verification/Util.thy ===== *)
theory Util
  imports StdMap
begin

text \<open>
  \<open>common/util.h\<close>, \<open>common/util.cpp\<close>: the string functions that the protocols and \<open>main\<close> use to take
  apart URLs, templates and the command line. \<open>SepStr\<close> and \<open>Replace\<close> are loops on the input that need
  not end; they are partial functions here, \<open>None\<close> when the loop does not end, and the lemmas say
  exactly when that is. Clocks, random strings and files are not modelled.
\<close>

section \<open>C strings\<close>

definition c_str :: "bytes \<Rightarrow> bytes" where
  \<comment> \<open>what a function of C sees of \<open>s.c_str()\<close>, or a \<open>std::string\<close> made from it\<close>
  "c_str s = takeWhile (\<lambda>c. c \<noteq> 0) s"

lemma c_str_set: "set (c_str s) \<subseteq> set s" "0 \<notin> set (c_str s)"
  by (auto simp: c_str_def dest: set_takeWhileD)

lemma c_str_plain: "0 \<notin> set s \<Longrightarrow> c_str s = s"
  by (auto simp: c_str_def takeWhile_eq_all_conv)

lemma c_str_cut: "0 \<notin> set s \<Longrightarrow> c_str (s @ 0 # t) = s"
  by (auto simp: c_str_def takeWhile_append takeWhile_eq_all_conv)

section \<open>Splitting and replacing\<close>

partial_function (option) sep_str :: "bytes \<Rightarrow> bytes \<Rightarrow> bytes list option" where
  \<comment> \<open>the loop from \<open>pre_pos\<close> on, \<open>input\<close> the rest of the string\<close>
  "sep_str input sep =
     (case str_find input sep of
        None \<Rightarrow> Some [input]
      | Some pos \<Rightarrow>
          let tmp = substr input 0 pos
          in Option.bind (sep_str (drop (pos + length sep) input) sep)
               (\<lambda>ret. Some (if tmp = sep then ret else tmp # ret)))"

partial_function (option) str_replace :: "bytes \<Rightarrow> bytes \<Rightarrow> bytes \<Rightarrow> bytes option" where
  \<comment> \<open>\<open>Replace\<close>: \<open>pos\<close> stays 0, so each round searches from the start\<close>
  "str_replace input from to =
     (case str_find input from of
        None \<Rightarrow> Some input
      | Some next_pos \<Rightarrow> str_replace (take next_pos input @ to @ drop (next_pos + length from) input) from to)"

section \<open>Numbers\<close>

definition is_space :: "u8 \<Rightarrow> bool" where
  "is_space c \<longleftrightarrow> c = 32 \<or> (9 \<le> c \<and> c \<le> 13)"

definition is_digit :: "u8 \<Rightarrow> bool" where
  "is_digit c \<longleftrightarrow> 48 \<le> c \<and> c \<le> 57"

definition dec_val :: "bytes \<Rightarrow> nat" where
  "dec_val ds = foldl (\<lambda>v c. v * 10 + (unat c - 48)) 0 ds"

definition str2num :: "nat \<Rightarrow> bytes \<Rightarrow> nat option" where
  \<comment> \<open>\<open>Str2Num<T>\<close> for an unsigned \<open>T\<close> of \<open>w\<close> bits; \<open>None\<close>: no input but space, so \<open>ret\<close> stays
     uninitialised. What is too large reads as the largest value, what is no number as 0\<close>
  "str2num w str =
     (let s = dropWhile is_space str
      in if s = [] then None
         else
           let neg = (hd s = 45);
               t = (if neg \<or> hd s = 43 then tl s else s);
               ds = takeWhile is_digit t;
               v = dec_val ds
           in Some (if 2 ^ w \<le> v then 2 ^ w - 1 else if neg then (2 ^ w - v) mod 2 ^ w else v))"

section \<open>The command line\<close>

fun parse_args :: "bytes list \<Rightarrow> (bytes, bytes) smap \<Rightarrow> (bytes, bytes) smap" where
  \<comment> \<open>the arguments behind \<open>argv[0]\<close>; a value starts with no dash among its first two characters\<close>
  "parse_args [] ret = ret"
| "parse_args (a # rest) ret =
     (let opt = filter (\<lambda>c. c \<noteq> 45) a;
          ret1 = sm_insert opt [] ret
      in case rest of
           [] \<Rightarrow> ret1
         | val # rest2 \<Rightarrow> if 45 \<in> set (take 2 val) then parse_args rest ret1 else parse_args rest2 (sm_put opt val ret1))"

section \<open>Hexadecimal dumps\<close>

definition hex_digit :: "nat \<Rightarrow> u8" where
  "hex_digit n = word_of_nat (if n < 10 then 48 + n else 55 + n)"

definition hex_byte :: "u8 \<Rightarrow> bytes" where
  \<comment> \<open>\<open>sprintf("%02X")\<close>\<close>
  "hex_byte b = [hex_digit (unat b div 16), hex_digit (unat b mod 16)]"

definition is_print :: "u8 \<Rightarrow> bool" where
  "is_print c \<longleftrightarrow> 32 \<le> c \<and> c \<le> 126"

fun bin2hex_loop :: "nat \<Rightarrow> bool \<Rightarrow> bytes \<Rightarrow> nat \<Rightarrow> bytes \<Rightarrow> bytes \<Rightarrow> bytes \<Rightarrow> bytes \<Rightarrow> bytes \<times> bytes \<times> bytes" where
  \<comment> \<open>the loop at \<open>index\<close>: \<open>hex\<close>, \<open>line\<close>, \<open>ascii\<close>\<close>
  "bin2hex_loop char_per_line printf_ascii prefix index hex line ascii [] = (hex, line, ascii)"
| "bin2hex_loop char_per_line printf_ascii prefix index hex line ascii (b # buf) =
     (let ascii1 = (if printf_ascii then ascii @ [if is_print b then b else 46] else ascii);
          line1 = line @ hex_byte b
      in if index mod char_per_line = char_per_line - 1
         then bin2hex_loop char_per_line printf_ascii prefix (index + 1)
                (hex @ line1 @ (if printf_ascii then ascii1 else []) @ [10]) prefix
                (if printf_ascii then replicate 4 32 else ascii1) buf
         else bin2hex_loop char_per_line printf_ascii prefix (index + 1) hex (line1 @ [32]) ascii1 buf)"

definition bin2hex :: "bytes \<Rightarrow> nat \<Rightarrow> bool \<Rightarrow> bytes \<Rightarrow> bytes" where
  "bin2hex buf char_per_line printf_ascii prefix =
     (let (hex, line, ascii) = bin2hex_loop char_per_line printf_ascii prefix 0 [] prefix (replicate 4 32) buf
      in hex @ line @
         (if printf_ascii
          then replicate ((char_per_line - length buf mod char_per_line) * 3 - 1) 32 @ ascii
          else []))"

section \<open>Splitting\<close>

text \<open>The pieces joined again.\<close>

fun join :: "bytes \<Rightarrow> bytes list \<Rightarrow> bytes" where
  "join sep [] = []"
| "join sep [p] = p"
| "join sep (p # ps) = p @ sep @ join sep ps"

lemma str_find_before: "str_find s pat = Some i \<Longrightarrow> j < i \<Longrightarrow> take (length pat) (drop j s) \<noteq> pat"
proof (induction s arbitrary: i j)
  case (Cons x xs)
  then show ?case by (cases j) (auto split: if_splits)
qed (auto split: if_splits)

lemma str_find_split: "str_find s pat = Some i \<Longrightarrow> s = take i s @ pat @ drop (i + length pat) s"
  by (metis append_take_drop_id drop_drop str_find_occurs add.commute)

lemma str_find_eq_None: "pat \<noteq> [] \<Longrightarrow> str_find s pat = None \<longleftrightarrow> (\<forall>p t. s \<noteq> p @ pat @ t)"
proof (induction s)
  case (Cons x xs)
  have "(\<forall>p t. x # xs \<noteq> p @ pat @ t) \<longleftrightarrow> (\<forall>t. x # xs \<noteq> pat @ t) \<and> (\<forall>p t. xs \<noteq> p @ pat @ t)"
    by (metis append_Cons append_Nil list.inject neq_Nil_conv)
  moreover have "(\<exists>t. x # xs = pat @ t) \<longleftrightarrow> take (length pat) (x # xs) = pat"
    by (metis append_eq_conv_conj append_take_drop_id)
  ultimately show ?case using Cons by auto
qed simp

lemma sep_piece_not_sep: "sep \<noteq> [] \<Longrightarrow> str_find s sep = Some i \<Longrightarrow> take i s \<noteq> sep"
proof
  assume s: "sep \<noteq> []" and f: "str_find s sep = Some i" and t: "take i s = sep"
  have "i = length sep" using t str_find_bound [OF f] by (metis add_leD1 length_take min.absorb2)
  with s t str_find_before [OF f, of 0] show False by simp
qed

lemma sep_str_total:
  assumes "sep \<noteq> []"
  shows "\<exists>ps. sep_str s sep = Some ps \<and> ps \<noteq> [] \<and> join sep ps = s \<and> (\<forall>p \<in> set ps. str_find p sep = None)"
proof (induction s rule: length_induct)
  case (1 s)
  show ?case
  proof (cases "str_find s sep")
    case None
    then show ?thesis by (simp add: sep_str.simps)
  next
    case (Some i)
    let ?r = "drop (i + length sep) s"
    have "length ?r < length s" using assms str_find_bound [OF Some] by (cases sep) auto
    with 1 obtain ps where ps: "sep_str ?r sep = Some ps" "ps \<noteq> []" "join sep ps = ?r" "\<forall>p \<in> set ps. str_find p sep = None"
      by blast
    have n: "str_find (take i s) sep = None"
    proof (rule ccontr)
      assume "str_find (take i s) sep \<noteq> None"
      then obtain j where j: "str_find (take i s) sep = Some j" by auto
      from str_find_bound [OF j] assms have "j < i" by (cases sep) auto
      moreover have "take (length sep) (drop j s) = sep"
        using str_find_occurs [OF j] str_find_bound [OF j] by (auto simp: drop_take take_take min_def split: if_splits)
      ultimately show False using str_find_before [OF Some] by blast
    qed
    have "sep_str s sep = Some (take i s # ps)"
      using Some ps sep_piece_not_sep [OF assms Some] by (subst sep_str.simps) (simp add: substr_def)
    moreover have "join sep (take i s # ps) = s"
      using ps str_find_split [OF Some] by (cases ps) auto
    ultimately show ?thesis using ps n by auto
  qed
qed

lemma str_find_one: "str_find p [c] = None \<longleftrightarrow> c \<notin> set p"
  by (induction p) auto

lemma sep_str_join:
  assumes "ps \<noteq> []" and "\<forall>p \<in> set ps. c \<notin> set p"
  shows "sep_str (join [c] ps) [c] = Some ps"
  using assms
proof (induction "[c]" ps rule: join.induct)
  case (3 p q ps)
  then have f: "str_find (join [c] (p # q # ps)) [c] = Some (length p)" by (simp add: str_find_skip1)
  have "p \<noteq> [c]" using 3 by auto
  then show ?case using 3 f by (subst sep_str.simps) (simp add: substr_def)
qed (auto simp: sep_str.simps str_find_none1)

text \<open>
  \<open>SepStr\<close> at a character cuts a string exactly at the occurrences of the character: it always returns, and \<open>ps\<close> is its
  result if and only if \<open>ps\<close> is not empty, its parts do not hold the character, and joined by it they are the
  string. In particular empty parts are kept, and the test \<open>tmp == sep\<close> of the code never holds.
\<close>

theorem sep_str_exact:
  "sep_str s [c] = Some ps \<longleftrightarrow> ps \<noteq> [] \<and> join [c] ps = s \<and> list_all (\<lambda>p. c \<notin> set p) ps"
proof
  assume "sep_str s [c] = Some ps"
  then show "ps \<noteq> [] \<and> join [c] ps = s \<and> list_all (\<lambda>p. c \<notin> set p) ps"
    using sep_str_total [of "[c]" s] by (auto simp: str_find_one list_all_iff)
next
  assume "ps \<noteq> [] \<and> join [c] ps = s \<and> list_all (\<lambda>p. c \<notin> set p) ps"
  then show "sep_str s [c] = Some ps" using sep_str_join [of ps c] by (auto simp: list_all_iff)
qed

section \<open>Replacing\<close>

lemma str_replace_result:
  assumes "str_replace s pat to = Some r"
  shows "str_find r pat = None \<and> (str_find s pat \<noteq> None \<longrightarrow> str_find to pat = None)"
  using assms
proof (rule str_replace.raw_induct [rotated])
  fix rep s pat to r
  assume ih: "\<And>s pat to r. rep s pat to = Some r \<Longrightarrow> str_find r pat = None \<and> (str_find s pat \<noteq> None \<longrightarrow> str_find to pat = None)"
    and eq: "(case str_find s pat of None \<Rightarrow> Some s
      | Some i \<Rightarrow> rep (take i s @ to @ drop (i + length pat) s) pat to) = Some r"
  show "str_find r pat = None \<and> (str_find s pat \<noteq> None \<longrightarrow> str_find to pat = None)"
  proof (cases "str_find s pat")
    case (Some i)
    with eq have "rep (take i s @ to @ drop (i + length pat) s) pat to = Some r" by simp
    note ih = ih [OF this]
    have "str_find to pat = None"
    proof (cases "pat = []")
      case True
      with ih show ?thesis by (cases r) auto
    next
      case False
      then show ?thesis using ih by (metis append_assoc str_find_eq_None)
    qed
    then show ?thesis using ih by simp
  qed (use eq in simp)
qed

text \<open>
  \<open>Replace\<close> does not return when the replacement holds the pattern and the string does, too: each round searches the string
  from its start again.
\<close>

theorem str_replace_never_returns:
  assumes "str_find s from \<noteq> None" and "str_find to from \<noteq> None"
  shows "str_replace s from to = None"
  using str_replace_result [of s "from" to] assms by (metis not_None_eq)

lemma str_replace_never_returns_witness:
  "str_replace (bs ''/${a}/x'') (bs ''${a}'') (bs ''${a}/${a}'') = None"
  by (rule str_replace_never_returns) (simp_all add: bs_def)

section \<open>Command lines\<close>

lemma parse_args_step:
  assumes "45 \<notin> set (take 2 val)"
  shows "parse_args (a # val # rest) ret = parse_args rest (sm_put (filter (\<lambda>c. c \<noteq> 45) a) val (sm_insert (filter (\<lambda>c. c \<noteq> 45) a) [] ret))"
  using assms by (simp add: Let_def)

lemma parse_args_keeps:
  assumes "\<forall>(k, v) \<in> set kvs. 45 \<notin> set k \<and> 45 \<notin> set (take 2 v)"
  shows "sm_find k (parse_args (concat (map (\<lambda>(k, v). [45 # k, v]) kvs)) ret)
     = (case map_of (rev kvs) k of None \<Rightarrow> sm_find k ret | Some v \<Rightarrow> Some v)"
  using assms
proof (induction kvs arbitrary: ret)
  case (Cons kv kvs)
  obtain a v where kv: "kv = (a, v)" by (cases kv)
  have f: "filter (\<lambda>c. c \<noteq> 45) a = a" using Cons.prems kv by (auto intro!: filter_True)
  show ?case
    using Cons kv f by (auto simp: sm_simps map_add_def sm_insert_def split: option.splits)
qed simp

section \<open>Numbers come back\<close>

lemma dec_val_snoc [simp]: "dec_val (ds @ [c]) = dec_val ds * 10 + (unat c - 48)"
  by (simp add: dec_val_def)

lemma digit_val: "k < 10 \<Longrightarrow> unat (word_of_nat (48 + k) :: u8) = 48 + k"
  by (subst unat_of_nat) simp

lemma dec_digits: "dec_val (dec n) = n \<and> list_all is_digit (dec n) \<and> dec n \<noteq> []"
proof (induction n rule: dec.induct)
  case (1 n)
  have d: "is_digit (word_of_nat (48 + k))" if "k < 10" for k
    using digit_val [OF that] that by (simp add: is_digit_def word_le_nat_alt)
  show ?case
  proof (cases "n < 10")
    case True
    then have "dec n = [word_of_nat (48 + n)]" by (simp add: dec.simps)
    then show ?thesis using d [of n] digit_val [of n] True by (simp add: dec_val_def)
  next
    case False
    then have e: "dec n = dec (n div 10) @ [word_of_nat (48 + n mod 10)]" by (subst dec.simps) simp
    have "unat (word_of_nat (48 + n mod 10) :: u8) = 48 + n mod 10" by (rule digit_val) simp
    then show ?thesis unfolding e using 1 [OF False] d [of "n mod 10"] by simp
  qed
qed

lemma digit_class: "is_digit c \<Longrightarrow> \<not> is_space c \<and> c \<noteq> 45 \<and> c \<noteq> 43"
  by (auto simp: is_digit_def is_space_def word_le_nat_alt)

lemma str2num_dec:
  assumes "n < 2 ^ w"
  shows "str2num w (dec n) = Some n"
proof -
  note d = dec_digits [of n]
  obtain c ds where c: "dec n = c # ds" using d by (cases "dec n") auto
  have k: "is_digit c" "list_all is_digit ds" using d c by auto
  have "takeWhile is_digit (c # ds) = c # ds" using k by (simp add: list_all_iff)
  moreover have "dec_val (c # ds) = n" using d c by simp
  ultimately show ?thesis
    unfolding c str2num_def using digit_class [OF k(1)] assms by (simp add: Let_def)
qed

end
