(* ===== verification/RtmpUrl.thy ===== *)
theory RtmpUrl
  imports Util
begin

text \<open>
  \<open>RtmpProtocol::ParseRtmpUrl\<close> of \<open>src/rtmp_protocol.cpp\<close>: the parts of an RTMP URL. The main result
  is that the parts of a well-formed URL come back; another lemma shows what the position arithmetic
  does to a URL without arguments.
\<close>

record rtmp_url =
  ru_ip :: bytes
  ru_port :: "nat option" \<comment> \<open>\<open>None\<close>: not initialised\<close>
  ru_app :: bytes
  ru_stream :: bytes
  ru_args :: "(bytes, bytes) smap"

definition rtmp_ip_port :: "bytes \<Rightarrow> bytes \<times> nat option" where
  "rtmp_ip_port ip_port =
     (case str_find ip_port (bs '':'') of
        None \<Rightarrow> (ip_port, Some 1935)
      | Some pos \<Rightarrow> (substr ip_port 0 pos, str2num 16 (drop (pos + 1) ip_port)))"

fun rtmp_url_args :: "bytes list \<Rightarrow> (bytes, bytes) smap \<Rightarrow> (bytes, bytes) smap option" where
  "rtmp_url_args [] args = Some args"
| "rtmp_url_args (item # items) args =
     (case sep_str item (bs ''='') of
        None \<Rightarrow> None
      | Some kv \<Rightarrow> rtmp_url_args items (if length kv = 2 then sm_put (kv ! 0) (kv ! 1) args else args))"

definition parse_rtmp_url :: "bytes \<Rightarrow> rtmp_url option option" where
  \<comment> \<open>\<open>Some None\<close> for -1, where \<open>rtmp_url\<close> stays as it was; \<open>None\<close> if it does not return. Without a \<open>'?'\<close>
     the arguments are looked for from \<open>npos + 1 = 0\<close> on\<close>
  "parse_rtmp_url url =
     (case str_find url (bs ''rtmp://'') of
        None \<Rightarrow> Some None
      | Some p0 \<Rightarrow>
      (case str_find_from url (bs ''/'') (p0 + 7) of
        None \<Rightarrow> Some None
      | Some p1 \<Rightarrow>
          let (ip, port) = rtmp_ip_port (substr url (p0 + 7) (p1 - (p0 + 7)))
          in case str_find_from url (bs ''/'') (p1 + 1) of
               None \<Rightarrow> Some None
             | Some p2 \<Rightarrow>
                 let app = substr url (p1 + 1) (p2 - (p1 + 1));
                     q = str_find_from url (bs ''?'') (p2 + 1);
                     stream = (case q of None \<Rightarrow> drop (p2 + 1) url | Some p3 \<Rightarrow> substr url (p2 + 1) (p3 - (p2 + 1)))
                 in if stream = [] then Some None
                    else
                      let args_str = drop (case q of None \<Rightarrow> 0 | Some p3 \<Rightarrow> p3 + 1) url
                      in case sep_str args_str (bs ''&'') of
                           None \<Rightarrow> None
                         | Some kv_vec \<Rightarrow>
                             map_option (\<lambda>args. Some \<lparr>ru_ip = ip, ru_port = port, ru_app = app, ru_stream = stream, ru_args = args\<rparr>)
                               (rtmp_url_args kv_vec [])))"

section \<open>The parts of a URL\<close>

lemma str_find_prefix: "str_find (pat @ t) pat = Some 0"
  by (cases "pat @ t") (auto, metis append_eq_conv_conj)

lemma find_next:
  assumes "c \<notin> set p" and "s = a @ p @ c # t" and "n = length a"
  shows "str_find_from s [c] n = Some (n + length p)" and "substr s n (length p) = p"
  using assms by (simp_all add: str_find_from_def str_find_skip1 substr_def)

lemma digits_no: "list_all is_digit ds \<Longrightarrow> \<not> is_digit c \<Longrightarrow> c \<notin> set ds"
  by (auto simp: list_all_iff)

lemma bs_chars: "bs ''/'' = [47]" "bs '':'' = [58]" "bs ''?'' = [63]" "bs ''&'' = [38]" "bs ''='' = [61]"
  by (simp_all add: bs_def)

lemma rtmp_ip_port_parts:
  assumes "58 \<notin> set ip" and "port < 2 ^ 16"
  shows "rtmp_ip_port (ip @ 58 # dec port) = (ip, Some port)"
  using str_find_skip1 [OF assms(1)] str2num_dec [OF assms(2)] by (simp add: rtmp_ip_port_def bs_chars substr_def)

lemma rtmp_url_args_parts:
  assumes "\<forall>(k, v) \<in> set kvs. 61 \<notin> set k \<and> 61 \<notin> set v"
  shows "rtmp_url_args (map (\<lambda>(k, v). k @ [61] @ v) kvs) m = Some (fold (\<lambda>(k, v). sm_put k v) kvs m)"
  using assms
proof (induction kvs arbitrary: m)
  case (Cons kv kvs)
  obtain k v where kv: "kv = (k, v)" by (cases kv)
  have "sep_str (join [61] [k, v]) [61] = Some [k, v]" using Cons.prems kv by (intro sep_str_join) auto
  then show ?case using Cons kv by (simp add: bs_chars)
qed simp

text \<open>
  \<open>ParseRtmpUrl\<close> gives back the parts of a URL \<open>rtmp://ip:port/app/stream?k=v&...\<close>: host, port, application and stream as
  they stand, and the map of the arguments in which a later value of a key replaces an earlier one, provided that no part holds a
  character that ends it.
\<close>

theorem rtmp_url_parts:
  assumes "47 \<notin> set ip" and "58 \<notin> set ip" and "port < 2 ^ 16" and "47 \<notin> set app" and "63 \<notin> set stream" and "stream \<noteq> []"
    and "kvs \<noteq> []" and "list_all (\<lambda>(k, v). {38, 61} \<inter> (set k \<union> set v) = {}) kvs"
  shows "parse_rtmp_url (bs ''rtmp://'' @ ip @ bs '':'' @ dec port @ bs ''/'' @ app @ bs ''/'' @ stream @ bs ''?''
           @ join (bs ''&'') (map (\<lambda>(k, v). k @ bs ''='' @ v) kvs))
       = Some (Some \<lparr>ru_ip = ip, ru_port = Some port, ru_app = app, ru_stream = stream, ru_args = fold (\<lambda>(k, v). sm_put k v) kvs []\<rparr>)"
proof -
  define as where "as = join [38] (map (\<lambda>(k, v). k @ [61] @ v) kvs)"
  define u where "u = bs ''rtmp://'' @ ip @ [58] @ dec port @ [47] @ app @ [47] @ stream @ [63] @ as"
  define h where "h = ip @ 58 # dec port"
  have digits: "list_all is_digit (dec port)" using dec_digits by blast
  have h: "47 \<notin> set h" using assms(1) digits_no [OF digits, of 47] by (simp add: h_def is_digit_def word_le_nat_alt)
  have scheme: "str_find u (bs ''rtmp://'') = Some 0" unfolding u_def by (rule str_find_prefix)
  have u: "u = bs ''rtmp://'' @ h @ 47 # (app @ [47] @ stream @ [63] @ as)"
    "u = (bs ''rtmp://'' @ h @ [47]) @ app @ 47 # (stream @ [63] @ as)"
    "u = (bs ''rtmp://'' @ h @ [47] @ app @ [47]) @ stream @ 63 # as" by (simp_all add: u_def h_def)
  have 1: "str_find_from u [47] 7 = Some (7 + length h)" "substr u 7 (length h) = h"
    by (rule find_next [OF h u(1)], simp)+
  have 2: "str_find_from u [47] (8 + length h) = Some (8 + length h + length app)" "substr u (8 + length h) (length app) = app"
    by (rule find_next [OF assms(4) u(2)], simp)+
  have 3: "str_find_from u [63] (9 + length h + length app) = Some (9 + length h + length app + length stream)"
    "substr u (9 + length h + length app) (length stream) = stream"
    by (rule find_next [OF assms(5) u(3)], simp)+
  have 4: "drop (10 + length h + length app + length stream) u = as"
  proof -
    have "u = (bs ''rtmp://'' @ h @ [47] @ app @ [47] @ stream @ [63]) @ as" by (simp add: u_def h_def)
    moreover have "length (bs ''rtmp://'' @ h @ [47] @ app @ [47] @ stream @ [63]) = 10 + length h + length app + length stream" by simp
    ultimately show ?thesis by (metis append_eq_conv_conj)
  qed
  have 5: "sep_str as [38] = Some (map (\<lambda>(k, v). k @ [61] @ v) kvs)"
    unfolding as_def using assms(7,8) by (intro sep_str_join) (auto simp: list_all_iff)
  have 6: "rtmp_url_args (map (\<lambda>(k, v). k @ [61] @ v) kvs) [] = Some (fold (\<lambda>(k, v). sm_put k v) kvs [])"
    using assms(8) by (intro rtmp_url_args_parts) (auto simp: list_all_iff)
  have ip: "rtmp_ip_port h = (ip, Some port)" unfolding h_def by (rule rtmp_ip_port_parts [OF assms(2,3)])
  have "parse_rtmp_url u = Some (Some \<lparr>ru_ip = ip, ru_port = Some port, ru_app = app, ru_stream = stream, ru_args = fold (\<lambda>(k, v). sm_put k v) kvs []\<rparr>)"
    using scheme 1 2 3 4 5 6 ip assms(6) by (simp add: parse_rtmp_url_def bs_chars Let_def ac_simps)
  then show ?thesis unfolding u_def as_def by (simp add: bs_chars)
qed

lemma rtmp_url_parts_witness:
  "parse_rtmp_url (bs ''rtmp://'' @ bs ''10.0.0.1'' @ bs '':'' @ dec 1936 @ bs ''/'' @ bs ''live'' @ bs ''/'' @ bs ''cam'' @ bs ''?''
       @ join (bs ''&'') (map (\<lambda>(k, v). k @ bs ''='' @ v) [(bs ''token'', bs ''x'')]))
     = Some (Some \<lparr>ru_ip = bs ''10.0.0.1'', ru_port = Some 1936, ru_app = bs ''live'', ru_stream = bs ''cam'',
         ru_args = fold (\<lambda>(k, v). sm_put k v) [(bs ''token'', bs ''x'')] []\<rparr>)"
  by (rule rtmp_url_parts) (simp_all add: bs_def)

text \<open>Without arguments the whole URL is cut at \<open>'&'\<close> and \<open>'='\<close>.\<close>

lemma rtmp_url_no_arguments:
  "parse_rtmp_url (bs ''rtmp://h/live/a=b'') =
     Some (Some \<lparr>ru_ip = bs ''h'', ru_port = Some 1935, ru_app = bs ''live'', ru_stream = bs ''a=b'',
       ru_args = [(bs ''rtmp://h/live/a'', bs ''b'')]\<rparr>)"
  by (simp add: parse_rtmp_url_def bs_def str_find_from_def rtmp_ip_port_def substr_def sep_str.simps Let_def)

end
