(* ===== verification/Amf0.thy ===== *)
theory Amf0
  imports BitIO
begin

text \<open>
  \<open>src/any.h\<close>, \<open>src/any.cpp\<close> (the values of commands and metadata) and \<open>src/amf_0.cpp\<close>, their AMF0
  encoding. An \<open>any::Any*\<close> is an option, \<open>None\<close> for NULL, which is what an AMF null decodes to. A
  double is its 64-bit pattern, which is what the code reads and writes; the conversion from \<open>int64_t\<close> is
  a parameter. The output buffer is the list of the bytes written (\<open>io_buffer_refines_queue\<close>).
  The decoder recurses on its input; it gets fuel, and \<open>amf_enough_fuel\<close> shows that twice the length of the
  input is enough. The depth of the C++ stack, which nested input can exhaust, is not in the model.

  The main results are the round trip of every value without arrays, and what the
  decoder does with arrays, truncated objects and unknown markers.
\<close>

section \<open>Values\<close>

datatype any =
    AInt "64 word"
  | ADouble u64
  | AString bytes
  | AVector "any option list"
  | AMap "(bytes \<times> any option) list"
  | ANull
  | AEcma "(bytes \<times> any option) list"

definition any_get_int :: "any \<Rightarrow> (64 word) option" where
  "any_get_int a = (case a of AInt i \<Rightarrow> Some i | _ \<Rightarrow> None)"

definition any_get_double :: "any \<Rightarrow> u64 option" where
  "any_get_double a = (case a of ADouble d \<Rightarrow> Some d | _ \<Rightarrow> None)"

definition any_get_string :: "any \<Rightarrow> bytes option" where
  "any_get_string a = (case a of AString s \<Rightarrow> Some s | _ \<Rightarrow> None)"

definition any_get_vector :: "any \<Rightarrow> any option list option" where
  "any_get_vector a = (case a of AVector v \<Rightarrow> Some v | _ \<Rightarrow> None)"

definition any_get_map :: "any \<Rightarrow> (bytes \<times> any option) list option" where
  "any_get_map a = (case a of AMap m \<Rightarrow> Some m | _ \<Rightarrow> None)"

definition any_get_ecma :: "any \<Rightarrow> (bytes \<times> any option) list option" where
  "any_get_ecma a = (case a of AEcma m \<Rightarrow> Some m | _ \<Rightarrow> None)"

definition any_vector_at :: "any option list \<Rightarrow> nat \<Rightarrow> any option" where
  \<comment> \<open>\<open>Vector::operator[]\<close>\<close>
  "any_vector_at v i = (if v = [] \<or> length v < i + 1 then None else v ! i)"

fun any_map_at :: "(bytes \<times> any option) list \<Rightarrow> bytes \<Rightarrow> any option" where
  \<comment> \<open>\<open>Map::operator[]\<close>: the first entry of that key\<close>
  "any_map_at [] k = None"
| "any_map_at ((a, v) # m) k = (if a = k then v else any_map_at m k)"

definition any_map_insert :: "bytes \<Rightarrow> any option \<Rightarrow> (bytes \<times> any option) list \<Rightarrow> (bytes \<times> any option) list" where
  "any_map_insert k v m = m @ [(k, v)]"

text \<open>\<open>any::AnyTypeToStr\<close>\<close>

definition any_type_str :: "any \<Rightarrow> string" where
  "any_type_str a = (case a of AInt _ \<Rightarrow> ''kInt'' | ADouble _ \<Rightarrow> ''kDouble'' | AString _ \<Rightarrow> ''kString'' | AVector _ \<Rightarrow> ''kVector''
     | AMap _ \<Rightarrow> ''kMap'' | ANull \<Rightarrow> ''kNull'' | AEcma _ \<Rightarrow> ''kEcma'')"

section \<open>Markers and commands\<close>

definition kNumber :: u8 where "kNumber = 0"
definition kBoolean :: u8 where "kBoolean = 1"
definition kString :: u8 where "kString = 2"
definition kObject :: u8 where "kObject = 3"
definition kNull :: u8 where "kNull = 5"
definition kEcmaArray :: u8 where "kEcmaArray = 8"
definition kObjectEnd :: u8 where "kObjectEnd = 9"

lemmas amf_markers = kNumber_def kBoolean_def kString_def kObject_def kNull_def kEcmaArray_def kObjectEnd_def

definition amf_command_at :: "any option list \<Rightarrow> nat \<Rightarrow> any option" where
  \<comment> \<open>\<open>AmfCommand::operator[]\<close>\<close>
  "amf_command_at c i = (if length c < i + 1 then None else c ! i)"

section \<open>Decoding\<close>

definition amf_get_type :: "bit_buffer \<Rightarrow> u8 option \<times> bit_buffer" where
  \<comment> \<open>\<open>GetType\<close>, \<open>None\<close> for -1\<close>
  "amf_get_type b =
     (if \<not> bb_more_bytes 1 b then (None, b) else let (_, t, b1) = bb_get_bytes 1 b in (Some t, b1))"

definition amf_decode_number :: "bit_buffer \<Rightarrow> int \<times> any option \<times> bit_buffer" where
  "amf_decode_number b =
     (if \<not> bb_more_bytes 8 b then (-1, None, b) else let (_, n, b1) = bb_get_bytes 8 b in (0, Some (ADouble n), b1))"

definition amf_decode_boolean :: "bit_buffer \<Rightarrow> int \<times> any option \<times> bit_buffer" where
  \<comment> \<open>the result is an \<open>Int\<close>\<close>
  "amf_decode_boolean b =
     (if \<not> bb_more_bytes 1 b then (-1, None, b)
      else let (_, n, b1) = bb_get_bytes 1 b in (0, Some (AInt (ucast (n :: u8))), b1))"

definition amf_decode_string :: "bit_buffer \<Rightarrow> int \<times> any option \<times> bit_buffer" where
  "amf_decode_string b =
     (if \<not> bb_more_bytes 2 b then (-1, None, b)
      else
        let (_, len, b1) = bb_get_bytes 2 b
        in if \<not> bb_more_bytes (unat (len :: u16)) b1 then (-1, None, b1)
           else let (_, s, b2) = bb_get_string (unat len) [] b1 in (0, Some (AString s), b2))"

datatype amf_head = HeadNone | HeadError bit_buffer | Head bytes u8 bit_buffer

definition amf_entry_head :: "bit_buffer \<Rightarrow> amf_head" where
  \<comment> \<open>the part the two loops share: a key with its length, and the marker of the value\<close>
  "amf_entry_head b =
     (let (ret, key_len, b1) = bb_get_bytes 2 b
      in if ret \<noteq> 0 then HeadNone
         else if \<not> bb_more_bytes (unat (key_len :: u16)) b1 then HeadError b1
         else
           let (_, key, b2) = bb_get_string (unat key_len) [] b1;
               (t, b3) = amf_get_type b2
           in case t of None \<Rightarrow> HeadError b3 | Some m \<Rightarrow> Head key m b3)"

text \<open>\<open>Decode(type, ...)\<close> with \<open>DecodeObject\<close> and \<open>DecodeEcmaArray\<close>; \<open>None\<close> is lack of fuel, the flag is \<open>error\<close>.\<close>

fun amf_val :: "nat \<Rightarrow> u8 \<Rightarrow> bit_buffer \<Rightarrow> (int \<times> any option \<times> bit_buffer) option"
  and amf_obj :: "nat \<Rightarrow> (bytes \<times> any option) list \<Rightarrow> bit_buffer \<Rightarrow> (bool \<times> (bytes \<times> any option) list \<times> bit_buffer) option"
  and amf_ecma :: "nat \<Rightarrow> nat \<Rightarrow> (bytes \<times> any option) list \<Rightarrow> bit_buffer \<Rightarrow> (bool \<times> (bytes \<times> any option) list \<times> bit_buffer) option"
where
  "amf_val 0 t b = None"
| "amf_val (Suc f) t b =
     (if t = kNumber then Some (amf_decode_number b)
      else if t = kBoolean then Some (amf_decode_boolean b)
      else if t = kString then Some (amf_decode_string b)
      else if t = kObject then
        (case amf_obj f [] b of
           None \<Rightarrow> None
         | Some (err, es, b1) \<Rightarrow> Some (if err then (-1, None, b1) else (0, Some (AMap es), b1)))
      else if t = kEcmaArray then
        (if \<not> bb_more_bytes 4 b then Some (-1, None, b)
         else let (_, n, b1) = bb_get_bytes 4 b
              in case amf_ecma f (unat (n :: u32)) [] b1 of
                   None \<Rightarrow> None
                 | Some (err, es, b2) \<Rightarrow> Some (if err then (-1, None, b2) else (0, Some (AMap es), b2)))
      else if t = kNull then Some (0, None, b)
      else Some (-1, None, b))"
| "amf_obj 0 acc b = None"
| "amf_obj (Suc f) acc b =
     (case amf_entry_head b of
        HeadNone \<Rightarrow> Some (False, acc, b)
      | HeadError b1 \<Rightarrow> Some (True, acc, b1)
      | Head k t b1 \<Rightarrow>
          if t = kObjectEnd then Some (False, acc, b1)
          else case amf_val f t b1 of
                 None \<Rightarrow> None
               | Some (ret, v, b2) \<Rightarrow>
                   if ret \<noteq> 0 then Some (True, acc, b2) else amf_obj f (any_map_insert k v acc) b2)"
| "amf_ecma 0 n acc b = None"
| "amf_ecma (Suc f) 0 acc b = Some (False, acc, b)"
| "amf_ecma (Suc f) (Suc n) acc b =
     (case amf_entry_head b of
        HeadNone \<Rightarrow> amf_ecma (Suc f) n acc b
      | HeadError b1 \<Rightarrow> Some (True, acc, b1)
      | Head k t b1 \<Rightarrow>
          if t = kObjectEnd then Some (False, acc, b1)
          else case amf_val f t b1 of
                 None \<Rightarrow> None
               | Some (ret, v, b2) \<Rightarrow>
                   if ret \<noteq> 0 then Some (True, acc, b2) else amf_ecma (Suc f) n (any_map_insert k v acc) b2)"

fun amf_values :: "nat \<Rightarrow> int \<Rightarrow> any option list \<Rightarrow> bit_buffer \<Rightarrow> (int \<times> any option list) option" where
  \<comment> \<open>the outer loop: it goes on behind a value it cannot decode\<close>
  "amf_values 0 ret acc b = None"
| "amf_values (Suc f) ret acc b =
     (let (r, t, b1) = bb_get_bytes 1 b
      in if r \<noteq> 0 then Some (ret, acc)
         else case amf_val f t b1 of
                None \<Rightarrow> None
              | Some (ret2, v, b2) \<Rightarrow>
                  if ret2 = 0 then amf_values f ret (acc @ [v]) b2 else amf_values f (-1) acc b2)"

definition amf_decode :: "bytes \<Rightarrow> (int \<times> any option list) option" where
  "amf_decode d = amf_values (2 * length d + 2) 0 [] (bb_new d)"

section \<open>Encoding\<close>

definition amf_encode_string :: "bytes \<Rightarrow> bytes" where
  \<comment> \<open>the length is truncated to 16 bits, the bytes are not\<close>
  "amf_encode_string s = be 2 (length s mod 2 ^ 16) @ s"

text \<open>\<open>Encode\<close> of one value: status and bytes, \<open>None\<close> when a NULL pointer is used.\<close>

fun amf_encode :: "(64 word \<Rightarrow> u64) \<Rightarrow> any option \<Rightarrow> (int \<times> bytes) option"
  and amf_encode_entries :: "(64 word \<Rightarrow> u64) \<Rightarrow> (bytes \<times> any option) list \<Rightarrow> (int \<times> bytes) option"
where
  "amf_encode i2d None = None"
| "amf_encode i2d (Some (AInt i)) = Some (0, kNumber # be 8 (unat (i2d i)))"
| "amf_encode i2d (Some (ADouble d)) = Some (0, kNumber # be 8 (unat d))"
| "amf_encode i2d (Some (AString s)) = Some (0, kString # amf_encode_string s)"
| "amf_encode i2d (Some (AEcma m)) =
     (case amf_encode_entries i2d m of None \<Rightarrow> None | Some (ret, out) \<Rightarrow> Some (ret, kEcmaArray # be 4 0 @ out))"
| "amf_encode i2d (Some (AMap m)) =
     (case amf_encode_entries i2d m of None \<Rightarrow> None | Some (ret, out) \<Rightarrow> Some (0, kObject # out @ [kObjectEnd]))"
| "amf_encode i2d (Some ANull) = Some (0, [kNull])"
| "amf_encode i2d (Some (AVector v)) = Some (-1, [])"
| "amf_encode_entries i2d [] = Some (0, be 2 0)"
| "amf_encode_entries i2d ((k, v) # m) =
     (case amf_encode i2d v of
        None \<Rightarrow> None
      | Some (ret, out) \<Rightarrow>
          if ret \<noteq> 0 then Some (-1, amf_encode_string k @ out)
          else case amf_encode_entries i2d m of
                 None \<Rightarrow> None
               | Some (ret2, out2) \<Rightarrow> Some (ret2, amf_encode_string k @ out @ out2))"

fun amf_encode_all :: "(64 word \<Rightarrow> u64) \<Rightarrow> any option list \<Rightarrow> (int \<times> bytes) option" where
  "amf_encode_all i2d [] = Some (0, [])"
| "amf_encode_all i2d (v # vs) =
     (case amf_encode i2d v of
        None \<Rightarrow> None
      | Some (ret, out) \<Rightarrow>
          if ret \<noteq> 0 then Some (ret, out)
          else map_option (\<lambda>(r, o2). (r, out @ o2)) (amf_encode_all i2d vs))"

section \<open>Fuel\<close>

text \<open>All reads are at byte positions of the input \<open>d\<close>.\<close>

lemma amf_get_type_at:
  "amf_get_type (bb_at d p) = (if p < length d then (Some (d ! p), bb_at d (p + 1)) else (None, bb_at d p))"
proof (cases "p < length d")
  case True
  then have "drop p d = d ! p # drop (Suc p) d" by (simp add: Cons_nth_drop_Suc)
  then show ?thesis using True by (simp add: amf_get_type_def bb_get_bytes_at be_val_def)
qed (simp add: amf_get_type_def)

lemma bb_at_reached: "p \<le> q \<Longrightarrow> q \<le> length d \<Longrightarrow> \<exists>r. bb_at d q = bb_at d r \<and> p \<le> r \<and> r \<le> length d"
  by blast

lemma amf_entry_head_at:
  "(case amf_entry_head (bb_at d p) of
      HeadNone \<Rightarrow> length d < p + 2
    | HeadError b \<Rightarrow> \<exists>q. b = bb_at d q \<and> p \<le> q \<and> q \<le> length d
    | Head k t b \<Rightarrow> \<exists>q. b = bb_at d q \<and> p + 3 \<le> q \<and> q \<le> length d)"
proof -
  define n where "n = unat (word_of_nat (be_val (take 2 (drop p d))) :: u16)"
  show ?thesis
    unfolding amf_entry_head_def bb_get_bytes_at [of 2, simplified] bb_get_string_at amf_get_type_at Let_def
    by (simp flip: n_def add: amf_get_type_at bb_get_string_at) (auto intro!: bb_at_reached)
qed

lemma amf_scalars_at:
  assumes "p \<le> length d"
  shows "\<exists>ret v q. amf_decode_number (bb_at d p) = (ret, v, bb_at d q) \<and> p \<le> q \<and> q \<le> length d"
    and "\<exists>ret v q. amf_decode_boolean (bb_at d p) = (ret, v, bb_at d q) \<and> p \<le> q \<and> q \<le> length d"
    and "\<exists>ret v q. amf_decode_string (bb_at d p) = (ret, v, bb_at d q) \<and> p \<le> q \<and> q \<le> length d"
  using assms
  by (auto simp: amf_decode_number_def amf_decode_boolean_def amf_decode_string_def bb_get_bytes_at bb_get_string_at Let_def)

lemma amf_total:
  "(\<forall>t p. p \<le> length d \<longrightarrow> 2 * (length d - p) + 2 \<le> f \<longrightarrow>
      (\<exists>ret v q. amf_val f t (bb_at d p) = Some (ret, v, bb_at d q) \<and> p \<le> q \<and> q \<le> length d)) \<and>
   (\<forall>acc p. p \<le> length d \<longrightarrow> 2 * (length d - p) + 1 \<le> f \<longrightarrow>
      (\<exists>err es q. amf_obj f acc (bb_at d p) = Some (err, es, bb_at d q) \<and> p \<le> q \<and> q \<le> length d)) \<and>
   (\<forall>n acc p. p \<le> length d \<longrightarrow> 2 * (length d - p) + 1 \<le> f \<longrightarrow>
      (\<exists>err es q. amf_ecma f n acc (bb_at d p) = Some (err, es, bb_at d q) \<and> p \<le> q \<and> q \<le> length d))"
proof (induction f)
  case (Suc f)
  then have v: "p \<le> length d \<Longrightarrow> 2 * (length d - p) + 2 \<le> f \<Longrightarrow>
      \<exists>ret v q. amf_val f t (bb_at d p) = Some (ret, v, bb_at d q) \<and> p \<le> q \<and> q \<le> length d"
    and o: "p \<le> length d \<Longrightarrow> 2 * (length d - p) + 1 \<le> f \<Longrightarrow>
      \<exists>err es q. amf_obj f acc (bb_at d p) = Some (err, es, bb_at d q) \<and> p \<le> q \<and> q \<le> length d"
    and e: "p \<le> length d \<Longrightarrow> 2 * (length d - p) + 1 \<le> f \<Longrightarrow>
      \<exists>err es q. amf_ecma f n acc (bb_at d p) = Some (err, es, bb_at d q) \<and> p \<le> q \<and> q \<le> length d" for t p acc n
    by blast+
  have val: "\<exists>ret v q. amf_val (Suc f) t (bb_at d p) = Some (ret, v, bb_at d q) \<and> p \<le> q \<and> q \<le> length d"
    if p: "p \<le> length d" "2 * (length d - p) + 2 \<le> Suc f" for t p
  proof -
    obtain err es q where obj: "amf_obj f [] (bb_at d p) = Some (err, es, bb_at d q)" "p \<le> q" "q \<le> length d"
      using o [OF p(1), of "[]"] p(2) by auto
    consider "t = kNumber" | "t = kBoolean" | "t = kString" | "t = kObject" | "t = kEcmaArray" | "t \<notin> {kNumber, kBoolean, kString, kObject, kEcmaArray}"
      by blast
    then show ?thesis
    proof cases
      case 5
      show ?thesis
      proof (cases "p + 4 \<le> length d")
        case True
        obtain n :: u32 where n: "bb_get_bytes 4 (bb_at d p) = (0, n, bb_at d (p + 4))" using True by (simp add: bb_get_bytes_at)
        have "2 * (length d - (p + 4)) + 1 \<le> f" using p True by linarith
        from e [OF True this, of "unat n" "[]"] obtain err es q
          where "amf_ecma f (unat n) [] (bb_at d (p + 4)) = Some (err, es, bb_at d q)" "p + 4 \<le> q" "q \<le> length d"
          by blast
        then show ?thesis using 5 True n by (auto simp: amf_markers bb_at_reached)
      qed (use 5 p in \<open>auto simp: amf_markers\<close>)
    qed (use amf_scalars_at [OF p(1)] obj p in \<open>auto simp: amf_markers bb_at_reached\<close>)
  qed
  have obj: "\<exists>err es q. amf_obj (Suc f) acc (bb_at d p) = Some (err, es, bb_at d q) \<and> p \<le> q \<and> q \<le> length d"
    if p: "p \<le> length d" "2 * (length d - p) + 1 \<le> Suc f" for acc p
  proof (cases "amf_entry_head (bb_at d p)")
    case (Head k t b)
    then obtain q where q: "b = bb_at d q" "p + 3 \<le> q" "q \<le> length d" using amf_entry_head_at [of d p] by auto
    have "2 * (length d - q) + 2 \<le> f" using q p by linarith
    from v [OF q(3) this, of t] obtain ret w q2 where w: "amf_val f t (bb_at d q) = Some (ret, w, bb_at d q2)" "q \<le> q2" "q2 \<le> length d"
      by blast
    have "2 * (length d - q2) + 1 \<le> f" using q w p by linarith
    from o [OF w(3) this, of "any_map_insert k w acc"] show ?thesis
      using Head q w by (auto simp: bb_at_reached)
  qed (use amf_entry_head_at [of d p] p in \<open>auto simp: bb_at_reached\<close>)
  have ecma: "\<exists>err es q. amf_ecma (Suc f) n acc (bb_at d p) = Some (err, es, bb_at d q) \<and> p \<le> q \<and> q \<le> length d"
    if "p \<le> length d" "2 * (length d - p) + 1 \<le> Suc f" for n acc p
    using that
  proof (induction n arbitrary: acc p)
    case (Suc n)
    note p = Suc.prems
    show ?case
    proof (cases "amf_entry_head (bb_at d p)")
      case (Head k t b)
      then obtain q where q: "b = bb_at d q" "p + 3 \<le> q" "q \<le> length d" using amf_entry_head_at [of d p] by auto
      have "2 * (length d - q) + 2 \<le> f" using q p by linarith
      from v [OF q(3) this, of t] obtain ret w q2 where w: "amf_val f t (bb_at d q) = Some (ret, w, bb_at d q2)" "q \<le> q2" "q2 \<le> length d"
        by blast
      have "2 * (length d - q2) + 1 \<le> Suc f" using q w p by linarith
      from Suc.IH [OF w(3) this, of "any_map_insert k w acc"] show ?thesis
        using Head q w by (auto simp: bb_at_reached)
    qed (use Suc amf_entry_head_at [of d p] p in \<open>auto simp: bb_at_reached\<close>)
  qed (auto simp: bb_at_reached)
  show ?case using val obj ecma by blast
qed simp

lemma amf_values_total:
  "p \<le> length d \<Longrightarrow> 2 * (length d - p) + 2 \<le> f \<Longrightarrow> amf_values f ret acc (bb_at d p) \<noteq> None"
proof (induction f arbitrary: ret acc p)
  case (Suc f)
  show ?case
  proof (cases "p + 1 \<le> length d")
    case True
    obtain t :: u8 where t: "bb_get_bytes 1 (bb_at d p) = (0, t, bb_at d (p + 1))" using True by (simp add: bb_get_bytes_at)
    have "2 * (length d - (p + 1)) + 2 \<le> f" using Suc.prems True by linarith
    with True obtain r v q where w: "amf_val f t (bb_at d (p + 1)) = Some (r, v, bb_at d q)" "p + 1 \<le> q" "q \<le> length d"
      using amf_total [of d f] by blast
    have "2 * (length d - q) + 2 \<le> f" using Suc.prems w by linarith
    from Suc.IH [OF w(3) this] show ?thesis using t w by simp
  qed (simp add: bb_get_bytes_at)
qed simp

text \<open>
  C24: The decoder ends with a result on every input, however malformed: the fuel \<open>amf_decode\<close> starts with (twice the
  length of the input, and two) is enough for any input, so that \<open>None\<close> never comes out.
\<close>

theorem amf_decode_terminates: "\<exists>ret vs. amf_decode d = Some (ret, vs)"
  using amf_values_total [of 0 d "2 * length d + 2" 0 "[]"] by (auto simp: amf_decode_def bb_new_at)

section \<open>Round trip\<close>

fun amf_plain :: "any option \<Rightarrow> bool"
  and amf_plain_entries :: "(bytes \<times> any option) list \<Rightarrow> bool"
where
  "amf_plain None = False"
| "amf_plain (Some (AString s)) = (length s < 2 ^ 16)"
| "amf_plain (Some (AMap m)) = amf_plain_entries m"
| "amf_plain (Some (AVector v)) = False"
| "amf_plain (Some (AEcma m)) = False"
| "amf_plain (Some _) = True"
| "amf_plain_entries [] = True"
| "amf_plain_entries ((k, v) # m) = (length k < 2 ^ 16 \<and> amf_plain v \<and> amf_plain_entries m)"

text \<open>What a value comes back as: integers as doubles, null as no object.\<close>

fun amf_norm :: "(64 word \<Rightarrow> u64) \<Rightarrow> any option \<Rightarrow> any option"
  and amf_norm_entries :: "(64 word \<Rightarrow> u64) \<Rightarrow> (bytes \<times> any option) list \<Rightarrow> (bytes \<times> any option) list"
where
  "amf_norm i2d (Some (AInt i)) = Some (ADouble (i2d i))"
| "amf_norm i2d (Some ANull) = None"
| "amf_norm i2d (Some (AMap m)) = Some (AMap (amf_norm_entries i2d m))"
| "amf_norm i2d v = v"
| "amf_norm_entries i2d [] = []"
| "amf_norm_entries i2d ((k, v) # m) = (k, amf_norm i2d v) # amf_norm_entries i2d m"

lemma drop_step: "drop p d = x @ r \<Longrightarrow> drop (p + length x) d = r"
  by (metis add.commute append_eq_conv_conj drop_drop)

lemma drop_bound: "drop p d = x @ r \<Longrightarrow> x = [] \<or> p + length x \<le> length d"
  by (metis Nat.le_diff_conv2 add.commute append_is_Nil_conv drop_all length_append length_drop le_add1 nat_le_linear)

lemma be_eq_Nil [simp]: "be n v = [] \<longleftrightarrow> n = 0"
  by (metis length_0_conv length_be)

lemma bb_get_be:
  assumes "drop p d = be n v @ r" "0 < n" "n \<le> 8"
  shows "(bb_get_bytes n (bb_at d p) :: int \<times> 'w::len word \<times> bit_buffer) = (0, word_of_nat (v mod 256 ^ n), bb_at d (p + n))"
  using drop_bound [OF assms(1)] assms by (auto simp: bb_get_bytes_at be_simps dest: arg_cong [where f = length])

lemma amf_entry_head_key:
  assumes "drop p d = be 2 (length k) @ k @ t # r" "length k < 2 ^ 16"
  shows "amf_entry_head (bb_at d p) = Head k t (bb_at d (p + 3 + length k))"
proof -
  have 2: "drop (p + 2) d = k @ t # r" using drop_step [OF assms(1)] by simp
  have 3: "drop (p + 2 + length k) d = t # r" using drop_step [OF 2] by simp
  have g: "bb_get_bytes 2 (bb_at d p) = (0, word_of_nat (length k) :: u16, bb_at d (p + 2))"
    using bb_get_be [OF assms(1)] assms(2) by simp
  have u: "unat (word_of_nat (length k) :: u16) = length k" using assms(2) by (simp add: unat_of_nat)
  have b: "p + 2 + length k < length d" using 3 by (metis drop_all linorder_not_le list.distinct(1))
  have t: "d ! (p + 2 + length k) = t" using 3 b by (metis nth_via_drop)
  show ?thesis
    unfolding amf_entry_head_def using g u b t 2
    by (simp add: Let_def bb_get_string_at amf_get_type_at)
qed

lemma amf_scalars_back:
  shows "drop p d = be 8 (unat n) @ r \<Longrightarrow> amf_decode_number (bb_at d p) = (0, Some (ADouble n), bb_at d (p + 8))"
    and "drop p d = amf_encode_string s @ r \<Longrightarrow> length s < 2 ^ 16 \<Longrightarrow>
           amf_decode_string (bb_at d p) = (0, Some (AString s), bb_at d (p + 2 + length s))"
proof -
  assume d: "drop p d = be 8 (unat n) @ r"
  have "(unsigned n :: nat) < 2 ^ LENGTH(64)" by (rule unsigned_less)
  then show "amf_decode_number (bb_at d p) = (0, Some (ADouble n), bb_at d (p + 8))"
    using bb_get_be [OF d, where ?'w = 64] drop_bound [OF d] by (auto simp: amf_decode_number_def)
next
  assume "drop p d = amf_encode_string s @ r" and s: "length s < 2 ^ 16"
  then have d: "drop p d = be 2 (length s) @ s @ r" by (simp add: amf_encode_string_def)
  have 2: "drop (p + 2) d = s @ r" using drop_step [OF d] by simp
  show "amf_decode_string (bb_at d p) = (0, Some (AString s), bb_at d (p + 2 + length s))"
    using bb_get_be [OF d, where ?'w = 16] drop_bound [OF d] drop_bound [OF 2] 2 s
    by (auto simp: amf_decode_string_def bb_get_string_at unat_of_nat)
qed

text \<open>A written value reads back wherever it stands in the input, whatever follows it.\<close>

definition amf_reads :: "u8 \<Rightarrow> bytes \<Rightarrow> any option \<Rightarrow> bool" where
  "amf_reads t body v \<longleftrightarrow> t \<noteq> kObjectEnd \<and>
     (\<forall>d p r f res. drop p d = body @ r \<longrightarrow> amf_val f t (bb_at d p) = Some res \<longrightarrow> res = (0, v, bb_at d (p + length body)))"

definition amf_reads_entries :: "bytes \<Rightarrow> (bytes \<times> any option) list \<Rightarrow> bool" where
  "amf_reads_entries out m \<longleftrightarrow>
     (\<forall>d p r f acc res. drop p d = out @ kObjectEnd # r \<longrightarrow> amf_obj f acc (bb_at d p) = Some res \<longrightarrow>
        res = (False, acc @ m, bb_at d (p + length out + 1)))"

lemma amf_reads_scalar:
  assumes "t \<noteq> kObjectEnd"
    and "\<And>d p r f. drop p d = body @ r \<Longrightarrow> amf_val (Suc f) t (bb_at d p) = Some (0, v, bb_at d (p + length body))"
  shows "amf_reads t body v"
  unfolding amf_reads_def
proof (intro conjI allI impI)
  fix d p r f res assume a: "drop p d = body @ r" "amf_val f t (bb_at d p) = Some res"
  then obtain g where "f = Suc g" by (cases f) auto
  then show "res = (0, v, bb_at d (p + length body))" using a assms(2) by simp
qed (rule assms(1))

lemma amf_reads_map:
  assumes "amf_reads_entries out m"
  shows "amf_reads kObject (out @ [kObjectEnd]) (Some (AMap m))"
  unfolding amf_reads_def
proof (intro conjI allI impI)
  fix d p r f res assume a: "drop p d = (out @ [kObjectEnd]) @ r" "amf_val f kObject (bb_at d p) = Some res"
  then obtain g where f: "f = Suc g" by (cases f) auto
  from a(2) f obtain o1 where o1: "amf_obj g [] (bb_at d p) = Some o1" by (auto simp: amf_markers split: option.splits)
  then have "o1 = (False, m, bb_at d (p + length out + 1))"
    using assms a(1) unfolding amf_reads_entries_def by fastforce
  then show "res = (0, Some (AMap m), bb_at d (p + length (out @ [kObjectEnd])))"
    using a(2) f o1 by (auto simp: amf_markers)
qed (simp add: amf_markers)

lemma amf_reads_no_entries: "amf_reads_entries (be 2 0) []"
  unfolding amf_reads_entries_def
proof (intro allI impI)
  fix d p r f acc res assume a: "drop p d = be 2 0 @ kObjectEnd # r" "amf_obj f acc (bb_at d p) = Some res"
  then obtain g where f: "f = Suc g" by (cases f) auto
  have "amf_entry_head (bb_at d p) = Head [] kObjectEnd (bb_at d (p + length (be 2 0) + 1))"
    using amf_entry_head_key [of p d "[]" kObjectEnd r] a(1) by (simp add: numeral_3_eq_3)
  then show "res = (False, acc @ [], bb_at d (p + length (be 2 0) + 1))" using a(2) f by simp
qed

lemma amf_reads_more_entries:
  assumes v: "amf_reads t body v" and m: "amf_reads_entries out m" and k: "length k < 2 ^ 16"
  shows "amf_reads_entries (amf_encode_string k @ (t # body) @ out) ((k, v) # m)"
  unfolding amf_reads_entries_def
proof (intro allI impI)
  fix d p r f acc res
  assume a: "drop p d = (amf_encode_string k @ (t # body) @ out) @ kObjectEnd # r" "amf_obj f acc (bb_at d p) = Some res"
  then obtain g where f: "f = Suc g" by (cases f) auto
  have d: "drop p d = be 2 (length k) @ k @ t # body @ out @ kObjectEnd # r"
    using a(1) k by (simp add: amf_encode_string_def)
  let ?q = "p + 3 + length k"
  have h: "amf_entry_head (bb_at d p) = Head k t (bb_at d ?q)" by (rule amf_entry_head_key [OF d k])
  have "drop p d = (be 2 (length k) @ k @ [t]) @ body @ out @ kObjectEnd # r" using d by simp
  moreover have "p + length (be 2 (length k) @ k @ [t]) = ?q" by simp
  ultimately have q: "drop ?q d = body @ out @ kObjectEnd # r" using drop_step by metis
  from drop_step [OF q] have q2: "drop (?q + length body) d = out @ kObjectEnd # r" .
  have t: "t \<noteq> kObjectEnd" using v by (simp add: amf_reads_def)
  from a(2) f h t obtain w where w: "amf_val g t (bb_at d ?q) = Some w" by (auto split: option.splits)
  then have "w = (0, v, bb_at d (?q + length body))" using v q unfolding amf_reads_def by blast
  with a(2) f h t w have "amf_obj g (any_map_insert k v acc) (bb_at d (?q + length body)) = Some res" by simp
  with q2 m have "res = (False, any_map_insert k v acc @ m, bb_at d (?q + length body + length out + 1))"
    unfolding amf_reads_entries_def by blast
  then show "res = (False, acc @ (k, v) # m, bb_at d (p + length (amf_encode_string k @ (t # body) @ out) + 1))"
    by (simp add: any_map_insert_def amf_encode_string_def)
qed

lemma amf_encode_reads:
  "amf_plain v \<Longrightarrow> \<exists>t body. amf_encode i2d v = Some (0, t # body) \<and> amf_reads t body (amf_norm i2d v)"
  "amf_plain_entries m \<Longrightarrow> \<exists>out. amf_encode_entries i2d m = Some (0, out) \<and> amf_reads_entries out (amf_norm_entries i2d m)"
proof (induction v and m rule: amf_plain_amf_plain_entries.induct)
  case (2 s)
  have "amf_reads kString (amf_encode_string s) (Some (AString s))"
  proof (rule amf_reads_scalar)
    fix d p r f assume "drop p d = amf_encode_string s @ r"
    from amf_scalars_back(2) [OF this] 2
    show "amf_val (Suc f) kString (bb_at d p) = Some (0, Some (AString s), bb_at d (p + length (amf_encode_string s)))"
      by (simp add: amf_markers amf_encode_string_def)
  qed (simp add: amf_markers)
  then show ?case by simp
next
  case (3 m)
  then obtain out where "amf_encode_entries i2d m = Some (0, out)" "amf_reads_entries out (amf_norm_entries i2d m)" by auto
  then show ?case using amf_reads_map by simp
next
  case (8 k v m)
  then obtain t body out where "amf_encode i2d v = Some (0, t # body)" "amf_reads t body (amf_norm i2d v)"
      "amf_encode_entries i2d m = Some (0, out)" "amf_reads_entries out (amf_norm_entries i2d m)" by auto
  then show ?case using amf_reads_more_entries [of t body "amf_norm i2d v" out] 8 by simp
next
  case 7
  show ?case using amf_reads_no_entries by simp
qed (auto intro!: amf_reads_scalar simp: amf_scalars_back amf_markers)

lemma amf_values_back:
  assumes "list_all amf_plain vs"
  shows "\<exists>out. amf_encode_all i2d vs = Some (0, out) \<and>
     (\<forall>d p f ret acc res. drop p d = out \<longrightarrow> amf_values f ret acc (bb_at d p) = Some res \<longrightarrow>
        res = (ret, acc @ map (amf_norm i2d) vs))"
  using assms
proof (induction vs)
  case Nil
  have "res = (ret, acc)" if "drop p d = []" "amf_values f ret acc (bb_at d p) = Some res" for d p f ret acc and res :: "int \<times> any option list"
    using that by (cases f) (auto simp: bb_get_bytes_at)
  then show ?case by (metis amf_encode_all.simps(1) append_Nil2 list.simps(8))
next
  case (Cons v vs)
  from Cons obtain out where out: "amf_encode_all i2d vs = Some (0, out)"
    and reads: "\<And>d p f ret acc res. drop p d = out \<Longrightarrow> amf_values f ret acc (bb_at d p) = Some res \<Longrightarrow>
        res = (ret, acc @ map (amf_norm i2d) vs)" by auto
  from Cons.prems amf_encode_reads(1) [of v i2d] obtain t body
    where v: "amf_encode i2d v = Some (0, t # body)" "amf_reads t body (amf_norm i2d v)" by auto
  have "res = (ret, acc @ map (amf_norm i2d) (v # vs))"
    if d: "drop p d = (t # body) @ out" and r: "amf_values f ret acc (bb_at d p) = Some res" for d p f ret acc res
  proof -
    from r obtain g where f: "f = Suc g" by (cases f) auto
    have g: "bb_get_bytes 1 (bb_at d p) = (0, t, bb_at d (p + 1))"
      using d drop_bound [OF d] by (simp add: bb_get_bytes_at be_val_def)
    have q: "drop (p + 1) d = body @ out" using drop_step [of p d "[t]"] d by simp
    from drop_step [OF q] have q2: "drop (p + 1 + length body) d = out" .
    from r f g obtain w where w: "amf_val g t (bb_at d (p + 1)) = Some w" by (auto split: option.splits)
    then have "w = (0, amf_norm i2d v, bb_at d (p + 1 + length body))" using v(2) q unfolding amf_reads_def by blast
    with r f g w have "amf_values g ret (acc @ [amf_norm i2d v]) (bb_at d (p + 1 + length body)) = Some res" by simp
    from reads [OF q2 this] show ?thesis by simp
  qed
  then show ?case using v out by auto
qed

lemma amf_decode_back:
  assumes "list_all amf_plain vs" and "amf_encode_all i2d vs = Some (r, out)"
  shows "r = 0 \<and> amf_decode out = Some (0, map (amf_norm i2d) vs)"
proof -
  have r: "r = 0" and reads: "\<And>d p f ret acc res. drop p d = out \<Longrightarrow> amf_values f ret acc (bb_at d p) = Some res \<Longrightarrow>
      res = (ret, acc @ map (amf_norm i2d) vs)" using amf_values_back [OF assms(1), of i2d] assms(2) by auto
  have "amf_values (2 * length out + 2) 0 [] (bb_at out 0) \<noteq> None" by (rule amf_values_total) auto
  with reads [of 0 out] r show ?thesis by (fastforce simp: amf_decode_def bb_new_at)
qed

lemma amf_encode_ok: "list_all amf_plain vs \<Longrightarrow> \<exists>out. amf_encode_all i2d vs = Some (0, out)"
  using amf_values_back by blast

text \<open>
  C23: What \<open>Encode\<close> writes, \<open>Decode\<close> reads back: a sequence of integers, doubles, strings below 64 KB, nulls and objects of
  these, nested to any depth, is encoded without an error, and decoding the bytes gives the same sequence, in which integers have
  become doubles and nulls NULL pointers.
\<close>

theorem amf_roundtrip:
  assumes "list_all amf_plain vs"
  shows "\<exists>out. amf_encode_all i2d vs = Some (0, out) \<and> amf_decode out = Some (0, map (amf_norm i2d) vs)"
  using amf_encode_ok [OF assms] amf_decode_back [OF assms] by blast

lemma amf_roundtrip_witness:
  "\<exists>out. amf_encode_all (\<lambda>i. i) [Some (AString (bs ''connect'')), Some (AInt 1), Some (AMap [(bs ''app'', Some (AString (bs ''live''))), (bs ''x'', Some ANull)])]
        = Some (0, out)
     \<and> amf_decode out = Some (0, [Some (AString (bs ''connect'')), Some (ADouble 1), Some (AMap [(bs ''app'', Some (AString (bs ''live''))), (bs ''x'', None)])])"
  using amf_roundtrip [of "[Some (AString (bs ''connect'')), Some (AInt 1), Some (AMap [(bs ''app'', Some (AString (bs ''live''))), (bs ''x'', Some ANull)])]" "\<lambda>i. i"]
  by simp

section \<open>Arrays\<close>

lemma amf_values_prefix: "amf_values f ret acc b = Some (r, vs) \<Longrightarrow> \<exists>more. vs = acc @ more"
proof (induction f ret acc b arbitrary: r vs rule: amf_values.induct)
  case (2 f ret acc b)
  then show ?case by (auto simp: Let_def split: prod.splits option.splits if_splits) fastforce+
qed simp

text \<open>
  An ECMA array does not survive the trip: \<open>EncodeEcmaArray\<close> announces 0 elements whatever it writes, and
  \<open>DecodeEcmaArray\<close> reads as many as are announced, so every array comes back as an empty map and its entries are taken for
  further values of the sequence.
\<close>

theorem amf_ecma_array_lost:
  assumes "amf_encode_all i2d [Some (AEcma m)] = Some (0, out)"
  shows "\<exists>ret more. amf_decode out = Some (ret, Some (AMap []) # more)"
proof -
  obtain es where out: "out = kEcmaArray # be 4 0 @ es" using assms by (auto split: option.splits prod.splits if_splits)
  then have d: "drop 1 out = be 4 0 @ es" by simp
  from amf_values_total [of 0 out "2 * length out + 2" 0 "[]"]
  obtain ret vs where dec: "amf_values (2 * length out + 2) 0 [] (bb_at out 0) = Some (ret, vs)" by auto
  obtain f where f: "2 * length out + 2 = Suc (Suc (Suc f))" using out by simp
  have t: "bb_get_bytes 1 (bb_at out 0) = (0, kEcmaArray, bb_at out 1)"
    using out by (simp add: bb_get_bytes_at be_val_def)
  have n: "bb_get_bytes 4 (bb_at out 1) = (0, 0 :: u32, bb_at out 5)" using bb_get_be [OF d] by simp
  have v: "amf_val (Suc (Suc f)) kEcmaArray (bb_at out 1) = Some (0, Some (AMap []), bb_at out 5)"
    using n out by (simp add: amf_markers)
  from dec have "amf_values (Suc (Suc f)) 0 [Some (AMap [])] (bb_at out 5) = Some (ret, vs)"
    unfolding f using t v by simp
  from amf_values_prefix [OF this] dec show ?thesis by (auto simp: amf_decode_def bb_new_at)
qed

lemma amf_ecma_array_lost_witness:
  "\<exists>ret more. amf_decode (kEcmaArray # be 4 0 @ amf_encode_string (bs ''fps'') @ kNumber # be 8 25 @ be 2 0)
     = Some (ret, Some (AMap []) # more)"
  by (rule amf_ecma_array_lost [of "\<lambda>i. i" "[(bs ''fps'', Some (ADouble 25))]"]) simp

end
