(* ===== verification/TsMuxer.thy ===== *)
theory TsMuxer
  imports BitIO Crc32 Payload
begin

text \<open>
  The MPEG-TS packetiser of \<open>src/media_muxer.cpp\<close>: \<open>PacketTsPat\<close>, \<open>PacketTsPmt\<close>, \<open>PacketTs\<close> and
  the continuity counters of \<open>src/media_muxer.h\<close>. A packet is built on a default \<open>BitStream\<close> by
  the list of writes of the code. A failed \<open>assert\<close> sets \<open>tm_abort\<close> and stops, reading past the
  payload's block sets \<open>tm_overread\<close>; what lies there is a parameter (\<open>mem\<close>).

  The lemmas compute the size of every header, so that each packet is 188 bytes, give the bytes
  of the two tables with a checksum that verifies, and show that the payload is carried whole
  and in order.
\<close>

section \<open>State and counters\<close>

record ts_muxer =
  tm_pat :: bytes
  tm_pmt :: bytes
  tm_pat_cc :: u8
  tm_pmt_cc :: u8
  tm_audio_cc :: u8
  tm_video_cc :: u8
  tm_audio_header :: bytes
  tm_adts :: bytes
  tm_sps :: bytes
  tm_pps :: bytes
  tm_abort :: bool
  tm_overread :: bool

definition tm_new :: ts_muxer where
  "tm_new = \<lparr>tm_pat = [], tm_pmt = [], tm_pat_cc = 0, tm_pmt_cc = 0, tm_audio_cc = 0, tm_video_cc = 0,
     tm_audio_header = [], tm_adts = replicate 7 0, tm_sps = [], tm_pps = [], tm_abort = False, tm_overread = False\<rparr>"

definition ts_video_pid :: u64 where "ts_video_pid = 0x100"
definition ts_audio_pid :: u64 where "ts_audio_pid = 0x101"
definition ts_pmt_pid :: u64 where "ts_pmt_pid = 0xABC"

definition ts_next_cc :: "u8 \<Rightarrow> u8" where
  "ts_next_cc c = (if c + 1 = 0x10 then 0x00 else c + 1)"

definition tm_get_pat_cc :: "ts_muxer \<Rightarrow> u8 \<times> ts_muxer" where
  "tm_get_pat_cc t = (tm_pat_cc t, t\<lparr>tm_pat_cc := ts_next_cc (tm_pat_cc t)\<rparr>)"

definition tm_get_pmt_cc :: "ts_muxer \<Rightarrow> u8 \<times> ts_muxer" where
  "tm_get_pmt_cc t = (tm_pmt_cc t, t\<lparr>tm_pmt_cc := ts_next_cc (tm_pmt_cc t)\<rparr>)"

definition tm_get_audio_cc :: "ts_muxer \<Rightarrow> u8 \<times> ts_muxer" where
  "tm_get_audio_cc t = (tm_audio_cc t, t\<lparr>tm_audio_cc := ts_next_cc (tm_audio_cc t)\<rparr>)"

definition tm_get_video_cc :: "ts_muxer \<Rightarrow> u8 \<times> ts_muxer" where
  "tm_get_video_cc t = (tm_video_cc t, t\<lparr>tm_video_cc := ts_next_cc (tm_video_cc t)\<rparr>)"

section \<open>PAT and PMT\<close>

definition ts_crc :: "bytes \<Rightarrow> u32" where
  \<comment> \<open>\<open>crc_32_.GetCrc32\<close>, the member constructed with \<open>CRC32_HLS\<close>\<close>
  "ts_crc d = (case crc_of CRC32_HLS d of None \<Rightarrow> 0 | Some c \<Rightarrow> c)"

definition ts_close_section :: "bw_op list \<Rightarrow> bytes" where
  \<comment> \<open>the checksum from byte 5 on, then filling up to 188 bytes\<close>
  "ts_close_section ops =
     (let bs = bw_run ops bw_default;
          crc32 = ts_crc (drop 5 (bw_data bs));
          bs1 = bw_run [WBytes 4 (ucast crc32)] bs;
          left_bytes = 188 - bw_size_in_bytes bs1
      in bw_data (bw_run (replicate left_bytes (WBytes 1 0xFF)) bs1))"

definition ts_pat_ops :: "u8 \<Rightarrow> bw_op list" where
  "ts_pat_ops cc =
     [WBytes 1 0x47, WBits 1 0, WBits 1 1, WBits 1 0, WBits 13 0, WBits 2 0, WBits 2 1, WBits 4 (ucast cc),
      WBytes 2 0x0000, WBits 1 1, WBits 1 0, WBits 2 0x03, WBits 12 13,
      WBits 16 0x0001, WBits 2 0x03, WBits 5 0, WBits 1 1, WBits 8 0, WBits 8 0,
      WBits 16 0x0001, WBits 3 0x07, WBits 13 ts_pmt_pid]"

definition tm_packet_pat :: "ts_muxer \<Rightarrow> bytes \<times> ts_muxer" where
  "tm_packet_pat t =
     (let (cc, t1) = tm_get_pat_cc t;
          pat = (if 4 \<le> length (tm_pat t) then (tm_pat t)[3 := 0x10 OR cc] else ts_close_section (ts_pat_ops cc))
      in (pat, t1\<lparr>tm_pat := pat\<rparr>))"

definition ts_pmt_ops :: "u8 \<Rightarrow> bw_op list" where
  "ts_pmt_ops cc =
     [WBytes 1 0x47, WBits 1 0, WBits 1 1, WBits 1 0, WBits 13 ts_pmt_pid, WBits 2 0, WBits 2 1, WBits 4 (ucast cc),
      WBytes 2 0x0002, WBits 1 1, WBits 1 0, WBits 2 0x03, WBits 12 23,
      WBits 16 0x0001, WBits 2 0x03, WBits 5 0, WBits 1 1, WBits 8 0, WBits 8 0,
      WBits 3 0x07, WBits 13 ts_video_pid, WBits 4 0x0F, WBits 12 0,
      WBits 8 0x1b, WBits 3 0x07, WBits 13 ts_video_pid, WBits 4 0x0F, WBits 12 0x0000,
      WBits 8 0x0f, WBits 3 0x07, WBits 13 ts_audio_pid, WBits 4 0x0F, WBits 12 0x0000]"

definition tm_packet_pmt :: "ts_muxer \<Rightarrow> bytes \<times> ts_muxer" where
  "tm_packet_pmt t =
     (let (cc, t1) = tm_get_pmt_cc t;
          pmt = (if 4 \<le> length (tm_pmt t) then (tm_pmt t)[3 := 0x10 OR cc] else ts_close_section (ts_pmt_ops cc))
      in (pmt, t1\<lparr>tm_pmt := pmt\<rparr>))"

section \<open>\<open>PacketTs\<close>\<close>

record ts_layout =
  tl_header_size :: nat
  tl_afc :: u64 \<comment> \<open>\<open>adaptation_field_control\<close>\<close>
  tl_stuffing :: nat

definition ts_layout_of :: "bool \<Rightarrow> nat \<Rightarrow> nat \<Rightarrow> ts_layout" where
  \<comment> \<open>the sizes decided before the header is written (\<open>is_video\<close>, \<open>GetRawLen()\<close>, \<open>i\<close>)\<close>
  "ts_layout_of is_video raw_len i =
     (let adaptation_size = (if is_video then 8 else 2);
          pes_header_size = (if is_video then 19 else 14)
      in if i = 0 then
           let extern_data_len = (if is_video then 6 else 7);
               need = raw_len + 4 + adaptation_size + pes_header_size + extern_data_len;
               base = 4 + pes_header_size + (if is_video then adaptation_size else 0)
           in if need < 188
              then \<lparr>tl_header_size = base + (if is_video then 0 else adaptation_size) + (188 - need),
                    tl_afc = 3, tl_stuffing = 188 - need\<rparr>
              else \<lparr>tl_header_size = base, tl_afc = (if is_video then 3 else 1), tl_stuffing = 0\<rparr>
         else
           let left = raw_len - i
           in if left + 4 + adaptation_size \<le> 188 then
                if left + 4 + adaptation_size = 188
                then \<lparr>tl_header_size = 4, tl_afc = 1, tl_stuffing = 0\<rparr>
                else \<lparr>tl_header_size = 4 + adaptation_size + (188 - (left + 4 + adaptation_size)),
                      tl_afc = 3, tl_stuffing = 188 - (left + 4 + adaptation_size)\<rparr>
              else \<lparr>tl_header_size = 4, tl_afc = 1, tl_stuffing = 0\<rparr>)"

definition ts_adaptation_ops :: "bool \<Rightarrow> bool \<Rightarrow> nat \<Rightarrow> u64 \<Rightarrow> bw_op list" where
  \<comment> \<open>the last argument is \<open>payload.GetDts()\<close>\<close>
  "ts_adaptation_ops is_video start stuffing t =
     (if is_video \<and> start then
        let dts = t div 1000;
            pcr_base = (27000000 * dts div 300) mod (2 ^ 34);
            pcr_ext = (27000000 * dts) mod 300
        in [WBytes 1 (7 + word_of_nat stuffing), WBytes 1 0x10, WBits 33 pcr_base, WBits 6 0x00, WBits 9 pcr_ext]
      else [WBytes 1 (1 + word_of_nat stuffing), WBytes 1 0x00])
     @ replicate stuffing (WBytes 1 0xFF)"

definition ts_clock_ops :: "u64 \<Rightarrow> bw_op list" where
  \<comment> \<open>a 33-bit time stamp in three pieces with marker bits\<close>
  "ts_clock_ops t =
     [WBits 4 0x02, WBits 3 (drop_bit 30 (t AND 0x00000001C0000000)), WBits 1 1,
      WBits 15 (drop_bit 15 (t AND 0x000000003FFF8000)), WBits 1 1, WBits 15 (t AND 0x0000000000007FFF), WBits 1 1]"

definition ts_pes_ops :: "bool \<Rightarrow> nat \<Rightarrow> u64 \<Rightarrow> u64 \<Rightarrow> bw_op list" where
  "ts_pes_ops is_video raw_len pts dts =
     [WBytes 3 0x000001, WBytes 1 (if is_video then 0xe0 else 0xc0),
      WBytes 2 (if is_video then 0x0000 else word_of_nat raw_len + 3 + 5 + 7), WBytes 1 0x80]
     @ (if is_video then [WBytes 1 0xc0, WBytes 1 10] else [WBytes 1 0x80, WBytes 1 5])
     @ ts_clock_ops (pts * 90)
     @ (if is_video then ts_clock_ops (dts * 90) else [])
     @ (if is_video then [WBytes 4 0x00000001, WBytes 1 0x09, WBytes 1 0x10] else [])"

definition ts_adts_header :: "nat \<Rightarrow> bytes \<Rightarrow> bytes" where
  \<comment> \<open>\<open>adts_header_\<close> with the frame length filled in\<close>
  "ts_adts_header raw_len adts =
     (let adts_len = word_of_nat raw_len + 7 :: u16
      in adts[3 := (adts ! 3 AND 0xFC) OR ucast (drop_bit 11 (adts_len AND 0x1800)),
              4 := ucast (drop_bit 3 (adts_len AND 0x7f8)),
              5 := (adts ! 5 AND 0x1F) OR (push_bit 5 (ucast (adts_len AND 0x07)) AND 0xe0)])"

definition ts_adts_calc :: "bytes \<Rightarrow> u16" where
  "ts_adts_calc adts =
     push_bit 11 (ucast (adts ! 3 AND 0x03)) OR push_bit 3 (ucast (adts ! 4)) OR drop_bit 5 (ucast (adts ! 5 AND 0xE0))"

definition ts_header_ops :: "bool \<Rightarrow> nat \<Rightarrow> payload \<Rightarrow> u8 \<Rightarrow> nat \<Rightarrow> bw_op list" where
  "ts_header_ops is_video raw_len p cc i =
     (let l = ts_layout_of is_video raw_len i
      in [WBytes 1 0x47, WBits 1 0, WBits 1 (if i = 0 then 1 else 0), WBits 1 0,
          WBits 13 (if is_video then ts_video_pid else ts_audio_pid), WBits 2 0, WBits 2 (tl_afc l), WBits 4 (ucast cc)]
         @ (if tl_afc l = 2 \<or> tl_afc l = 3
            then ts_adaptation_ops is_video (i = 0) (tl_stuffing l) (pl_dts p) else [])
         @ (if i = 0 then ts_pes_ops is_video raw_len (pl_pts p) (pl_dts p) else []))"

definition ts_expected_size :: "bool \<Rightarrow> nat \<Rightarrow> nat \<Rightarrow> nat" where
  \<comment> \<open>\<open>header_size\<close> as the code has adjusted it when it is compared with the stream\<close>
  "ts_expected_size is_video raw_len i =
     (let l = ts_layout_of is_video raw_len i
      in tl_header_size l
         - (if (tl_afc l = 2 \<or> tl_afc l = 3) \<and> is_video \<and> i \<noteq> 0 then 6 else 0)
         + (if i = 0 \<and> is_video then 6 else 0))"

definition ts_parameter_ops :: "bytes \<Rightarrow> bytes \<Rightarrow> payload \<Rightarrow> bw_op list" where
  "ts_parameter_ops sps pps p =
     (if pl_is_iframe p
      then [WBytes 4 0x00000001, WData sps, WBytes 4 0x00000001, WData pps, WBytes 4 0x00000001]
      else [WBytes 4 0x00000001])"

definition ts_fetch :: "bytes \<Rightarrow> (nat \<Rightarrow> u8) \<Rightarrow> nat \<Rightarrow> nat \<Rightarrow> bytes" where
  \<comment> \<open>\<open>n\<close> bytes from \<open>data + i\<close>; \<open>mem\<close> is what lies behind the block\<close>
  "ts_fetch raw mem i n = map (\<lambda>k. if k < length raw then raw ! k else mem (k - length raw)) [i..<i + n]"

definition ts_packet :: "payload \<Rightarrow> bytes \<Rightarrow> (nat \<Rightarrow> u8) \<Rightarrow> nat \<Rightarrow> ts_muxer \<Rightarrow> bytes \<times> nat \<times> ts_muxer" where
  \<comment> \<open>one turn of the loop: the packet, \<open>bytes_left\<close> (0 when an \<open>assert\<close> fails), the state\<close>
  "ts_packet p raw mem i t =
     (let is_video = pl_is_video p;
          raw_len = unat (pl_raw_len p);
          (cc, t1) = (if is_video then tm_get_video_cc t else tm_get_audio_cc t);
          bs = bw_run (ts_header_ops is_video raw_len p cc i) bw_default
      in if bw_size_in_bytes bs \<noteq> ts_expected_size is_video raw_len i then ([], 0, t1\<lparr>tm_abort := True\<rparr>)
         else
           let bs1 = (if i = 0 \<and> is_video then bw_run (ts_parameter_ops (tm_sps t1) (tm_pps t1) p) bs else bs);
               with_adts = (i = 0 \<and> \<not> is_video \<and> 2 \<le> length (tm_audio_header t1));
               adts = ts_adts_header raw_len (tm_adts t1);
               t2 = (if with_adts then t1\<lparr>tm_adts := adts\<rparr> else t1);
               bs2 = (if with_adts then bw_run [WData (take 7 adts)] bs1 else bs1)
           in if with_adts \<and> ts_adts_calc adts \<noteq> word_of_nat raw_len + 7 then ([], 0, t2\<lparr>tm_abort := True\<rparr>)
              else if 188 \<le> bw_size_in_bytes bs2 \<or> bw_fault bs2 then ([], 0, t2\<lparr>tm_abort := True\<rparr>)
              else
                let bytes_left = 188 - bw_size_in_bytes bs2;
                    bs3 = bw_run [WData (ts_fetch raw mem i bytes_left)] bs2
                in (bw_data bs3, bytes_left,
                    t2\<lparr>tm_overread := tm_overread t2 \<or> length raw < i + bytes_left\<rparr>))"

function ts_loop :: "payload \<Rightarrow> bytes \<Rightarrow> (nat \<Rightarrow> u8) \<Rightarrow> nat \<Rightarrow> ts_muxer \<Rightarrow> bytes list \<times> ts_muxer" where
  "ts_loop p raw mem i t =
     (if i < unat (pl_raw_len p)
      then let (pkt, n, t1) = ts_packet p raw mem i t
           in if n = 0 then ([], t1)
              else let (pkts, t2) = ts_loop p raw mem (i + n) t1 in (pkt # pkts, t2)
      else ([], t))"
  by pat_completeness auto

termination
  by (relation "measure (\<lambda>(p, raw, mem, i, t). unat (pl_raw_len p) - i)") auto

declare ts_loop.simps [simp del]

definition tm_packet_ts :: "(nat \<Rightarrow> u8) \<Rightarrow> payload \<Rightarrow> ts_muxer \<Rightarrow> bytes list \<times> ts_muxer" where
  \<comment> \<open>the packets of a frame\<close>
  "tm_packet_ts mem p t = ts_loop p (case pl_raw_data p of None \<Rightarrow> [] | Some d \<Rightarrow> d) mem 0 t"

section \<open>Sizes\<close>

abbreviation ops_size :: "bw_op list \<Rightarrow> nat" where
  "ops_size xs \<equiv> sum_list (map bw_op_size xs)"

lemma bw_aligned_append: "bw_aligned p (xs @ ys) \<longleftrightarrow> bw_aligned p xs \<and> bw_aligned (p + ops_size xs) ys"
  by (induction xs arbitrary: p) (auto simp: add.assoc)

lemma bw_aligned_fill: "p mod 8 = 0 \<Longrightarrow> bw_aligned p (replicate n (WBytes m v))"
proof (induction n arbitrary: p)
  case (Suc n)
  then have "(p + m * 8) mod 8 = 0" by simp
  with Suc show ?case by simp
qed simp

lemma ops_size_fill: "ops_size (replicate n (WBytes m v)) = 8 * m * n"
  by (simp add: sum_list_replicate)

lemma ts_adaptation_size:
  "ops_size (ts_adaptation_ops v s n t) = (if v \<and> s then 64 else 16) + 8 * n"
  "bw_aligned 32 (ts_adaptation_ops v s n t)"
  by (auto simp: ts_adaptation_ops_def sum_list_replicate bw_aligned_append bw_aligned_fill Let_def)

lemma ts_pes_size:
  "ops_size (ts_pes_ops v raw pts dts) = (if v then 200 else 112)"
  by (simp add: ts_pes_ops_def ts_clock_ops_def)

lemma ts_pes_aligned: "bw_aligned (8 * k) (ts_pes_ops v raw pts dts)"
proof -
  have m: "(8 * k + c) mod 8 = c mod 8" for c by simp
  show ?thesis by (simp add: ts_pes_ops_def ts_clock_ops_def add.assoc m)
qed

lemma ts_layout_afc: "tl_afc (ts_layout_of v raw i) \<in> {1, 3}"
  by (simp add: ts_layout_of_def Let_def)

lemma ts_layout_cases:
  "ts_layout_of True raw 0 =
     (if raw < 151 then \<lparr>tl_header_size = 182 - raw, tl_afc = 3, tl_stuffing = 151 - raw\<rparr>
      else \<lparr>tl_header_size = 31, tl_afc = 3, tl_stuffing = 0\<rparr>)"
  "ts_layout_of False raw 0 =
     (if raw < 161 then \<lparr>tl_header_size = 181 - raw, tl_afc = 3, tl_stuffing = 161 - raw\<rparr>
      else \<lparr>tl_header_size = 18, tl_afc = 1, tl_stuffing = 0\<rparr>)"
  "i \<noteq> 0 \<Longrightarrow> ts_layout_of True raw i =
     (if raw - i < 176 then \<lparr>tl_header_size = 188 - (raw - i), tl_afc = 3, tl_stuffing = 176 - (raw - i)\<rparr>
      else \<lparr>tl_header_size = 4, tl_afc = 1, tl_stuffing = 0\<rparr>)"
  "i \<noteq> 0 \<Longrightarrow> ts_layout_of False raw i =
     (if raw - i < 182 then \<lparr>tl_header_size = 188 - (raw - i), tl_afc = 3, tl_stuffing = 182 - (raw - i)\<rparr>
      else \<lparr>tl_header_size = 4, tl_afc = 1, tl_stuffing = 0\<rparr>)"
  by (simp_all add: ts_layout_of_def Let_def)

lemma ts_expected_cases:
  "ts_expected_size True raw 0 = (if raw < 151 then 188 - raw else 37)"
  "ts_expected_size False raw 0 = (if raw < 161 then 181 - raw else 18)"
  "i \<noteq> 0 \<Longrightarrow> ts_expected_size True raw i = (if raw - i < 176 then 182 - (raw - i) else 4)"
  "i \<noteq> 0 \<Longrightarrow> ts_expected_size False raw i = (if raw - i < 182 then 188 - (raw - i) else 4)"
  by (simp_all add: ts_expected_size_def ts_layout_cases)

lemma ts_expected_le: "i < raw \<Longrightarrow> ts_expected_size v raw i \<le> 188"
  by (cases v; cases "i = 0") (auto simp: ts_expected_cases)

lemma ts_header_ops_ok:
  shows "ops_size (ts_header_ops v raw p cc i) = 8 * ts_expected_size v raw i"
    and "bw_aligned 0 (ts_header_ops v raw p cc i)"
proof -
  show "ops_size (ts_header_ops v raw p cc i) = 8 * ts_expected_size v raw i"
    by (cases v; cases "i = 0")
      (auto simp: ts_header_ops_def ts_expected_cases ts_layout_cases ts_adaptation_size ts_pes_size)
  have "bw_aligned (32 + ops_size (ts_adaptation_ops v s n t)) (ts_pes_ops v raw a b)" for s n t a b
  proof -
    have "32 + ops_size (ts_adaptation_ops v s n t) = 8 * ((if v \<and> s then 12 else 6) + n)"
      by (simp add: ts_adaptation_size)
    then show ?thesis by (simp only: ts_pes_aligned)
  qed
  moreover have "bw_aligned 32 (ts_pes_ops v raw a b)" for a b using ts_pes_aligned [of 4] by simp
  ultimately show "bw_aligned 0 (ts_header_ops v raw p cc i)"
    using ts_adaptation_size(2) by (simp add: ts_header_ops_def Let_def bw_aligned_append)
qed

text \<open>How many payload bytes a packet takes (\<open>extra\<close>: parameter sets or ADTS bytes in the first).\<close>

definition ts_room :: "bool \<Rightarrow> nat \<Rightarrow> nat \<Rightarrow> nat \<Rightarrow> nat" where
  "ts_room v raw extra i = 188 - (ts_expected_size v raw i + (if i = 0 then extra else 0))"

definition ts_extra :: "ts_muxer \<Rightarrow> payload \<Rightarrow> nat" where
  "ts_extra t p =
     (if pl_is_video p then (if pl_is_iframe p then 12 + length (tm_sps t) + length (tm_pps t) else 4)
      else if 2 \<le> length (tm_audio_header t) then 7 else 0)"

lemma ts_room_video:
  assumes "i < raw"
  shows "ts_room True raw extra i =
    (if i = 0 then (if raw < 151 then raw else 151) - extra
     else if raw - i < 176 then raw - i + 6 else 184)"
  using assms by (auto simp: ts_room_def ts_expected_cases)

lemma ts_room_audio:
  assumes "i < raw"
  shows "ts_room False raw extra i =
    (if i = 0 then (if raw < 161 then raw + 7 else 170) - extra
     else if raw - i < 182 then raw - i else 184)"
  using assms by (auto simp: ts_room_def ts_expected_cases)

lemma ts_parameter_ops_ok:
  "ops_size (ts_parameter_ops sps pps p) = 8 * (if pl_is_iframe p then 12 + length sps + length pps else 4)"
  "bw_aligned (8 * k) (ts_parameter_ops sps pps p)"
proof -
  have m: "(8 * k + c) mod 8 = c mod 8" for c by simp
  show "ops_size (ts_parameter_ops sps pps p) = 8 * (if pl_is_iframe p then 12 + length sps + length pps else 4)"
    by (simp add: ts_parameter_ops_def)
  show "bw_aligned (8 * k) (ts_parameter_ops sps pps p)"
    by (simp add: ts_parameter_ops_def add.assoc m mod_simps)
qed

lemma length_ts_fetch [simp]: "length (ts_fetch raw mem i n) = n"
  by (simp add: ts_fetch_def)

lemma length_ts_adts [simp]: "length (ts_adts_header raw adts) = length adts"
  by (simp add: ts_adts_header_def Let_def)

lemma ts_adts_calc_ok:
  assumes "length adts = 7" and "raw + 7 < 8192"
  shows "ts_adts_calc (ts_adts_header raw adts) = word_of_nat raw + 7"
proof -
  define w where "w = word_of_nat raw + (7 :: u16)"
  have u: "unat w = raw + 7" using assms(2) by (simp add: w_def unat_word_ariths unat_of_nat take_bit_nat_eq_self_iff)
  have hi: "\<not> bit w n" if "13 \<le> n" for n
  proof -
    have "2 ^ 13 \<le> (2::nat) ^ n" using that by (intro power_increasing) auto
    then have "unat w < 2 ^ n" using u assms(2) by simp
    then have "\<not> bit (unat w) n" by (simp add: bit_iff_odd)
    then show ?thesis by (simp add: bit_unsigned_iff)
  qed
  have masks: "(0x1800 :: u16) = push_bit 11 (mask 2)" "(0x7f8 :: u16) = push_bit 3 (mask 8)" "(0x07 :: u16) = mask 3"
    "(0x03 :: u8) = mask 2" "(0xFC :: u8) = push_bit 2 (mask 6)" "(0x1F :: u8) = mask 5" "(0xE0 :: u8) = push_bit 5 (mask 3)"
    by (simp_all add: mask_eq_exp_minus_1)
  have n3: "ts_adts_header raw adts ! 3 = (adts ! 3 AND 0xFC) OR ucast (drop_bit 11 (w AND 0x1800))"
    and n4: "ts_adts_header raw adts ! 4 = ucast (drop_bit 3 (w AND 0x7f8))"
    and n5: "ts_adts_header raw adts ! 5 = (adts ! 5 AND 0x1F) OR (push_bit 5 (ucast (w AND 0x07)) AND 0xe0)"
    using assms(1) by (simp_all add: ts_adts_header_def Let_def w_def)
  have "ts_adts_calc (ts_adts_header raw adts) = w"
  proof (rule bit_word_eqI)
    fix n :: nat assume n: "n < LENGTH(16)"
    consider "n < 3" | "3 \<le> n \<and> n < 11" | "11 \<le> n \<and> n < 13" | "13 \<le> n" by linarith
    then show "bit (ts_adts_calc (ts_adts_header raw adts)) n = bit w n"
      unfolding ts_adts_calc_def n3 n4 n5 masks using n hi by cases (auto simp: bit_simps)
  qed
  then show ?thesis by (simp add: w_def)
qed

section \<open>One packet\<close>

definition ts_fits :: "ts_muxer \<Rightarrow> payload \<Rightarrow> bool" where
  \<comment> \<open>the \<open>assert\<close>s hold: at least one payload byte has room in the first packet\<close>
  "ts_fits t p \<longleftrightarrow>
     (pl_is_video p \<longrightarrow> ts_extra t p < min (unat (pl_raw_len p)) 151) \<and>
     (\<not> pl_is_video p \<longrightarrow> unat (pl_raw_len p) + 7 < 8192) \<and>
     length (tm_sps t) + length (tm_pps t) < 10000 \<and> length (tm_adts t) = 7"

definition ts_cc :: "bool \<Rightarrow> ts_muxer \<Rightarrow> u8" where
  "ts_cc v t = (if v then tm_video_cc t else tm_audio_cc t)"

definition ts_same :: "ts_muxer \<Rightarrow> ts_muxer \<Rightarrow> bool" where
  \<comment> \<open>what \<open>PacketTs\<close> leaves alone\<close>
  "ts_same t t' \<longleftrightarrow> tm_sps t' = tm_sps t \<and> tm_pps t' = tm_pps t \<and> tm_audio_header t' = tm_audio_header t \<and>
     length (tm_adts t') = length (tm_adts t) \<and> tm_pat t' = tm_pat t \<and> tm_pmt t' = tm_pmt t \<and> tm_abort t' = tm_abort t"

lemma bw_run_append: "bw_run (xs @ ys) s = bw_run ys (bw_run xs s)"
  by (simp add: bw_run_def)

definition ts_first_ops :: "payload \<Rightarrow> nat \<Rightarrow> nat \<Rightarrow> ts_muxer \<Rightarrow> bw_op list" where
  \<comment> \<open>everything in front of the payload bytes\<close>
  "ts_first_ops p raw i t =
     ts_header_ops (pl_is_video p) raw p (ts_cc (pl_is_video p) t) i
     @ (if i = 0 \<and> pl_is_video p then ts_parameter_ops (tm_sps t) (tm_pps t) p else [])
     @ (if i = 0 \<and> \<not> pl_is_video p \<and> 2 \<le> length (tm_audio_header t)
        then [WData (take 7 (ts_adts_header raw (tm_adts t)))] else [])"

lemma ts_first_ops_ok:
  assumes "ts_fits t p" and "i < unat (pl_raw_len p)"
  defines "raw \<equiv> unat (pl_raw_len p)"
  shows "ops_size (ts_first_ops p raw i t) = 8 * (ts_expected_size (pl_is_video p) raw i + (if i = 0 then ts_extra t p else 0))"
    and "bw_aligned 0 (ts_first_ops p raw i t)"
proof -
  note h = ts_header_ops_ok [of "pl_is_video p" raw p "ts_cc (pl_is_video p) t" i]
  have l: "length (tm_adts t) = 7" using assms(1) by (simp add: ts_fits_def)
  show "ops_size (ts_first_ops p raw i t) = 8 * (ts_expected_size (pl_is_video p) raw i + (if i = 0 then ts_extra t p else 0))"
    using h(1) l by (simp add: ts_first_ops_def ts_parameter_ops_ok(1) ts_extra_def)
  show "bw_aligned 0 (ts_first_ops p raw i t)"
    using h(1,2) ts_parameter_ops_ok(2) by (simp add: ts_first_ops_def bw_aligned_append)
qed

lemma ts_room_pos:
  assumes "ts_fits t p" and "i < unat (pl_raw_len p)"
  shows "0 < ts_room (pl_is_video p) (unat (pl_raw_len p)) (ts_extra t p) i"
    and "ts_expected_size (pl_is_video p) (unat (pl_raw_len p)) i + (if i = 0 then ts_extra t p else 0)
      + ts_room (pl_is_video p) (unat (pl_raw_len p)) (ts_extra t p) i = 188"
proof -
  show *: "0 < ts_room (pl_is_video p) (unat (pl_raw_len p)) (ts_extra t p) i"
  proof (cases "pl_is_video p")
    case True
    then show ?thesis using assms ts_room_video [OF assms(2)] by (auto simp: ts_fits_def min_def split: if_splits)
  next
    case False
    then have "ts_extra t p \<le> 7" by (simp add: ts_extra_def)
    then show ?thesis using False assms ts_room_audio [OF assms(2)] by auto
  qed
  then show "ts_expected_size (pl_is_video p) (unat (pl_raw_len p)) i + (if i = 0 then ts_extra t p else 0)
      + ts_room (pl_is_video p) (unat (pl_raw_len p)) (ts_extra t p) i = 188"
    by (simp add: ts_room_def)
qed

lemma concat_bits_length: "length (concat (map bw_op_bits xs)) = ops_size xs"
  by (induction xs) auto

definition ts_first_bytes :: "payload \<Rightarrow> nat \<Rightarrow> nat \<Rightarrow> ts_muxer \<Rightarrow> bytes" where
  "ts_first_bytes p raw i t = pack (concat (map bw_op_bits (ts_first_ops p raw i t)))"

lemma ts_first_bytes_ok:
  assumes "ts_fits t p" and "i < unat (pl_raw_len p)"
  defines "raw \<equiv> unat (pl_raw_len p)"
  defines "m \<equiv> ts_expected_size (pl_is_video p) raw i + (if i = 0 then ts_extra t p else 0)"
  shows "length (ts_first_bytes p raw i t) = m"
    and "m + length d \<le> 16384 \<Longrightarrow>
      bw_data (bw_run [WData d] (bw_run (ts_first_ops p raw i t) bw_default)) = ts_first_bytes p raw i t @ d"
proof -
  note first = ts_first_ops_ok [OF assms(1,2), folded raw_def, folded m_def]
  have len: "length (concat (map bw_op_bits (ts_first_ops p raw i t))) = 8 * m"
    using concat_bits_length first(1) by simp
  from bits_whole [OF this] obtain ys where
    ys: "concat (map bw_op_bits (ts_first_ops p raw i t)) = concat (map byte_bits ys)" "length ys = m" by blast
  have eq: "ts_first_bytes p raw i t = ys" using pack_bytes [of ys "[]"] by (simp add: ts_first_bytes_def ys)
  then show "length (ts_first_bytes p raw i t) = m" using ys by simp
  assume le: "m + length d \<le> 16384"
  define full where "full = ts_first_ops p raw i t @ [WData d]"
  have fs: "ops_size full = 8 * (m + length d)" using first(1) by (simp add: full_def)
  have fa: "bw_aligned 0 full" using first by (simp add: full_def bw_aligned_append)
  have "bw_data (bw_run full bw_default) = pack (concat (map bw_op_bits full))"
    using bw_run_default(2) [OF _ fa] fs le by simp
  then show "bw_data (bw_run [WData d] (bw_run (ts_first_ops p raw i t) bw_default)) = ts_first_bytes p raw i t @ d"
    using pack_bytes [of d "[]"] by (simp add: full_def bw_run_append ys eq)
qed

definition ts_after :: "payload \<Rightarrow> nat \<Rightarrow> ts_muxer \<Rightarrow> ts_muxer" where
  \<comment> \<open>the state after a packet, the over-read flag apart\<close>
  "ts_after p i t =
     (let t1 = snd (if pl_is_video p then tm_get_video_cc t else tm_get_audio_cc t)
      in if i = 0 \<and> \<not> pl_is_video p \<and> 2 \<le> length (tm_audio_header t)
         then t1\<lparr>tm_adts := ts_adts_header (unat (pl_raw_len p)) (tm_adts t)\<rparr> else t1)"

lemma ts_after_same:
  "ts_same t (ts_after p i t\<lparr>tm_overread := b\<rparr>)"
  "ts_cc (pl_is_video p) (ts_after p i t\<lparr>tm_overread := b\<rparr>) = ts_next_cc (ts_cc (pl_is_video p) t)"
  "ts_cc (\<not> pl_is_video p) (ts_after p i t\<lparr>tm_overread := b\<rparr>) = ts_cc (\<not> pl_is_video p) t"
  by (auto simp: ts_after_def ts_same_def ts_cc_def tm_get_video_cc_def tm_get_audio_cc_def Let_def)

lemma ts_packet_ok:
  assumes "ts_fits t p" and "i < unat (pl_raw_len p)"
  defines "raw \<equiv> unat (pl_raw_len p)"
  defines "n \<equiv> ts_room (pl_is_video p) raw (ts_extra t p) i"
  shows "ts_packet p d mem i t = (ts_first_bytes p raw i t @ ts_fetch d mem i n, n,
     ts_after p i t\<lparr>tm_overread := tm_overread t \<or> length d < i + n\<rparr>)"
proof -
  let ?v = "pl_is_video p"
  define e where "e = ts_expected_size ?v raw i"
  define x where "x = (if i = 0 then ts_extra t p else 0)"
  note room = ts_room_pos [OF assms(1,2), folded raw_def, folded n_def e_def x_def]
  note first = ts_first_ops_ok [OF assms(1,2), folded raw_def, folded e_def x_def]
  note bytes = ts_first_bytes_ok [OF assms(1,2), folded raw_def, folded e_def x_def]
  note hdr = ts_header_ops_ok [of ?v raw p "ts_cc ?v t" i, folded e_def]
  define bs where "bs = bw_run (ts_header_ops ?v raw p (ts_cc ?v t) i) bw_default"
  define bs2 where "bs2 = bw_run (ts_first_ops p raw i t) bw_default"
  have "e \<le> 188" using ts_expected_le [OF assms(2)] by (simp add: e_def raw_def)
  then have "bw_pos bs = 8 * e" using bw_run_default(1) [OF _ hdr(2)] hdr(1) by (simp add: bs_def)
  then have sz: "bw_size_in_bytes bs = e" by (simp add: bw_size_in_bytes_def)
  have le: "8 * (e + x) \<le> 131072" using room(2) by simp
  have "bw_pos bs2 = 8 * (e + x)" and nf: "\<not> bw_fault bs2"
    using bw_run_default(1,3) [OF _ first(2)] first(1) le by (simp_all add: bs2_def)
  then have sz2: "bw_size_in_bytes bs2 = e + x" by (simp add: bw_size_in_bytes_def)
  have n: "188 - (e + x) = n" "\<not> 188 \<le> e + x" using room by simp_all
  have data: "bw_data (bw_run [WData (ts_fetch d mem i n)] bs2) = ts_first_bytes p raw i t @ ts_fetch d mem i n"
    using bytes(2) [of "ts_fetch d mem i n"] room(2) by (simp add: bs2_def)
  have adts: "ts_adts_calc (ts_adts_header raw (tm_adts t)) = word_of_nat raw + 7" if "\<not> ?v"
    using that assms(1) ts_adts_calc_ok by (simp add: ts_fits_def raw_def)
  have cc: "fst (if ?v then tm_get_video_cc t else tm_get_audio_cc t) = ts_cc ?v t"
    by (simp add: ts_cc_def tm_get_video_cc_def tm_get_audio_cc_def)
  obtain t1 where t1: "(if ?v then tm_get_video_cc t else tm_get_audio_cc t) = (ts_cc ?v t, t1)"
    "tm_sps t1 = tm_sps t" "tm_pps t1 = tm_pps t" "tm_audio_header t1 = tm_audio_header t" "tm_adts t1 = tm_adts t"
    "tm_overread t1 = tm_overread t"
    by (cases ?v) (simp_all add: ts_cc_def tm_get_video_cc_def tm_get_audio_cc_def)
  have bs2: "bs2 = (if i = 0 \<and> \<not> ?v \<and> 2 \<le> length (tm_audio_header t)
      then bw_run [WData (take 7 (ts_adts_header raw (tm_adts t)))]
        (if i = 0 \<and> ?v then bw_run (ts_parameter_ops (tm_sps t) (tm_pps t) p) bs else bs)
      else if i = 0 \<and> ?v then bw_run (ts_parameter_ops (tm_sps t) (tm_pps t) p) bs else bs)"
    by (simp add: bs2_def bs_def ts_first_ops_def bw_run_append bw_run_def)
  show ?thesis
    unfolding ts_packet_def Let_def t1(1) raw_def [symmetric] split_def fst_conv snd_conv t1 bs_def [symmetric]
      sz e_def [symmetric] bs2 [symmetric] sz2 n
    using n nf adts t1 data by (auto simp: ts_after_def Let_def raw_def [symmetric])
qed

section \<open>What a demultiplexer reads back\<close>

text \<open>
  The reference reader of a transport packet (ISO/IEC 13818-1): skip the four bytes of the header,
  the adaptation field when its flag is set, and the PES header when a unit starts here.
\<close>

definition ts_payload_of :: "bytes \<Rightarrow> bytes" where
  "ts_payload_of pkt =
     (let a = (if pkt ! 3 AND 0x20 \<noteq> 0 then 1 + unat (pkt ! 4) else 0);
          body = drop (4 + a) pkt
      in if pkt ! 1 AND 0x40 \<noteq> 0 then drop (9 + unat (body ! 8)) body else body)"

definition ts_pid_of :: "bytes \<Rightarrow> u16" where
  "ts_pid_of pkt = push_bit 8 (ucast (pkt ! 1 AND 0x1F)) OR ucast (pkt ! 2)"

definition ts_es_prefix :: "ts_muxer \<Rightarrow> payload \<Rightarrow> bytes" where
  \<comment> \<open>what stands between the PES header and the payload: access unit delimiter, start codes and
     parameter sets, or the ADTS header\<close>
  "ts_es_prefix t p =
     (if pl_is_video p then
        [0, 0, 0, 1, 9, 0x10] @
        (if pl_is_iframe p
         then [0, 0, 0, 1] @ tm_sps t @ [0, 0, 0, 1] @ tm_pps t @ [0, 0, 0, 1] else [0, 0, 0, 1])
      else if 2 \<le> length (tm_audio_header t) then take 7 (ts_adts_header (unat (pl_raw_len p)) (tm_adts t))
      else [])"

lemma ops_bytes_append:
  assumes "ops_size xs = 8 * m"
  shows "ops_bytes (xs @ ys) = ops_bytes xs @ ops_bytes ys" and "length (ops_bytes xs) = m"
proof -
  have "length (concat (map bw_op_bits xs)) = 8 * m" using concat_bits_length assms by simp
  from bits_whole [OF this] obtain zs where
    zs: "concat (map bw_op_bits xs) = concat (map byte_bits zs)" "length zs = m" by blast
  have z: "ops_bytes xs = zs" using pack_bytes [of zs "[]"] by (simp add: ops_bytes_def zs)
  then show "length (ops_bytes xs) = m" using zs(2) by simp
  show "ops_bytes (xs @ ys) = ops_bytes xs @ ops_bytes ys" unfolding z by (simp add: ops_bytes_def zs)
qed

lemma ops_bytes_simps [simp]:
  "ops_bytes [] = []"
  "ops_bytes (WBytes n v # ops) = bw_val_bytes n v @ ops_bytes ops"
  "ops_bytes (WData d # ops) = d @ ops_bytes ops"
  by (simp_all add: ops_bytes_def)

definition ts_head_bytes :: "bool \<Rightarrow> bool \<Rightarrow> bool \<Rightarrow> u8 \<Rightarrow> bytes" where
  "ts_head_bytes video start adaptation cc =
     [0x47, (if start then 0x41 else 0x01), (if video then 0x00 else 0x01),
      (if adaptation then 0x30 else 0x10) OR (cc AND 0x0F)]"

lemma ts_head_ok:
  assumes "afc = 1 \<or> afc = 3"
  shows "ops_bytes [WBytes 1 0x47, WBits 1 0, WBits 1 (if s then 1 else 0), WBits 1 0,
          WBits 13 (if v then ts_video_pid else ts_audio_pid), WBits 2 0, WBits 2 afc, WBits 4 (ucast cc)]
     = ts_head_bytes v s (afc = 3) cc"
proof -
  have "concat (map bw_op_bits [WBytes 1 0x47, WBits 1 0, WBits 1 (if s then 1 else 0), WBits 1 0,
          WBits 13 (if v then ts_video_pid else ts_audio_pid), WBits 2 0, WBits 2 afc, WBits 4 (ucast cc)])
     = concat (map byte_bits (ts_head_bytes v s (afc = 3) cc))"
    using assms
    by (cases s; cases v)
      (auto simp: ts_head_bytes_def byte_bits_eq val_bits_def bw_val_bytes_def ts_video_pid_def ts_audio_pid_def
        upt_rec bit_simps)
  then show ?thesis using pack_bytes [of "ts_head_bytes v s (afc = 3) cc" "[]"] by (simp add: ops_bytes_def)
qed

lemma ts_adaptation_bytes:
  assumes "n < 200"
  obtains a where "ops_bytes (ts_adaptation_ops v s n t) = a" and "length a = 1 + unat (a ! 0)"
    and "length a = (if v \<and> s then 8 else 2) + n"
proof -
  define c :: u64 where "c = (if v \<and> s then 7 else 1) + word_of_nat n"
  have u: "unat (ucast c :: u8) = (if v \<and> s then 7 else 1) + n"
    using assms by (simp add: c_def unat_word_ariths unat_of_nat unsigned_ucast_eq take_bit_nat_eq_self_iff)
  have sz: "ops_size (ts_adaptation_ops v s n t) = 8 * ((if v \<and> s then 8 else 2) + n)"
    by (simp add: ts_adaptation_size)
  obtain r where r: "ts_adaptation_ops v s n t = WBytes 1 c # r"
    by (cases "v \<and> s") (simp_all add: ts_adaptation_ops_def Let_def c_def)
  have "ops_bytes (ts_adaptation_ops v s n t) ! 0 = ucast c" by (simp add: r bw_val_bytes_def)
  with ops_bytes_append(2) [OF sz] u show thesis by (intro that [OF refl]) auto
qed

lemma ts_pes_bytes:
  obtains h where "ops_bytes (ts_pes_ops v raw pts dts) = h @ (if v then [0, 0, 0, 1, 9, 0x10] else [])"
    and "length h = 9 + unat (h ! 8)"
proof -
  define c where "c = ts_clock_ops (pts * 90) @ (if v then ts_clock_ops (dts * 90) else [])"
  define w where "w = (if v then 0x0000 else word_of_nat raw + (3 + 5 + 7) :: u64)"
  define h0 :: bytes where
    "h0 = [0, 0, 1, if v then 0xe0 else 0xc0, ucast (drop_bit 8 w), ucast w, 0x80, if v then 0xc0 else 0x80, if v then 10 else 5]"
  have sz: "ops_size c = 8 * (if v then 10 else 5)" by (simp add: c_def ts_clock_ops_def)
  have len: "length (ops_bytes c) = (if v then 10 else 5)" using ops_bytes_append(2) [OF sz] .
  have ops: "ts_pes_ops v raw pts dts =
    [WBytes 3 1, WBytes 1 (if v then 0xe0 else 0xc0), WBytes 2 w, WBytes 1 0x80, WBytes 1 (if v then 0xc0 else 0x80),
     WBytes 1 (if v then 10 else 5)] @ c @ (if v then [WBytes 4 1, WBytes 1 9, WBytes 1 0x10] else [])"
    by (cases v) (simp_all add: ts_pes_ops_def c_def w_def)
  have "ops_bytes (ts_pes_ops v raw pts dts) = h0 @ ops_bytes c @ (if v then [0, 0, 0, 1, 9, 0x10] else [])"
    unfolding ops using ops_bytes_append(1) [OF sz]
    by (cases v) (simp_all add: h0_def bw_val_bytes_def upt_rec)
  moreover have "length (h0 @ ops_bytes c) = 9 + unat ((h0 @ ops_bytes c) ! 8)"
    using len by (simp add: h0_def)
  ultimately show thesis using that [of "h0 @ ops_bytes c"] by simp
qed

definition ts_extra_ops :: "payload \<Rightarrow> nat \<Rightarrow> nat \<Rightarrow> ts_muxer \<Rightarrow> bw_op list" where
  \<comment> \<open>parameter sets or ADTS header\<close>
  "ts_extra_ops p raw i t =
     (if i = 0 \<and> pl_is_video p then ts_parameter_ops (tm_sps t) (tm_pps t) p else []) @
     (if i = 0 \<and> \<not> pl_is_video p \<and> 2 \<le> length (tm_audio_header t)
      then [WData (take 7 (ts_adts_header raw (tm_adts t)))] else [])"

lemma ts_layout_stuffing: "tl_stuffing (ts_layout_of v raw i) < 200"
  by (cases v; cases "i = 0") (auto simp: ts_layout_cases)

lemma ts_first_bytes_parts:
  fixes raw i :: nat and p :: payload and t :: ts_muxer
  defines "v \<equiv> pl_is_video p" and "l \<equiv> ts_layout_of (pl_is_video p) raw i"
  shows "ts_first_bytes p raw i t = ts_head_bytes v (i = 0) (tl_afc l = 3) (ts_cc v t) @
      (if tl_afc l = 3 then ops_bytes (ts_adaptation_ops v (i = 0) (tl_stuffing l) (pl_dts p)) else []) @
      (if i = 0 then ops_bytes (ts_pes_ops v raw (pl_pts p) (pl_dts p)) else []) @ ops_bytes (ts_extra_ops p raw i t)"
proof -
  have afc: "tl_afc l = 1 \<or> tl_afc l = 3" using ts_layout_afc [of v raw i] by (simp add: l_def v_def)
  define H where "H = [WBytes 1 0x47, WBits 1 0, WBits 1 (if i = 0 then 1 else 0), WBits 1 0,
          WBits 13 (if v then ts_video_pid else ts_audio_pid), WBits 2 0, WBits 2 (tl_afc l), WBits 4 (ucast (ts_cc v t))]"
  define A where "A = (if tl_afc l = 3 then ts_adaptation_ops v (i = 0) (tl_stuffing l) (pl_dts p) else [])"
  define P where "P = (if i = 0 then ts_pes_ops v raw (pl_pts p) (pl_dts p) else [])"
  define X where "X = ts_extra_ops p raw i t"
  have ops: "ts_first_ops p raw i t = H @ A @ P @ X"
    using afc unfolding l_def v_def
    by (auto simp: ts_first_ops_def ts_header_ops_def Let_def H_def A_def P_def X_def ts_extra_ops_def l_def v_def)
  have szH: "ops_size H = 8 * 4" by (simp add: H_def)
  have szA: "ops_size A = 8 * (if tl_afc l = 3 then (if v \<and> i = 0 then 8 else 2) + tl_stuffing l else 0)"
    by (simp add: A_def ts_adaptation_size)
  have szP: "ops_size P = 8 * (if i = 0 then (if v then 25 else 14) else 0)" by (simp add: P_def ts_pes_size)
  have eq: "ts_first_bytes p raw i t = ops_bytes H @ ops_bytes A @ ops_bytes P @ ops_bytes X"
    unfolding ts_first_bytes_def ops ops_bytes_def [symmetric]
    using ops_bytes_append(1) [OF szH] ops_bytes_append(1) [OF szA] ops_bytes_append(1) [OF szP] by simp
  have hb: "ops_bytes H = ts_head_bytes v (i = 0) (tl_afc l = 3) (ts_cc v t)"
    unfolding H_def using ts_head_ok [OF afc] .
  show "ts_first_bytes p raw i t = ts_head_bytes v (i = 0) (tl_afc l = 3) (ts_cc v t) @
      (if tl_afc l = 3 then ops_bytes (ts_adaptation_ops v (i = 0) (tl_stuffing l) (pl_dts p)) else []) @
      (if i = 0 then ops_bytes (ts_pes_ops v raw (pl_pts p) (pl_dts p)) else []) @ ops_bytes (ts_extra_ops p raw i t)"
    unfolding eq hb by (simp add: A_def P_def X_def)
qed

lemma ts_first_bytes_split:
  fixes raw i :: nat and p :: payload and t :: ts_muxer
  defines "v \<equiv> pl_is_video p"
  assumes "raw = unat (pl_raw_len p)"
  obtains a h where
    "ts_first_bytes p raw i t = ts_head_bytes v (i = 0) (tl_afc (ts_layout_of v raw i) = 3) (ts_cc v t) @ a @ h @
       (if i = 0 then ts_es_prefix t p else [])"
    and "tl_afc (ts_layout_of v raw i) = 3 \<Longrightarrow> length a = 1 + unat (a ! 0)"
    and "tl_afc (ts_layout_of v raw i) \<noteq> 3 \<Longrightarrow> a = []"
    and "i = 0 \<Longrightarrow> length h = 9 + unat (h ! 8)" and "i \<noteq> 0 \<Longrightarrow> h = []"
    and "tl_afc (ts_layout_of v raw i) = 3 \<Longrightarrow> a \<noteq> []"
proof -
  define l where "l = ts_layout_of v raw i"
  note parts = ts_first_bytes_parts [where p = p and raw = raw and i = i and t = t, folded v_def, folded l_def]
  obtain a0 where a0: "ops_bytes (ts_adaptation_ops v (i = 0) (tl_stuffing l) (pl_dts p)) = a0" "length a0 = 1 + unat (a0 ! 0)"
    using ts_adaptation_bytes [OF ts_layout_stuffing] unfolding l_def by blast
  obtain h0 where h0: "ops_bytes (ts_pes_ops v raw (pl_pts p) (pl_dts p)) = h0 @ (if v then [0, 0, 0, 1, 9, 0x10] else [])"
    "length h0 = 9 + unat (h0 ! 8)" by (rule ts_pes_bytes)
  have x: "(if i = 0 then (if v then [0, 0, 0, 1, 9, 0x10] else []) @ ops_bytes (ts_extra_ops p raw i t) else ops_bytes (ts_extra_ops p raw i t))
      = (if i = 0 then ts_es_prefix t p else [])"
    by (simp add: ts_extra_ops_def ts_es_prefix_def v_def assms(2) ts_parameter_ops_def bw_val_bytes_def upt_rec)
  show thesis
  proof (rule that [of "if tl_afc l = 3 then a0 else []" "if i = 0 then h0 else []", folded l_def])
    show "ts_first_bytes p raw i t = ts_head_bytes v (i = 0) (tl_afc l = 3) (ts_cc v t) @
        (if tl_afc l = 3 then a0 else []) @ (if i = 0 then h0 else []) @ (if i = 0 then ts_es_prefix t p else [])"
      unfolding parts x [symmetric] by (simp add: a0 h0)
  qed (use a0 h0 in auto)
qed

lemma ts_first_payload:
  assumes "ts_fits t p" and "i < unat (pl_raw_len p)"
  defines "raw \<equiv> unat (pl_raw_len p)" and "v \<equiv> pl_is_video p"
  shows "ts_payload_of (ts_first_bytes p raw i t @ d) = (if i = 0 then ts_es_prefix t p else []) @ d"
    and "take 4 (ts_first_bytes p raw i t @ d)
      = ts_head_bytes v (i = 0) (tl_afc (ts_layout_of v raw i) = 3) (ts_cc v t)"
proof -
  obtain a h where s:
    "ts_first_bytes p raw i t = ts_head_bytes v (i = 0) (tl_afc (ts_layout_of v raw i) = 3) (ts_cc v t) @ a @ h @
       (if i = 0 then ts_es_prefix t p else [])"
    "tl_afc (ts_layout_of v raw i) = 3 \<Longrightarrow> length a = 1 + unat (a ! 0)"
    "tl_afc (ts_layout_of v raw i) \<noteq> 3 \<Longrightarrow> a = []"
    "i = 0 \<Longrightarrow> length h = 9 + unat (h ! 8)" "i \<noteq> 0 \<Longrightarrow> h = []"
    "tl_afc (ts_layout_of v raw i) = 3 \<Longrightarrow> a \<noteq> []"
    using ts_first_bytes_split [where p = p and raw = raw and i = i and t = t] unfolding raw_def v_def by metis
  define b3 where "b3 \<longleftrightarrow> tl_afc (ts_layout_of v raw i) = 3"
  have len4: "length (ts_head_bytes v (i = 0) b3 c) = 4" for c by (simp add: ts_head_bytes_def)
  show "take 4 (ts_first_bytes p raw i t @ d)
      = ts_head_bytes v (i = 0) (tl_afc (ts_layout_of v raw i) = 3) (ts_cc v t)"
    using len4 by (simp add: s(1) b3_def)
  define pkt where "pkt = ts_first_bytes p raw i t @ d"
  have pkt: "pkt = ts_head_bytes v (i = 0) b3 (ts_cc v t) @ a @ h @ (if i = 0 then ts_es_prefix t p else []) @ d"
    by (simp add: pkt_def s(1) b3_def)
  have "pkt ! 3 = (if b3 then 0x30 else 0x10) OR (ts_cc v t AND 0x0F)"
    by (simp add: pkt ts_head_bytes_def)
  then have "bit (pkt ! 3) 5 \<longleftrightarrow> b3" by (auto simp: bit_simps)
  moreover have "pkt ! 3 AND 0x20 \<noteq> 0 \<longleftrightarrow> bit (pkt ! 3) 5"
    using and_exp_eq_0_iff_not_bit [of "pkt ! 3" 5] by simp
  ultimately have f3: "pkt ! 3 AND 0x20 \<noteq> 0 \<longleftrightarrow> b3" by simp
  have f1: "pkt ! 1 AND 0x40 \<noteq> 0 \<longleftrightarrow> i = 0"
    by (simp add: pkt ts_head_bytes_def)
  have p4: "b3 \<Longrightarrow> pkt ! 4 = a ! 0"
    using s(6) len4 by (simp add: pkt nth_append b3_def)
  have skip: "drop (4 + (if b3 then 1 + unat (pkt ! 4) else 0)) pkt = h @ (if i = 0 then ts_es_prefix t p else []) @ d"
    using s(2,3) p4 len4 by (cases b3) (simp_all add: pkt b3_def)
  have "ts_payload_of pkt = (if i = 0 then ts_es_prefix t p else []) @ d"
    unfolding ts_payload_of_def f3 skip Let_def f1 using s(4,5) by (cases "i = 0") (simp_all add: nth_append)
  then show "ts_payload_of (ts_first_bytes p raw i t @ d) = (if i = 0 then ts_es_prefix t p else []) @ d"
    by (simp add: pkt_def)
qed

section \<open>Whole frames\<close>

lemma ts_fits_same: "ts_same t t' \<Longrightarrow> ts_fits t p \<Longrightarrow> ts_fits t' p"
  by (auto simp: ts_fits_def ts_extra_def ts_same_def split: if_splits)

lemma ts_extra_same: "ts_same t t' \<Longrightarrow> ts_extra t' p = ts_extra t p"
  by (simp add: ts_extra_def ts_same_def)

lemma ts_same_trans: "ts_same t u \<Longrightarrow> ts_same u w \<Longrightarrow> ts_same t w"
  by (simp add: ts_same_def)

lemma ts_fetch_append: "ts_fetch d mem i n @ ts_fetch d mem (i + n) m = ts_fetch d mem i (n + m)"
proof -
  have "[i..<i + n] @ [i + n..<i + n + m] = [i..<i + (n + m)]"
    using upt_add_eq_append [of i "i + n" m] by (simp add: add.assoc)
  then show ?thesis by (simp only: ts_fetch_def map_append [symmetric] add.assoc)
qed

lemma ts_room_le:
  assumes "ts_fits t p" and "i < unat (pl_raw_len p)"
  shows "ts_room (pl_is_video p) (unat (pl_raw_len p)) (ts_extra t p) i \<le> unat (pl_raw_len p) - i + 9"
proof (cases "pl_is_video p")
  case True
  then show ?thesis using ts_room_video [OF assms(2), of "ts_extra t p"] assms(2) by auto
next
  case False
  then show ?thesis using ts_room_audio [OF assms(2), of "ts_extra t p"] assms(2) by auto
qed

definition ts_packet_good :: "payload \<Rightarrow> ts_muxer \<Rightarrow> nat \<Rightarrow> bool \<Rightarrow> bytes \<Rightarrow> bool" where
  \<comment> \<open>packet \<open>k\<close> of a frame: 188 bytes, sync byte, PID, unit start and continuity counter\<close>
  "ts_packet_good p t k start pkt \<longleftrightarrow>
     length pkt = 188 \<and> pkt ! 0 = 0x47 \<and>
     ts_pid_of pkt = (if pl_is_video p then 0x100 else 0x101) \<and>
     (pkt ! 1 AND 0x40 \<noteq> 0 \<longleftrightarrow> start) \<and>
     pkt ! 3 AND 0x0F = (ts_next_cc ^^ k) (ts_cc (pl_is_video p) t) AND 0x0F"

lemma ts_low:
  fixes x c :: u8
  assumes "x AND 0x0F = 0"
  shows "(x OR (c AND 0x0F)) AND 0x0F = c AND 0x0F"
proof (rule bit_word_eqI)
  fix n
  have "\<not> bit (x AND 0x0F) n" by (simp add: assms)
  then show "bit ((x OR (c AND 0x0F)) AND 0x0F) n = bit (c AND 0x0F) n" by (auto simp: bit_and_iff bit_or_iff)
qed

lemma ts_packet_head:
  assumes "take 4 pkt = ts_head_bytes (pl_is_video p) s b c" and "length pkt = 188"
    and "c = (ts_next_cc ^^ k) (ts_cc (pl_is_video p) t)"
  shows "ts_packet_good p t k s pkt"
proof -
  have "pkt ! j = ts_head_bytes (pl_is_video p) s b c ! j" if "j < 4" for j
    using that by (simp flip: assms(1))
  from this [of 0] this [of 1] this [of 2] this [of 3]
  have n: "pkt ! 0 = 0x47" "pkt ! 1 = (if s then 0x41 else 0x01)" "pkt ! 2 = (if pl_is_video p then 0 else 1)"
    "pkt ! 3 = (if b then 0x30 else 0x10) OR (c AND 0x0F)"
    by (simp_all add: ts_head_bytes_def)
  have "pkt ! 3 AND 0x0F = c AND 0x0F"
    unfolding n(4) by (cases b) (simp_all add: ts_low)
  then show ?thesis using n assms(2,3) by (auto simp: ts_packet_good_def ts_pid_of_def)
qed

definition ts_run_ok :: "payload \<Rightarrow> bytes \<Rightarrow> (nat \<Rightarrow> u8) \<Rightarrow> nat \<Rightarrow> ts_muxer \<Rightarrow> bytes list \<Rightarrow> ts_muxer \<Rightarrow> nat \<Rightarrow> bool" where
  \<comment> \<open>the packets from position \<open>i\<close> on carry \<open>m\<close> bytes\<close>
  "ts_run_ok p d mem i t pkts t' m \<longleftrightarrow>
     ts_same t t' \<and>
     concat (map ts_payload_of pkts) = (if i = 0 then ts_es_prefix t p else []) @ ts_fetch d mem i m \<and>
     unat (pl_raw_len p) \<le> i + m \<and> i + m \<le> unat (pl_raw_len p) + 9 \<and>
     (\<forall>k < length pkts. ts_packet_good p t k (i = 0 \<and> k = 0) (pkts ! k)) \<and>
     ts_cc (pl_is_video p) t' = (ts_next_cc ^^ length pkts) (ts_cc (pl_is_video p) t) \<and>
     ts_cc (\<not> pl_is_video p) t' = ts_cc (\<not> pl_is_video p) t \<and>
     (tm_overread t' \<longleftrightarrow> tm_overread t \<or> length d < i + m)"

lemma ts_run_ok_step:
  assumes "ts_fits t p" and i: "i < unat (pl_raw_len p)"
  defines "n \<equiv> ts_room (pl_is_video p) (unat (pl_raw_len p)) (ts_extra t p) i"
  obtains pkt t1 where "ts_packet p d mem i t = (pkt, n, t1)" and "0 < n" and "ts_run_ok p d mem i t [pkt] t1 n \<or> i + n < unat (pl_raw_len p)"
    and "ts_same t t1" and "i + n \<le> unat (pl_raw_len p) + 9"
    and "ts_payload_of pkt = (if i = 0 then ts_es_prefix t p else []) @ ts_fetch d mem i n"
    and "ts_packet_good p t 0 (i = 0) pkt"
    and "ts_cc (pl_is_video p) t1 = ts_next_cc (ts_cc (pl_is_video p) t)"
    and "ts_cc (\<not> pl_is_video p) t1 = ts_cc (\<not> pl_is_video p) t"
    and "tm_overread t1 \<longleftrightarrow> tm_overread t \<or> length d < i + n"
proof -
  let ?raw = "unat (pl_raw_len p)" and ?v = "pl_is_video p"
  define pkt where "pkt = ts_first_bytes p ?raw i t @ ts_fetch d mem i n"
  define t1 where "t1 = ts_after p i t\<lparr>tm_overread := tm_overread t \<or> length d < i + n\<rparr>"
  have step: "ts_packet p d mem i t = (pkt, n, t1)"
    using ts_packet_ok [OF assms(1) i, of d mem] by (simp add: n_def pkt_def t1_def)
  have st: "ts_same t t1" "ts_cc ?v t1 = ts_next_cc (ts_cc ?v t)" "ts_cc (\<not> ?v) t1 = ts_cc (\<not> ?v) t"
    "tm_overread t1 \<longleftrightarrow> tm_overread t \<or> length d < i + n"
    using ts_after_same by (simp_all add: t1_def)
  have n0: "0 < n" using ts_room_pos(1) [OF assms(1) i] by (simp add: n_def)
  have le: "i + n \<le> ?raw + 9" using ts_room_le [OF assms(1) i] i by (simp add: n_def)
  have len: "length pkt = 188"
    using ts_first_bytes_ok(1) [OF assms(1) i] ts_room_pos(2) [OF assms(1) i] by (simp add: pkt_def n_def)
  have head: "ts_packet_good p t 0 (i = 0) pkt"
    using ts_first_payload(2) [OF assms(1) i, of "ts_fetch d mem i n"] len
    by (intro ts_packet_head) (auto simp: pkt_def)
  have pay: "ts_payload_of pkt = (if i = 0 then ts_es_prefix t p else []) @ ts_fetch d mem i n"
    using ts_first_payload(1) [OF assms(1) i] by (simp add: pkt_def)
  have "ts_run_ok p d mem i t [pkt] t1 n \<or> i + n < ?raw"
    using st le head pay by (cases "i + n < ?raw") (simp_all add: ts_run_ok_def)
  with step st n0 le head pay show thesis by (intro that)
qed

lemma ts_run_ok_cons:
  assumes "ts_same t t1" and "ts_payload_of pkt = (if i = 0 then ts_es_prefix t p else []) @ ts_fetch d mem i n"
    and "ts_packet_good p t 0 (i = 0) pkt" and "0 < n"
    and "ts_cc (pl_is_video p) t1 = ts_next_cc (ts_cc (pl_is_video p) t)"
    and "ts_cc (\<not> pl_is_video p) t1 = ts_cc (\<not> pl_is_video p) t"
    and "tm_overread t1 \<longleftrightarrow> tm_overread t \<or> length d < i + n"
    and "ts_run_ok p d mem (i + n) t1 pkts t' m"
  shows "ts_run_ok p d mem i t (pkt # pkts) t' (n + m)"
proof -
  have good: "ts_packet_good p t k (i = 0 \<and> k = 0) ((pkt # pkts) ! k)" if "k < length (pkt # pkts)" for k
  proof (cases k)
    case 0
    then show ?thesis using assms(3) by simp
  next
    case (Suc j)
    then have "ts_packet_good p t1 j False (pkts ! j)" using assms(4,8) that by (simp add: ts_run_ok_def)
    then show ?thesis using Suc assms(5) by (simp add: ts_packet_good_def funpow_swap1)
  qed
  have "concat (map ts_payload_of (pkt # pkts)) = (if i = 0 then ts_es_prefix t p else []) @ ts_fetch d mem i (n + m)"
    using assms(2,4,8) ts_fetch_append [of d mem i n m] by (simp add: ts_run_ok_def)
  moreover have "tm_overread t' \<longleftrightarrow> tm_overread t \<or> length d < i + (n + m)"
    using assms(7,8) by (auto simp: ts_run_ok_def)
  moreover have "ts_cc (pl_is_video p) t' = (ts_next_cc ^^ length (pkt # pkts)) (ts_cc (pl_is_video p) t)"
    using assms(5,8) by (simp add: ts_run_ok_def funpow_swap1)
  ultimately show ?thesis
    using assms(1,6,8) good ts_same_trans by (auto simp: ts_run_ok_def)
qed

lemma ts_loop_ok:
  assumes "ts_fits t p" and "i < unat (pl_raw_len p)"
  shows "\<exists>pkts t' m. ts_loop p d mem i t = (pkts, t') \<and> ts_run_ok p d mem i t pkts t' m"
  using assms
proof (induction "unat (pl_raw_len p) - i" arbitrary: i t rule: less_induct)
  case less
  let ?raw = "unat (pl_raw_len p)"
  define n where "n = ts_room (pl_is_video p) ?raw (ts_extra t p) i"
  obtain pkt t1 where s: "ts_packet p d mem i t = (pkt, n, t1)" "0 < n"
    "ts_run_ok p d mem i t [pkt] t1 n \<or> i + n < ?raw" "ts_same t t1"
    "ts_payload_of pkt = (if i = 0 then ts_es_prefix t p else []) @ ts_fetch d mem i n"
    "ts_packet_good p t 0 (i = 0) pkt"
    "ts_cc (pl_is_video p) t1 = ts_next_cc (ts_cc (pl_is_video p) t)"
    "ts_cc (\<not> pl_is_video p) t1 = ts_cc (\<not> pl_is_video p) t"
    "tm_overread t1 \<longleftrightarrow> tm_overread t \<or> length d < i + n"
    by (rule ts_run_ok_step [OF less.prems, where d = d and mem = mem, folded n_def])
  have eq: "ts_loop p d mem i t = (let (pkts, t2) = ts_loop p d mem (i + n) t1 in (pkt # pkts, t2))"
    using less.prems(2) s(1,2) by (simp add: ts_loop.simps [of p d mem i t])
  show ?case
  proof (cases "i + n < ?raw")
    case True
    have "\<exists>pkts t' m. ts_loop p d mem (i + n) t1 = (pkts, t') \<and> ts_run_ok p d mem (i + n) t1 pkts t' m"
      using less.hyps [OF _ ts_fits_same [OF s(4) less.prems(1)] True] less.prems(2) s(2) by simp
    then obtain pkts t' m where r: "ts_loop p d mem (i + n) t1 = (pkts, t')" "ts_run_ok p d mem (i + n) t1 pkts t' m"
      by blast
    have "ts_run_ok p d mem i t (pkt # pkts) t' (n + m)"
      using ts_run_ok_cons [OF s(4,5,6,2,7,8,9) r(2)] .
    then show ?thesis using eq r(1) by auto
  next
    case False
    then have "ts_loop p d mem (i + n) t1 = ([], t1)" by (simp add: ts_loop.simps [of p d mem "i + n"])
    then show ?thesis using eq s(3) False by auto
  qed
qed

text \<open>
  C11: \<open>PacketTs\<close> carries a frame whole. When the first packet has room (\<open>ts_fits\<close>), every packet of
  the frame is 188 bytes with the sync byte, the PID of its stream, the unit-start flag on the first
  packet only and consecutive continuity counters, and a demultiplexer that strips the transport,
  adaptation and PES headers gets the access unit prefix followed by the frame's bytes; at most 9
  bytes from behind the frame follow, and the other stream's counter does not move.
\<close>

theorem ts_frame_carried:
  assumes "ts_fits t p" and "pl_raw_data p = Some d" and "length d = unat (pl_raw_len p)" and "d \<noteq> []"
  shows "\<exists>pkts t' k. tm_packet_ts mem p t = (pkts, t') \<and> k \<le> 9 \<and>
     concat (map ts_payload_of pkts) = ts_es_prefix t p @ d @ map mem [0..<k] \<and>
     (\<forall>j < length pkts. ts_packet_good p t j (j = 0) (pkts ! j)) \<and>
     ts_cc (pl_is_video p) t' = (ts_next_cc ^^ length pkts) (ts_cc (pl_is_video p) t) \<and>
     ts_cc (\<not> pl_is_video p) t' = ts_cc (\<not> pl_is_video p) t \<and>
     tm_abort t' = tm_abort t \<and> (tm_overread t' \<longleftrightarrow> tm_overread t \<or> 0 < k)"
proof -
  obtain pkts t' m where r: "ts_loop p d mem 0 t = (pkts, t')" "ts_run_ok p d mem 0 t pkts t' m"
    using ts_loop_ok [OF assms(1), of 0 d mem] assms(3,4) by (metis length_greater_0_conv)
  then have m: "length d \<le> m" "m \<le> length d + 9" using assms(3) by (auto simp: ts_run_ok_def)
  have "ts_fetch d mem 0 m = d @ map mem [0..<m - length d]"
    using m(1) by (intro nth_equalityI) (auto simp: ts_fetch_def nth_append)
  then show ?thesis
    using r m assms(2,3) by (intro exI [of _ pkts] exI [of _ t'] exI [of _ "m - length d"])
      (auto simp: tm_packet_ts_def ts_run_ok_def ts_same_def)
qed

theorem ts_frame_carried_witness:
  "\<exists>p d. pl_is_video p \<and> length d = 20 \<and> pl_raw_data p = Some d \<and>
     (\<exists>pkts t' k. tm_packet_ts (\<lambda>_. 0) p tm_new = (pkts, t') \<and> k \<le> 9 \<and>
        concat (map ts_payload_of pkts) = [0, 0, 0, 1, 9, 0x10, 0, 0, 0, 1] @ d @ map (\<lambda>_. 0) [0..<k])"
proof -
  define p where "p = \<lparr>pl_data = Some (replicate 24 0xAB), pl_len = 24, pl_frame = 2, pl_kind = 1, pl_pts = 40, pl_dts = 40\<rparr>"
  have p: "pl_is_video p" "\<not> pl_is_iframe p" "pl_raw_data p = Some (replicate 20 0xAB)" "unat (pl_raw_len p) = 20"
    by (simp_all add: p_def pl_defs pl_raw_data_def pl_raw_len_def kVideoPayload_def kAudioPayload_def kIframe_def)
  have "ts_fits tm_new p" using p by (simp add: ts_fits_def ts_extra_def tm_new_def)
  from ts_frame_carried [OF this p(3), of "\<lambda>_. 0"] p show ?thesis
    by (intro exI [of _ p] exI [of _ "replicate 20 0xAB"]) (auto simp: ts_es_prefix_def)
qed

section \<open>The tables\<close>

definition ts_section :: "bytes \<Rightarrow> bytes" where
  \<comment> \<open>the section behind the pointer field, as long as its own length field says\<close>
  "ts_section pkt = take (3 + (unat (pkt ! 6 AND 0x0F) * 256 + unat (pkt ! 7))) (drop 5 pkt)"

definition ts_pat_section :: bytes where
  "ts_pat_section = [0x00, 0xB0, 0x0D, 0x00, 0x01, 0xC1, 0x00, 0x00, 0x00, 0x01, 0xEA, 0xBC]"

definition ts_pmt_section :: bytes where
  "ts_pmt_section = [0x02, 0xB0, 0x17, 0x00, 0x01, 0xC1, 0x00, 0x00, 0xE1, 0x00, 0xF0, 0x00,
     0x1B, 0xE1, 0x00, 0xF0, 0x00, 0x0F, 0xE1, 0x01, 0xF0, 0x00]"

lemma ts_pat_ops_ok:
  "concat (map bw_op_bits (ts_pat_ops cc))
     = concat (map byte_bits ([0x47, 0x40, 0x00, 0x10 OR (cc AND 0x0F), 0x00] @ ts_pat_section))"
  "ops_size (ts_pat_ops cc) = 8 * 17" "bw_aligned 0 (ts_pat_ops cc)"
  by (simp_all add: ts_pat_ops_def ts_pat_section_def byte_bits_eq val_bits_def bw_val_bytes_def ts_pmt_pid_def upt_rec bit_simps)

lemma ts_pmt_ops_ok:
  "concat (map bw_op_bits (ts_pmt_ops cc))
     = concat (map byte_bits ([0x47, 0x4A, 0xBC, 0x10 OR (cc AND 0x0F), 0x00] @ ts_pmt_section))"
  "ops_size (ts_pmt_ops cc) = 8 * 27" "bw_aligned 0 (ts_pmt_ops cc)"
  by (simp_all add: ts_pmt_ops_def ts_pmt_section_def byte_bits_eq val_bits_def bw_val_bytes_def ts_pmt_pid_def
      ts_video_pid_def ts_audio_pid_def upt_rec bit_simps)

lemma ts_close_section_ok:
  assumes ops: "concat (map bw_op_bits ops) = concat (map byte_bits (h @ sec))"
    and size: "ops_size ops = 8 * n" "bw_aligned 0 ops" "n \<le> 184" and h: "length h = 5"
  shows "ts_close_section ops = h @ sec @ be 4 (unat (ts_crc sec)) @ replicate (184 - n) 0xFF"
proof -
  define bs where "bs = bw_run ops bw_default"
  have bytes: "ops_bytes ops = h @ sec" using pack_bytes [of "h @ sec" "[]"] by (simp only: ops_bytes_def ops append_Nil2 pack.simps)
  have data: "bw_data bs = h @ sec"
    using bw_run_default(2) [OF _ size(2)] size(1,3) bytes by (simp add: bs_def ops_bytes_def)
  define ops1 where "ops1 = ops @ [WBytes 4 (ucast (ts_crc sec))]"
  have s1: "ops_size ops1 = 8 * (n + 4)" "bw_aligned 0 ops1"
    using size by (simp_all add: ops1_def bw_aligned_append)
  have "bw_pos (bw_run ops1 bw_default) = 8 * (n + 4)" using bw_run_default(1) [OF _ s1(2)] s1(1) size(3) by simp
  then have sz: "bw_size_in_bytes (bw_run ops1 bw_default) = n + 4" by (simp add: bw_size_in_bytes_def)
  have run: "bw_run (ops1 @ xs) bw_default = bw_run xs (bw_run [WBytes 4 (ucast (ts_crc sec))] bs)" for xs
    by (simp add: ops1_def bw_run_def bs_def)
  have sz': "bw_size_in_bytes (bw_run [WBytes 4 (ucast (ts_crc sec))] bs) = n + 4"
    using sz run [of "[]"] by (simp add: bw_run_def)
  define ops2 where "ops2 = ops1 @ replicate (184 - n) (WBytes 1 0xFF)"
  have s2: "ops_size ops2 = 8 * 188" "bw_aligned 0 ops2"
    using s1 size(3) by (simp_all add: ops2_def bw_aligned_append bw_aligned_fill sum_list_replicate)
  have ff: "ops_bytes (replicate k (WBytes (Suc 0) 0xFF)) = replicate k 0xFF" for k
    by (induction k) (simp_all add: bw_val_bytes_def)
  have crc: "bw_val_bytes 4 (ucast (ts_crc sec) :: u64) = be 4 (unat (ts_crc sec))"
    by (simp add: be4_bytes bw_val_bytes_def upt_rec) (auto intro!: bit_word_eqI simp: bit_simps)
  have "ops_bytes ops2 = h @ sec @ be 4 (unat (ts_crc sec)) @ replicate (184 - n) 0xFF"
    using ops_bytes_append(1) [OF size(1)] by (simp add: ops2_def ops1_def bytes crc ff)
  moreover have "bw_data (bw_run ops2 bw_default) = ops_bytes ops2"
    using bw_run_default(2) [OF _ s2(2)] s2(1) by (simp add: ops_bytes_def)
  moreover have "ts_close_section ops = bw_data (bw_run ops2 bw_default)"
    using data h by (simp add: ts_close_section_def bs_def [symmetric] Let_def ops2_def run
      sz')
  ultimately show ?thesis by simp
qed

definition ts_pat_packet :: "u8 \<Rightarrow> bytes" where
  "ts_pat_packet cc = [0x47, 0x40, 0x00, 0x10 OR (cc AND 0x0F), 0x00] @ ts_pat_section @
     be 4 (unat (ts_crc ts_pat_section)) @ replicate 167 0xFF"

definition ts_pmt_packet :: "u8 \<Rightarrow> bytes" where
  "ts_pmt_packet cc = [0x47, 0x4A, 0xBC, 0x10 OR (cc AND 0x0F), 0x00] @ ts_pmt_section @
     be 4 (unat (ts_crc ts_pmt_section)) @ replicate 157 0xFF"

definition ts_tables_inv :: "ts_muxer \<Rightarrow> bool" where
  \<comment> \<open>the two cached tables, when built, differ from the reference packets in the counter only\<close>
  "ts_tables_inv t \<longleftrightarrow> tm_pat_cc t < 16 \<and> tm_pmt_cc t < 16 \<and>
     (tm_pat t = [] \<or> (\<exists>cc. tm_pat t = ts_pat_packet cc)) \<and> (tm_pmt t = [] \<or> (\<exists>cc. tm_pmt t = ts_pmt_packet cc))"

lemma ts_next_cc_lt: "c < 16 \<Longrightarrow> ts_next_cc c < 16"
  by (auto simp: ts_next_cc_def word_less_nat_alt unat_word_ariths word_unat_eq_iff split: if_splits)

lemma ts_cc_low: "c < 16 \<Longrightarrow> c AND 0x0F = c" for c :: u8
proof -
  assume "c < 16"
  then have "take_bit 4 c = c" by (simp add: take_bit_eq_mod word_less_nat_alt word_arith_nat_mod unat_of_nat)
  then show ?thesis by (simp add: take_bit_eq_mask mask_eq_exp_minus_1)
qed

lemma tm_packet_pat_eq:
  assumes "ts_tables_inv t"
  shows "tm_packet_pat t = (ts_pat_packet (tm_pat_cc t),
    t\<lparr>tm_pat_cc := ts_next_cc (tm_pat_cc t), tm_pat := ts_pat_packet (tm_pat_cc t)\<rparr>)"
proof -
  have "ts_close_section (ts_pat_ops c) = ts_pat_packet c" for c
    using ts_close_section_ok [OF ts_pat_ops_ok] by (simp add: ts_pat_packet_def)
  moreover have "(ts_pat_packet c)[3 := 0x10 OR tm_pat_cc t] = ts_pat_packet (tm_pat_cc t)" for c
    using assms ts_cc_low by (simp add: ts_pat_packet_def ts_tables_inv_def)
  moreover have "4 \<le> length (ts_pat_packet c)" for c by (simp add: ts_pat_packet_def)
  ultimately show ?thesis
    using assms by (auto simp: tm_packet_pat_def tm_get_pat_cc_def ts_tables_inv_def Let_def)
qed

lemma tm_packet_pmt_eq:
  assumes "ts_tables_inv t"
  shows "tm_packet_pmt t = (ts_pmt_packet (tm_pmt_cc t),
    t\<lparr>tm_pmt_cc := ts_next_cc (tm_pmt_cc t), tm_pmt := ts_pmt_packet (tm_pmt_cc t)\<rparr>)"
proof -
  have "ts_close_section (ts_pmt_ops c) = ts_pmt_packet c" for c
    using ts_close_section_ok [OF ts_pmt_ops_ok] by (simp add: ts_pmt_packet_def)
  moreover have "(ts_pmt_packet c)[3 := 0x10 OR tm_pmt_cc t] = ts_pmt_packet (tm_pmt_cc t)" for c
    using assms ts_cc_low by (simp add: ts_pmt_packet_def ts_tables_inv_def)
  moreover have "4 \<le> length (ts_pmt_packet c)" for c by (simp add: ts_pmt_packet_def)
  ultimately show ?thesis
    using assms by (auto simp: tm_packet_pmt_def tm_get_pmt_cc_def ts_tables_inv_def Let_def)
qed

definition ts_table_good :: "u16 \<Rightarrow> u8 \<Rightarrow> bytes \<Rightarrow> bool" where
  \<comment> \<open>a table packet: 188 bytes, the PID, the counter, and a section whose checksum verifies\<close>
  "ts_table_good pid cc pkt \<longleftrightarrow>
     length pkt = 188 \<and> pkt ! 0 = 0x47 \<and> ts_pid_of pkt = pid \<and> pkt ! 3 AND 0x0F = cc \<and>
     crc_of CRC32_HLS (ts_section pkt) = Some 0"

lemma ts_crc_section: "crc_of CRC32_HLS (sec @ be 4 (unat (ts_crc sec))) = Some 0"
  using hls_residue [of sec] by (auto simp: ts_crc_def)

lemma ts_low_or: "c < 16 \<Longrightarrow> (0x10 OR (c AND 0x0F)) AND 0x0F = (c :: u8)"
proof -
  assume c: "c < 16"
  have "(0x10 OR (c AND 0x0F)) AND 0x0F = c AND 0x0F" by (rule ts_low) simp
  then show ?thesis using ts_cc_low [OF c] by simp
qed

lemma ts_packets_good:
  assumes "c < 16"
  shows "ts_table_good 0 c (ts_pat_packet c)" and "ts_table_good 0xABC c (ts_pmt_packet c)"
proof -
  have "ts_section (ts_pat_packet c) = ts_pat_section @ be 4 (unat (ts_crc ts_pat_section))"
    by (simp add: ts_section_def ts_pat_packet_def ts_pat_section_def)
  then show "ts_table_good 0 c (ts_pat_packet c)"
    using ts_low_or [OF assms] ts_crc_section
    by (simp add: ts_table_good_def) (simp add: ts_pat_packet_def ts_pid_of_def ts_pat_section_def)
  have "ts_section (ts_pmt_packet c) = ts_pmt_section @ be 4 (unat (ts_crc ts_pmt_section))"
    by (simp add: ts_section_def ts_pmt_packet_def ts_pmt_section_def)
  then show "ts_table_good 0xABC c (ts_pmt_packet c)"
    using ts_low_or [OF assms] ts_crc_section
    by (simp add: ts_table_good_def) (simp add: ts_pmt_packet_def ts_pid_of_def ts_pmt_section_def)
qed

text \<open>
  C32: a PAT or PMT packet of the muxer is well formed and checkable: 188 bytes on PID 0 or
  0xABC with the current continuity counter, and its section, cut out by the section's own length,
  has checksum residue 0. Rebuilding the packet from the cache keeps this, and the counters advance
  modulo 16.
\<close>

theorem ts_tables_checked:
  assumes "ts_tables_inv t"
  shows "ts_table_good 0 (tm_pat_cc t) (fst (tm_packet_pat t)) \<and> ts_tables_inv (snd (tm_packet_pat t)) \<and>
    ts_table_good 0xABC (tm_pmt_cc t) (fst (tm_packet_pmt t)) \<and> ts_tables_inv (snd (tm_packet_pmt t)) \<and>
    tm_pat_cc (snd (tm_packet_pat t)) = (tm_pat_cc t + 1) mod 16 \<and>
    tm_pmt_cc (snd (tm_packet_pmt t)) = (tm_pmt_cc t + 1) mod 16"
proof -
  have c: "tm_pat_cc t < 16" "tm_pmt_cc t < 16" using assms by (simp_all add: ts_tables_inv_def)
  have m: "ts_next_cc c = (c + 1) mod 16" if "c < 16" for c
    using that by (auto simp: ts_next_cc_def word_less_nat_alt word_unat_eq_iff unat_mod unat_word_ariths)
  have lt: "(tm_pat_cc t + 1) mod 16 < 16" "(tm_pmt_cc t + 1) mod 16 < 16"
    using ts_next_cc_lt [OF c(1)] ts_next_cc_lt [OF c(2)] m [OF c(1)] m [OF c(2)] by simp_all
  show ?thesis
    unfolding tm_packet_pat_eq [OF assms] tm_packet_pmt_eq [OF assms]
    using ts_packets_good c m [OF c(1)] m [OF c(2)] assms lt
    by (auto simp: ts_tables_inv_def)
qed

theorem ts_tables_checked_witness:
  "ts_table_good 0 0 (fst (tm_packet_pat tm_new)) \<and> ts_table_good 0xABC 0 (fst (tm_packet_pmt tm_new))"
proof -
  have "ts_tables_inv tm_new" by (simp add: ts_tables_inv_def tm_new_def)
  from ts_tables_checked [OF this] show ?thesis by (simp add: tm_new_def)
qed

section \<open>Sizes the code does not handle\<close>

text \<open>
  a video frame of 5 to 150 bytes that is no key frame is sent with a tail that is not its own:
  two packets carry the frame and then 6 bytes from behind its block, because the header of a last
  packet reserves an 8-byte adaptation field and then writes a 2-byte one.
\<close>

theorem ts_small_frame_overread:
  assumes "pl_is_video p" and "\<not> pl_is_iframe p" and "pl_raw_data p = Some d" and "length d = unat (pl_raw_len p)"
    and "4 < length d" and "length d < 151" and "ts_fits t p"
  shows "\<exists>p1 p2 t'. tm_packet_ts mem p t = ([p1, p2], t') \<and>
     ts_payload_of p1 @ ts_payload_of p2 = ts_es_prefix t p @ d @ map mem [0..<6] \<and> tm_overread t'"
proof -
  let ?n = "length d"
  have x: "ts_extra t p = 4" using assms(1,2) by (simp add: ts_extra_def)
  have r0: "ts_room (pl_is_video p) (unat (pl_raw_len p)) (ts_extra t p) 0 = ?n - 4"
    using assms x ts_room_video [of 0 ?n 4] by simp
  have lt0: "0 < unat (pl_raw_len p)" "?n - 4 < unat (pl_raw_len p)" using assms(4,5) by simp_all
  obtain p1 t1 where a: "ts_packet p d mem 0 t = (p1, ?n - 4, t1)" "ts_same t t1"
    "ts_payload_of p1 = (if (0::nat) = 0 then ts_es_prefix t p else []) @ ts_fetch d mem 0 (?n - 4)"
    by (rule ts_run_ok_step [OF assms(7) lt0(1), where d = d and mem = mem, unfolded r0])
  have fits1: "ts_fits t1 p" using ts_fits_same [OF a(2) assms(7)] .
  have r1: "ts_room (pl_is_video p) (unat (pl_raw_len p)) (ts_extra t1 p) (?n - 4) = 10"
    using assms ts_room_video [OF lt0(2)] by simp
  obtain p2 t2 where b: "ts_packet p d mem (?n - 4) t1 = (p2, 10, t2)"
    "ts_payload_of p2 = (if ?n - 4 = 0 then ts_es_prefix t1 p else []) @ ts_fetch d mem (?n - 4) 10"
    "tm_overread t2 \<longleftrightarrow> tm_overread t1 \<or> ?n < ?n - 4 + 10"
    by (rule ts_run_ok_step [OF fits1 lt0(2), where d = d and mem = mem, unfolded r1])
  have "ts_loop p d mem (?n - 4 + 10) t2 = ([], t2)"
    using assms(4,5) by (subst ts_loop.simps) simp
  then have "ts_loop p d mem (?n - 4) t1 = ([p2], t2)"
    using b(1) lt0 by (subst ts_loop.simps) simp
  then have "ts_loop p d mem 0 t = ([p1, p2], t2)"
    using a(1) lt0(1) assms(5) by (subst ts_loop.simps) simp
  moreover have "ts_fetch d mem 0 (?n - 4) @ ts_fetch d mem (?n - 4) 10 = d @ map mem [0..<6]"
  proof -
    have "ts_fetch d mem 0 (?n - 4) @ ts_fetch d mem (?n - 4) 10 = ts_fetch d mem 0 (?n + 6)"
      using ts_fetch_append [of d mem 0 "?n - 4" 10] assms(5) by (simp add: add.commute)
    also have "\<dots> = d @ map mem [0..<6]"
      by (intro nth_equalityI) (auto simp: ts_fetch_def nth_append)
    finally show ?thesis .
  qed
  ultimately show ?thesis using a(3) b(2,3) assms(3,5) by (simp add: tm_packet_ts_def)
qed

theorem ts_small_frame_overread_witness:
  "\<exists>p d. length d = 20 \<and> pl_raw_data p = Some d \<and>
     (\<exists>p1 p2 t'. tm_packet_ts (\<lambda>_. 0) p tm_new = ([p1, p2], t') \<and>
        ts_payload_of p1 @ ts_payload_of p2 = [0, 0, 0, 1, 9, 0x10, 0, 0, 0, 1] @ d @ replicate 6 0 \<and> tm_overread t')"
proof -
  define p where "p = \<lparr>pl_data = Some (replicate 24 0xAB), pl_len = 24, pl_frame = 2, pl_kind = 1, pl_pts = 40, pl_dts = 40\<rparr>"
  have p: "pl_is_video p" "\<not> pl_is_iframe p" "pl_raw_data p = Some (replicate 20 0xAB)" "unat (pl_raw_len p) = 20"
    by (simp_all add: p_def pl_defs pl_raw_data_def pl_raw_len_def kVideoPayload_def kAudioPayload_def kIframe_def)
  have "ts_fits tm_new p" using p by (simp add: ts_fits_def ts_extra_def tm_new_def)
  from ts_small_frame_overread [OF p(1-3) _ _ _ this, of "\<lambda>_. 0"] p show ?thesis
    by (intro exI [of _ p] exI [of _ "replicate 20 0xAB"]) (auto simp: ts_es_prefix_def map_replicate_const)
qed

text \<open>
  a key frame whose SPS and PPS do not leave room for a payload byte in the first packet
  (more than 138 bytes together, or a frame not longer than the prefix) fails the assertion
  \<open>bytes_left > 0\<close>: the process aborts, and no packet of the frame is produced.
\<close>

theorem ts_large_parameter_sets_abort:
  assumes "pl_is_video p" and "pl_is_iframe p" and "0 < unat (pl_raw_len p)"
    and "min (unat (pl_raw_len p)) 151 \<le> 12 + length (tm_sps t) + length (tm_pps t)"
    and "length (tm_sps t) + length (tm_pps t) < 10000"
  shows "fst (tm_packet_ts mem p t) = [] \<and> tm_abort (snd (tm_packet_ts mem p t))"
proof -
  let ?raw = "unat (pl_raw_len p)"
  let ?d = "case pl_raw_data p of None \<Rightarrow> [] | Some d \<Rightarrow> d"
  define bs where "bs = bw_run (ts_header_ops True ?raw p (tm_video_cc t) 0) bw_default"
  define e where "e = ts_expected_size True ?raw 0"
  define ops where "ops = ts_header_ops True ?raw p (tm_video_cc t) 0 @ ts_parameter_ops (tm_sps t) (tm_pps t) p"
  note hdr = ts_header_ops_ok [of True ?raw p "tm_video_cc t" 0, folded e_def]
  have e: "e = 188 - min ?raw 151" by (simp add: e_def ts_expected_cases min_def)
  have sz: "bw_size_in_bytes bs = e"
    using bw_run_default(1) [OF _ hdr(2)] hdr(1) e by (simp add: bs_def bw_size_in_bytes_def)
  have o: "ops_size ops = 8 * (e + 12 + length (tm_sps t) + length (tm_pps t))" "bw_aligned 0 ops"
    using hdr assms(2) ts_parameter_ops_ok by (simp_all add: ops_def bw_aligned_append)
  have "bw_size_in_bytes (bw_run ops bw_default) = e + 12 + length (tm_sps t) + length (tm_pps t)"
    using bw_run_default(1) [OF _ o(2)] o(1) assms(5) e by (simp add: bw_size_in_bytes_def)
  then have "188 \<le> bw_size_in_bytes (bw_run (ts_parameter_ops (tm_sps t) (tm_pps t) p) bs)"
    using assms(4) e by (simp add: ops_def bs_def bw_run_append)
  then have "ts_packet p ?d mem 0 t = ([], 0, t\<lparr>tm_video_cc := ts_next_cc (tm_video_cc t), tm_abort := True\<rparr>)"
    using sz assms(1) by (simp add: ts_packet_def tm_get_video_cc_def bs_def [symmetric] e_def [symmetric] Let_def)
  then show ?thesis using assms(3) by (simp add: tm_packet_ts_def ts_loop.simps [of p ?d mem 0])
qed

theorem ts_large_parameter_sets_abort_witness:
  "\<exists>p t. length (tm_sps t) = 100 \<and> length (tm_pps t) = 50 \<and> fst (tm_packet_ts (\<lambda>_. 0) p t) = [] \<and>
     tm_abort (snd (tm_packet_ts (\<lambda>_. 0) p t))"
proof -
  define p where "p = \<lparr>pl_data = Some (replicate 24 0xAB), pl_len = 24, pl_frame = 1, pl_kind = 1, pl_pts = 40, pl_dts = 40\<rparr>"
  define t where "t = tm_new\<lparr>tm_sps := replicate 100 0, tm_pps := replicate 50 0\<rparr>"
  have p: "pl_is_video p" "pl_is_iframe p" "unat (pl_raw_len p) = 20"
    by (simp_all add: p_def pl_defs pl_raw_data_def pl_raw_len_def kVideoPayload_def kAudioPayload_def kIframe_def)
  from ts_large_parameter_sets_abort [OF p(1,2), of t "\<lambda>_. 0"] p show ?thesis
    by (intro exI [of _ p] exI [of _ t]) (auto simp: t_def)
qed

end
