(* ===== verification/MediaMuxer.thy ===== *)
theory MediaMuxer
  imports TsMuxer StdMap
begin

text \<open>
  \<open>src/media_muxer.cpp\<close>: the queues of frames a late subscriber is started from, the queue of
  transport-stream segments with the playlist over it, and the decoder headers. The packets of
  \<open>PacketTs\<close> are also returned, since the code hands each to the SRT subscribers. A segment's
  duration is a \<open>double\<close> in the code, a quotient by 1000; here it is the dividend in milliseconds,
  and how a \<open>double\<close> is printed is a parameter (\<open>show_ms\<close>). Time stamps are below \<open>2^53\<close>.

  The lemmas show that the fast start is an ordered merge from the last key frame on, that the
  playlist only ever names segments that are there and finished, and what the header parsers read.
\<close>

section \<open>State\<close>

record ts_media =
  tmd_duration :: int
  tmd_first_dts :: int
  tmd_data :: bytes

definition tmd_new :: ts_media where
  "tmd_new = \<lparr>tmd_duration = 0, tmd_first_dts = 0, tmd_data = []\<rparr>"

record media_muxer =
  mm_ts :: ts_muxer \<comment> \<open>with \<open>audio_header_\<close>, \<open>adts_header_\<close>, \<open>sps_\<close>, \<open>pps_\<close>\<close>
  mm_video_queue :: "(u64, payload) smap"
  mm_audio_queue :: "(u64, payload) smap"
  mm_video_frame_id :: u64
  mm_audio_frame_id :: u64
  mm_video_recv :: u64
  mm_audio_recv :: u64
  mm_key_recv :: u64
  mm_pre_video_key :: u64
  mm_pre_audio_key :: u64
  mm_video_fps :: u32
  mm_audio_fps :: u32
  mm_pre_fps_ms :: u64
  mm_metadata :: bytes
  mm_video_header :: bytes
  mm_ts_queue :: "(u64, ts_media) smap"
  mm_m3u8 :: bytes
  mm_ts_seq :: u64

definition mm_new :: media_muxer where
  "mm_new = \<lparr>mm_ts = tm_new, mm_video_queue = [], mm_audio_queue = [], mm_video_frame_id = 0, mm_audio_frame_id = 0,
     mm_video_recv = 0, mm_audio_recv = 0, mm_key_recv = 0, mm_pre_video_key = 0, mm_pre_audio_key = 0,
     mm_video_fps = 0, mm_audio_fps = 0, mm_pre_fps_ms = 0, mm_metadata = [], mm_video_header = [],
     mm_ts_queue = [], mm_m3u8 = [], mm_ts_seq = 0\<rparr>"

definition mm_has_video_header :: "media_muxer \<Rightarrow> bool" where
  "mm_has_video_header m \<longleftrightarrow> mm_video_header m \<noteq> []"

definition mm_has_audio_header :: "media_muxer \<Rightarrow> bool" where
  "mm_has_audio_header m \<longleftrightarrow> tm_audio_header (mm_ts m) \<noteq> []"

definition mm_has_metadata :: "media_muxer \<Rightarrow> bool" where
  "mm_has_metadata m \<longleftrightarrow> mm_metadata m \<noteq> []"

definition mm_get_ts :: "u64 \<Rightarrow> media_muxer \<Rightarrow> bytes" where
  \<comment> \<open>\<open>invalid_ts_\<close> is the empty string\<close>
  "mm_get_ts k m = (case sm_find k (mm_ts_queue m) of None \<Rightarrow> [] | Some x \<Rightarrow> tmd_data x)"

section \<open>Segments\<close>

definition mm_open_ts :: "payload \<Rightarrow> media_muxer \<Rightarrow> media_muxer" where
  \<comment> \<open>a new segment starts with the two tables\<close>
  "mm_open_ts p m =
     (case sm_find (mm_ts_seq m) (mm_ts_queue m) of
        Some _ \<Rightarrow> m
      | None \<Rightarrow>
          let (pat, t1) = tm_packet_pat (mm_ts m);
              (pmt, t2) = tm_packet_pmt t1
          in m\<lparr>mm_ts := t2,
               mm_ts_queue := sm_put (mm_ts_seq m)
                 \<lparr>tmd_duration = 0, tmd_first_dts = uint (pl_dts p), tmd_data = pat @ pmt\<rparr> (mm_ts_queue m)\<rparr>)"

definition mm_packet_ts :: "(nat \<Rightarrow> u8) \<Rightarrow> payload \<Rightarrow> media_muxer \<Rightarrow> bytes list \<times> media_muxer" where
  "mm_packet_ts mem p m =
     (let m1 = mm_open_ts p m;
          (pkts, t) = tm_packet_ts mem p (mm_ts m1);
          seg = (case sm_find (mm_ts_seq m1) (mm_ts_queue m1) of None \<Rightarrow> tmd_new | Some x \<Rightarrow> x)
      in (pkts, m1\<lparr>mm_ts := t,
            mm_ts_queue := sm_put (mm_ts_seq m1)
              (seg\<lparr>tmd_duration := uint (pl_dts p) - tmd_first_dts seg,
                   tmd_data := tmd_data seg @ concat pkts\<rparr>) (mm_ts_queue m1)\<rparr>))"

definition ms_ceil :: "int \<Rightarrow> int" where
  \<comment> \<open>\<open>ceil(ms / 1000.0)\<close>\<close>
  "ms_ceil ms = - ((- ms) div 1000)"

definition mm_target_duration :: "(u64, ts_media) smap \<Rightarrow> int" where
  \<comment> \<open>the loop over the queue\<close>
  "mm_target_duration q = fold (\<lambda>(_, x) d. if d < ms_ceil (tmd_duration x) then ms_ceil (tmd_duration x) else d) q 0"

definition mm_ts_at :: "u64 \<Rightarrow> (u64, ts_media) smap \<Rightarrow> ts_media \<times> (u64, ts_media) smap" where
  \<comment> \<open>\<open>ts_queue_[k]\<close>, which creates the entry\<close>
  "mm_ts_at k q = (case sm_find k q of Some x \<Rightarrow> (x, q) | None \<Rightarrow> (tmd_new, sm_put k tmd_new q))"

definition m3u8_entry :: "(int \<Rightarrow> bytes) \<Rightarrow> int \<Rightarrow> u32 \<Rightarrow> bytes" where
  "m3u8_entry show_ms d n = bs ''#EXTINF:'' @ show_ms d @ [10] @ dec (unat n) @ bs ''.ts'' @ [10]"

definition mm_update_m3u8 :: "(int \<Rightarrow> bytes) \<Rightarrow> media_muxer \<Rightarrow> media_muxer" where
  "mm_update_m3u8 show_ms m =
     (if length (mm_ts_queue m) < 3 then m
      else
        let duration = mm_target_duration (mm_ts_queue m);
            n = (ucast (fst (last (mm_ts_queue m))) :: u32);
            (a, q1) = mm_ts_at (ucast (n - 2)) (mm_ts_queue m);
            (b, q2) = mm_ts_at (ucast (n - 1)) q1;
            (c, q3) = mm_ts_at (ucast n) q2
        in m\<lparr>mm_ts_queue := q3,
             mm_m3u8 := bs ''#EXTM3U'' @ [10] @ bs ''#EXT-X-VERSION:3'' @ [10] @ bs ''#EXT-X-ALLOW-CACHE:NO'' @ [10] @
               bs ''#EXT-X-TARGETDURATION:'' @ dec (nat duration) @ [10] @
               bs ''#EXT-X-MEDIA-SEQUENCE:'' @ dec (unat n) @ [10] @
               m3u8_entry show_ms (tmd_duration a) (n - 2) @ m3u8_entry show_ms (tmd_duration b) (n - 1) @
               m3u8_entry show_ms (tmd_duration c) n @ [10]\<rparr>)"

section \<open>Frames\<close>

definition mm_queue_full :: "u32 \<Rightarrow> ('a, 'b) smap \<Rightarrow> media_muxer \<Rightarrow> bool" where
  \<comment> \<open>the product is computed in \<open>uint32_t\<close>\<close>
  "mm_queue_full fps q m \<longleftrightarrow>
     (fps \<noteq> 0 \<and> unat (20 * fps) < length q \<or> 800 \<le> length q) \<and> 10 < length (mm_ts_queue m)"

definition mm_on_audio :: "(nat \<Rightarrow> u8) \<Rightarrow> payload \<Rightarrow> media_muxer \<Rightarrow> bytes list \<times> media_muxer" where
  "mm_on_audio mem p m =
     (let m1 = m\<lparr>mm_audio_queue := sm_insert (mm_audio_frame_id m) p (mm_audio_queue m)\<rparr>;
          (pkts, m2) = mm_packet_ts mem p m1;
          m3 = m2\<lparr>mm_audio_recv := mm_audio_recv m2 + 1, mm_audio_frame_id := mm_audio_frame_id m2 + 1,
                  mm_audio_fps := mm_audio_fps m2 + 1\<rparr>
      in (pkts,
          if mm_queue_full (mm_audio_fps m3) (mm_audio_queue m3) m3
          then m3\<lparr>mm_audio_queue := tl (mm_audio_queue m3)\<rparr> else m3))"

definition mm_key_frame :: "(int \<Rightarrow> bytes) \<Rightarrow> media_muxer \<Rightarrow> media_muxer" where
  "mm_key_frame show_ms m =
     (let m1 = (if mm_pre_video_key m \<noteq> 0
                then (mm_update_m3u8 show_ms m)\<lparr>mm_ts_seq := mm_ts_seq m + 1\<rparr> else m)
      in m1\<lparr>mm_key_recv := mm_key_recv m1 + 1, mm_pre_video_key := mm_video_frame_id m1,
            mm_pre_audio_key := mm_audio_frame_id m1\<rparr>)"

definition mm_on_video :: "(nat \<Rightarrow> u8) \<Rightarrow> (int \<Rightarrow> bytes) \<Rightarrow> payload \<Rightarrow> media_muxer \<Rightarrow> bytes list \<times> media_muxer" where
  "mm_on_video mem show_ms p m =
     (let m0 = (if pl_is_iframe p then mm_key_frame show_ms m else m);
          m1 = m0\<lparr>mm_video_queue := sm_insert (mm_video_frame_id m0) p (mm_video_queue m0)\<rparr>;
          (pkts, m2) = mm_packet_ts mem p m1;
          m3 = m2\<lparr>mm_video_recv := mm_video_recv m2 + 1, mm_video_frame_id := mm_video_frame_id m2 + 1,
                  mm_video_fps := mm_video_fps m2 + 1\<rparr>
      in (pkts,
          if mm_queue_full (mm_video_fps m3) (mm_video_queue m3) m3
          then m3\<lparr>mm_ts_queue := (if pl_is_iframe (snd (hd (mm_video_queue m3))) then tl (mm_ts_queue m3) else mm_ts_queue m3),
                  mm_video_queue := tl (mm_video_queue m3)\<rparr>
          else m3))"

definition mm_on_metadata :: "bytes \<Rightarrow> media_muxer \<Rightarrow> media_muxer" where
  "mm_on_metadata d m = (if mm_metadata m = d then m else m\<lparr>mm_metadata := d\<rparr>)"

fun mm_merge :: "payload list \<Rightarrow> payload list \<Rightarrow> payload list" where
  "mm_merge [] vs = vs"
| "mm_merge as [] = as"
| "mm_merge (a # as) (v # vs) = (if pl_dts v < pl_dts a then v # mm_merge (a # as) vs else a # mm_merge as (v # vs))"

definition mm_fast_out :: "media_muxer \<Rightarrow> payload list" where
  "mm_fast_out m =
     mm_merge (map snd (sm_from (mm_pre_audio_key m) (mm_audio_queue m)))
              (map snd (sm_from (mm_pre_video_key m) (mm_video_queue m)))"

definition mm_every_second :: "u64 \<Rightarrow> media_muxer \<Rightarrow> media_muxer" where
  "mm_every_second now m =
     (if mm_pre_fps_ms m = 0 then m\<lparr>mm_pre_fps_ms := now\<rparr>
      else m\<lparr>mm_pre_fps_ms := now, mm_video_fps := 0, mm_audio_fps := 0\<rparr>)"

section \<open>Decoder headers\<close>

function mm_nal_scan :: "bytes \<Rightarrow> nat \<Rightarrow> nat option \<Rightarrow> (nat \<times> int) list" where
  \<comment> \<open>the loop over an Annex-B header: start and length of each unit\<close>
  "mm_nal_scan p i nal =
     (if i + 3 < length p then
        (if p ! i \<noteq> 0 \<or> p ! (i + 1) \<noteq> 0 \<or> p ! (i + 2) \<noteq> 1 then mm_nal_scan p (i + 1) nal
         else (case nal of None \<Rightarrow> [] | Some k \<Rightarrow> [(k, int i - int k - 1)]) @ mm_nal_scan p (i + 3) (Some (i + 3)))
      else (case nal of None \<Rightarrow> [] | Some k \<Rightarrow> [(k, int (length p) - int k)]))"
  by pat_completeness auto

termination by (relation "measure (\<lambda>(p, i, nal). length p - i)") auto

declare mm_nal_scan.simps [simp del]

fun mm_strings :: "nat \<Rightarrow> bytes \<Rightarrow> bit_buffer \<Rightarrow> bytes \<times> bit_buffer" where
  \<comment> \<open>the loop over SPS or PPS: a 16-bit length and that many bytes into the same member\<close>
  "mm_strings 0 old b = (old, b)"
| "mm_strings (Suc n) old b =
     (let (_, l, b1) = bb_get_bytes 2 b;
          (_, s, b2) = bb_get_string (unat (l :: u16)) old b1
      in mm_strings n s b2)"

definition mm_avcc :: "bytes \<Rightarrow> bytes \<Rightarrow> bytes \<Rightarrow> bytes \<times> bytes" where
  \<comment> \<open>the other branch: an \<open>AVCDecoderConfigurationRecord\<close>; the new SPS and PPS\<close>
  "mm_avcc h sps pps =
     (let (_, _, b1) = bb_get_bytes 1 (bb_new h) :: int \<times> u8 \<times> bit_buffer;
          (_, _, b2) = bb_get_bytes 1 b1 :: int \<times> u8 \<times> bit_buffer;
          (_, _, b3) = bb_get_bytes 1 b2 :: int \<times> u8 \<times> bit_buffer;
          (_, _, b4) = bb_get_bytes 1 b3 :: int \<times> u8 \<times> bit_buffer;
          (_, _, b5) = bb_get_bits 6 (0 :: u8) b4;
          (_, _, b6) = bb_get_bits 2 (0 :: u8) b5;
          (_, _, b7) = bb_get_bits 3 (0 :: u8) b6;
          (_, sps_num, b8) = bb_get_bits 5 (0 :: u8) b7;
          (sps1, b9) = mm_strings (unat sps_num) sps b8;
          (_, pps_num, b10) = bb_get_bytes 1 b9;
          (pps1, _) = mm_strings (unat (pps_num :: u8)) pps b10
      in (sps1, pps1))"

definition mm_parse_video_header :: "bytes \<Rightarrow> ts_muxer \<Rightarrow> ts_muxer" where
  \<comment> \<open>a negative length makes \<open>std::string::assign\<close> throw, which nothing catches\<close>
  "mm_parse_video_header h t =
     (if byte_at h 0 = 0 \<and> byte_at h 1 = 0 \<and> byte_at h 2 = 0 \<and> byte_at h 3 = 1
      then (case mm_nal_scan h 0 None of
              [(a, l), (b, k)] \<Rightarrow>
                if l < 0 \<or> k < 0 then t\<lparr>tm_abort := True\<rparr>
                else t\<lparr>tm_sps := substr h a (nat l), tm_pps := substr h b (nat k)\<rparr>
            | _ \<Rightarrow> t)
      else let (s, p) = mm_avcc h (tm_sps t) (tm_pps t) in t\<lparr>tm_sps := s, tm_pps := p\<rparr>)"

definition mm_on_video_header :: "bytes \<Rightarrow> media_muxer \<Rightarrow> bool \<times> media_muxer" where
  \<comment> \<open>the flag is \<open>pending_arrive\<close>: the publisher then starts the waiting subscribers\<close>
  "mm_on_video_header h m =
     (let pending = mm_video_header m = [] \<and> h \<noteq> [] \<and> tm_audio_header (mm_ts m) \<noteq> []
      in if mm_video_header m = h then (False, m)
         else (pending, m\<lparr>mm_video_header := h, mm_ts := mm_parse_video_header h (mm_ts m)\<rparr>))"

definition mm_adts_of :: "bytes \<Rightarrow> bytes \<Rightarrow> bytes" where
  \<comment> \<open>\<open>adts_header_\<close> from an \<open>AudioSpecificConfig\<close>\<close>
  "mm_adts_of h adts =
     (let object_type = drop_bit 3 (byte_at h 0 AND 0xf8);
          freq = push_bit 1 (byte_at h 0 AND 0x07) OR drop_bit 7 (byte_at h 1 AND 0x80);
          channel = drop_bit 3 (byte_at h 1 AND 0x78)
      in [0xff, 0xf0 OR 1,
          push_bit 6 (object_type - 1) OR (push_bit 2 (freq AND 0x0f) OR drop_bit 2 (channel AND 0x04)),
          push_bit 6 (channel AND 0x03), adts ! 4, adts ! 5 OR 0x1f, 0xfc])"

definition mm_on_audio_header :: "bytes \<Rightarrow> media_muxer \<Rightarrow> bool \<times> media_muxer" where
  "mm_on_audio_header h m =
     (let t = mm_ts m;
          pending = tm_audio_header t = [] \<and> h \<noteq> [] \<and> mm_video_header m \<noteq> []
      in if tm_audio_header t = h then (False, m)
         else (pending, m\<lparr>mm_ts := t\<lparr>tm_audio_header := h, tm_adts := mm_adts_of h (tm_adts t)\<rparr>\<rparr>))"

section \<open>Fast start\<close>

lemma mm_merge_shuffle: "mm_merge as vs \<in> shuffles as vs"
  by (induction as vs rule: mm_merge.induct) (auto simp: Cons_in_shuffles_iff)

lemma mm_merge_set: "set (mm_merge as vs) = set as \<union> set vs"
  by (induction as vs rule: mm_merge.induct) auto

lemma mm_merge_sorted:
  assumes "sorted (map pl_dts as)" and "sorted (map pl_dts vs)"
  shows "sorted (map pl_dts (mm_merge as vs))"
  using assms by (induction as vs rule: mm_merge.induct) (auto simp: mm_merge_set)

section \<open>Segments and the playlist\<close>

definition m3u8_text :: "(int \<Rightarrow> bytes) \<Rightarrow> int \<Rightarrow> u32 \<Rightarrow> int \<Rightarrow> int \<Rightarrow> int \<Rightarrow> bytes" where
  "m3u8_text show_ms target n a b c =
     bs ''#EXTM3U'' @ [10] @ bs ''#EXT-X-VERSION:3'' @ [10] @ bs ''#EXT-X-ALLOW-CACHE:NO'' @ [10] @
     bs ''#EXT-X-TARGETDURATION:'' @ dec (nat target) @ [10] @
     bs ''#EXT-X-MEDIA-SEQUENCE:'' @ dec (unat n) @ [10] @
     m3u8_entry show_ms a (n - 2) @ m3u8_entry show_ms b (n - 1) @ m3u8_entry show_ms c n @ [10]"

lemma mm_target_fold: "d \<le> fold (\<lambda>(_, x) d. if d < ms_ceil (tmd_duration x) then ms_ceil (tmd_duration x) else d) q d
   \<and> (\<forall>(k, x) \<in> set q. ms_ceil (tmd_duration x) \<le> fold (\<lambda>(_, x) d. if d < ms_ceil (tmd_duration x) then ms_ceil (tmd_duration x) else d) q d)"
proof (induction q arbitrary: d)
  case (Cons e q)
  obtain k x where e: "e = (k, x)" by (cases e)
  show ?case using Cons [of "if d < ms_ceil (tmd_duration x) then ms_ceil (tmd_duration x) else d"]
    by (auto simp: e split: if_splits)
qed simp

lemma mm_target_ge: "(k, x) \<in> set q \<Longrightarrow> ms_ceil (tmd_duration x) \<le> mm_target_duration q"
  using mm_target_fold [where q = q and d = 0] by (auto simp: mm_target_duration_def)

text \<open>The segments are numbered without a gap up to \<open>ts_seq_\<close>.\<close>

definition seg_keys :: "nat \<Rightarrow> u64 \<Rightarrow> u64 list" where
  "seg_keys lo seq = map word_of_nat [lo..<Suc (unat seq)]"

lemma seg_keys_last: "lo \<le> unat seq \<Longrightarrow> last (seg_keys lo seq) = seq"
  by (simp add: seg_keys_def last_map)

lemma in_seg_keys: "k \<in> set (seg_keys lo seq) \<longleftrightarrow> lo \<le> unat k \<and> unat k \<le> unat seq" if "lo \<le> unat seq" for k
proof
  assume "k \<in> set (seg_keys lo seq)"
  then obtain j where j: "k = word_of_nat j" "lo \<le> j" "j \<le> unat seq" by (auto simp: seg_keys_def)
  have "(unsigned seq :: nat) < 2 ^ LENGTH(64)" by (rule unsigned_less)
  then have "unat k = j" using j by (simp add: unat_of_nat take_bit_nat_eq_self_iff)
  then show "lo \<le> unat k \<and> unat k \<le> unat seq" using j by simp
next
  assume "lo \<le> unat k \<and> unat k \<le> unat seq"
  then show "k \<in> set (seg_keys lo seq)"
    unfolding seg_keys_def set_map set_upt
    by (intro image_eqI [of _ _ "unat k"]) auto
qed

lemma sm_put_keys_present: "k \<in> fst ` set m \<Longrightarrow> sm_ok m \<Longrightarrow> map fst (sm_put k v m) = map fst m"
  by (induction k v m rule: sm_put.induct) (auto simp: sm_ok_cons)

lemma seg_keys_ok: "map fst q = seg_keys lo seq \<Longrightarrow> sm_ok q"
proof -
  assume q: "map fst q = seg_keys lo seq"
  have "(unsigned seq :: nat) < 2 ^ LENGTH(64)" by (rule unsigned_less)
  then have lt: "unat (word_of_nat j :: u64) = j" if "j \<le> unat seq" for j
    using that by (simp add: unat_of_nat take_bit_nat_eq_self_iff)
  have "sorted_wrt (\<lambda>i j. word_of_nat i < (word_of_nat j :: u64)) [lo..<Suc (unat seq)]"
    using lt by (intro sorted_wrt_mono_rel [OF _ sorted_wrt_upt]) (auto simp: word_less_nat_alt)
  then show "sm_ok q" by (simp only: sm_ok_def q seg_keys_def sorted_wrt_map)
qed

definition m3u8_ok :: "(int \<Rightarrow> bytes) \<Rightarrow> media_muxer \<Rightarrow> bool" where
  \<comment> \<open>the playlist names the three segments before the open one, with the durations they have, and
     its target duration is not below any of them\<close>
  "m3u8_ok show_ms m \<longleftrightarrow>
     (\<exists>n target a b c. mm_m3u8 m = m3u8_text show_ms target n (tmd_duration a) (tmd_duration b) (tmd_duration c) \<and>
        unat (mm_ts_seq m) = unat n + 1 \<and> 2 \<le> unat n \<and>
        sm_find (ucast (n - 2)) (mm_ts_queue m) = Some a \<and> sm_find (ucast (n - 1)) (mm_ts_queue m) = Some b \<and>
        sm_find (ucast n) (mm_ts_queue m) = Some c \<and>
        ms_ceil (tmd_duration a) \<le> target \<and> ms_ceil (tmd_duration b) \<le> target \<and> ms_ceil (tmd_duration c) \<le> target)"

definition segs_ok :: "media_muxer \<Rightarrow> bool" where
  "segs_ok m \<longleftrightarrow>
     (if mm_ts_queue m = [] then mm_ts_seq m = 0 \<and> mm_pre_video_key m = 0 \<and> mm_video_frame_id m = 0
      else (\<exists>lo \<le> unat (mm_ts_seq m). map fst (mm_ts_queue m) = seg_keys lo (mm_ts_seq m)))"

definition mm_inv :: "(int \<Rightarrow> bytes) \<Rightarrow> media_muxer \<Rightarrow> bool" where
  "mm_inv show_ms m \<longleftrightarrow> segs_ok m \<and> (mm_m3u8 m = [] \<or> 3 < length (mm_ts_queue m) \<and> m3u8_ok show_ms m)"

lemma seg_keys_length: "length (seg_keys lo seq) = Suc (unat seq) - lo"
  by (simp add: seg_keys_def del: upt_Suc)

lemma seg_find:
  assumes "map fst q = seg_keys lo seq" and "lo \<le> unat seq" and "lo \<le> unat k" and "unat k \<le> unat seq"
  obtains x where "sm_find k q = Some x"
proof -
  have "k \<in> set (map fst q)" using assms in_seg_keys by simp
  then show thesis using that by (cases "sm_find k q") (auto simp: map_of_eq_None_iff)
qed

lemma seg_index:
  fixes n :: u32
  assumes "2 \<le> unat n"
  shows "unat (ucast (n - 2) :: u64) = unat n - 2" and "unat (ucast (n - 1) :: u64) = unat n - 1"
    and "unat (ucast n :: u64) = unat n"
proof -
  have "(unsigned n :: nat) < 2 ^ LENGTH(32)" by (rule unsigned_less)
  then show "unat (ucast (n - 2) :: u64) = unat n - 2" "unat (ucast (n - 1) :: u64) = unat n - 1"
    "unat (ucast n :: u64) = unat n"
    using assms by (simp_all add: unsigned_ucast_eq unat_sub word_le_nat_alt take_bit_nat_eq_self_iff
        order.strict_trans1 [OF diff_le_self])
qed

lemma mm_update_m3u8_ok:
  assumes q: "map fst (mm_ts_queue m) = seg_keys lo (mm_ts_seq m)" and lo: "lo \<le> unat (mm_ts_seq m)"
    and len: "3 \<le> length (mm_ts_queue m)" and small: "unat (mm_ts_seq m) < 2 ^ 32"
  obtains n target a b c where
    "mm_update_m3u8 show_ms m =
       m\<lparr>mm_m3u8 := m3u8_text show_ms target n (tmd_duration a) (tmd_duration b) (tmd_duration c)\<rparr>"
    and "unat n = unat (mm_ts_seq m)" and "2 \<le> unat n"
    and "sm_find (ucast (n - 2)) (mm_ts_queue m) = Some a" and "sm_find (ucast (n - 1)) (mm_ts_queue m) = Some b"
    and "sm_find (ucast n) (mm_ts_queue m) = Some c"
    and "ms_ceil (tmd_duration a) \<le> target" and "ms_ceil (tmd_duration b) \<le> target" and "ms_ceil (tmd_duration c) \<le> target"
proof -
  let ?q = "mm_ts_queue m" and ?seq = "mm_ts_seq m"
  define n :: u32 where "n = ucast ?seq"
  have un: "unat n = unat ?seq" using small by (simp add: n_def unsigned_ucast_eq take_bit_nat_eq_self_iff)
  have "length ?q = Suc (unat ?seq) - lo" using arg_cong [OF q, of length] by (simp add: seg_keys_length)
  then have ge: "lo + 2 \<le> unat ?seq" using len by simp
  have "?q \<noteq> []" using len by auto
  then have last: "fst (last ?q) = ?seq" using arg_cong [OF q, of last] seg_keys_last [OF lo] by (simp add: last_map)
  have u: "unat (ucast (n - 2) :: u64) = unat ?seq - 2" "unat (ucast (n - 1) :: u64) = unat ?seq - 1"
    "unat (ucast n :: u64) = unat ?seq"
    using seg_index [of n] ge un by simp_all
  have le: "lo \<le> unat ?seq - 2" "lo \<le> unat ?seq - 1" using ge by linarith+
  obtain a where a: "sm_find (ucast (n - 2)) ?q = Some a" using seg_find [OF q lo, of "ucast (n - 2)"] u le lo by auto
  obtain b where b: "sm_find (ucast (n - 1)) ?q = Some b" using seg_find [OF q lo, of "ucast (n - 1)"] u le lo by auto
  obtain c where c: "sm_find (ucast n) ?q = Some c" using seg_find [OF q lo, of "ucast n"] u le lo by auto
  show thesis
  proof (rule that [of "mm_target_duration ?q" n a b c])
    show "mm_update_m3u8 show_ms m = m\<lparr>mm_m3u8 := m3u8_text show_ms (mm_target_duration ?q) n (tmd_duration a) (tmd_duration b) (tmd_duration c)\<rparr>"
      using len a b c by (simp add: mm_update_m3u8_def last n_def [symmetric] mm_ts_at_def m3u8_text_def Let_def)
  qed (use un ge a b c in \<open>auto intro: mm_target_ge dest: map_of_SomeD\<close>)
qed

lemma seg_find_none:
  assumes "map fst q = seg_keys lo seq" and "lo \<le> unat seq" and "unat seq < unat k"
  shows "sm_find k q = None"
  using assms in_seg_keys [OF assms(2), of k] by (metis map_of_eq_None_iff image_set linorder_not_le)

lemma seg_put_next:
  assumes q: "map fst q = seg_keys lo seq" and lo: "lo \<le> unat seq" and "unat seq < 2 ^ 32"
  shows "map fst (sm_put (seq + 1) x q) = seg_keys lo (seq + 1)" and "sm_put (seq + 1) x q = q @ [(seq + 1, x)]"
proof -
  have u: "unat (seq + 1) = Suc (unat seq)" using assms(3) by (simp add: unat_word_ariths)
  have "\<forall>e \<in> set q. fst e < seq + 1"
  proof
    fix e assume "e \<in> set q"
    then have "fst e \<in> set (seg_keys lo seq)" using q by (metis imageI list.set_map)
    then show "fst e < seq + 1" using in_seg_keys [OF lo] u by (simp add: word_less_nat_alt)
  qed
  then show p: "sm_put (seq + 1) x q = q @ [(seq + 1, x)]" by (rule sm_put_last)
  have "word_of_nat (Suc (unat seq)) = seq + 1" by simp
  then show "map fst (sm_put (seq + 1) x q) = seg_keys lo (seq + 1)"
    using lo u by (simp add: p q seg_keys_def)
qed

text \<open>\<open>PacketTs\<close> changes the open segment only.\<close>

lemma mm_open_ts_fields:
  "mm_ts_seq (mm_open_ts p m) = mm_ts_seq m" "mm_m3u8 (mm_open_ts p m) = mm_m3u8 m"
  "mm_pre_video_key (mm_open_ts p m) = mm_pre_video_key m" "mm_video_queue (mm_open_ts p m) = mm_video_queue m"
  "mm_audio_queue (mm_open_ts p m) = mm_audio_queue m" "mm_video_frame_id (mm_open_ts p m) = mm_video_frame_id m"
  "mm_ts_queue (mm_open_ts p m) \<noteq> []"
  by (auto simp: mm_open_ts_def Let_def split: option.splits prod.splits)

lemma mm_packet_ts_fields:
  assumes "mm_packet_ts mem p m = (pkts, m')"
  obtains x where "mm_ts_queue m' = sm_put (mm_ts_seq m) x (mm_ts_queue (mm_open_ts p m))"
    and "mm_ts_seq m' = mm_ts_seq m" and "mm_m3u8 m' = mm_m3u8 m" and "mm_pre_video_key m' = mm_pre_video_key m"
    and "mm_video_queue m' = mm_video_queue m" and "mm_video_frame_id m' = mm_video_frame_id m"
    and "mm_audio_queue m' = mm_audio_queue m"
  using assms by (auto simp: mm_packet_ts_def Let_def mm_open_ts_fields split: prod.splits option.splits)

lemma mm_open_ts_queue_ex:
  "mm_ts_queue (mm_open_ts p m) = mm_ts_queue m \<and> sm_find (mm_ts_seq m) (mm_ts_queue m) \<noteq> None \<or>
   (\<exists>x. mm_ts_queue (mm_open_ts p m) = sm_put (mm_ts_seq m) x (mm_ts_queue m))"
  by (cases "sm_find (mm_ts_seq m) (mm_ts_queue m)") (auto simp: mm_open_ts_def Let_def split_def)

lemma sm_put_twice: "sm_put k y (sm_put k x m) = sm_put k y m"
  by (induction k x m rule: sm_put.induct) auto

lemma mm_packet_ts_put:
  assumes "mm_packet_ts mem p m = (pkts, m')"
  obtains x where "mm_ts_queue m' = sm_put (mm_ts_seq m) x (mm_ts_queue m)"
  using mm_packet_ts_fields [OF assms] mm_open_ts_queue_ex [of p m] sm_put_twice by metis

lemma m3u8_ok_cong:
  assumes "m3u8_ok show_ms m" and "mm_m3u8 m' = mm_m3u8 m" and "mm_ts_seq m' = mm_ts_seq m"
    and "\<And>k x. unat k < unat (mm_ts_seq m) \<Longrightarrow> unat (mm_ts_seq m) \<le> unat k + 3 \<Longrightarrow> sm_find k (mm_ts_queue m) = Some x \<Longrightarrow>
      sm_find k (mm_ts_queue m') = Some x"
  shows "m3u8_ok show_ms m'"
proof -
  obtain n target a b c where p: "mm_m3u8 m = m3u8_text show_ms target n (tmd_duration a) (tmd_duration b) (tmd_duration c)"
    "unat (mm_ts_seq m) = unat n + 1" "2 \<le> unat n"
    "sm_find (ucast (n - 2)) (mm_ts_queue m) = Some a" "sm_find (ucast (n - 1)) (mm_ts_queue m) = Some b"
    "sm_find (ucast n) (mm_ts_queue m) = Some c"
    "ms_ceil (tmd_duration a) \<le> target" "ms_ceil (tmd_duration b) \<le> target" "ms_ceil (tmd_duration c) \<le> target"
    using assms(1) unfolding m3u8_ok_def by blast
  note u = seg_index [OF p(3)]
  show ?thesis
    unfolding m3u8_ok_def assms(2,3)
    using p assms(4) [OF _ _ p(4)] assms(4) [OF _ _ p(5)] assms(4) [OF _ _ p(6)] u
    by (intro exI [of _ n] exI [of _ target] exI [of _ a] exI [of _ b] exI [of _ c]) auto
qed

text \<open>\<open>PacketTs\<close> on the segment that is open, or on the one that a key frame has just announced.\<close>

lemma mm_packet_open:
  assumes inv: "mm_inv show_ms m" and "mm_packet_ts mem p m = (pkts, m')"
  shows "mm_ts_queue m' \<noteq> []" and "mm_inv show_ms m'"
proof -
  obtain y where f: "mm_ts_seq m' = mm_ts_seq m" "mm_m3u8 m' = mm_m3u8 m" "mm_pre_video_key m' = mm_pre_video_key m"
    "mm_video_queue m' = mm_video_queue m"
    using mm_packet_ts_fields [OF assms(2)] by metis
  obtain x where q: "mm_ts_queue m' = sm_put (mm_ts_seq m) x (mm_ts_queue m)"
    by (rule mm_packet_ts_put [OF assms(2)])
  then show ne: "mm_ts_queue m' \<noteq> []" by simp
  show "mm_inv show_ms m'"
  proof (cases "mm_ts_queue m = []")
    case True
    then have "mm_ts_seq m = 0" "mm_m3u8 m = []" using inv by (auto simp: mm_inv_def segs_ok_def)
    then show ?thesis using True q f by (auto simp: mm_inv_def segs_ok_def seg_keys_def intro!: exI [of _ "0::nat"])
  next
    case False
    then obtain lo where lo: "lo \<le> unat (mm_ts_seq m)" "map fst (mm_ts_queue m) = seg_keys lo (mm_ts_seq m)"
      using inv by (auto simp: mm_inv_def segs_ok_def)
    have "mm_ts_seq m \<in> set (map fst (mm_ts_queue m))" using lo in_seg_keys by simp
    then have k: "map fst (mm_ts_queue m') = map fst (mm_ts_queue m)"
      using sm_put_keys_present seg_keys_ok [OF lo(2)] by (simp add: q)
    then have len: "length (mm_ts_queue m') = length (mm_ts_queue m)" by (metis length_map)
    have "segs_ok m'" using ne lo k f by (auto simp: segs_ok_def)
    moreover have "m3u8_ok show_ms m'" if "m3u8_ok show_ms m"
      using that f q by (intro m3u8_ok_cong [OF that]) (auto simp: sm_find_put)
    ultimately show ?thesis using inv f len by (auto simp: mm_inv_def)
  qed
qed

lemma mm_packet_next:
  assumes inv: "mm_inv show_ms m" and "mm_ts_queue m \<noteq> []" and small: "unat (mm_ts_seq m) < 2 ^ 32"
    and "mm_packet_ts mem p (m1\<lparr>mm_ts_seq := mm_ts_seq m + 1, mm_key_recv := a, mm_pre_video_key := b, mm_pre_audio_key := c,
      mm_video_queue := d\<rparr>) = (pkts, m')"
    and m1: "m1 = mm_update_m3u8 show_ms m"
  shows "mm_ts_queue m' \<noteq> []" and "mm_inv show_ms m'"
proof -
  obtain lo where lo: "lo \<le> unat (mm_ts_seq m)" "map fst (mm_ts_queue m) = seg_keys lo (mm_ts_seq m)"
    using inv assms(2) by (auto simp: mm_inv_def segs_ok_def)
  have u: "unat (mm_ts_seq m + 1) = Suc (unat (mm_ts_seq m))" using small by (simp add: unat_word_ariths)
  have q1: "mm_ts_queue m1 = mm_ts_queue m" 
  proof (cases "3 \<le> length (mm_ts_queue m)")
    case True
    then show ?thesis by (rule mm_update_m3u8_ok [OF lo(2,1) _ small, of show_ms]) (simp_all add: m1)
  qed (simp add: m1 mm_update_m3u8_def)
  obtain x where q: "mm_ts_queue m' = sm_put (mm_ts_seq m + 1) x (mm_ts_queue m)"
    using mm_packet_ts_put [OF assms(4)] q1 by auto
  have f: "mm_ts_seq m' = mm_ts_seq m + 1" "mm_m3u8 m' = mm_m3u8 m1"
    using mm_packet_ts_fields [OF assms(4)] by auto
  note p = seg_put_next [OF lo(2,1) small, of x]
  show ne: "mm_ts_queue m' \<noteq> []" by (simp add: q p(2))
  have so: "segs_ok m'" using ne p(1) lo(1) f u by (auto simp: segs_ok_def q intro!: exI [of _ lo])
  have old: "sm_find k (mm_ts_queue m') = sm_find k (mm_ts_queue m)" if "unat k \<le> unat (mm_ts_seq m)" for k
    using that u by (auto simp: q sm_find_put)
  show "mm_inv show_ms m'"
  proof (cases "3 \<le> length (mm_ts_queue m)")
    case True
    obtain n target a b c where n:
      "m1 = m\<lparr>mm_m3u8 := m3u8_text show_ms target n (tmd_duration a) (tmd_duration b) (tmd_duration c)\<rparr>"
      "unat n = unat (mm_ts_seq m)" "2 \<le> unat n"
      "sm_find (ucast (n - 2)) (mm_ts_queue m) = Some a" "sm_find (ucast (n - 1)) (mm_ts_queue m) = Some b"
      "sm_find (ucast n) (mm_ts_queue m) = Some c"
      "ms_ceil (tmd_duration a) \<le> target" "ms_ceil (tmd_duration b) \<le> target" "ms_ceil (tmd_duration c) \<le> target"
      using mm_update_m3u8_ok [OF lo(2,1) True small] m1 by metis
    have v: "unat (ucast (n - 2) :: u64) \<le> unat (mm_ts_seq m)" "unat (ucast (n - 1) :: u64) \<le> unat (mm_ts_seq m)"
      "unat (ucast n :: u64) \<le> unat (mm_ts_seq m)"
      using seg_index [OF n(3)] n(2) by simp_all
    have "m3u8_ok show_ms m'"
      unfolding m3u8_ok_def using n v u f old by (intro exI [of _ n] exI [of _ target] exI [of _ a] exI [of _ b] exI [of _ c]) auto
    moreover have "3 < length (mm_ts_queue m')" using True by (simp add: q p(2))
    ultimately show ?thesis using so by (simp add: mm_inv_def)
  next
    case False
    then have "m1 = m" by (simp add: m1 mm_update_m3u8_def)
    then have "mm_m3u8 m' = []" using False inv f by (auto simp: mm_inv_def)
    then show ?thesis using so by (simp add: mm_inv_def)
  qed
qed

lemma mm_inv_cong:
  assumes "mm_inv show_ms m" and "mm_ts_queue m' = mm_ts_queue m" and "mm_ts_seq m' = mm_ts_seq m" and "mm_m3u8 m' = mm_m3u8 m"
    and "mm_ts_queue m = [] \<Longrightarrow> mm_pre_video_key m' = 0 \<and> mm_video_frame_id m' = 0"
  shows "mm_inv show_ms m'"
  using assms by (auto simp: mm_inv_def segs_ok_def m3u8_ok_def)

lemma mm_inv_trim:
  assumes inv: "mm_inv show_ms m" and len: "10 < length (mm_ts_queue m)"
    and m': "mm_ts_queue m' = tl (mm_ts_queue m)" "mm_ts_seq m' = mm_ts_seq m" "mm_m3u8 m' = mm_m3u8 m"
  shows "mm_inv show_ms m'"
proof -
  obtain e q where eq: "mm_ts_queue m = e # q" using len by (cases "mm_ts_queue m") auto
  then have ne: "q \<noteq> []" using len by auto
  from eq obtain lo where lo: "lo \<le> unat (mm_ts_seq m)" "map fst (e # q) = seg_keys lo (mm_ts_seq m)"
    using inv by (auto simp: mm_inv_def segs_ok_def)
  have "length (e # q) = Suc (unat (mm_ts_seq m)) - lo" using arg_cong [OF lo(2), of length] by (simp only: length_map seg_keys_length)
  then have lt: "lo + 10 \<le> unat (mm_ts_seq m)" using len eq by simp
  then have "seg_keys lo (mm_ts_seq m) = word_of_nat lo # seg_keys (Suc lo) (mm_ts_seq m)"
    by (simp add: seg_keys_def upt_conv_Cons del: upt_Suc)
  then have k: "fst e = word_of_nat lo" "map fst q = seg_keys (Suc lo) (mm_ts_seq m)" using lo(2) by simp_all
  have "(unsigned (mm_ts_seq m) :: nat) < 2 ^ LENGTH(64)" by (rule unsigned_less)
  then have ue: "unat (fst e) = lo" using lt by (simp add: k(1) unat_of_nat take_bit_nat_eq_self_iff)
  have find: "sm_find j q = sm_find j (e # q)" if "unat (mm_ts_seq m) \<le> unat j + 3" for j
    using that ue lt by (cases e) auto
  have "segs_ok m'" using eq ne k(2) lt m' by (auto simp: segs_ok_def intro!: exI [of _ "Suc lo"])
  moreover have "m3u8_ok show_ms m'" if "m3u8_ok show_ms m"
    using m' eq find by (intro m3u8_ok_cong [OF that]) auto
  ultimately show ?thesis using inv m' len eq by (auto simp: mm_inv_def)
qed

datatype mm_event = MmAudio payload | MmVideo payload | MmMeta bytes | MmVideoHeader bytes | MmAudioHeader bytes | MmSecond u64

fun mm_step :: "(nat \<Rightarrow> u8) \<Rightarrow> (int \<Rightarrow> bytes) \<Rightarrow> mm_event \<Rightarrow> media_muxer \<Rightarrow> media_muxer" where
  "mm_step mem show_ms (MmAudio p) m = snd (mm_on_audio mem p m)"
| "mm_step mem show_ms (MmVideo p) m = snd (mm_on_video mem show_ms p m)"
| "mm_step mem show_ms (MmMeta d) m = mm_on_metadata d m"
| "mm_step mem show_ms (MmVideoHeader h) m = snd (mm_on_video_header h m)"
| "mm_step mem show_ms (MmAudioHeader h) m = snd (mm_on_audio_header h m)"
| "mm_step mem show_ms (MmSecond now) m = mm_every_second now m"

lemma mm_on_audio_inv:
  assumes inv: "mm_inv show_ms m"
  shows "mm_inv show_ms (snd (mm_on_audio mem p m)) \<and> mm_ts_seq (snd (mm_on_audio mem p m)) = mm_ts_seq m"
proof -
  let ?m1 = "m\<lparr>mm_audio_queue := sm_insert (mm_audio_frame_id m) p (mm_audio_queue m)\<rparr>"
  obtain pkts m2 where m2: "mm_packet_ts mem p ?m1 = (pkts, m2)" by (cases "mm_packet_ts mem p ?m1") auto
  have "mm_inv show_ms ?m1" by (rule mm_inv_cong [OF inv]) (use inv in \<open>auto simp: mm_inv_def segs_ok_def\<close>)
  note i2 = mm_packet_open [OF this m2]
  have s2: "mm_ts_seq m2 = mm_ts_seq m" using mm_packet_ts_fields [OF m2] by auto
  have r: "snd (mm_on_audio mem p m) =
    (let m3 = m2\<lparr>mm_audio_recv := mm_audio_recv m2 + 1, mm_audio_frame_id := mm_audio_frame_id m2 + 1,
                  mm_audio_fps := mm_audio_fps m2 + 1\<rparr>
     in if mm_queue_full (mm_audio_fps m3) (mm_audio_queue m3) m3
        then m3\<lparr>mm_audio_queue := tl (mm_audio_queue m3)\<rparr> else m3)"
    by (simp add: mm_on_audio_def m2 Let_def)
  show ?thesis unfolding r Let_def using i2 s2 by (auto intro!: mm_inv_cong [OF i2(2)])
qed

lemma mm_on_video_inv:
  assumes inv: "mm_inv show_ms m" and small: "unat (mm_ts_seq m) < 2 ^ 32"
  shows "mm_inv show_ms (snd (mm_on_video mem show_ms p m)) \<and>
    unat (mm_ts_seq (snd (mm_on_video mem show_ms p m))) \<le> Suc (unat (mm_ts_seq m))"
proof -
  define m0 where "m0 = (if pl_is_iframe p then mm_key_frame show_ms m else m)"
  define m1 where "m1 = m0\<lparr>mm_video_queue := sm_insert (mm_video_frame_id m0) p (mm_video_queue m0)\<rparr>"
  obtain pkts m2 where m2: "mm_packet_ts mem p m1 = (pkts, m2)" by (cases "mm_packet_ts mem p m1") auto
  have u: "unat (mm_ts_seq m + 1) = Suc (unat (mm_ts_seq m))" using small by (simp add: unat_word_ariths)
  have i2: "mm_ts_queue m2 \<noteq> [] \<and> mm_inv show_ms m2 \<and> unat (mm_ts_seq m2) \<le> Suc (unat (mm_ts_seq m))"
  proof (cases "pl_is_iframe p \<and> mm_pre_video_key m \<noteq> 0")
    case True
    then have "mm_ts_queue m \<noteq> []" using inv by (auto simp: mm_inv_def segs_ok_def)
    moreover have "mm_packet_ts mem p ((mm_update_m3u8 show_ms m)\<lparr>mm_ts_seq := mm_ts_seq m + 1, mm_key_recv := mm_key_recv m0,
        mm_pre_video_key := mm_pre_video_key m0, mm_pre_audio_key := mm_pre_audio_key m0, mm_video_queue := mm_video_queue m1\<rparr>) = (pkts, m2)"
      using m2 True by (simp add: m1_def m0_def mm_key_frame_def Let_def)
    moreover have "mm_ts_seq m2 = mm_ts_seq m + 1"
      using mm_packet_ts_fields [OF m2] True by (auto simp: m1_def m0_def mm_key_frame_def Let_def)
    ultimately show ?thesis using mm_packet_next [OF inv _ small _ refl] u by auto
  next
    case False
    have f: "mm_ts_queue m1 = mm_ts_queue m" "mm_ts_seq m1 = mm_ts_seq m" "mm_m3u8 m1 = mm_m3u8 m"
      using False by (auto simp: m1_def m0_def mm_key_frame_def Let_def)
    have "mm_inv show_ms m1"
      by (rule mm_inv_cong [OF inv f]) (use False inv in \<open>auto simp: m1_def m0_def mm_key_frame_def mm_inv_def segs_ok_def Let_def\<close>)
    moreover have "mm_ts_seq m2 = mm_ts_seq m" using mm_packet_ts_fields [OF m2] f by auto
    ultimately show ?thesis using mm_packet_open [OF _ m2] by auto
  qed
  define m3 where "m3 = m2\<lparr>mm_video_recv := mm_video_recv m2 + 1, mm_video_frame_id := mm_video_frame_id m2 + 1,
                  mm_video_fps := mm_video_fps m2 + 1\<rparr>"
  have i3: "mm_inv show_ms m3" and q3: "mm_ts_queue m3 \<noteq> []" and s3: "unat (mm_ts_seq m3) \<le> Suc (unat (mm_ts_seq m))"
    using i2 by (auto simp: m3_def intro: mm_inv_cong)
  have r: "snd (mm_on_video mem show_ms p m) =
    (if mm_queue_full (mm_video_fps m3) (mm_video_queue m3) m3
     then m3\<lparr>mm_ts_queue := (if pl_is_iframe (snd (hd (mm_video_queue m3))) then tl (mm_ts_queue m3) else mm_ts_queue m3),
             mm_video_queue := tl (mm_video_queue m3)\<rparr>
     else m3)"
    unfolding mm_on_video_def Let_def m0_def [symmetric] m1_def [symmetric] m2 by (simp only: prod.case snd_conv m3_def [symmetric])
  have "mm_inv show_ms (snd (mm_on_video mem show_ms p m))"
  proof (cases "mm_queue_full (mm_video_fps m3) (mm_video_queue m3) m3 \<and> pl_is_iframe (snd (hd (mm_video_queue m3)))")
    case True
    then show ?thesis unfolding r by (simp add: mm_inv_trim [OF i3] mm_queue_full_def)
  next
    case False
    then show ?thesis unfolding r using q3 by (auto intro!: mm_inv_cong [OF i3])
  qed
  moreover have "unat (mm_ts_seq (snd (mm_on_video mem show_ms p m))) \<le> Suc (unat (mm_ts_seq m))"
    unfolding r using s3 by simp
  ultimately show ?thesis by simp
qed

lemma mm_step_inv:
  assumes "mm_inv show_ms m" and "unat (mm_ts_seq m) \<le> k" and "k < 2 ^ 32"
  shows "mm_inv show_ms (mm_step mem show_ms e m) \<and> unat (mm_ts_seq (mm_step mem show_ms e m)) \<le> Suc k"
proof (cases e)
  case (MmAudio p)
  then show ?thesis using mm_on_audio_inv [OF assms(1)] assms(2) by simp
next
  case (MmVideo p)
  then show ?thesis using mm_on_video_inv [OF assms(1), of mem p] assms(2,3) by simp
qed (use assms in \<open>auto simp: mm_on_metadata_def mm_on_video_header_def mm_on_audio_header_def mm_every_second_def Let_def
       mm_inv_def segs_ok_def m3u8_ok_def\<close>)

lemma mm_run_inv:
  "length es < 2 ^ 32 \<Longrightarrow> mm_inv show_ms (fold (mm_step mem show_ms) es mm_new) \<and>
     unat (mm_ts_seq (fold (mm_step mem show_ms) es mm_new)) \<le> length es"
proof (induction es rule: rev_induct)
  case Nil
  then show ?case by (simp add: mm_inv_def segs_ok_def mm_new_def)
next
  case (snoc e es)
  then show ?case using mm_step_inv [of show_ms "fold (mm_step mem show_ms) es mm_new" "length es"] by simp
qed

section \<open>Headers\<close>

lemma be2: "be 2 v = [word_of_nat (v div 256), word_of_nat v]"
  by (simp add: numeral_2_eq_2)

lemma bb_low_bits:
  assumes "p < length d"
  shows "bb_get_bits 5 (old :: u8) \<lparr>bb_data = d, bb_len = length d * 8, bb_pos = p * 8 + 3\<rparr>
    = (0, word_of_nat (unat (d ! p) mod 32), bb_at d (p + 1))"
proof -
  have "bits_num d (p * 8) 8 = bits_num d (p * 8) 3 * 2 ^ 5 + bits_num d (p * 8 + 3) 5"
    using bits_num_add [of d "p * 8" 3 5] by simp
  moreover have "bits_num d (p * 8 + 3) 5 < 2 ^ 5" by (rule bits_num_bound)
  ultimately have "bits_num d (p * 8 + 3) 5 = unat (d ! p) mod 32"
    using bits_num_byte [of d p] by simp
  then show ?thesis using assms by (simp add: bb_get_bits_value bb_more_bits_def bb_bits_left_def bb_at_def)
qed

lemma bb_skip_some:
  assumes "q + n \<le> length d * 8"
  shows "\<exists>v. bb_get_bits n (old :: u8) \<lparr>bb_data = d, bb_len = length d * 8, bb_pos = q\<rparr>
    = (0, v, \<lparr>bb_data = d, bb_len = length d * 8, bb_pos = q + n\<rparr>)"
  using assms by (simp add: bb_get_bits_value bb_more_bits_def bb_bits_left_def)

lemma mm_one_string:
  assumes "p + 2 + length s \<le> length d" and "drop p d = be 2 (length s) @ s @ r" and "length s < 65536"
  shows "mm_strings 1 old (bb_at d p) = (s, bb_at d (p + 2 + length s))"
proof -
  have "take 2 (drop p d) = be 2 (length s)" by (simp add: assms(2))
  moreover have "drop (p + 2) d = s @ r"
    using arg_cong [OF assms(2), of "drop 2"] by (simp add: add.commute)
  ultimately show ?thesis
    using assms(1,3) by (simp add: bb_get_bytes_at bb_get_string_at be_val_be unat_of_nat take_bit_nat_eq_self_iff add.assoc)
qed

lemma mm_avcc_ok:
  assumes h: "h = pre @ [n1] @ be 2 (length s) @ s @ [1] @ be 2 (length p) @ p @ rest" and "length pre = 5"
    and "unat n1 mod 32 = 1" and "length s < 65536" and "length p < 65536"
  shows "mm_avcc h s0 p0 = (s, p)"
proof -
  have len: "length h = 11 + length s + length p + length rest" using assms(2) by (simp add: h)
  define v :: "nat \<Rightarrow> u8" where "v = (\<lambda>k. word_of_nat (be_val (take 1 (drop k h))))"
  have b: "bb_get_bytes 1 (bb_at h k) = (0, v k, bb_at h (k + 1))" if "k < length h" for k
    using that by (simp add: bb_get_bytes_at v_def)
  obtain v5 where v5: "bb_get_bits 6 (0 :: u8) (bb_at h 4) = (0, v5, \<lparr>bb_data = h, bb_len = length h * 8, bb_pos = 38\<rparr>)"
    using bb_skip_some [of 32 6 h] len by (auto simp: bb_at_def)
  obtain v6 where v6: "bb_get_bits 2 (0 :: u8) \<lparr>bb_data = h, bb_len = length h * 8, bb_pos = 38\<rparr> = (0, v6, bb_at h 5)"
    using bb_skip_some [of 38 2 h] len by (auto simp: bb_at_def)
  obtain v7 where v7: "bb_get_bits 3 (0 :: u8) (bb_at h 5) = (0, v7, \<lparr>bb_data = h, bb_len = length h * 8, bb_pos = 5 * 8 + 3\<rparr>)"
    using bb_skip_some [of 40 3 h] len by (auto simp: bb_at_def)
  have "h ! 5 = n1" using assms(2) by (simp add: h nth_append)
  then have v8: "bb_get_bits 5 (0 :: u8) \<lparr>bb_data = h, bb_len = length h * 8, bb_pos = 5 * 8 + 3\<rparr> = (0, 1, bb_at h 6)"
    using bb_low_bits [of 5 h 0] len assms(3) by simp
  have s: "mm_strings 1 s0 (bb_at h 6) = (s, bb_at h (8 + length s))"
    using mm_one_string [of 6 s h "[1] @ be 2 (length p) @ p @ rest" s0] len assms(2,4) by (simp add: h)
  have d: "drop (8 + length s) h = [1] @ be 2 (length p) @ p @ rest"
  proof -
    have "h = (pre @ [n1] @ be 2 (length s) @ s) @ [1] @ be 2 (length p) @ p @ rest" by (simp add: h)
    moreover have "length (pre @ [n1] @ be 2 (length s) @ s) = 8 + length s" using assms(2) by simp
    ultimately show ?thesis by (metis append_eq_conv_conj)
  qed
  then have "v (8 + length s) = 1" by (simp add: v_def be_val_def)
  then have v10: "bb_get_bytes 1 (bb_at h (8 + length s)) = (0, 1 :: u8, bb_at h (9 + length s))"
    using b [of "8 + length s"] len by simp
  have p: "mm_strings 1 p0 (bb_at h (9 + length s)) = (p, bb_at h (11 + length s + length p))"
    using mm_one_string [of "9 + length s" p h rest p0] len assms(2,5) arg_cong [OF d, of "drop 1"] by (simp add: add.assoc)
  show ?thesis
    unfolding mm_avcc_def bb_new_at
    using b [of 0] b [of 1] b [of 2] b [of 3] len v5 v6 v7 v8 v10 s p by (simp del: One_nat_def mm_strings.simps)
qed

text \<open>
  C36: a subscriber that joins late gets a well-ordered start. As long as the last key frame
  is still queued, \<open>GetFastOut\<close> is an interleaving of the queued audio from the time of that key
  frame on and the queued video that begins with it, each stream complete and in its own order, and
  the whole is in decoding order when the two streams are.
\<close>

theorem fast_start_merge:
  assumes "sm_find (mm_pre_video_key m) (mm_video_queue m) = Some v"
    and "sorted (map (pl_dts \<circ> snd) (mm_video_queue m))" and "sorted (map (pl_dts \<circ> snd) (mm_audio_queue m))"
  shows "\<exists>as vs. map snd (sm_from (mm_pre_audio_key m) (mm_audio_queue m)) = as \<and>
     map snd (sm_from (mm_pre_video_key m) (mm_video_queue m)) = v # vs \<and>
     mm_fast_out m \<in> shuffles as (v # vs) \<and> sorted (map pl_dts (mm_fast_out m))"
proof -
  have suffix: "sorted (map pl_dts (map snd (sm_from k q)))" if "sorted (map (pl_dts \<circ> snd) q)" for k :: u64 and q
  proof -
    have "map (pl_dts \<circ> snd) q = map (pl_dts \<circ> snd) (takeWhile (\<lambda>e. fst e \<noteq> k) q) @ map (pl_dts \<circ> snd) (sm_from k q)"
      by (simp only: sm_from_def map_append [symmetric] takeWhile_dropWhile_id)
    with that show ?thesis by (simp add: sorted_append)
  qed
  have "sm_find k q = Some x \<Longrightarrow> \<exists>r. sm_from k q = (k, x) # r" for k :: u64 and q and x :: payload
    by (induction q) (auto simp: sm_from_def split: if_splits)
  then obtain r where r: "sm_from (mm_pre_video_key m) (mm_video_queue m) = (mm_pre_video_key m, v) # r"
    using assms(1) by blast
  define as where "as = map snd (sm_from (mm_pre_audio_key m) (mm_audio_queue m))"
  have out: "mm_fast_out m = mm_merge as (v # map snd r)" by (simp add: mm_fast_out_def as_def r)
  have "sorted (map pl_dts as)" and "sorted (map pl_dts (v # map snd r))"
    using suffix [OF assms(3), of "mm_pre_audio_key m"] suffix [OF assms(2), of "mm_pre_video_key m"]
    by (simp_all only: as_def r list.map snd_conv)
  then have "sorted (map pl_dts (mm_fast_out m))" unfolding out by (rule mm_merge_sorted)
  moreover have "mm_fast_out m \<in> shuffles as (v # map snd r)" unfolding out by (rule mm_merge_shuffle)
  ultimately show ?thesis by (auto simp: as_def r)
qed

theorem fast_start_merge_witness:
  "\<exists>m v a. mm_fast_out m \<in> shuffles [a] [v] \<and> sorted (map pl_dts (mm_fast_out m)) \<and> pl_dts v = 40 \<and> pl_dts a = 23"
proof -
  define v where "v = pl_set_iframe (pl_set_video (pl_new 40 40 [] 0))"
  define a where "a = pl_set_audio (pl_new 23 23 [] 0)"
  define m where "m = mm_new\<lparr>mm_video_queue := [(0, v)], mm_audio_queue := [(0, a)]\<rparr>"
  have "sm_find (mm_pre_video_key m) (mm_video_queue m) = Some v" by (simp add: m_def mm_new_def)
  from fast_start_merge [OF this] show ?thesis
    by (intro exI [of _ m] exI [of _ v] exI [of _ a])
      (auto simp: m_def mm_new_def sm_from_def v_def a_def pl_defs)
qed

text \<open>
  the HLS playlist never names a segment that is missing or still open. After any
  sequence of frames, headers, metadata and timer ticks (fewer than \<open>2 ^ 32\<close>), the playlist is
  empty, or it lists three consecutive segments, the last the one before the open segment, all in the
  segment queue, with the durations they have now and a target duration not below any of them.
\<close>

theorem playlist_segments_present:
  fixes mem :: "nat \<Rightarrow> u8" and show_ms :: "int \<Rightarrow> bytes"
  assumes "length es < 2 ^ 32"
  defines "m \<equiv> fold (mm_step mem show_ms) es mm_new"
  shows "mm_m3u8 m = [] \<or> (\<exists>n target a b c.
      mm_m3u8 m = m3u8_text show_ms target n (tmd_duration a) (tmd_duration b) (tmd_duration c) \<and>
      unat (mm_ts_seq m) = unat n + 1 \<and> 2 \<le> unat n \<and>
      sm_find (ucast (n - 2)) (mm_ts_queue m) = Some a \<and> sm_find (ucast (n - 1)) (mm_ts_queue m) = Some b \<and>
      sm_find (ucast n) (mm_ts_queue m) = Some c \<and>
      ms_ceil (tmd_duration a) \<le> target \<and> ms_ceil (tmd_duration b) \<le> target \<and> ms_ceil (tmd_duration c) \<le> target)"
  using mm_run_inv [OF assms(1), of show_ms mem] unfolding m_def mm_inv_def m3u8_ok_def by blast

theorem playlist_segments_present_witness:
  "mm_m3u8 (fold (mm_step (\<lambda>_. 0) (\<lambda>_. [])) [MmMeta [1]] mm_new) = [] \<or>
   (\<exists>n. unat (mm_ts_seq (fold (mm_step (\<lambda>_. 0) (\<lambda>_. [])) [MmMeta [1]] mm_new)) = unat (n :: u32) + 1)"
  using playlist_segments_present [of "[MmMeta [1]]" "\<lambda>_. 0" "\<lambda>_. []"] by (auto simp del: fold.simps)

text \<open>
  an \<open>AVCDecoderConfigurationRecord\<close> with one SPS and one PPS sets exactly those two
  parameter sets, whatever the profile bytes before and the bytes after them, and whatever sets the
  muxer had.
\<close>

theorem avcc_header_sets_parameters:
  assumes "h = pre @ [n1] @ be 2 (length s) @ s @ [1] @ be 2 (length p) @ p @ rest" and "length pre = 5"
    and "pre ! 0 = 1" and "unat n1 mod 32 = 1" and "length s < 65536" and "length p < 65536"
    and "mm_video_header m \<noteq> h"
  shows "tm_sps (mm_ts (snd (mm_on_video_header h m))) = s \<and> tm_pps (mm_ts (snd (mm_on_video_header h m))) = p \<and>
    mm_video_header (snd (mm_on_video_header h m)) = h \<and>
    (fst (mm_on_video_header h m) \<longleftrightarrow> mm_video_header m = [] \<and> tm_audio_header (mm_ts m) \<noteq> [])"
proof -
  have "byte_at h 0 = 1" using assms(2,3) by (simp add: assms(1) byte_at_def nth_append)
  moreover have "h \<noteq> []" by (simp add: assms(1))
  ultimately show ?thesis
    using assms(7) mm_avcc_ok [OF assms(1,2,4,5,6)]
    by (auto simp: mm_on_video_header_def mm_parse_video_header_def Let_def)
qed

theorem avcc_header_sets_parameters_witness:
  "tm_sps (mm_ts (snd (mm_on_video_header [1, 100, 0, 31, 0xff, 0xe1, 0, 3, 0x67, 0x64, 0, 1, 0, 2, 0x68, 0xee] mm_new))) = [0x67, 0x64, 0]"
  using avcc_header_sets_parameters [of "[1, 100, 0, 31, 0xff, 0xe1, 0, 3, 0x67, 0x64, 0, 1, 0, 2, 0x68, 0xee]" "[1, 100, 0, 31, 0xff]"
      "0xe1" "[0x67, 0x64, 0]" "[0x68, 0xee]" "[]" mm_new]
  by (simp add: be2) (simp add: mm_new_def)

text \<open>
  the ADTS header made from an \<open>AudioSpecificConfig\<close> of two bytes announces the
  configuration's sampling frequency index, the low three bits of its channel configuration (ADTS has
  no more) and its object type minus one, in the fields ADTS has for them, after a 12-bit sync word with no CRC.
\<close>

theorem adts_announces_config:
  assumes "length adts = 7" and "tm_audio_header (mm_ts m) \<noteq> [x, y]" and "tm_adts (mm_ts m) = adts"
  defines "a \<equiv> tm_adts (mm_ts (snd (mm_on_audio_header [x, y] m)))"
  shows "length a = 7 \<and> a ! 0 = 0xff \<and> a ! 1 = 0xf1 \<and>
    drop_bit 6 (a ! 2) = (drop_bit 3 x - 1) AND mask 2 \<and>
    drop_bit 2 (a ! 2) AND mask 4 = (push_bit 1 (x AND mask 3) OR drop_bit 7 y) \<and>
    (push_bit 2 (a ! 2 AND 1) OR drop_bit 6 (a ! 3)) = drop_bit 3 y AND mask 3"
proof -
  have m: "(0xf8 :: u8) = push_bit 3 (mask 5)" "(0x07 :: u8) = mask 3" "(0x80 :: u8) = push_bit 7 1" "(0x78 :: u8) = push_bit 3 (mask 4)"
    "(0x0f :: u8) = mask 4" "(0x04 :: u8) = push_bit 2 1" "(0x03 :: u8) = mask 2"
    by (simp_all add: mask_eq_exp_minus_1 push_bit_eq_mult)
  have a: "a = mm_adts_of [x, y] adts"
    using assms(2,3) by (simp add: a_def mm_on_audio_header_def Let_def)
  define ot where "ot = drop_bit 3 x - 1"
  have x: "drop_bit 3 (x AND push_bit 3 (mask 5)) = drop_bit 3 x"
    by (rule bit_word_eqI) (auto simp: bit_simps dest: bit_imp_le_length)
  have y: "drop_bit 7 (y AND push_bit 7 1) = drop_bit 7 y"
    by (rule bit_word_eqI) (auto simp: bit_simps dest: bit_imp_le_length)
  have "a ! 2 = push_bit 6 (drop_bit 3 (x AND 0xf8) - 1) OR
      (push_bit 2 ((push_bit 1 (x AND 0x07) OR drop_bit 7 (y AND 0x80)) AND 0x0f) OR
       drop_bit 2 (drop_bit 3 (y AND 0x78) AND 0x04))"
    and "a ! 3 = push_bit 6 (drop_bit 3 (y AND 0x78) AND 0x03)"
    by (simp_all add: a mm_adts_of_def byte_at_def Let_def)
  note a2 = this(1) [unfolded m x y, folded ot_def] and a3 = this(2) [unfolded m]
  have n8: "n = 0 \<or> n = 1 \<or> n = 2 \<or> n = 3 \<or> n = 4 \<or> n = 5 \<or> n = 6 \<or> n = 7" if "n < LENGTH(8)" for n
    using that by auto
  have "length a = 7 \<and> a ! 0 = 0xff \<and> a ! 1 = 0xf1" by (simp add: a mm_adts_of_def Let_def)
  moreover have "drop_bit 6 (a ! 2) = ot AND mask 2"
    unfolding a2 by (rule bit_word_eqI, drule n8, elim disjE) (auto simp: bit_simps)
  moreover have "drop_bit 2 (a ! 2) AND mask 4 = (push_bit 1 (x AND mask 3) OR drop_bit 7 y)"
    unfolding a2 by (rule bit_word_eqI, drule n8, elim disjE) (auto simp: bit_simps dest: bit_imp_le_length simp del: One_nat_def push_bit_Suc)
  moreover have "(push_bit 2 (a ! 2 AND 1) OR drop_bit 6 (a ! 3)) = drop_bit 3 y AND mask 3"
    unfolding a2 a3 by (rule bit_word_eqI, drule n8, elim disjE) (auto simp: bit_simps dest: bit_imp_le_length simp del: One_nat_def push_bit_Suc)
  ultimately show ?thesis by (simp add: ot_def)
qed

theorem adts_announces_config_witness:
  "drop_bit 2 (tm_adts (mm_ts (snd (mm_on_audio_header [0x12, 0x10] mm_new))) ! 2) AND mask 4 = 4"
  using adts_announces_config [of "replicate 7 0" mm_new "0x12" "0x10"]
  by (simp add: mm_new_def tm_new_def mask_eq_exp_minus_1)

end
