(* ===== verification/Publisher.thy ===== *)
theory Publisher
  imports MediaMuxer
begin

text \<open>
  \<open>src/media_publisher.cpp\<close> and \<open>src/media_subscriber.h\<close>, with the part of the publishing protocols
  (\<open>OnAudio\<close>, \<open>OnVideo\<close> and the header handlers of \<open>rtmp_protocol.cpp\<close>) that drives them: a stream's muxer, the
  set of its subscribers and the set of those that wait for the decoder headers. Subscribers are object
  identities in address order, which is the order \<open>std::set\<close> iterates in; \<open>srt\<close> tells which are SRT
  subscribers. The calls the code makes on subscribers are the output, in order.

  The lemmas show that the two sets stay apart, that nobody waits once both headers are there, that headers
  reach a subscriber before any frame does, and that the live frames continue the fast start without gap.
\<close>

section \<open>Calls on a subscriber\<close>

datatype sent =
    SMeta bytes \<comment> \<open>\<open>SendMetaData\<close>\<close>
  | SAudioHeader bytes
  | SVideoHeader bytes
  | SMedia payload \<comment> \<open>\<open>SendMediaData\<close>\<close>
  | SData bytes \<comment> \<open>\<open>SendData\<close>, transport packets for SRT\<close>

record publisher =
  pb_mm :: media_muxer
  pb_subs :: "nat sset"
  pb_wait :: "nat sset" \<comment> \<open>\<open>wait_header_subscriber_\<close>\<close>

definition pb_new :: publisher where
  "pb_new = \<lparr>pb_mm = mm_new, pb_subs = [], pb_wait = []\<rparr>"

definition pb_both_headers :: "publisher \<Rightarrow> bool" where
  "pb_both_headers b \<longleftrightarrow> mm_has_audio_header (pb_mm b) \<and> mm_has_video_header (pb_mm b)"

definition pb_on_new_subscriber :: "publisher \<Rightarrow> ret_code \<times> sent list" where
  "pb_on_new_subscriber b =
     (let m = pb_mm b;
          meta = (if mm_has_metadata m then [SMeta (mm_metadata m)] else [])
      in if \<not> mm_has_audio_header m \<or> \<not> mm_has_video_header m then (kPending, meta)
         else (kSuccess, meta @ [SAudioHeader (tm_audio_header (mm_ts m)), SVideoHeader (mm_video_header m)]
                 @ map SMedia (mm_fast_out m)))"

definition pb_add :: "nat \<Rightarrow> publisher \<Rightarrow> bool \<times> (nat \<times> sent) list \<times> publisher" where
  "pb_add s b =
     (if s \<in> set (pb_subs b) then (False, [], b)
      else case pb_on_new_subscriber b of
        (ret, calls) \<Rightarrow>
          (True, map (Pair s) calls,
           if ret = kPending then b\<lparr>pb_wait := ss_insert s (pb_wait b)\<rparr>
           else if ret = kSuccess then b\<lparr>pb_subs := ss_insert s (pb_subs b)\<rparr> else b))"

definition pb_remove :: "nat \<Rightarrow> publisher \<Rightarrow> publisher" where
  "pb_remove s b = b\<lparr>pb_subs := ss_erase s (pb_subs b), pb_wait := ss_erase s (pb_wait b)\<rparr>"

definition pb_take_waiting :: "publisher \<Rightarrow> nat sset \<times> publisher" where
  \<comment> \<open>\<open>GetAndClearWaitHeaderSubscriber\<close>\<close>
  "pb_take_waiting b = (pb_wait b, b\<lparr>pb_wait := []\<rparr>)"

fun pb_add_all :: "nat list \<Rightarrow> publisher \<Rightarrow> (nat \<times> sent) list \<times> publisher" where
  "pb_add_all [] b = ([], b)"
| "pb_add_all (s # ss) b =
     (let (_, out, b1) = pb_add s b; (out2, b2) = pb_add_all ss b1 in (out @ out2, b2))"

definition pb_start_waiting :: "bool \<Rightarrow> publisher \<Rightarrow> (nat \<times> sent) list \<times> publisher" where
  "pb_start_waiting pending b =
     (if pending then let (ws, b1) = pb_take_waiting b in pb_add_all ws b1 else ([], b))"

definition pb_on_video_header :: "bytes \<Rightarrow> publisher \<Rightarrow> (nat \<times> sent) list \<times> publisher" where
  \<comment> \<open>\<open>MediaMuxer::OnVideoHeader\<close> with its calls back; the parameter sets, which the code parses after them,
     are not read by these\<close>
  "pb_on_video_header h b =
     (let (pending, m) = mm_on_video_header h (pb_mm b) in pb_start_waiting pending (b\<lparr>pb_mm := m\<rparr>))"

definition pb_on_audio_header :: "bytes \<Rightarrow> publisher \<Rightarrow> (nat \<times> sent) list \<times> publisher" where
  "pb_on_audio_header h b =
     (let (pending, m) = mm_on_audio_header h (pb_mm b) in pb_start_waiting pending (b\<lparr>pb_mm := m\<rparr>))"

definition pb_broadcast :: "(nat \<Rightarrow> bool) \<Rightarrow> bytes list \<Rightarrow> payload \<Rightarrow> publisher \<Rightarrow> (nat \<times> sent) list" where
  \<comment> \<open>each transport packet to the SRT subscribers as it is made, then the frame to everyone\<close>
  "pb_broadcast srt pkts p b =
     concat (map (\<lambda>pkt. map (\<lambda>s. (s, SData pkt)) (filter srt (pb_subs b))) pkts)
     @ map (\<lambda>s. (s, SMedia p)) (pb_subs b)"

definition pb_on_audio :: "(nat \<Rightarrow> bool) \<Rightarrow> (nat \<Rightarrow> u8) \<Rightarrow> payload \<Rightarrow> publisher \<Rightarrow> (nat \<times> sent) list \<times> publisher" where
  "pb_on_audio srt mem p b =
     (let (pkts, m) = mm_on_audio mem p (pb_mm b) in (pb_broadcast srt pkts p b, b\<lparr>pb_mm := m\<rparr>))"

definition pb_on_video :: "(nat \<Rightarrow> bool) \<Rightarrow> (nat \<Rightarrow> u8) \<Rightarrow> (int \<Rightarrow> bytes) \<Rightarrow> payload \<Rightarrow> publisher \<Rightarrow> (nat \<times> sent) list \<times> publisher" where
  "pb_on_video srt mem show_ms p b =
     (let (pkts, m) = mm_on_video mem show_ms p (pb_mm b) in (pb_broadcast srt pkts p b, b\<lparr>pb_mm := m\<rparr>))"

section \<open>Sequences of operations\<close>

datatype pb_event =
    PbAdd nat | PbRemove nat | PbMeta bytes | PbVideoHeader bytes | PbAudioHeader bytes
  | PbAudio payload | PbVideo payload | PbSecond u64

fun pb_step :: "(nat \<Rightarrow> bool) \<Rightarrow> (nat \<Rightarrow> u8) \<Rightarrow> (int \<Rightarrow> bytes) \<Rightarrow> pb_event \<Rightarrow> publisher \<Rightarrow> (nat \<times> sent) list \<times> publisher" where
  "pb_step srt mem show_ms (PbAdd s) b = snd (pb_add s b)"
| "pb_step srt mem show_ms (PbRemove s) b = ([], pb_remove s b)"
| "pb_step srt mem show_ms (PbMeta d) b = ([], b\<lparr>pb_mm := mm_on_metadata d (pb_mm b)\<rparr>)"
| "pb_step srt mem show_ms (PbVideoHeader h) b = pb_on_video_header h b"
| "pb_step srt mem show_ms (PbAudioHeader h) b = pb_on_audio_header h b"
| "pb_step srt mem show_ms (PbAudio p) b = pb_on_audio srt mem p b"
| "pb_step srt mem show_ms (PbVideo p) b = pb_on_video srt mem show_ms p b"
| "pb_step srt mem show_ms (PbSecond now) b = ([], b\<lparr>pb_mm := mm_every_second now (pb_mm b)\<rparr>)"

fun pb_run :: "(nat \<Rightarrow> bool) \<Rightarrow> (nat \<Rightarrow> u8) \<Rightarrow> (int \<Rightarrow> bytes) \<Rightarrow> pb_event list \<Rightarrow> publisher \<Rightarrow> (nat \<times> sent) list \<times> publisher" where
  "pb_run srt mem show_ms [] b = ([], b)"
| "pb_run srt mem show_ms (e # es) b =
     (let (out, b1) = pb_step srt mem show_ms e b; (out2, b2) = pb_run srt mem show_ms es b1 in (out @ out2, b2))"

definition calls_to :: "nat \<Rightarrow> (nat \<times> sent) list \<Rightarrow> sent list" where
  "calls_to s out = map snd (filter (\<lambda>c. fst c = s) out)"

lemma calls_to_append [simp]: "calls_to s (a @ b) = calls_to s a @ calls_to s b"
  by (simp add: calls_to_def)

lemma calls_to_nil [simp]: "calls_to s [] = []"
  by (simp add: calls_to_def)

lemma calls_to_pair [simp]: "calls_to s (map (Pair t) xs) = (if s = t then xs else [])"
  by (induction xs) (auto simp: calls_to_def)

section \<open>Headers come first\<close>

fun headers_first :: "bool \<Rightarrow> bool \<Rightarrow> sent list \<Rightarrow> bool" where
  \<comment> \<open>every frame and packet comes after an audio header and a video header (seen before: \<open>a\<close>, \<open>v\<close>)\<close>
  "headers_first a v [] \<longleftrightarrow> True"
| "headers_first a v (SAudioHeader h # xs) \<longleftrightarrow> headers_first True v xs"
| "headers_first a v (SVideoHeader h # xs) \<longleftrightarrow> headers_first a True xs"
| "headers_first a v (SMeta d # xs) \<longleftrightarrow> headers_first a v xs"
| "headers_first a v (SMedia p # xs) \<longleftrightarrow> a \<and> v \<and> headers_first a v xs"
| "headers_first a v (SData d # xs) \<longleftrightarrow> a \<and> v \<and> headers_first a v xs"

lemma headers_first_done [simp]: "headers_first True True xs"
  by (induction "True" "True" xs rule: headers_first.induct) auto

definition has_headers :: "sent list \<Rightarrow> bool" where
  "has_headers xs \<longleftrightarrow> (\<exists>h. SAudioHeader h \<in> set xs) \<and> (\<exists>h. SVideoHeader h \<in> set xs)"

lemma headers_first_mono: "headers_first a v xs \<Longrightarrow> (a \<Longrightarrow> a') \<Longrightarrow> (v \<Longrightarrow> v') \<Longrightarrow> headers_first a' v' xs"
  by (induction a v xs arbitrary: a' v' rule: headers_first.induct) auto

lemma headers_first_append:
  "headers_first a v xs \<Longrightarrow> headers_first a' v' ys \<Longrightarrow> (a' \<Longrightarrow> a \<or> (\<exists>h. SAudioHeader h \<in> set xs)) \<Longrightarrow>
   (v' \<Longrightarrow> v \<or> (\<exists>h. SVideoHeader h \<in> set xs)) \<Longrightarrow> headers_first a v (xs @ ys)"
  by (induction a v xs rule: headers_first.induct) (auto intro: headers_first_mono)

text \<open>What one call of \<open>AddSubscriber\<close> does.\<close>

definition pb_inv :: "publisher \<Rightarrow> bool" where
  "pb_inv b \<longleftrightarrow> set (pb_subs b) \<inter> set (pb_wait b) = {} \<and> distinct (pb_subs b) \<and> (pb_both_headers b \<longrightarrow> pb_wait b = [])"

lemma ss_insert_distinct: "distinct s \<Longrightarrow> x \<notin> set s \<Longrightarrow> distinct (ss_insert x s)"
  by (induction x s rule: ss_insert.induct) auto

lemma pb_add_cases:
  assumes "pb_add s b = (r, out, b')"
  obtains (old) "s \<in> set (pb_subs b)" and "out = []" and "b' = b"
  | (start) calls where "s \<notin> set (pb_subs b)" and "pb_both_headers b" and "out = map (Pair s) calls"
      and "headers_first False False calls" and "has_headers calls" and "b' = b\<lparr>pb_subs := ss_insert s (pb_subs b)\<rparr>"
      and "filter (\<lambda>c. case c of SMedia _ \<Rightarrow> True | _ \<Rightarrow> False) calls = map SMedia (mm_fast_out (pb_mm b))"
  | (pending) calls where "s \<notin> set (pb_subs b)" and "\<not> pb_both_headers b" and "out = map (Pair s) calls"
      and "headers_first False False calls" and "b' = b\<lparr>pb_wait := ss_insert s (pb_wait b)\<rparr>"
proof -
  have f: "filter (\<lambda>c. case c of SMedia _ \<Rightarrow> True | _ \<Rightarrow> False) (map SMedia xs) = map SMedia xs" for xs
    by (induction xs) auto
  define meta where "meta = (if mm_has_metadata (pb_mm b) then [SMeta (mm_metadata (pb_mm b))] else [])"
  define heads where "heads = [SAudioHeader (tm_audio_header (mm_ts (pb_mm b))), SVideoHeader (mm_video_header (pb_mm b))]"
  define calls where "calls = meta @ heads @ map SMedia (mm_fast_out (pb_mm b))"
  show thesis
  proof (cases "s \<in> set (pb_subs b)")
    case True
    then show thesis using assms by (intro old) (simp_all add: pb_add_def)
  next
    case no: False
    show thesis
    proof (cases "pb_both_headers b")
      case True
      then have "pb_on_new_subscriber b = (kSuccess, calls)"
        by (simp add: pb_on_new_subscriber_def pb_both_headers_def calls_def meta_def heads_def Let_def)
      then have e: "out = map (Pair s) calls" "b' = b\<lparr>pb_subs := ss_insert s (pb_subs b)\<rparr>"
        using assms no by (simp_all add: pb_add_def)
      show thesis
        by (rule start [OF no True e(1) _ _ e(2)]) (auto simp: calls_def meta_def heads_def has_headers_def f)
    next
      case False
      then have "pb_on_new_subscriber b = (kPending, meta)"
        by (auto simp: pb_on_new_subscriber_def pb_both_headers_def meta_def Let_def)
      then have e: "out = map (Pair s) meta" "b' = b\<lparr>pb_wait := ss_insert s (pb_wait b)\<rparr>"
        using assms no by (simp_all add: pb_add_def)
      show thesis by (rule pending [OF no False e(1) _ e(2)]) (simp add: meta_def)
    qed
  qed
qed

definition log_ok :: "publisher \<Rightarrow> (nat \<times> sent) list \<Rightarrow> bool" where
  "log_ok b out \<longleftrightarrow> (\<forall>s. headers_first False False (calls_to s out) \<and> (s \<in> set (pb_subs b) \<longrightarrow> has_headers (calls_to s out)))"

lemma has_headers_left: "has_headers xs \<Longrightarrow> has_headers (xs @ ys)"
  by (auto simp: has_headers_def)

lemma has_headers_right: "has_headers ys \<Longrightarrow> has_headers (xs @ ys)"
  by (auto simp: has_headers_def)

lemma headers_first_after: "headers_first False False xs \<Longrightarrow> has_headers xs \<Longrightarrow> headers_first False False (xs @ ys)"
  by (rule headers_first_append [where a' = True and v' = True]) (auto simp: has_headers_def)

lemma headers_first_join: "headers_first False False xs \<Longrightarrow> headers_first False False ys \<Longrightarrow> headers_first False False (xs @ ys)"
  by (rule headers_first_append [where a' = False and v' = False]) auto

lemma pb_add_inv:
  assumes "pb_inv b" and "pb_add s b = (r, out, b')"
  shows "pb_inv b'" and "pb_mm b' = pb_mm b" and "log_ok b log \<Longrightarrow> log_ok b' (log @ out)"
    and "pb_both_headers b \<Longrightarrow> pb_wait b' = pb_wait b \<and> set (pb_subs b') = insert s (set (pb_subs b))"
    and "set (pb_subs b) \<subseteq> set (pb_subs b')" and "t \<noteq> s \<Longrightarrow> calls_to t out = []"
proof -
  have all: "pb_inv b' \<and> pb_mm b' = pb_mm b \<and> (log_ok b log \<longrightarrow> log_ok b' (log @ out)) \<and>
    (pb_both_headers b \<longrightarrow> pb_wait b' = pb_wait b \<and> set (pb_subs b') = insert s (set (pb_subs b))) \<and>
    set (pb_subs b) \<subseteq> set (pb_subs b') \<and> (t \<noteq> s \<longrightarrow> calls_to t out = [])"
    using assms(2)
  proof (cases rule: pb_add_cases)
    case old
    then show ?thesis using assms(1) by auto
  next
    case (start calls)
    have "log_ok b' (log @ out)" if "log_ok b log"
      using that start by (auto simp: log_ok_def headers_first_join has_headers_left has_headers_right)
    then show ?thesis using start assms(1) by (auto simp: pb_inv_def pb_both_headers_def ss_insert_distinct)
  next
    case (pending calls)
    have "log_ok b' (log @ out)" if "log_ok b log"
      using that pending by (auto simp: log_ok_def headers_first_join has_headers_left)
    then show ?thesis using pending assms(1) by (auto simp: pb_inv_def pb_both_headers_def)
  qed
  then show "pb_inv b'" "pb_mm b' = pb_mm b" "log_ok b log \<Longrightarrow> log_ok b' (log @ out)"
    "pb_both_headers b \<Longrightarrow> pb_wait b' = pb_wait b \<and> set (pb_subs b') = insert s (set (pb_subs b))"
    "set (pb_subs b) \<subseteq> set (pb_subs b')" "t \<noteq> s \<Longrightarrow> calls_to t out = []" by blast+
qed

lemma pb_add_all_inv:
  assumes "pb_inv b" and "pb_both_headers b" and "pb_add_all ws b = (out, b')" and "log_ok b log"
  shows "pb_inv b' \<and> log_ok b' (log @ out) \<and> pb_mm b' = pb_mm b \<and> pb_wait b' = pb_wait b \<and> set (pb_subs b') = set ws \<union> set (pb_subs b)"
  using assms
proof (induction ws arbitrary: b b' out log)
  case (Cons s ws)
  obtain r o1 b1 where a: "pb_add s b = (r, o1, b1)" by (cases "pb_add s b") auto
  obtain o2 b2 where c: "pb_add_all ws b1 = (o2, b2)" by (cases "pb_add_all ws b1")
  have e: "out = o1 @ o2" "b' = b2" using Cons.prems(3) a c by auto
  note i = pb_add_inv [OF Cons.prems(1) a]
  have "pb_both_headers b1" using Cons.prems(2) i(2) by (simp add: pb_both_headers_def)
  from Cons.IH [OF i(1) this c i(3) [OF Cons.prems(4)]] show ?case
    using i(2,4) Cons.prems(2) by (simp add: e)
qed simp

text \<open>The two header handlers: the state after the muxer has taken the header.\<close>

lemma pb_start_waiting_inv:
  assumes b: "set (pb_subs b) \<inter> set (pb_wait b) = {}" "distinct (pb_subs b)"
    and yes: "pending \<Longrightarrow> pb_both_headers b" and no: "\<not> pending \<Longrightarrow> pb_both_headers b \<Longrightarrow> pb_wait b = []"
    and run: "pb_start_waiting pending b = (out, b')" and log: "log_ok b log"
  shows "pb_inv b' \<and> log_ok b' (log @ out) \<and> (pending \<longrightarrow> set (pb_subs b') = set (pb_wait b) \<union> set (pb_subs b))"
proof (cases pending)
  case True
  let ?b = "b\<lparr>pb_wait := []\<rparr>"
  have "pb_inv ?b" using b by (simp add: pb_inv_def)
  moreover have "pb_both_headers ?b" using yes [OF True] by (simp add: pb_both_headers_def)
  moreover have "pb_add_all (pb_wait b) ?b = (out, b')" using run True by (simp add: pb_start_waiting_def pb_take_waiting_def)
  moreover have "log_ok ?b log" using log by (simp add: log_ok_def)
  ultimately show ?thesis using pb_add_all_inv [of ?b "pb_wait b" out b' log] by simp
next
  case False
  then show ?thesis using assms by (auto simp: pb_start_waiting_def pb_inv_def)
qed

lemma pb_header_flags:
  "fst (mm_on_video_header h m) \<longleftrightarrow> mm_video_header m \<noteq> h \<and> mm_video_header m = [] \<and> h \<noteq> [] \<and> tm_audio_header (mm_ts m) \<noteq> []"
  "mm_video_header (snd (mm_on_video_header h m)) = h"
  "tm_audio_header (mm_ts (snd (mm_on_video_header h m))) = tm_audio_header (mm_ts m)"
  "fst (mm_on_audio_header h m) \<longleftrightarrow> tm_audio_header (mm_ts m) \<noteq> h \<and> tm_audio_header (mm_ts m) = [] \<and> h \<noteq> [] \<and> mm_video_header m \<noteq> []"
  "tm_audio_header (mm_ts (snd (mm_on_audio_header h m))) = h"
  "mm_video_header (snd (mm_on_audio_header h m)) = mm_video_header m"
  by (auto simp: mm_on_video_header_def mm_on_audio_header_def mm_parse_video_header_def Let_def split: list.splits prod.splits)

lemma tm_packet_keeps_header: "tm_audio_header (snd (tm_packet_pat t)) = tm_audio_header t"
  "tm_audio_header (snd (tm_packet_pmt t)) = tm_audio_header t"
  by (simp_all add: tm_packet_pat_def tm_packet_pmt_def tm_get_pat_cc_def tm_get_pmt_cc_def Let_def)

lemma ts_packet_keeps_header: "ts_packet p raw mem i t = (pkt, n, t') \<Longrightarrow> tm_audio_header t' = tm_audio_header t"
  by (auto simp: ts_packet_def tm_get_video_cc_def tm_get_audio_cc_def Let_def split: if_splits)

lemma ts_loop_keeps_header: "tm_audio_header (snd (ts_loop p raw mem i t)) = tm_audio_header t"
proof (induction p raw mem i t rule: ts_loop.induct)
  case (1 p raw mem i t)
  obtain pkt n t1 where s: "ts_packet p raw mem i t = (pkt, n, t1)" by (cases "ts_packet p raw mem i t") auto
  then show ?case using 1 ts_packet_keeps_header [OF s] by (subst ts_loop.simps) (auto simp: split_def Let_def)
qed

lemma mm_frames_keep_headers:
  "mm_video_header (snd (mm_packet_ts mem p m)) = mm_video_header m"
  "tm_audio_header (mm_ts (snd (mm_packet_ts mem p m))) = tm_audio_header (mm_ts m)"
proof -
  have "mm_video_header (mm_open_ts p m) = mm_video_header m \<and> tm_audio_header (mm_ts (mm_open_ts p m)) = tm_audio_header (mm_ts m)"
    using tm_packet_keeps_header by (auto simp: mm_open_ts_def Let_def split_def split: option.splits)
  then show "mm_video_header (snd (mm_packet_ts mem p m)) = mm_video_header m"
    "tm_audio_header (mm_ts (snd (mm_packet_ts mem p m))) = tm_audio_header (mm_ts m)"
    using ts_loop_keeps_header by (auto simp: mm_packet_ts_def tm_packet_ts_def Let_def split_def)
qed

lemma mm_update_keeps_headers: "mm_video_header (mm_update_m3u8 show_ms m) = mm_video_header m"
  "mm_ts (mm_update_m3u8 show_ms m) = mm_ts m"
  by (simp_all add: mm_update_m3u8_def Let_def split_def)

lemma mm_on_frame_keeps_headers:
  "mm_video_header (snd (mm_on_audio mem p m)) = mm_video_header m"
  "tm_audio_header (mm_ts (snd (mm_on_audio mem p m))) = tm_audio_header (mm_ts m)"
  "mm_video_header (snd (mm_on_video mem show_ms p m)) = mm_video_header m"
  "tm_audio_header (mm_ts (snd (mm_on_video mem show_ms p m))) = tm_audio_header (mm_ts m)"
proof -
  have k: "mm_video_header (mm_key_frame show_ms m) = mm_video_header m" "mm_ts (mm_key_frame show_ms m) = mm_ts m"
    by (simp_all add: mm_key_frame_def mm_update_keeps_headers Let_def)
  show "mm_video_header (snd (mm_on_audio mem p m)) = mm_video_header m"
    "tm_audio_header (mm_ts (snd (mm_on_audio mem p m))) = tm_audio_header (mm_ts m)"
    by (simp_all add: mm_on_audio_def Let_def split_def mm_frames_keep_headers)
  show "mm_video_header (snd (mm_on_video mem show_ms p m)) = mm_video_header m"
    "tm_audio_header (mm_ts (snd (mm_on_video mem show_ms p m))) = tm_audio_header (mm_ts m)"
    by (simp_all add: mm_on_video_def Let_def split_def mm_frames_keep_headers k)
qed

lemma calls_to_broadcast_none: "s \<notin> set (pb_subs b) \<Longrightarrow> calls_to s (pb_broadcast srt pkts p b) = []"
  by (auto simp: calls_to_def pb_broadcast_def filter_empty_conv)

definition media_of :: "sent list \<Rightarrow> payload list" where
  "media_of xs = concat (map (\<lambda>c. case c of SMedia p \<Rightarrow> [p] | _ \<Rightarrow> []) xs)"

lemma media_of_append [simp]: "media_of (xs @ ys) = media_of xs @ media_of ys"
  by (simp add: media_of_def)

lemma media_of_simps [simp]:
  "media_of [] = []" "media_of (SMedia p # xs) = p # media_of xs" "media_of (SMeta d # xs) = media_of xs"
  "media_of (SAudioHeader h # xs) = media_of xs" "media_of (SVideoHeader h # xs) = media_of xs" "media_of (SData d # xs) = media_of xs"
  "media_of (map SMedia ps) = ps"
  by (simp_all add: media_of_def comp_def)

lemma media_of_broadcast:
  assumes "s \<in> set (pb_subs b)" and "distinct (pb_subs b)"
  shows "media_of (calls_to s (pb_broadcast srt pkts p b)) = [p]"
proof -
  have d: "media_of (calls_to s (map (\<lambda>s. (s, SData pkt)) ss)) = []" for pkt ss
    by (induction ss) (auto simp: calls_to_def)
  have once: "calls_to s (map (\<lambda>s. (s, SMedia p)) ss) = [SMedia p]" if "s \<in> set ss" "distinct ss" for ss
  proof -
    have "t \<noteq> s \<Longrightarrow> calls_to s ((t, SMedia p) # xs) = calls_to s xs" for t xs by (simp add: calls_to_def)
    moreover have "s \<notin> set ts \<Longrightarrow> calls_to s (map (\<lambda>s. (s, SMedia p)) ts) = []" for ts
      by (auto simp: calls_to_def filter_empty_conv)
    ultimately show ?thesis using that by (induction ss) (auto simp: calls_to_def)
  qed
  have "media_of (calls_to s (concat (map (\<lambda>pkt. map (\<lambda>s. (s, SData pkt)) (filter srt (pb_subs b))) pkts))) = []"
    by (induction pkts) (auto simp: d)
  moreover have "calls_to s (map (\<lambda>s. (s, SMedia p)) (pb_subs b)) = [SMedia p]"
    using once [OF assms] .
  ultimately show ?thesis by (simp add: pb_broadcast_def)
qed

lemma log_ok_broadcast: "log_ok b log \<Longrightarrow> log_ok b (log @ pb_broadcast srt pkts p b)"
  unfolding log_ok_def
proof (intro allI)
  fix s
  assume *: "\<forall>s. headers_first False False (calls_to s log) \<and> (s \<in> set (pb_subs b) \<longrightarrow> has_headers (calls_to s log))"
  show "headers_first False False (calls_to s (log @ pb_broadcast srt pkts p b)) \<and>
      (s \<in> set (pb_subs b) \<longrightarrow> has_headers (calls_to s (log @ pb_broadcast srt pkts p b)))"
    using * calls_to_broadcast_none [of s b srt pkts p]
    by (cases "s \<in> set (pb_subs b)") (simp_all add: headers_first_after has_headers_left)
qed

lemma pb_inv_cong: "pb_inv b \<Longrightarrow> pb_subs b' = pb_subs b \<Longrightarrow> pb_wait b' = pb_wait b \<Longrightarrow> pb_both_headers b' = pb_both_headers b \<Longrightarrow> pb_inv b'"
  by (simp add: pb_inv_def)

lemma log_ok_cong: "log_ok b log \<Longrightarrow> pb_subs b' = pb_subs b \<Longrightarrow> log_ok b' log"
  by (simp add: log_ok_def)

lemma pb_both_header_simps:
  "pb_both_headers b \<longleftrightarrow> tm_audio_header (mm_ts (pb_mm b)) \<noteq> [] \<and> mm_video_header (pb_mm b) \<noteq> []"
  by (simp add: pb_both_headers_def mm_has_audio_header_def mm_has_video_header_def)

lemma pb_on_video_header_inv:
  assumes "pb_inv b" and "log_ok b log" and "pb_on_video_header h b = (out, b')"
  shows "pb_inv b' \<and> log_ok b' (log @ out)"
proof -
  obtain pend m where m: "mm_on_video_header h (pb_mm b) = (pend, m)" by (cases "mm_on_video_header h (pb_mm b)")
  note f = pb_header_flags(1-3) [of h "pb_mm b", unfolded m fst_conv snd_conv]
  let ?b = "b\<lparr>pb_mm := m\<rparr>"
  have run: "pb_start_waiting pend ?b = (out, b')" using assms(3) by (simp add: pb_on_video_header_def m)
  have "pb_inv b' \<and> log_ok b' (log @ out) \<and> (pend \<longrightarrow> set (pb_subs b') = set (pb_wait ?b) \<union> set (pb_subs ?b))"
    by (rule pb_start_waiting_inv [OF _ _ _ _ run])
      (use assms(1,2) f in \<open>auto simp: pb_inv_def pb_both_header_simps log_ok_def\<close>)
  then show ?thesis by blast
qed

lemma pb_on_audio_header_inv:
  assumes "pb_inv b" and "log_ok b log" and "pb_on_audio_header h b = (out, b')"
  shows "pb_inv b' \<and> log_ok b' (log @ out)"
proof -
  obtain pend m where m: "mm_on_audio_header h (pb_mm b) = (pend, m)" by (cases "mm_on_audio_header h (pb_mm b)")
  note f = pb_header_flags(4-6) [of h "pb_mm b", unfolded m fst_conv snd_conv]
  let ?b = "b\<lparr>pb_mm := m\<rparr>"
  have run: "pb_start_waiting pend ?b = (out, b')" using assms(3) by (simp add: pb_on_audio_header_def m)
  have "pb_inv b' \<and> log_ok b' (log @ out) \<and> (pend \<longrightarrow> set (pb_subs b') = set (pb_wait ?b) \<union> set (pb_subs ?b))"
    by (rule pb_start_waiting_inv [OF _ _ _ _ run])
      (use assms(1,2) f in \<open>auto simp: pb_inv_def pb_both_header_simps log_ok_def\<close>)
  then show ?thesis by blast
qed

lemma pb_step_inv:
  assumes "pb_inv b" and "log_ok b log" and "pb_step srt mem show_ms e b = (out, b')"
  shows "pb_inv b' \<and> log_ok b' (log @ out)"
proof (cases e)
  case (PbAdd s)
  then obtain r where "pb_add s b = (r, out, b')" using assms(3) by (cases "pb_add s b") auto
  from pb_add_inv(1,3) [OF assms(1) this] show ?thesis using assms(2) by blast
next
  case (PbRemove s)
  then have e: "out = []" "b' = pb_remove s b" using assms(3) by auto
  have "log_ok b' log" using assms(2) by (auto simp: log_ok_def e pb_remove_def)
  moreover have "pb_inv b'" using assms(1) by (auto simp: pb_inv_def e pb_remove_def pb_both_headers_def ss_erase_def)
  ultimately show ?thesis by (simp add: e)
next
  case (PbVideoHeader h)
  then show ?thesis using pb_on_video_header_inv assms by simp
next
  case (PbAudioHeader h)
  then show ?thesis using pb_on_audio_header_inv assms by simp
next
  case (PbAudio p)
  then obtain pkts where e: "out = pb_broadcast srt pkts p b" "b' = b\<lparr>pb_mm := snd (mm_on_audio mem p (pb_mm b))\<rparr>"
    using assms(3) by (auto simp: pb_on_audio_def split_def Let_def)
  have "pb_inv b'" by (rule pb_inv_cong [OF assms(1)]) (simp_all add: e pb_both_header_simps mm_on_frame_keeps_headers)
  moreover have "log_ok b' (log @ out)"
    by (rule log_ok_cong [OF log_ok_broadcast [OF assms(2), of srt pkts p, folded e(1)]]) (simp add: e)
  ultimately show ?thesis by simp
next
  case (PbVideo p)
  then obtain pkts where e: "out = pb_broadcast srt pkts p b" "b' = b\<lparr>pb_mm := snd (mm_on_video mem show_ms p (pb_mm b))\<rparr>"
    using assms(3) by (auto simp: pb_on_video_def split_def Let_def)
  have "pb_inv b'" by (rule pb_inv_cong [OF assms(1)]) (simp_all add: e pb_both_header_simps mm_on_frame_keeps_headers)
  moreover have "log_ok b' (log @ out)"
    by (rule log_ok_cong [OF log_ok_broadcast [OF assms(2), of srt pkts p, folded e(1)]]) (simp add: e)
  ultimately show ?thesis by simp
qed (use assms in \<open>auto simp: pb_inv_def pb_both_header_simps log_ok_def mm_on_metadata_def mm_every_second_def split: if_splits\<close>)

lemma pb_run_inv:
  assumes "pb_inv b" and "log_ok b log" and "pb_run srt mem show_ms es b = (out, b')"
  shows "pb_inv b' \<and> log_ok b' (log @ out)"
  using assms
proof (induction es arbitrary: b log out b')
  case (Cons e es)
  obtain o1 b1 where s: "pb_step srt mem show_ms e b = (o1, b1)" by (cases "pb_step srt mem show_ms e b")
  obtain o2 b2 where r: "pb_run srt mem show_ms es b1 = (o2, b2)" by (cases "pb_run srt mem show_ms es b1")
  have "pb_inv b1" "log_ok b1 (log @ o1)" using pb_step_inv [OF Cons.prems(1,2) s] by simp_all
  from Cons.IH [OF this r] show ?case using Cons.prems(3) by (simp add: s r)
qed simp

text \<open>
  C3: a subscriber never gets a frame it cannot decode. In every sequence of subscriptions,
  removals, headers, metadata, frames and ticks from an empty publisher, each subscriber's calls have an
  audio header and a video header before the first frame or transport packet; a subscriber that waits
  is not among the active ones, and nobody waits once both headers are there.
\<close>

theorem subscribers_get_headers_first:
  "headers_first False False (calls_to s (fst (pb_run srt mem show_ms es pb_new)))
   \<and> set (pb_subs (snd (pb_run srt mem show_ms es pb_new))) \<inter> set (pb_wait (snd (pb_run srt mem show_ms es pb_new))) = {}
   \<and> \<not> (pb_both_headers (snd (pb_run srt mem show_ms es pb_new)) \<and> pb_wait (snd (pb_run srt mem show_ms es pb_new)) \<noteq> [])"
proof -
  obtain out b' where r: "pb_run srt mem show_ms es pb_new = (out, b')" by (cases "pb_run srt mem show_ms es pb_new")
  have "pb_inv pb_new" "log_ok pb_new []" by (simp_all add: pb_inv_def pb_new_def log_ok_def)
  from pb_run_inv [OF this r] show ?thesis by (simp add: r pb_inv_def log_ok_def)
qed

definition frame_of :: "pb_event \<Rightarrow> payload list" where
  "frame_of e = (case e of PbAudio p \<Rightarrow> [p] | PbVideo p \<Rightarrow> [p] | _ \<Rightarrow> [])"

lemma pb_add_all_other: 
  assumes "pb_inv b" and "pb_both_headers b" and "pb_add_all ws b = (out, b')" and "s \<in> set (pb_subs b)"
  shows "calls_to s out = []"
  using assms
proof (induction ws arbitrary: b out b')
  case (Cons t ws)
  obtain r o1 b1 where a: "pb_add t b = (r, o1, b1)" by (cases "pb_add t b") auto
  obtain o2 b2 where c: "pb_add_all ws b1 = (o2, b2)" by (cases "pb_add_all ws b1")
  have e: "out = o1 @ o2" using Cons.prems(3) a c by auto
  note i = pb_add_inv [OF Cons.prems(1) a]
  have "pb_both_headers b1" using Cons.prems(2) i(2) by (simp add: pb_both_headers_def)
  moreover have "s \<in> set (pb_subs b1)" using i(5) Cons.prems(4) by blast
  moreover have "calls_to s o1 = []"
    using a Cons.prems(4) i(6) by (cases "s = t") (auto simp: pb_add_def)
  ultimately show ?case using Cons.IH [OF i(1) _ c] by (simp add: e)
qed simp

lemma pb_add_all_subs:
  "pb_inv b \<Longrightarrow> pb_add_all ws b = (out, b') \<Longrightarrow> set (pb_subs b) \<subseteq> set (pb_subs b')"
proof (induction ws arbitrary: b out b')
  case (Cons t ws)
  obtain r o1 b1 where a: "pb_add t b = (r, o1, b1)" by (cases "pb_add t b") auto
  obtain o2 b2 where c: "pb_add_all ws b1 = (o2, b2)" by (cases "pb_add_all ws b1")
  note i = pb_add_inv [OF Cons.prems(1) a]
  from Cons.IH [OF i(1) c] i(5) Cons.prems(2) show ?case by (auto simp: a c)
qed simp

lemma pb_header_step_other:
  assumes "pb_inv b" and "s \<in> set (pb_subs b)" and "pb_on_video_header h b = (out, b') \<or> pb_on_audio_header h b = (out, b')"
  shows "calls_to s out = [] \<and> s \<in> set (pb_subs b')"
proof -
  obtain pend m where pm: "pb_start_waiting pend (b\<lparr>pb_mm := m\<rparr>) = (out, b')"
    and both: "pend \<Longrightarrow> pb_both_headers (b\<lparr>pb_mm := m\<rparr>)"
    using assms(3)
  proof
    assume "pb_on_video_header h b = (out, b')"
    then show thesis
      using pb_header_flags(1-3) [of h "pb_mm b"]
      by (intro that [of "fst (mm_on_video_header h (pb_mm b))" "snd (mm_on_video_header h (pb_mm b))"])
        (auto simp: pb_on_video_header_def split_def pb_both_header_simps)
  next
    assume "pb_on_audio_header h b = (out, b')"
    then show thesis
      using pb_header_flags(4-6) [of h "pb_mm b"]
      by (intro that [of "fst (mm_on_audio_header h (pb_mm b))" "snd (mm_on_audio_header h (pb_mm b))"])
        (auto simp: pb_on_audio_header_def split_def pb_both_header_simps)
  qed
  show ?thesis
  proof (cases pend)
    case True
    let ?b = "b\<lparr>pb_mm := m, pb_wait := []\<rparr>"
    have run: "pb_add_all (pb_wait b) ?b = (out, b')" using pm True by (simp add: pb_start_waiting_def pb_take_waiting_def)
    have i: "pb_inv ?b" "pb_both_headers ?b" using assms(1) both [OF True] by (simp_all add: pb_inv_def pb_both_headers_def)
    have "s \<in> set (pb_subs b')" using pb_add_all_subs [OF i(1) run] assms(2) by auto
    then show ?thesis using pb_add_all_other [OF i run] assms(2) by simp
  next
    case False
    then show ?thesis using pm assms(2) by (auto simp: pb_start_waiting_def)
  qed
qed

lemma pb_step_member:
  assumes "pb_inv b" and "s \<in> set (pb_subs b)" and "e \<noteq> PbRemove s" and "pb_step srt mem show_ms e b = (out, b')"
  shows "media_of (calls_to s out) = frame_of e \<and> s \<in> set (pb_subs b')"
proof (cases e)
  case (PbAdd t)
  obtain r where a: "pb_add t b = (r, out, b')" using assms(4) PbAdd by (cases "pb_add t b") auto
  have "calls_to s out = []" using a assms(2) pb_add_inv(6) [OF assms(1) a] by (cases "s = t") (auto simp: pb_add_def)
  then show ?thesis using pb_add_inv(5) [OF assms(1) a] assms(2) PbAdd by (auto simp: frame_of_def)
next
  case (PbVideoHeader h)
  then show ?thesis using pb_header_step_other [OF assms(1,2), of h out b'] assms(4) by (simp add: frame_of_def)
next
  case (PbAudioHeader h)
  then show ?thesis using pb_header_step_other [OF assms(1,2), of h out b'] assms(4) by (simp add: frame_of_def)
next
  case (PbAudio p)
  then show ?thesis using assms media_of_broadcast [OF assms(2)]
    by (auto simp: pb_on_audio_def split_def Let_def frame_of_def pb_inv_def)
next
  case (PbVideo p)
  then show ?thesis using assms media_of_broadcast [OF assms(2)]
    by (auto simp: pb_on_video_def split_def Let_def frame_of_def pb_inv_def)
qed (use assms in \<open>auto simp: frame_of_def pb_remove_def\<close>)

lemma log_ok_all_started: "log_ok b (concat (map (\<lambda>t. map (Pair t) [SAudioHeader [], SVideoHeader []]) (pb_subs b)))"
proof -
  have "headers_first False False (calls_to s (concat (map (\<lambda>t. map (Pair t) [SAudioHeader [], SVideoHeader []]) ss))) \<and>
    (s \<in> set ss \<longrightarrow> has_headers (calls_to s (concat (map (\<lambda>t. map (Pair t) [SAudioHeader [], SVideoHeader []]) ss))))" for s ss
    by (induction ss) (auto simp: calls_to_def has_headers_def)
  then show ?thesis unfolding log_ok_def by blast
qed

lemma pb_run_member:
  assumes "pb_inv b" and "s \<in> set (pb_subs b)" and "PbRemove s \<notin> set es" and "pb_run srt mem show_ms es b = (out, b')"
  shows "media_of (calls_to s out) = concat (map frame_of es)"
  using assms
proof (induction es arbitrary: b out b')
  case (Cons e es)
  obtain o1 b1 where s: "pb_step srt mem show_ms e b = (o1, b1)" by (cases "pb_step srt mem show_ms e b")
  obtain o2 b2 where r: "pb_run srt mem show_ms es b1 = (o2, b2)" by (cases "pb_run srt mem show_ms es b1")
  have "log_ok b (concat (map (\<lambda>t. map (Pair t) [SAudioHeader [], SVideoHeader []]) (pb_subs b)))"
    by (rule log_ok_all_started)
  then have "pb_inv b1" using pb_step_inv [OF Cons.prems(1) _ s] by blast
  then show ?case using Cons.IH [OF _ _ _ r] pb_step_member [OF Cons.prems(1,2) _ s] Cons.prems by (auto simp: s r)
qed simp

text \<open>
  C15: a subscriber misses no frame and gets none twice. When both headers are there and
  \<open>s\<close> is not subscribed, then after subscribing and any further events that do not remove it, the
  frames it was sent are the publisher's fast start of that moment followed by every frame
  published since, in order.
\<close>

theorem subscriber_misses_no_frame:
  assumes "b = snd (pb_run srt mem show_ms past pb_new)" and "pb_both_headers b" and "s \<notin> set (pb_subs b)"
    and "PbRemove s \<notin> set es"
  shows "media_of (calls_to s (fst (pb_run srt mem show_ms (PbAdd s # es) b))) = mm_fast_out (pb_mm b) @ concat (map frame_of es)"
proof -
  have "pb_inv pb_new" "log_ok pb_new []" by (simp_all add: pb_inv_def pb_new_def log_ok_def)
  then have inv: "pb_inv b" using pb_run_inv [of pb_new "[]" srt mem show_ms past] assms(1) by (cases "pb_run srt mem show_ms past pb_new") auto
  obtain r o1 b1 where a: "pb_add s b = (r, o1, b1)" by (cases "pb_add s b") auto
  define calls where "calls = snd (pb_on_new_subscriber b)"
  have "media_of calls = mm_fast_out (pb_mm b)"
    using assms(2) by (simp add: calls_def pb_on_new_subscriber_def pb_both_headers_def Let_def)
  moreover have "o1 = map (Pair s) calls" using a assms(3) by (simp add: pb_add_def calls_def split_def)
  ultimately have first: "media_of (calls_to s o1) = mm_fast_out (pb_mm b)" by simp
  have "s \<in> set (pb_subs b1)" using pb_add_inv(4) [OF inv a assms(2)] by simp
  then have "media_of (calls_to s (fst (pb_run srt mem show_ms es b1))) = concat (map frame_of es)"
    using pb_run_member [OF pb_add_inv(1) [OF inv a] _ assms(4)] by (metis prod.collapse)
  then show ?thesis by (simp add: a first split_def Let_def)
qed

theorem subscriber_misses_no_frame_witness:
  "\<exists>b p. media_of (calls_to 7 (fst (pb_run (\<lambda>_. False) (\<lambda>_. 0) (\<lambda>_. []) [PbAdd 7, PbAudio p, PbVideo p] b))) = [p, p]"
proof -
  define p where "p = pl_set_audio (pl_new 23 23 [] 0)"
  define past where "past = [PbAudioHeader [0x12, 0x10], PbVideoHeader [1, 2]]"
  define b where "b = snd (pb_run (\<lambda>_. False) (\<lambda>_. 0) (\<lambda>_. []) past pb_new)"
  have b: "pb_subs b = []" "pb_both_headers b" "mm_fast_out (pb_mm b) = []"
    by (simp_all add: b_def past_def pb_on_audio_header_def pb_on_video_header_def pb_new_def mm_new_def tm_new_def
        mm_on_audio_header_def mm_on_video_header_def pb_start_waiting_def pb_take_waiting_def Let_def split_def
        pb_both_header_simps mm_fast_out_def sm_from_def mm_parse_video_header_def byte_at_def)
  from subscriber_misses_no_frame [OF b_def b(2), of 7 "[PbAudio p, PbVideo p]"] b show ?thesis
    by (intro exI [of _ b] exI [of _ p]) (simp add: frame_of_def)
qed

end
