(* ===== verification/StreamCenter.thy ===== *)
theory StreamCenter
  imports StdMap
begin

text \<open>
  \<open>src/local_stream_center.cpp\<close>: the registry of published streams. A publisher is an object identity
  (\<open>nat\<close>). The contract \<open>stream_registry\<close> states what the protocols rely on when they publish a stream and
  look one up; it is interpreted on the code's operations, and its lemmas say that the first publisher
  of a name keeps it and that unregistering undoes registering.
\<close>

section \<open>\<open>LocalStreamCenter\<close>\<close>

type_synonym stream_center = "(bytes, (bytes, nat) smap) smap" \<comment> \<open>\<open>app_stream_publisher_\<close>\<close>

definition sc_register :: "bytes \<Rightarrow> bytes \<Rightarrow> nat \<Rightarrow> stream_center \<Rightarrow> bool \<times> stream_center" where
  "sc_register app stream pub c =
     (if app = [] \<or> stream = [] then (False, c)
      else
        let streams = (case sm_find app c of None \<Rightarrow> [] | Some m \<Rightarrow> m)
        in case sm_find stream streams of
             Some _ \<Rightarrow> (False, sm_put app streams c)
           | None \<Rightarrow> (True, sm_put app (sm_insert stream pub streams) c))"

definition sc_unregister :: "bytes \<Rightarrow> bytes \<Rightarrow> nat \<Rightarrow> stream_center \<Rightarrow> bool \<times> stream_center" where
  \<comment> \<open>the publisher is an argument that the code does not look at\<close>
  "sc_unregister app stream pub c =
     (case sm_find app c of
        None \<Rightarrow> (False, c)
      | Some streams \<Rightarrow>
          (case sm_find stream streams of
             None \<Rightarrow> (False, c)
           | Some _ \<Rightarrow>
               let rest = sm_erase stream streams
               in (True, if rest = [] then sm_erase app c else sm_put app rest c)))"

definition sc_get :: "bytes \<Rightarrow> bytes \<Rightarrow> stream_center \<Rightarrow> nat option" where
  "sc_get app stream c = (case sm_find app c of None \<Rightarrow> None | Some streams \<Rightarrow> sm_find stream streams)"

definition sc_exists :: "bytes \<Rightarrow> bytes \<Rightarrow> stream_center \<Rightarrow> bool" where
  "sc_exists app stream c =
     (case sm_find app c of None \<Rightarrow> False | Some streams \<Rightarrow> sm_find stream streams \<noteq> None)"

definition sc_debug_random :: "stream_center \<Rightarrow> (bytes \<times> bytes \<times> nat) option" where
  \<comment> \<open>\<open>_DebugGetRandomMediaPublisher\<close>: the first stream of the first application\<close>
  "sc_debug_random c =
     (case c of
        [] \<Rightarrow> None
      | (app, streams) # _ \<Rightarrow> (case streams of [] \<Rightarrow> None | (stream, p) # _ \<Rightarrow> Some (app, stream, p)))"

definition sc_ok :: "stream_center \<Rightarrow> bool" where
  "sc_ok c \<longleftrightarrow> sm_ok c \<and> (\<forall>(app, streams) \<in> set c. app \<noteq> [] \<and> streams \<noteq> [] \<and> sm_ok streams)"

lemma sc_ok_find: "sc_ok c \<Longrightarrow> sm_find app c = Some streams \<Longrightarrow> app \<noteq> [] \<and> streams \<noteq> [] \<and> sm_ok streams"
  by (auto simp: sc_ok_def dest!: map_of_SomeD)

lemma sc_put_ok: "sc_ok c \<Longrightarrow> app \<noteq> [] \<Longrightarrow> m \<noteq> [] \<Longrightarrow> sm_ok m \<Longrightarrow> sc_ok (sm_put app m c)"
  using sm_put_set [of app m c] by (fastforce simp: sc_ok_def sm_simps)

section \<open>The contract of the registry\<close>

locale stream_registry =
  fixes look :: "'a \<Rightarrow> 'a \<Rightarrow> 's \<Rightarrow> 'p option"
    and reg :: "'a \<Rightarrow> 'a \<Rightarrow> 'p \<Rightarrow> 's \<Rightarrow> bool \<times> 's"
    and unreg :: "'a \<Rightarrow> 'a \<Rightarrow> 'p \<Rightarrow> 's \<Rightarrow> bool \<times> 's"
    and valid :: "'a \<Rightarrow> bool"
    and ok :: "'s \<Rightarrow> bool"
  assumes reg_new: "ok c \<Longrightarrow> valid a \<Longrightarrow> valid s \<Longrightarrow> look a s c = None \<Longrightarrow>
      fst (reg a s p c) \<and> look a' s' (snd (reg a s p c)) = (if a' = a \<and> s' = s then Some p else look a' s' c)"
    and reg_old: "ok c \<Longrightarrow> \<not> valid a \<or> \<not> valid s \<or> look a s c \<noteq> None \<Longrightarrow>
      \<not> fst (reg a s p c) \<and> look a' s' (snd (reg a s p c)) = look a' s' c"
    and unreg_look: "ok c \<Longrightarrow> fst (unreg a s p c) = (look a s c \<noteq> None) \<and>
      look a' s' (snd (unreg a s p c)) = (if a' = a \<and> s' = s then None else look a' s' c)"
    and reg_ok: "ok c \<Longrightarrow> ok (snd (reg a s p c))"
    and unreg_ok: "ok c \<Longrightarrow> ok (snd (unreg a s p c))"
begin

lemma reg_keeps: "ok c \<Longrightarrow> look a s c = Some p \<Longrightarrow> look a s (snd (reg a' s' q c)) = Some p"
  by (cases "valid a' \<and> valid s' \<and> look a' s' c = None") (auto simp: reg_new reg_old)

lemma first_wins:
  assumes "ok c" and "valid a" and "valid s" and "look a s c = None"
  shows "look a s (snd (reg a s q (snd (reg a s p c)))) = Some p \<and> \<not> fst (reg a s q (snd (reg a s p c)))"
proof -
  have 1: "look a s (snd (reg a s p c)) = Some p" using reg_new [OF assms] by simp
  then show ?thesis using reg_old [OF reg_ok [OF assms(1)]] by simp
qed

lemma reg_unreg:
  assumes "ok c" and "valid a" and "valid s" and "look a s c = None"
  shows "look a' s' (snd (unreg a s q (snd (reg a s p c)))) = look a' s' c"
  using reg_new [OF assms] unreg_look [OF reg_ok [OF assms(1)]] assms(4) by simp

lemma others_keep:
  assumes "ok c" and "look a s c = Some p" and "(a', s') \<noteq> (a, s)"
  shows "look a s (snd (unreg a' s' q c)) = Some p"
  using unreg_look [OF assms(1), of a' s' q a s] assms(2,3) by auto

end

lemma sc_register_ok: "sc_ok c \<Longrightarrow> sc_ok (snd (sc_register a s p c))"
proof -
  assume ok: "sc_ok c"
  show ?thesis
  proof (cases "a = [] \<or> s = []")
    case False
    define m where "m = (case sm_find a c of None \<Rightarrow> [] | Some m \<Rightarrow> m)"
    have m: "sm_ok m" using sc_ok_find [OF ok] by (auto simp: m_def split: option.splits)
    show ?thesis
      using False ok m by (auto simp: sc_register_def m_def [symmetric] Let_def sm_insert_ne sm_insert_simps intro!: sc_put_ok
          split: option.splits)
  qed (use ok in \<open>simp add: sc_register_def\<close>)
qed

lemma sc_unregister_ok: "sc_ok c \<Longrightarrow> sc_ok (snd (sc_unregister a s p c))"
proof -
  assume ok: "sc_ok c"
  have "sc_ok (sm_erase a c)" using ok using sm_erase_ok [of c a] by (auto simp: sc_ok_def) (auto simp: sm_erase_def)
  then show ?thesis
    using ok sc_ok_find [OF ok] by (auto simp: sc_unregister_def Let_def sm_simps intro!: sc_put_ok split: option.splits)
qed

lemma sc_look_register:
  "sc_get a' s' (snd (sc_register a s p c)) =
     (if a \<noteq> [] \<and> s \<noteq> [] \<and> sc_get a s c = None \<and> a' = a \<and> s' = s then Some p else sc_get a' s' c)"
  "fst (sc_register a s p c) \<longleftrightarrow> a \<noteq> [] \<and> s \<noteq> [] \<and> sc_get a s c = None"
  by (auto simp: sc_register_def sc_get_def Let_def sm_simps sm_insert_simps split: option.splits)

lemma sc_look_unregister:
  "sc_get a' s' (snd (sc_unregister a s p c)) = (if a' = a \<and> s' = s then None else sc_get a' s' c)"
  "fst (sc_unregister a s p c) \<longleftrightarrow> sc_get a s c \<noteq> None"
proof -
  have e: "sm_erase s m = [] \<Longrightarrow> s' \<noteq> s \<Longrightarrow> sm_find s' m = None" for m :: "(bytes, nat) smap"
    using sm_find_erase [of s m s'] by simp
  show "sc_get a' s' (snd (sc_unregister a s p c)) = (if a' = a \<and> s' = s then None else sc_get a' s' c)"
    using e by (auto simp: sc_unregister_def sc_get_def Let_def sm_simps split: option.splits)
  show "fst (sc_unregister a s p c) \<longleftrightarrow> sc_get a s c \<noteq> None"
    by (auto simp: sc_unregister_def sc_get_def Let_def split: option.splits)
qed

interpretation registry: stream_registry sc_get sc_register sc_unregister "\<lambda>x. x \<noteq> []" sc_ok
  by unfold_locales (auto simp: sc_look_register sc_look_unregister sc_register_ok sc_unregister_ok)

section \<open>Sequences of operations\<close>

datatype sc_op = ScRegister bytes bytes nat | ScUnregister bytes bytes nat

fun sc_step :: "sc_op \<Rightarrow> stream_center \<Rightarrow> stream_center" where
  "sc_step (ScRegister a s p) c = snd (sc_register a s p c)"
| "sc_step (ScUnregister a s p) c = snd (sc_unregister a s p c)"

text \<open>The specification: a partial function from names to publishers.\<close>

fun sc_spec :: "sc_op \<Rightarrow> (bytes \<times> bytes \<Rightarrow> nat option) \<Rightarrow> bytes \<times> bytes \<Rightarrow> nat option" where
  "sc_spec (ScRegister a s p) f = (if a = [] \<or> s = [] \<or> f (a, s) \<noteq> None then f else f((a, s) \<mapsto> p))"
| "sc_spec (ScUnregister a s p) f = f((a, s) := None)"

lemma sc_step_ok: "sc_ok c \<Longrightarrow> sc_ok (sc_step op c)"
  by (cases op) (simp_all add: registry.reg_ok registry.unreg_ok)

lemma sc_step_spec:
  assumes "sc_ok c" and "\<forall>a s. sc_get a s c = f (a, s)"
  shows "\<forall>a s. sc_get a s (sc_step op c) = sc_spec op f (a, s)"
proof (cases op)
  case (ScRegister a s p)
  show ?thesis
  proof (cases "a = [] \<or> s = [] \<or> f (a, s) \<noteq> None")
    case True
    then have "a = [] \<or> s = [] \<or> sc_get a s c \<noteq> None" using assms(2) by simp
    then show ?thesis using registry.reg_old [OF assms(1)] True ScRegister assms(2) by (auto split: if_splits)
  next
    case False
    then have "a \<noteq> []" "s \<noteq> []" "sc_get a s c = None" using assms(2) by simp_all
    from registry.reg_new [OF assms(1) this] show ?thesis using False ScRegister assms(2) by simp
  qed
next
  case (ScUnregister a s p)
  then show ?thesis using registry.unreg_look [OF assms(1)] assms(2) by simp
qed

text \<open>
  C17: the registry of streams is a map from names to publishers. After any sequence of
  registrations and removals from the empty registry, looking a name up (and the existence test) agrees
  with the partial function that keeps the first publisher of a name until it is removed and accepts
  no empty name, and no application is left with an empty table of streams.
\<close>

theorem registry_refines_map:
  "sc_get a s (fold sc_step ops []) = fold sc_spec ops (\<lambda>_. None) (a, s)
   \<and> (sc_exists a s (fold sc_step ops []) \<longleftrightarrow> fold sc_spec ops (\<lambda>_. None) (a, s) \<noteq> None)
   \<and> sm_find a (fold sc_step ops []) \<noteq> Some []"
proof -
  have *: "sc_ok c \<Longrightarrow> \<forall>a s. sc_get a s c = f (a, s) \<Longrightarrow>
      sc_ok (fold sc_step ops c) \<and> (\<forall>a s. sc_get a s (fold sc_step ops c) = fold sc_spec ops f (a, s))" for c f
  proof (induction ops arbitrary: c f)
    case (Cons op ops)
    from Cons.IH [OF sc_step_ok [OF Cons.prems(1)] sc_step_spec [OF Cons.prems]] show ?case by simp
  qed simp
  have "sc_ok []" "\<forall>a s. sc_get a s [] = (\<lambda>_. None) (a, s)" by (simp_all add: sc_ok_def sc_get_def)
  note r = * [OF this]
  have "sc_exists a s c \<longleftrightarrow> sc_get a s c \<noteq> None" for c
    by (simp add: sc_exists_def sc_get_def split: option.splits)
  moreover have "sm_find a (fold sc_step ops []) \<noteq> Some []"
    using sc_ok_find [of "fold sc_step ops []" a "[]"] r by auto
  ultimately show ?thesis using r by simp
qed

text \<open>
  unregistering does not look at who asks. Any publisher \<open>q\<close> that closes under the name of a
  stream removes the registration of the publisher \<open>p\<close> that owns it, and a third one can then take the
  name over.
\<close>

theorem unregister_ignores_owner:
  assumes "sc_ok c" and "sc_get a s c = Some p" and "a \<noteq> []" and "s \<noteq> []"
  shows "fst (sc_unregister a s q c) \<and> sc_get a s (snd (sc_unregister a s q c)) = None \<and>
    sc_get a s (snd (sc_register a s r (snd (sc_unregister a s q c)))) = Some r"
proof -
  have u: "fst (sc_unregister a s q c)" "sc_get a s (snd (sc_unregister a s q c)) = None"
    using registry.unreg_look [OF assms(1), of a s q a s] assms(2) by simp_all
  moreover have "sc_get a s (snd (sc_register a s r (snd (sc_unregister a s q c)))) = Some r"
    using registry.reg_new [OF registry.unreg_ok [OF assms(1)] assms(3,4) u(2)] by simp
  ultimately show ?thesis by simp
qed

theorem unregister_ignores_owner_witness:
  "sc_get [1] [2] (snd (sc_unregister [1] [2] 9 (snd (sc_register [1] [2] 5 [])))) = None"
proof -
  let ?c = "snd (sc_register [1] [2] 5 [])"
  have "sc_ok ?c" by (rule registry.reg_ok) (simp add: sc_ok_def)
  moreover have "sc_get [1] [2] ?c = Some 5" by (simp add: sc_register_def sc_get_def sm_insert_def)
  ultimately show ?thesis using unregister_ignores_owner [of ?c "[1]" "[2]" 5 9 0] by simp
qed

end
