(* ===== verification/RtmpSession.thy ===== *)
theory RtmpSession
  imports RtmpHandshake RtmpUrl Amf0 Publisher StreamCenter
begin

text \<open>
  The message layer of \<open>src/rtmp_protocol.cpp\<close>: what a connection does with a message (\<open>OnRtmpMessage\<close> and the
  handlers it calls), the commands it sends, and its closing. A connection is a publisher (with its
  \<open>MediaMuxer\<close> and subscribers, theory \<open>Publisher\<close>), a subscriber, and an identity in the registry (theory
  \<open>StreamCenter\<close>). What a handler does outside the connection is a list of \<open>effect\<close>s. A NULL
  dereference or an access outside a block is \<open>Fault\<close>, a failed assertion \<open>Abort\<close>.

  Not in the model: the calls of the media handlers on the MP4 and DASH muxers (which have theories of their own:
  \<open>Mp4Muxer\<close>, \<open>DashMuxer\<close>), and logging. Doubles are their
  64-bit patterns; conversions to and from integers that the code leaves to the machine are parameters.
\<close>

section \<open>State\<close>

datatype rtmp_role = kUnknownRtmpRole | kClientPush | kPushServer | kPullServer | kClientPull

record rtmp_session =
  rs_id :: nat \<comment> \<open>\<open>this\<close>\<close>
  rs_hs :: rtmp_hs
  rs_role :: rtmp_role
  rs_in :: rtmp_in
  rs_out :: rtmp_out
  rs_pending :: rtmp_message \<comment> \<open>\<open>pending_rtmp_msg_\<close>\<close>
  rs_app :: bytes
  rs_tc_url :: bytes
  rs_stream :: bytes
  rs_domain :: bytes
  rs_transaction :: nat \<comment> \<open>\<open>transaction_id_\<close>, a double that counts from 0 by 1\<close>
  rs_last_command :: bytes
  rs_commands :: "(nat, bytes) smap" \<comment> \<open>\<open>id_command_\<close>\<close>
  rs_can_publish :: bool
  rs_publisher :: "nat option" \<comment> \<open>\<open>publisher_\<close>\<close>
  rs_pub :: publisher \<comment> \<open>the \<open>MediaPublisher\<close> base\<close>

definition rs_new :: "nat \<Rightarrow> rtmp_session" where
  "rs_new me =
     \<lparr>rs_id = me, rs_hs = \<lparr>hs_status = kStatus_0, hs_version = 3, hs_scheme = 0, hs_encrypted = False\<rparr>,
      rs_role = kUnknownRtmpRole, rs_in = \<lparr>ri_chunk_size = 128, ri_head = Map.empty, ri_fault = False\<rparr>,
      rs_out = \<lparr>ro_chunk_size = 128, ro_pre = Map.empty\<rparr>, rs_pending = rm_new, rs_app = [], rs_tc_url = [], rs_stream = [],
      rs_domain = [], rs_transaction = 0, rs_last_command = [], rs_commands = [], rs_can_publish = False,
      rs_publisher = None, rs_pub = pb_new\<rparr>"

datatype effect =
    ESend bytes \<comment> \<open>\<open>socket_->Send\<close>\<close>
  | ECall nat sent \<comment> \<open>a call on a subscriber of this publisher\<close>
  | EWebrtc payload \<comment> \<open>\<open>WebrtcProtocol::BroadcastH264\<close>\<close>
  | EAdd nat \<comment> \<open>\<open>AddSubscriber(this)\<close> on that publisher\<close>
  | ERemove nat \<comment> \<open>\<open>RemoveSubscriber(this)\<close>\<close>
  | EStop nat \<comment> \<open>\<open>OnStop\<close> of a subscriber\<close>

record rtmp_env =
  re_i2d :: "64 word \<Rightarrow> u64" \<comment> \<open>\<open>int64_t\<close> to double\<close>
  re_d2u :: "u64 \<Rightarrow> u32" \<comment> \<open>double to \<open>uint32_t\<close>\<close>
  re_srt :: "nat \<Rightarrow> bool" \<comment> \<open>which subscribers are SRT\<close>
  re_mem :: "nat \<Rightarrow> u8" \<comment> \<open>uninitialised memory\<close>
  re_show_ms :: "int \<Rightarrow> bytes" \<comment> \<open>a duration as \<open>operator<<\<close> prints it\<close>

definition rs_is_client :: "rtmp_session \<Rightarrow> bool" where
  "rs_is_client s \<longleftrightarrow> rs_role s = kPushServer \<or> rs_role s = kPullServer"

definition rs_is_server :: "rtmp_session \<Rightarrow> bool" where
  "rs_is_server s \<longleftrightarrow> rs_role s = kClientPull \<or> rs_role s = kClientPush"

definition ecalls :: "(nat \<times> sent) list \<Rightarrow> effect list" where
  "ecalls out = map (\<lambda>(s, c). ECall s c) out"

section \<open>Media messages\<close>

type_synonym media_result = "parsed \<times> effect list \<times> publisher"

definition rtmp_on_audio :: "rtmp_env \<Rightarrow> rtmp_message \<Rightarrow> publisher \<Rightarrow> media_result" where
  "rtmp_on_audio env m b =
     (if 2 \<le> unat (rm_len m) then
        let (_, sound_format, b1) = bb_get_bits 4 (0xff :: u8) (bb_new (take 2 (rm_msg m)));
            (_, sound_rate, b2) = bb_get_bits 2 (0xff :: u8) b1;
            (_, sound_size, b3) = bb_get_bits 1 (0xff :: u8) b2;
            (_, sound_type, b4) = bb_get_bits 1 (0xff :: u8) b3;
            (_, aac_packet_type, _) = bb_get_bits 8 (0xff :: u8) b4
        in if sound_format = 10 then
             if aac_packet_type = 0 then
               let (out, p) = pb_on_audio_header (drop 2 (rm_msg m)) b in (Ret kSuccess, ecalls out, p)
             else
               let calc = ucast (rm_timestamp_calc m);
                   audio = pl_set_pts calc (pl_set_dts calc (pl_set_audio (pl_new 0 0 (rm_msg m) (ucast (rm_len m)))));
                   (out, p) = pb_on_audio (re_srt env) (re_mem env) audio b
               in (Ret kSuccess, ecalls out, p)
           else (Ret kSuccess, [], b)
      else (Abort, [], b))"

definition rtmp_composition_time :: "u8 \<Rightarrow> u8 \<Rightarrow> u8 \<Rightarrow> u32" where
  \<comment> \<open>\<open>int32_t\<close> and \<open>uint32_t\<close> of the same pattern\<close>
  "rtmp_composition_time a b c =
     ((push_bit 16 (ucast a) OR push_bit 8 (ucast b) OR ucast c) + 0xFF800000) XOR 0xFF800000"

datatype nalus_end = NalusDone | NalusTooLong | NalusOverread

function rtmp_nalus :: "nat \<Rightarrow> bytes \<Rightarrow> bytes list \<times> nalus_end" where
  \<comment> \<open>the loop of \<open>OnVideo\<close> from \<open>data + cur_len\<close> on: each length is compared with the length of all NALUs; then
     the header byte is read, and length and NALU copied\<close>
  "rtmp_nalus raw_len data =
     (if data = [] then ([], NalusDone)
      else if length data < 4 then ([], NalusOverread)
      else
        let nalu_len = be_val (take 4 data)
        in if raw_len < nalu_len then ([], NalusTooLong)
           else if length data < 5 \<or> length data < nalu_len + 4 then ([], NalusOverread)
           else let (nalus, e) = rtmp_nalus raw_len (drop (nalu_len + 4) data)
                in (take (nalu_len + 4) data # nalus, e))"
  by pat_completeness auto

termination
  by (relation "measure (\<lambda>(_, data). length data)") auto

declare rtmp_nalus.simps [simp del]

definition nalu_type :: "bytes \<Rightarrow> u8" where
  "nalu_type nalu = nalu ! 4 AND 0x1F"

definition rtmp_video_payload :: "u32 \<Rightarrow> bytes \<Rightarrow> payload" where
  "rtmp_video_payload calc nalu =
     pl_set_pts (ucast calc) (pl_set_dts (ucast calc) (pl_set_video (pl_new 0 0 nalu (word_of_nat (length nalu)))))"

definition rtmp_on_nalu :: "rtmp_env \<Rightarrow> u32 \<Rightarrow> u32 \<Rightarrow> bytes \<Rightarrow> bool \<times> publisher \<Rightarrow> effect list \<times> bool \<times> publisher" where
  \<comment> \<open>one round of the loop; the flag is \<open>to_media_muxer\<close>, which parameter sets leave as it was\<close>
  "rtmp_on_nalu env calc cto nalu st =
     (let (flag, b) = st;
          t = nalu_type nalu;
          video = rtmp_video_payload calc nalu;
          webrtc = (if t \<noteq> 6 then [EWebrtc video] else []);
          (flag1, frame) =
            (if t = H264NalType_SEI then (False, video)
             else if t = H264NalType_SPS then (flag, video)
             else if t = H264NalType_PPS then (flag, video)
             else if t = H264NalType_IDR_SLICE then (True, pl_set_pts (ucast (calc + cto)) (pl_set_iframe video))
             else if t = H264NalType_SLICE then (True, pl_set_pts (ucast (calc + cto)) video)
             else (False, video))
      in if flag1
         then let (out, b1) = pb_on_video (re_srt env) (re_mem env) (re_show_ms env) frame b in (webrtc @ ecalls out, flag1, b1)
         else (webrtc, flag1, b))"

fun rtmp_on_nalus :: "rtmp_env \<Rightarrow> u32 \<Rightarrow> u32 \<Rightarrow> bytes list \<Rightarrow> bool \<times> publisher \<Rightarrow> effect list \<times> publisher" where
  "rtmp_on_nalus env calc cto [] st = ([], snd st)"
| "rtmp_on_nalus env calc cto (nalu # nalus) st =
     (let (out, st1) = rtmp_on_nalu env calc cto nalu st; (out2, b) = rtmp_on_nalus env calc cto nalus st1 in (out @ out2, b))"

definition rtmp_on_video_header :: "rtmp_env \<Rightarrow> rtmp_message \<Rightarrow> publisher \<Rightarrow> media_result" where
  \<comment> \<open>\<open>len - 5\<close> wraps around below 5; the first four bytes of the two payloads are not initialised; \<open>substr\<close> throws
     when the position is behind the end\<close>
  "rtmp_on_video_header env m b =
     (if unat (rm_len m) < 5 then (Fault, [], b)
      else
        let video_header = drop 5 (rm_msg m);
            h1 = drop 6 video_header;
            sps_len = unat (byte_at h1 0) * 256 + unat (byte_at h1 1);
            h2 = drop 2 h1;
            sps = take sps_len h2
        in if h1 = [] then (Fault, [], b)
           else if length h2 < sps_len + 3 then (Abort, [], b)
           else
             let pps = drop (sps_len + 3) h2;
                 raw = map (re_mem env) [0..<4];
                 calc = ucast (rm_timestamp_calc m);
                 wrap = (\<lambda>ps. pl_set_dts calc (pl_set_video (pl_new 0 0 (raw @ ps) (word_of_nat (length ps + 4)))));
                 (out, b1) = pb_on_video_header video_header b
             in (Ret kSuccess, [EWebrtc (wrap sps), EWebrtc (wrap pps)] @ ecalls out, b1))"

definition rtmp_on_video :: "rtmp_env \<Rightarrow> rtmp_message \<Rightarrow> publisher \<Rightarrow> media_result" where
  "rtmp_on_video env m b =
     (if 2 \<le> unat (rm_len m) then
        let (_, frame_type, b1) = bb_get_bits 4 (0xff :: u8) (bb_new (take 2 (rm_msg m)));
            (_, codec_id, b2) = bb_get_bits 4 (0xff :: u8) b1;
            (_, avc_packet_type, _) = bb_get_bits 8 (0xff :: u8) b2
        in if codec_id = 7 then
             if avc_packet_type = 0 then
               (case rtmp_on_video_header env m b of
                  (Ret _, out, p) \<Rightarrow> (Ret kSuccess, out, p)
                | res \<Rightarrow> res)
             else if 5 < unat (rm_len m) then
               let cto = rtmp_composition_time (rm_msg m ! 2) (rm_msg m ! 3) (rm_msg m ! 4);
                   data = drop 5 (rm_msg m);
                   (nalus, e) = rtmp_nalus (length data) data;
                   (out, p) = rtmp_on_nalus env (rm_timestamp_calc m) cto nalus (False, b)
               in (case e of NalusDone \<Rightarrow> Ret kSuccess | NalusTooLong \<Rightarrow> Abort | NalusOverread \<Rightarrow> Fault, out, p)
             else (Ret kSuccess, [], b)
           else (Ret kSuccess, [], b)
      else (Abort, [], b))"

section \<open>Sending commands\<close>

fun bit_len :: "nat \<Rightarrow> nat" where
  "bit_len n = (if n = 0 then 0 else Suc (bit_len (n div 2)))"

declare bit_len.simps [simp del]

definition double_of_nat :: "nat \<Rightarrow> u64" where
  \<comment> \<open>the pattern of the double of that value, exact below \<open>2 ^ 53\<close>\<close>
  "double_of_nat n =
     (if n = 0 then 0
      else let e = bit_len n - 1 in word_of_nat ((1023 + e) * 2 ^ 52 + (n * 2 ^ (52 - e) - 2 ^ 52)))"

definition double_neg :: "u64 \<Rightarrow> u64" where
  "double_neg d = d XOR push_bit 63 1"

definition double_is_nan :: "u64 \<Rightarrow> bool" where
  "double_is_nan d \<longleftrightarrow> drop_bit 52 d AND 0x7FF = 0x7FF \<and> take_bit 52 d \<noteq> 0"

definition str :: "string \<Rightarrow> any option" where
  "str s = Some (AString (bs s))"

definition num :: "nat \<Rightarrow> any option" where
  "num n = Some (ADouble (double_of_nat n))"

definition rs_send_message :: "u32 \<Rightarrow> u32 \<Rightarrow> u8 \<Rightarrow> bytes \<Rightarrow> rtmp_session \<Rightarrow> effect list \<times> rtmp_session" where
  \<comment> \<open>\<open>SendRtmpMessage\<close>\<close>
  "rs_send_message cs_id message_stream_id message_type_id data s =
     (let (out, ro) = rtmp_send_message cs_id message_stream_id message_type_id data (rs_out s)
      in (map ESend out, s\<lparr>rs_out := ro\<rparr>))"

fun rs_seq :: "(rtmp_session \<Rightarrow> effect list \<times> rtmp_session) list \<Rightarrow> rtmp_session \<Rightarrow> effect list \<times> rtmp_session" where
  \<comment> \<open>statements one after the other\<close>
  "rs_seq [] s = ([], s)"
| "rs_seq (f # fs) s = (let (out, s1) = f s; (out2, s2) = rs_seq fs s1 in (out @ out2, s2))"

definition rs_set_out_chunk_size :: "u32 \<Rightarrow> rtmp_session \<Rightarrow> effect list \<times> rtmp_session" where
  "rs_set_out_chunk_size chunk_size s =
     rs_send_message 2 0 kSetChunkSize (be 4 (unat chunk_size)) (s\<lparr>rs_out := (rs_out s)\<lparr>ro_chunk_size := chunk_size\<rparr>\<rparr>)"

definition rs_set_window_acknowledgement_size :: "u32 \<Rightarrow> rtmp_session \<Rightarrow> effect list \<times> rtmp_session" where
  "rs_set_window_acknowledgement_size n = rs_send_message 2 0 kWindowAcknowledgementSize (be 4 (unat n))"

definition rs_set_peer_bandwidth :: "u32 \<Rightarrow> u8 \<Rightarrow> rtmp_session \<Rightarrow> effect list \<times> rtmp_session" where
  "rs_set_peer_bandwidth n limit_type = rs_send_message 2 0 kSetPeerBandwidth (be 4 (unat n) @ [limit_type])"

definition rs_send_user_control_message :: "u16 \<Rightarrow> u32 \<Rightarrow> rtmp_session \<Rightarrow> effect list \<times> rtmp_session" where
  "rs_send_user_control_message event data = rs_send_message 2 0 kUserControlMessage (be 2 (unat event) @ be 4 (unat data))"

definition rs_amf :: "rtmp_env \<Rightarrow> any option list \<Rightarrow> (bytes \<Rightarrow> rtmp_session \<Rightarrow> effect list \<times> rtmp_session) \<Rightarrow>
    rtmp_session \<Rightarrow> effect list \<times> rtmp_session" where
  \<comment> \<open>\<open>Amf0::Encode\<close>, then what is done with the bytes, if there are any\<close>
  "rs_amf env vs f s =
     (case amf_encode_all (re_i2d env) vs of
        None \<Rightarrow> ([], s)
      | Some (ret, out) \<Rightarrow> if ret = 0 \<and> out \<noteq> [] then f out s else ([], s))"

definition rs_send_bw_done :: "rtmp_env \<Rightarrow> rtmp_session \<Rightarrow> effect list \<times> rtmp_session" where
  "rs_send_bw_done env =
     rs_amf env [str ''onBWDone'', num 0, Some ANull] (rs_send_message 2 0 kAmf0Command)"

definition rs_command :: "rtmp_env \<Rightarrow> u32 \<Rightarrow> u32 \<Rightarrow> string \<Rightarrow> any option list \<Rightarrow> rtmp_session \<Rightarrow> effect list \<times> rtmp_session" where
  \<comment> \<open>what the senders below share: the next transaction id, the message, and the entry in \<open>id_command_\<close>\<close>
  "rs_command env cs_id message_stream_id name args s =
     (let s1 = s\<lparr>rs_transaction := rs_transaction s + 1\<rparr>
      in rs_amf env (str name # num (rs_transaction s1) # args)
           (\<lambda>data s2. let (out, s3) = rs_send_message cs_id message_stream_id kAmf0Command data s2
                      in (out, s3\<lparr>rs_last_command := bs name, rs_commands := sm_put (rs_transaction s3) (bs name) (rs_commands s3)\<rparr>)) s1)"

definition rs_send_connect :: "rtmp_env \<Rightarrow> bytes \<Rightarrow> rtmp_session \<Rightarrow> effect list \<times> rtmp_session" where
  "rs_send_connect env url s =
     (let u = (case parse_rtmp_url url of Some (Some u) \<Rightarrow> u
                 | _ \<Rightarrow> \<lparr>ru_ip = [], ru_port = None, ru_app = [], ru_stream = [], ru_args = []\<rparr>)
      in rs_command env 3 0 ''connect''
           [Some (AMap [(bs ''app'', Some (AString (ru_app u))),
                        (bs ''tcUrl'', Some (AString (bs ''rtmp://'' @ ru_ip u @ bs ''/'' @ ru_app u)))]),
            Some (AMap [])] (s\<lparr>rs_stream := ru_stream u\<rparr>))"

definition rs_send_create_stream :: "rtmp_env \<Rightarrow> rtmp_session \<Rightarrow> effect list \<times> rtmp_session" where
  "rs_send_create_stream env = rs_command env 3 0 ''createStream'' [Some ANull]"

definition rs_send_release_stream :: "rtmp_env \<Rightarrow> rtmp_session \<Rightarrow> effect list \<times> rtmp_session" where
  "rs_send_release_stream env s = rs_command env 3 0 ''releaseStream'' [Some ANull, Some (AString (rs_stream s))] s"

definition rs_send_fcpublish :: "rtmp_env \<Rightarrow> rtmp_session \<Rightarrow> effect list \<times> rtmp_session" where
  "rs_send_fcpublish env = rs_command env 8 1 ''FCPublish'' [Some ANull, str '''']"

definition rs_send_check_bw :: "rtmp_env \<Rightarrow> rtmp_session \<Rightarrow> effect list \<times> rtmp_session" where
  "rs_send_check_bw env = rs_command env 3 0 ''_checkbw'' [Some ANull]"

definition rs_send_publish :: "rtmp_env \<Rightarrow> u64 \<Rightarrow> rtmp_session \<Rightarrow> effect list \<times> rtmp_session" where
  "rs_send_publish env stream_id s =
     rs_command env 8 (re_d2u env stream_id) ''publish'' [Some ANull, Some (AString (rs_stream s)), str ''live''] s"

definition rs_send_play :: "rtmp_env \<Rightarrow> u64 \<Rightarrow> rtmp_session \<Rightarrow> effect list \<times> rtmp_session" where
  "rs_send_play env stream_id s =
     rs_command env 8 (re_d2u env stream_id) ''play''
       [Some ANull, Some (AString (rs_stream s)), Some (ADouble (double_neg (double_of_nat 2))), Some (ADouble (double_neg (double_of_nat 1)))] s"

section \<open>Commands received\<close>

type_synonym rtmp_result = "parsed \<times> effect list \<times> stream_center \<times> rtmp_session"

definition rs_find_command :: "u64 \<Rightarrow> (nat, bytes) smap \<Rightarrow> bytes option" where
  \<comment> \<open>\<open>id_command_.count\<close> and \<open>operator[]\<close>: for NaN, which is not below or above any key, the map finds its first entry\<close>
  "rs_find_command d m =
     (if double_is_nan d then (case m of [] \<Rightarrow> None | (_, c) # _ \<Rightarrow> Some c)
      else case filter (\<lambda>(n, _). double_of_nat n = d) m of [] \<Rightarrow> None | (_, c) # _ \<Rightarrow> Some c)"

fun rs_connect_object :: "(bytes \<times> any option) list \<Rightarrow> rtmp_session \<Rightarrow> rtmp_session option" where
  \<comment> \<open>the loop on the command object; \<open>None\<close> when a value is NULL\<close>
  "rs_connect_object [] s = Some s"
| "rs_connect_object ((k, v) # kvs) s =
     (if k = bs ''app'' then
        (case v of
           None \<Rightarrow> None
         | Some a \<Rightarrow>
             (case any_get_string a of
                None \<Rightarrow> rs_connect_object kvs s
              | Some app \<Rightarrow>
                  rs_connect_object kvs (s\<lparr>rs_app := (case str_find app (bs ''/'') of None \<Rightarrow> app | Some pos \<Rightarrow> substr app 0 pos)\<rparr>)))
      else if k = bs ''tcUrl'' then
        (case v of
           None \<Rightarrow> None
         | Some a \<Rightarrow>
             (case any_get_string a of
                None \<Rightarrow> rs_connect_object kvs s
              | Some url \<Rightarrow>
                  let s1 = s\<lparr>rs_tc_url := url\<rparr>
                  in rs_connect_object kvs
                       (case parse_rtmp_url url of Some (Some u) \<Rightarrow> if ru_stream u \<noteq> [] then s1\<lparr>rs_stream := ru_stream u\<rparr> else s1 | _ \<Rightarrow> s1)))
      else rs_connect_object kvs s)"

definition cmd_double :: "any option \<Rightarrow> u64 \<Rightarrow> u64" where
  "cmd_double v old = (case v of None \<Rightarrow> old | Some a \<Rightarrow> (case any_get_double a of None \<Rightarrow> old | Some d \<Rightarrow> d))"

definition rtmp_on_connect :: "rtmp_env \<Rightarrow> any option list \<Rightarrow> rtmp_session \<Rightarrow> parsed \<times> effect list \<times> rtmp_session" where
  "rtmp_on_connect env c s =
     (if length c < 3 then (Ret kSuccess, [], s)
      else if c ! 1 = None \<or> c ! 2 = None then (Fault, [], s)
      else
        let trans_id = cmd_double (c ! 1) 0;
            command_object = (case any_get_map (the (c ! 2)) of None \<Rightarrow> [] | Some m \<Rightarrow> m)
        in case rs_connect_object command_object s of
             None \<Rightarrow> (Fault, [], s)
           | Some s1 \<Rightarrow>
               if rs_app s1 = [] then (Ret kSuccess, [], s1)
               else
                 let (out, s2) =
                   rs_amf env
                     [str ''_result'', Some (ADouble trans_id),
                      Some (AMap [(bs ''fmsVer'', str ''FMS/3,5,3,888''), (bs ''capabilities'', num 127), (bs ''mode'', num 1)]),
                      Some (AMap [(bs ''level'', str ''status''), (bs ''code'', str ''NetConnection.Connect.Success''),
                                  (bs ''description'', str ''Connection succeeded''), (bs ''objectEncoding'', num 0)])]
                     (\<lambda>data. rs_seq [rs_set_window_acknowledgement_size 2500000, rs_set_peer_bandwidth 2500000 2,
                        rs_set_out_chunk_size 60000, rs_send_user_control_message 0 0, rs_send_message 3 0 kAmf0Command data,
                        rs_send_bw_done env]) s1
                 in (Ret kSuccess, out, s2))"

definition rtmp_start_message :: "string \<Rightarrow> any option list" where
  \<comment> \<open>\<open>onStatus\<close> with that code\<close>
  "rtmp_start_message code = [str ''onStatus'', num 0, Some ANull, Some (AMap [(bs ''code'', str code)])]"

definition rs_start_playing :: "rtmp_env \<Rightarrow> rtmp_message \<Rightarrow> nat \<Rightarrow> rtmp_session \<Rightarrow> effect list \<times> rtmp_session" where
  \<comment> \<open>the second half of \<open>OnPlayCommand\<close> and of \<open>OnPendingArrive\<close>\<close>
  "rs_start_playing env m p s =
     rs_amf env (rtmp_start_message ''NetStream.Play.Start'')
       (\<lambda>data s1. let (out, s2) = rs_send_message (rm_cs_id m) (rm_message_stream_id m) kAmf0Command data s1
                  in (out @ [EAdd p], s2\<lparr>rs_publisher := Some p\<rparr>)) s"

definition rtmp_on_play :: "rtmp_env \<Rightarrow> rtmp_message \<Rightarrow> any option list \<Rightarrow> stream_center \<Rightarrow> rtmp_session \<Rightarrow> parsed \<times> effect list \<times> rtmp_session" where
  "rtmp_on_play env m c center s0 =
     (let s = s0\<lparr>rs_role := kClientPull\<rparr>
      in if length c < 4 then (Ret kSuccess, [], s)
         else if c ! 1 = None \<or> rs_stream s = [] \<and> c ! 3 = None then (Fault, [], s)
         else
           let s1 = (if rs_stream s = []
                     then (case any_get_string (the (c ! 3)) of None \<Rightarrow> s | Some stream \<Rightarrow> s\<lparr>rs_stream := stream\<rparr>) else s)
           in case sc_get (rs_app s1) (rs_stream s1) center of
                None \<Rightarrow> (Ret kError, [], s1)
              | Some p \<Rightarrow> let (out, s2) = rs_start_playing env m p s1 in (Ret kSuccess, out, s2))"

definition rtmp_on_pending_arrive :: "rtmp_env \<Rightarrow> stream_center \<Rightarrow> rtmp_session \<Rightarrow> parsed \<times> effect list \<times> rtmp_session" where
  "rtmp_on_pending_arrive env center s =
     (case sc_get (rs_app s) (rs_stream s) center of
        None \<Rightarrow> (Ret kClose, [], s)
      | Some p \<Rightarrow> let (out, s2) = rs_start_playing env (rs_pending s) p s in (Ret kSuccess, out, s2))"

definition rtmp_on_publish :: "rtmp_env \<Rightarrow> rtmp_message \<Rightarrow> any option list \<Rightarrow> stream_center \<Rightarrow> rtmp_session \<Rightarrow> rtmp_result" where
  \<comment> \<open>with a stream name from the URL a refused registration is only logged\<close>
  "rtmp_on_publish env m c center s0 =
     (let s = s0\<lparr>rs_role := kClientPush\<rparr>;
          finish = (\<lambda>center2 s2.
            let (out, s3) = rs_amf env (rtmp_start_message ''NetStream.Publish.Start'')
                  (\<lambda>data. rs_seq [rs_send_user_control_message 0 0,
                     rs_send_message (rm_cs_id m) (rm_message_stream_id m) kAmf0Command data]) s2
            in (Ret kSuccess, out, center2, s3))
      in if length c < 5 then (Ret kSuccess, [], center, s)
         else if c ! 1 = None \<or> rs_stream s = [] \<and> c ! 3 = None then (Fault, [], center, s)
         else if rs_stream s = [] then
           (case any_get_string (the (c ! 3)) of
              None \<Rightarrow> finish center s
            | Some stream \<Rightarrow>
                let s1 = s\<lparr>rs_stream := (case str_find stream (bs ''?'') of None \<Rightarrow> stream | Some pos \<Rightarrow> substr stream 0 pos)\<rparr>;
                    (ok, center1) = sc_register (rs_app s1) (rs_stream s1) (rs_id s1) center
                in if \<not> ok then (Ret kError, [], center1, s1) else finish center1 s1)
         else finish (snd (sc_register (rs_app s) (rs_stream s) (rs_id s) center)) s)"

definition rtmp_on_create_stream :: "rtmp_env \<Rightarrow> rtmp_message \<Rightarrow> any option list \<Rightarrow> rtmp_session \<Rightarrow> parsed \<times> effect list \<times> rtmp_session" where
  "rtmp_on_create_stream env m c s =
     (if length c < 3 then (Ret kSuccess, [], s)
      else case c ! 1 of
        None \<Rightarrow> (Fault, [], s)
      | Some a \<Rightarrow>
          (case any_get_double a of
             None \<Rightarrow> (Ret kSuccess, [], s)
           | Some trans_id \<Rightarrow>
               let (out, s1) = rs_amf env [str ''_result'', Some (ADouble trans_id), Some ANull, num 1]
                     (rs_send_message (rm_cs_id m) (rm_message_stream_id m) kAmf0Command) s
               in (Ret kSuccess, out, s1)))"

definition rtmp_on_result :: "rtmp_env \<Rightarrow> any option list \<Rightarrow> rtmp_session \<Rightarrow> parsed \<times> effect list \<times> rtmp_session" where
  "rtmp_on_result env c s =
     (if 2 \<le> length c \<and> c ! 1 = None then (Fault, [], s)
      else
        let transaction_id = (if 2 \<le> length c then cmd_double (c ! 1) 0 else 0)
        in case rs_find_command transaction_id (rs_commands s) of
             None \<Rightarrow> (Ret kSuccess, [], s)
           | Some pre_call \<Rightarrow>
               let (out, s1) =
                 (if pre_call = bs ''connect'' then
                    if rs_role s = kPushServer
                    then rs_seq [rs_send_release_stream env, rs_send_fcpublish env, rs_send_create_stream env, rs_send_check_bw env] s
                    else if rs_role s = kPullServer then rs_send_create_stream env s
                    else ([], s)
                  else if pre_call = bs ''createStream'' then
                    let stream_id = (if 4 \<le> length c then cmd_double (c ! 3) (double_of_nat 1) else double_of_nat 1)
                    in if rs_role s = kPushServer then rs_send_publish env stream_id s
                       else if rs_role s = kPullServer then rs_send_play env stream_id s
                       else ([], s)
                  else ([], s))
               in (Ret kSuccess, out, s1))"

definition rtmp_on_status :: "rtmp_session \<Rightarrow> parsed \<times> effect list \<times> rtmp_session" where
  "rtmp_on_status s =
     (if rs_last_command s = bs ''publish'' \<and> \<not> rs_can_publish s then
        let s1 = s\<lparr>rs_can_publish := True\<rparr>
        in if rs_role s = kPushServer \<or> rs_role s = kClientPull
           then (case rs_publisher s of None \<Rightarrow> (Fault, [], s1) | Some p \<Rightarrow> (Ret kSuccess, [EAdd p], s1))
           else (Ret kSuccess, [], s1)
      else (Ret kSuccess, [], s))"

section \<open>Dispatch\<close>

definition kMetaData_AMF3 :: u8 where "kMetaData_AMF3 = 15"

definition no_center :: "stream_center \<Rightarrow> parsed \<times> effect list \<times> rtmp_session \<Rightarrow> rtmp_result" where
  "no_center center r = (case r of (res, out, s) \<Rightarrow> (res, out, center, s))"

definition media_only :: "stream_center \<Rightarrow> rtmp_session \<Rightarrow> media_result \<Rightarrow> rtmp_result" where
  "media_only center s r = (case r of (res, out, b) \<Rightarrow> (res, out, center, s\<lparr>rs_pub := b\<rparr>))"

definition rtmp_on_amf0 :: "rtmp_env \<Rightarrow> rtmp_message \<Rightarrow> stream_center \<Rightarrow> rtmp_session \<Rightarrow> rtmp_result" where
  "rtmp_on_amf0 env m center s =
     (case amf_decode (rm_msg m) of
        None \<Rightarrow> (Abort, [], center, s)
      | Some (ret, c) \<Rightarrow>
          if ret \<noteq> 0 \<or> c = [] then (Ret kSuccess, [], center, s)
          else case c ! 0 of
            None \<Rightarrow> (Fault, [], center, s)
          | Some a \<Rightarrow>
              (case any_get_string a of
                 None \<Rightarrow> (Abort, [], center, s)
               | Some command \<Rightarrow>
                   if command = bs ''connect'' then no_center center (rtmp_on_connect env c s)
                   else if command = bs ''play'' then no_center center (rtmp_on_play env m c center s)
                   else if command = bs ''publish'' then rtmp_on_publish env m c center s
                   else if command = bs ''createStream'' then no_center center (rtmp_on_create_stream env m c s)
                   else if command = bs ''_result'' then no_center center (rtmp_on_result env c s)
                   else if command = bs ''onStatus'' then no_center center (rtmp_on_status s)
                   else (Ret kSuccess, [], center, s)))"

definition rtmp_on_set_chunk_size :: "rtmp_message \<Rightarrow> rtmp_session \<Rightarrow> parsed \<times> effect list \<times> rtmp_session" where
  \<comment> \<open>a message too short reads as 0\<close>
  "rtmp_on_set_chunk_size m s =
     (let (_, chunk_size, _) = bb_get_bytes 4 (bb_new (rm_msg m))
      in (Ret kSuccess, [], s\<lparr>rs_in := (rs_in s)\<lparr>ri_chunk_size := chunk_size\<rparr>\<rparr>))"

definition rtmp_on_window_acknowledgement_size :: "rtmp_session \<Rightarrow> parsed \<times> effect list \<times> rtmp_session" where
  "rtmp_on_window_acknowledgement_size s = (let (out, s1) = rs_send_user_control_message 0 0 s in (Ret kSuccess, out, s1))"

definition rtmp_on_metadata :: "rtmp_message \<Rightarrow> publisher \<Rightarrow> media_result" where
  "rtmp_on_metadata m b =
     (if amf_decode (rm_msg m) = None then Abort else Ret kSuccess, [], b\<lparr>pb_mm := mm_on_metadata (rm_msg m) (pb_mm b)\<rparr>)"

definition rtmp_on_message :: "rtmp_env \<Rightarrow> rtmp_message \<Rightarrow> stream_center \<Rightarrow> rtmp_session \<Rightarrow> rtmp_result" where
  "rtmp_on_message env m center s =
     (let t = rm_message_type_id m
      in if t = 0 then (Ret kSuccess, [], center, s)
         else if t = kSetChunkSize then no_center center (rtmp_on_set_chunk_size m s)
         else if t = kAcknowledgement then (Ret kSuccess, [], center, s)
         else if t = kWindowAcknowledgementSize then no_center center (rtmp_on_window_acknowledgement_size s)
         else if t = kSetPeerBandwidth then (Ret kSuccess, [], center, s)
         else if t = kUserControlMessage then (Ret kSuccess, [], center, s)
         else if t = kAudio then media_only center s (rtmp_on_audio env m (rs_pub s))
         else if t = kVideo then media_only center s (rtmp_on_video env m (rs_pub s))
         else if t = kAmf0Command then rtmp_on_amf0 env m center s
         else if t = kMetaData_AMF3 then (Ret kSuccess, [], center, s)
         else if t = kMetaData_AMF0 then media_only center s (rtmp_on_metadata m (rs_pub s))
         else (Ret kError, [], center, s))"

section \<open>The connection\<close>

definition rtmp_handle_close :: "stream_center \<Rightarrow> rtmp_session \<Rightarrow> rtmp_result" where
  "rtmp_handle_close center s0 =
     (let s = s0\<lparr>rs_in := (rs_in s0)\<lparr>ri_head := Map.empty\<rparr>\<rparr>
      in if rs_role s = kClientPush then
           (Ret kSuccess, map EStop (pb_subs (rs_pub s)), snd (sc_unregister (rs_app s) (rs_stream s) (rs_id s) center), s)
         else if rs_role s = kPushServer \<or> rs_role s = kClientPull then
           (Ret kSuccess, (case rs_publisher s of None \<Rightarrow> [] | Some p \<Rightarrow> [ERemove p]), center, s)
         else (Ret kSuccess, [], center, s))"

definition rtmp_every_second :: "u64 \<Rightarrow> rtmp_session \<Rightarrow> rtmp_session" where
  "rtmp_every_second now s =
     (if rs_role s = kClientPush \<or> rs_role s = kPullServer
      then s\<lparr>rs_pub := (rs_pub s)\<lparr>pb_mm := mm_every_second now (pb_mm (rs_pub s))\<rparr>\<rparr> else s)"

definition rtmp_handle_connected :: "hs_env \<Rightarrow> rtmp_session \<Rightarrow> effect list \<times> rtmp_session" where
  "rtmp_handle_connected henv s =
     (if rs_is_client s \<and> hs_status (rs_hs s) = kStatus_0
      then let (out, h) = hs_client_hello henv (rs_hs s) in ([ESend (take 1 out), ESend (drop 1 out)], s\<lparr>rs_hs := h\<rparr>)
      else ([], s))"

definition rtmp_parse :: "hs_env \<Rightarrow> rtmp_env \<Rightarrow> stream_center \<Rightarrow> rtmp_session \<Rightarrow> bytes \<Rightarrow> rtmp_result \<times> bytes" where
  \<comment> \<open>one call of \<open>Parse\<close>; the last component is what stays in the buffer\<close>
  "rtmp_parse henv env center s xs =
     (if hs_status (rs_hs s) = kStatus_Done then
        (case rtmp_read_chunk (rs_in s) xs of
           (ChunkNoData, st, ys) \<Rightarrow> ((Ret kNoEnoughData, [], center, s\<lparr>rs_in := st\<rparr>), ys)
         | (ChunkMore, st, ys) \<Rightarrow> ((Ret kSuccess, [], center, s\<lparr>rs_in := st\<rparr>), ys)
         | (ChunkMessage cs_id, st, ys) \<Rightarrow>
             let (m, st1) = rtmp_take_message cs_id st in (rtmp_on_message env m center (s\<lparr>rs_in := st1\<rparr>), ys))
      else if rs_is_client s then
        (case hs_client henv (rs_hs s) xs of
           (res, out, h, ys) \<Rightarrow>
             let s1 = s\<lparr>rs_hs := h\<rparr>
             in if res = Ret kSuccess then
                  let (out2, s2) = rs_seq [rs_set_out_chunk_size (1024 * 64),
                        rs_send_connect env (bs ''rtmp://'' @ rs_domain s @ bs ''/'' @ rs_app s @ bs ''/'' @ rs_stream s)] s1
                  in ((res, ESend out # out2, center, s2), ys)
                else ((res, [], center, s1), ys))
      else
        (case hs_server henv (rs_hs s) xs of
           (res, out, h, ys) \<Rightarrow> ((res, if out = [] then [] else [ESend out], center, s\<lparr>rs_hs := h\<rparr>), ys)))"

section \<open>What a message does not touch\<close>

text \<open>
  Handling a message neither reads nor changes the state of the handshake, and of the receiver it changes only the chunk
  size. \<open>rs_rebase\<close> replaces both parts of the state; an operation that commutes with it is \<open>rs_blind\<close> to them.
\<close>

definition rs_rebase :: "rtmp_in \<Rightarrow> rtmp_hs \<Rightarrow> rtmp_session \<Rightarrow> rtmp_session" where
  "rs_rebase a h s = s\<lparr>rs_in := a, rs_hs := h\<rparr>"

lemma rs_rebase_fields [simp]:
  "rs_in (rs_rebase a h s) = a" "rs_hs (rs_rebase a h s) = h" "rs_id (rs_rebase a h s) = rs_id s"
  "rs_role (rs_rebase a h s) = rs_role s" "rs_out (rs_rebase a h s) = rs_out s" "rs_pending (rs_rebase a h s) = rs_pending s"
  "rs_app (rs_rebase a h s) = rs_app s" "rs_tc_url (rs_rebase a h s) = rs_tc_url s" "rs_stream (rs_rebase a h s) = rs_stream s"
  "rs_domain (rs_rebase a h s) = rs_domain s" "rs_transaction (rs_rebase a h s) = rs_transaction s"
  "rs_last_command (rs_rebase a h s) = rs_last_command s" "rs_commands (rs_rebase a h s) = rs_commands s"
  "rs_can_publish (rs_rebase a h s) = rs_can_publish s" "rs_publisher (rs_rebase a h s) = rs_publisher s"
  "rs_pub (rs_rebase a h s) = rs_pub s"
  by (simp_all add: rs_rebase_def)

lemma rs_rebase_updates [simp]:
  "(rs_rebase a h s)\<lparr>rs_role := x1\<rparr> = rs_rebase a h (s\<lparr>rs_role := x1\<rparr>)"
  "(rs_rebase a h s)\<lparr>rs_out := x2\<rparr> = rs_rebase a h (s\<lparr>rs_out := x2\<rparr>)"
  "(rs_rebase a h s)\<lparr>rs_app := x3\<rparr> = rs_rebase a h (s\<lparr>rs_app := x3\<rparr>)"
  "(rs_rebase a h s)\<lparr>rs_tc_url := x3\<rparr> = rs_rebase a h (s\<lparr>rs_tc_url := x3\<rparr>)"
  "(rs_rebase a h s)\<lparr>rs_stream := x3\<rparr> = rs_rebase a h (s\<lparr>rs_stream := x3\<rparr>)"
  "(rs_rebase a h s)\<lparr>rs_transaction := x4\<rparr> = rs_rebase a h (s\<lparr>rs_transaction := x4\<rparr>)"
  "(rs_rebase a h s)\<lparr>rs_last_command := x3\<rparr> = rs_rebase a h (s\<lparr>rs_last_command := x3\<rparr>)"
  "(rs_rebase a h s)\<lparr>rs_commands := x5\<rparr> = rs_rebase a h (s\<lparr>rs_commands := x5\<rparr>)"
  "(rs_rebase a h s)\<lparr>rs_can_publish := x6\<rparr> = rs_rebase a h (s\<lparr>rs_can_publish := x6\<rparr>)"
  "(rs_rebase a h s)\<lparr>rs_publisher := x7\<rparr> = rs_rebase a h (s\<lparr>rs_publisher := x7\<rparr>)"
  "(rs_rebase a h s)\<lparr>rs_pub := x8\<rparr> = rs_rebase a h (s\<lparr>rs_pub := x8\<rparr>)"
  "(rs_rebase a h s)\<lparr>rs_in := a'\<rparr> = rs_rebase a' h s" "rs_rebase a h (s\<lparr>rs_in := a'\<rparr>) = rs_rebase a h s"
  "rs_rebase a h (rs_rebase a' h' s) = rs_rebase a h s" "rs_rebase (rs_in s) (rs_hs s) s = s"
  by (simp_all add: rs_rebase_def)

definition rs_blind :: "(rtmp_session \<Rightarrow> 'a \<times> rtmp_session) \<Rightarrow> bool" where
  "rs_blind f \<longleftrightarrow> (\<forall>a h s. f (rs_rebase a h s) = apsnd (rs_rebase a h) (f s))"

named_theorems blind \<open>operations that neither read nor change the receiver and the handshake\<close>

lemma rs_blindD: "rs_blind f \<Longrightarrow> f (rs_rebase a h s) = apsnd (rs_rebase a h) (f s)"
  by (simp add: rs_blind_def)

lemma rs_blindI: "(\<And>a h s. f (rs_rebase a h s) = apsnd (rs_rebase a h) (f s)) \<Longrightarrow> rs_blind f"
  by (simp add: rs_blind_def)

lemma blind_message [blind]: "rs_blind (rs_send_message cs sid ty data)"
  by (rule rs_blindI) (simp add: rs_send_message_def split_def Let_def)

lemma blind_seq [blind]: "list_all rs_blind fs \<Longrightarrow> rs_blind (rs_seq fs)"
proof (induction fs)
  case (Cons f fs)
  then show ?case by (intro rs_blindI) (simp add: rs_blindD split_def Let_def)
qed (simp add: rs_blind_def)

lemma blind_amf [blind]: "(\<And>d. rs_blind (f d)) \<Longrightarrow> rs_blind (rs_amf env vs f)"
  by (rule rs_blindI) (auto simp: rs_amf_def rs_blindD split: option.splits)

lemma blind_control [blind]:
  "rs_blind (rs_set_window_acknowledgement_size n)" "rs_blind (rs_set_peer_bandwidth n l)" "rs_blind (rs_send_user_control_message e d)"
  "rs_blind (rs_set_out_chunk_size c)" "rs_blind (rs_send_bw_done env)"
  unfolding rs_set_window_acknowledgement_size_def rs_set_peer_bandwidth_def rs_send_user_control_message_def rs_send_bw_done_def
  by (intro blind; simp)+ (rule rs_blindI, simp add: rs_set_out_chunk_size_def rs_blindD [OF blind_message], intro blind)

lemma blind_command [blind]: "rs_blind (rs_command env cs sid name args)"
proof (rule rs_blindI)
  fix a h s
  have "rs_blind (\<lambda>s2. let (out, s3) = rs_send_message cs sid kAmf0Command data s2
      in (out, s3\<lparr>rs_last_command := bs name, rs_commands := sm_put (rs_transaction s3) (bs name) (rs_commands s3)\<rparr>))" for data
    by (rule rs_blindI) (simp add: rs_blindD [OF blind_message] split_def Let_def)
  then have "rs_blind (rs_amf env vs (\<lambda>data s2. let (out, s3) = rs_send_message cs sid kAmf0Command data s2
      in (out, s3\<lparr>rs_last_command := bs name, rs_commands := sm_put (rs_transaction s3) (bs name) (rs_commands s3)\<rparr>)))" for vs
    by (rule blind_amf)
  from rs_blindD [OF this] show "rs_command env cs sid name args (rs_rebase a h s) = apsnd (rs_rebase a h) (rs_command env cs sid name args s)"
    by (simp add: rs_command_def Let_def)
qed

lemma blind_calls [blind]:
  "rs_blind (rs_send_connect env url)" "rs_blind (rs_send_create_stream env)" "rs_blind (rs_send_release_stream env)" "rs_blind (rs_send_fcpublish env)"
  "rs_blind (rs_send_check_bw env)" "rs_blind (rs_send_publish env sid)" "rs_blind (rs_send_play env sid)"
  by (rule rs_blindI, simp add: rs_send_connect_def rs_send_create_stream_def rs_send_release_stream_def rs_send_fcpublish_def
      rs_send_check_bw_def rs_send_publish_def rs_send_play_def rs_blindD [OF blind_command] Let_def)+

lemma rs_connect_object_rebase:
  "rs_connect_object kvs (rs_rebase a h s) = map_option (rs_rebase a h) (rs_connect_object kvs s)"
proof (induction kvs arbitrary: s)
  case (Cons kv kvs)
  then show ?case by (cases kv) (auto simp: Let_def split: option.splits)
qed simp

text \<open>The handlers of commands; the result and what they send do not depend on the replaced parts either.\<close>

definition rs_onto :: "rtmp_in \<Rightarrow> rtmp_hs \<Rightarrow> parsed \<times> effect list \<times> rtmp_session \<Rightarrow> parsed \<times> effect list \<times> rtmp_session" where
  "rs_onto a h r = (case r of (res, out, s) \<Rightarrow> (res, out, rs_rebase a h s))"

lemma rs_onto_simps [simp]: "rs_onto a h (res, p) = (res, apsnd (rs_rebase a h) p)"
  by (simp add: rs_onto_def split_def apsnd_def map_prod_def)

lemma blind_start_playing [blind]: "rs_blind (rs_start_playing env m p)"
proof -
  have "rs_blind (\<lambda>s1. let (out, s2) = rs_send_message (rm_cs_id m) (rm_message_stream_id m) kAmf0Command data s1
      in (out @ [EAdd p], s2\<lparr>rs_publisher := Some p\<rparr>))" for data
    by (rule rs_blindI) (simp add: rs_blindD [OF blind_message] split_def Let_def)
  from blind_amf [OF this] show ?thesis unfolding rs_start_playing_def [abs_def] .
qed

lemma blind_on_connect: "rtmp_on_connect env c (rs_rebase a h s) = rs_onto a h (rtmp_on_connect env c s)"
proof -
  have b: "rs_blind (rs_amf env vs (\<lambda>data. rs_seq [rs_set_window_acknowledgement_size 2500000, rs_set_peer_bandwidth 2500000 2,
      rs_set_out_chunk_size 60000, rs_send_user_control_message 0 0, rs_send_message 3 0 kAmf0Command data, rs_send_bw_done env]))" for vs
    by (intro blind) (simp add: blind)
  show ?thesis
    unfolding rtmp_on_connect_def
    by (simp add: rs_connect_object_rebase Let_def rs_blindD [OF b] split_def split: option.split)
qed

lemma blind_on_play: "rtmp_on_play env m c center (rs_rebase a h s) = rs_onto a h (rtmp_on_play env m c center s)"
  by (cases "rs_stream s = []") (simp_all add: rtmp_on_play_def Let_def rs_blindD [OF blind_start_playing] split_def split: option.split)

lemma blind_on_create_stream: "rtmp_on_create_stream env m c (rs_rebase a h s) = rs_onto a h (rtmp_on_create_stream env m c s)"
proof -
  have b: "rs_blind (rs_amf env vs (rs_send_message (rm_cs_id m) (rm_message_stream_id m) kAmf0Command))" for vs by (intro blind)
  show ?thesis unfolding rtmp_on_create_stream_def
    by (simp add: Let_def rs_blindD [OF b] split_def split: option.split)
qed

lemma blind_on_result: "rtmp_on_result env c (rs_rebase a h s) = rs_onto a h (rtmp_on_result env c s)"
proof -
  have b: "rs_blind (rs_seq [rs_send_release_stream env, rs_send_fcpublish env, rs_send_create_stream env, rs_send_check_bw env])"
    by (intro blind) (simp add: blind)
  note c = rs_blindD [OF b] rs_blindD [OF blind_calls(2)] rs_blindD [OF blind_calls(6)] rs_blindD [OF blind_calls(7)]
  show ?thesis unfolding rtmp_on_result_def
    by (simp add: Let_def c split_def del: rs_seq.simps split: option.split)
qed

lemma blind_on_status: "rtmp_on_status (rs_rebase a h s) = rs_onto a h (rtmp_on_status s)"
  by (simp add: rtmp_on_status_def Let_def split: option.split)

definition rs_onto4 :: "rtmp_in \<Rightarrow> rtmp_hs \<Rightarrow> rtmp_result \<Rightarrow> rtmp_result" where
  "rs_onto4 a h r = (case r of (res, out, center, s) \<Rightarrow> (res, out, center, rs_rebase a h s))"

lemma rs_onto4_simps [simp]:
  "rs_onto4 a h (res, out, center, s) = (res, out, center, rs_rebase a h s)"
  "no_center center (rs_onto a h r) = rs_onto4 a h (no_center center r)"
  "media_only center (rs_rebase a h s) mr = rs_onto4 a h (media_only center s mr)"
  by (simp_all add: rs_onto4_def no_center_def media_only_def split_def rs_onto_def)

lemma blind_on_publish: "rtmp_on_publish env m c center (rs_rebase a h s) = rs_onto4 a h (rtmp_on_publish env m c center s)"
proof -
  have b: "rs_blind (rs_amf env vs (\<lambda>data. rs_seq [rs_send_user_control_message 0 0,
      rs_send_message (rm_cs_id m) (rm_message_stream_id m) kAmf0Command data]))" for vs
    by (intro blind) (simp add: blind)
  show ?thesis unfolding rtmp_on_publish_def
    by (simp add: Let_def rs_blindD [OF b] split_def del: rs_seq.simps split: option.split)
qed

lemma blind_on_amf0: "rtmp_on_amf0 env m center (rs_rebase a h s) = rs_onto4 a h (rtmp_on_amf0 env m center s)"
  by (simp add: rtmp_on_amf0_def blind_on_connect blind_on_play blind_on_publish blind_on_create_stream blind_on_result blind_on_status
      split: option.split)

text \<open>A message other than \<open>kSetChunkSize\<close> leaves both parts alone; that one sets the chunk size (\<open>rtmp_resized\<close>).\<close>

lemma rtmp_on_message_rebase:
  "rtmp_on_message env m center (rs_rebase a h s) = rs_onto4 (rtmp_resized m a) h (rtmp_on_message env m center s)"
proof -
  have ack: "rtmp_on_window_acknowledgement_size (rs_rebase a h s) = rs_onto a h (rtmp_on_window_acknowledgement_size s)"
    by (simp add: rtmp_on_window_acknowledgement_size_def rs_blindD [OF blind_control(3)] split_def Let_def)
  consider "rm_message_type_id m = kSetChunkSize" | "rm_message_type_id m \<noteq> kSetChunkSize" by blast
  then show ?thesis
  proof cases
    case 1
    then show ?thesis
      by (simp add: rtmp_on_message_def Let_def rtmp_on_set_chunk_size_def no_center_def rtmp_resized_def split_def)
         (simp add: kSetChunkSize_def rs_rebase_def)
  next
    case 2
    then show ?thesis
      by (simp add: rtmp_on_message_def Let_def ack blind_on_amf0)
  qed
qed

lemma rtmp_on_message_keeps:
  assumes "rtmp_on_message env m center s = (res, out, center1, s1)"
  shows "rs_hs s1 = rs_hs s" and "rs_in s1 = rtmp_resized m (rs_in s)"
proof -
  have "s1 = rs_rebase (rtmp_resized m (rs_in s)) (rs_hs s) s1"
    using rtmp_on_message_rebase [of env m center "rs_in s" "rs_hs s" s] assms by simp
  then show "rs_hs s1 = rs_hs s" and "rs_in s1 = rtmp_resized m (rs_in s)" by (metis rs_rebase_fields(1,2))+
qed

lemma command_results:
  "fst (rtmp_on_connect env c s) \<noteq> Ret kNoEnoughData" "fst (rtmp_on_play env m c center s) \<noteq> Ret kNoEnoughData"
  "fst (rtmp_on_publish env m c center s) \<noteq> Ret kNoEnoughData" "fst (rtmp_on_create_stream env m c s) \<noteq> Ret kNoEnoughData"
  "fst (rtmp_on_result env c s) \<noteq> Ret kNoEnoughData" "fst (rtmp_on_status s) \<noteq> Ret kNoEnoughData"
  by (simp_all add: rtmp_on_connect_def rtmp_on_play_def rtmp_on_publish_def rtmp_on_create_stream_def rtmp_on_result_def rtmp_on_status_def
      Let_def split_def split: option.split)

lemma media_results:
  "fst (rtmp_on_audio env m b) \<noteq> Ret kNoEnoughData" "fst (rtmp_on_video_header env m b) \<noteq> Ret kNoEnoughData"
  "fst (rtmp_on_metadata m b) \<noteq> Ret kNoEnoughData"
  by (simp_all add: rtmp_on_audio_def rtmp_on_video_header_def rtmp_on_metadata_def Let_def split_def)

lemma video_results: "fst (rtmp_on_video env m b) \<noteq> Ret kNoEnoughData"
proof -
  obtain res out p where h: "rtmp_on_video_header env m b = (res, out, p)" using prod_cases3 by blast
  then have "res \<noteq> Ret kNoEnoughData" using media_results(2) [of env m b] by simp
  then show ?thesis by (simp add: rtmp_on_video_def h Let_def split_def split: parsed.split nalus_end.split)
qed

lemma center_results [simp]: "fst (no_center center r) = fst r" "fst (media_only center s mr) = fst mr"
  by (simp_all add: no_center_def media_only_def split_def)

lemma rtmp_on_message_goes_on: "fst (rtmp_on_message env m center s) \<noteq> Ret kNoEnoughData"
proof -
  have "fst (rtmp_on_amf0 env m center s) \<noteq> Ret kNoEnoughData"
    by (simp add: rtmp_on_amf0_def command_results split: option.split prod.split)
  moreover have "fst (rtmp_on_set_chunk_size m s) \<noteq> Ret kNoEnoughData" "fst (rtmp_on_window_acknowledgement_size s) \<noteq> Ret kNoEnoughData"
    by (simp_all add: rtmp_on_set_chunk_size_def rtmp_on_window_acknowledgement_size_def split_def)
  ultimately show ?thesis by (simp add: rtmp_on_message_def Let_def media_results video_results)
qed

section \<open>The read loop\<close>

lemma hs_client_advances:
  "hs_client env hs xs = (Ret kSuccess, out, hs', ys) \<Longrightarrow> hs_status hs' = kStatus_Done"
  by (auto simp: hs_client_def Let_def split: if_splits)

definition rtmp_left :: "rtmp_session \<Rightarrow> nat" where
  \<comment> \<open>how many steps the handshake is from its end\<close>
  "rtmp_left s = 3 - hs_rank (hs_status (rs_hs s))"

lemma rs_rebase_hs: "rs_blind f \<Longrightarrow> rs_hs (snd (f s)) = rs_hs s"
  using rs_blindD [of f "rs_in s" "rs_hs s" s] by (metis apsnd_def map_prod_simp prod.collapse rs_rebase_fields(2) rs_rebase_updates(15) snd_conv)

lemma rtmp_parse_progress:
  assumes "rtmp_parse henv env center s xs = ((Ret kSuccess, out, center1, s1), ys)"
  shows "rtmp_left s1 < rtmp_left s \<or> rtmp_left s1 = rtmp_left s \<and> length ys < length xs"
proof (cases "hs_status (rs_hs s) = kStatus_Done")
  case True
  obtain r st zs where c: "rtmp_read_chunk (rs_in s) xs = (r, st, zs)" using prod_cases3 by blast
  note p = rtmp_read_chunk_progress [OF c]
  show ?thesis
  proof (cases r)
    case (ChunkMessage cs)
    obtain m st1 where t: "rtmp_take_message cs st = (m, st1)" by fastforce
    have "rtmp_on_message env m center (s\<lparr>rs_in := st1\<rparr>) = (Ret kSuccess, out, center1, s1)" and "ys = zs"
      using assms True c ChunkMessage t by (simp_all add: rtmp_parse_def)
    then have "rs_hs s1 = rs_hs s" using rtmp_on_message_keeps(1) by fastforce
    then show ?thesis using p ChunkMessage \<open>ys = zs\<close> by (simp add: rtmp_left_def)
  qed (use assms True c p in \<open>auto simp: rtmp_parse_def rtmp_left_def\<close>)
next
  case False
  have left: "0 < rtmp_left s" using False by (cases "hs_status (rs_hs s)") (simp_all add: rtmp_left_def)
  show ?thesis
  proof (cases "rs_is_client s")
    case True
    let ?url = "bs ''rtmp://'' @ rs_domain s @ bs ''/'' @ rs_app s @ bs ''/'' @ rs_stream s"
    obtain res o1 h zs where c: "hs_client henv (rs_hs s) xs = (res, o1, h, zs)" using prod_cases4 by blast
    have "rs_blind (rs_seq [rs_set_out_chunk_size (1024 * 64), rs_send_connect env ?url])" by (intro blind) (simp add: blind)
    from rs_rebase_hs [OF this, of "s\<lparr>rs_hs := h\<rparr>"] have "res = Ret kSuccess" "rs_hs s1 = h"
      using assms False True c by (auto simp: rtmp_parse_def Let_def split_def simp del: rs_seq.simps split: if_splits)
    then show ?thesis using hs_client_advances [of henv "rs_hs s"] c left by (auto simp: rtmp_left_def)
  next
    case server: False
    obtain res o1 h zs where c: "hs_server henv (rs_hs s) xs = (res, o1, h, zs)" using prod_cases4 by blast
    then have "hs_status (rs_hs s) < hs_status (rs_hs s1)"
      using assms False server hs_server_advances [of henv "rs_hs s" xs] by (auto simp: rtmp_parse_def)
    then have "hs_rank (hs_status (rs_hs s)) < hs_rank (hs_status (rs_hs s1))" by (simp add: less_handshake_status_def)
    then show ?thesis using hs_rank_le [of "hs_status (rs_hs s1)"] unfolding rtmp_left_def by linarith
  qed
qed

function rtmp_handle_read :: "hs_env \<Rightarrow> rtmp_env \<Rightarrow> stream_center \<Rightarrow> rtmp_session \<Rightarrow> bytes \<Rightarrow> rtmp_result \<times> bytes" where
  \<comment> \<open>\<open>HandleRead\<close>: \<open>Parse\<close> again as long as it returns \<open>kSuccess\<close>\<close>
  "rtmp_handle_read henv env center s xs =
     (case rtmp_parse henv env center s xs of
        ((Ret kSuccess, out, center1, s1), ys) \<Rightarrow>
          let ((res, out2, center2, s2), zs) = rtmp_handle_read henv env center1 s1 ys
          in ((res, out @ out2, center2, s2), zs)
      | r \<Rightarrow> r)"
  by pat_completeness auto

termination
  by (relation "measures [\<lambda>(henv, env, center, s, xs). rtmp_left s, \<lambda>(henv, env, center, s, xs). length xs]") (auto dest!: rtmp_parse_progress [OF sym])

declare rtmp_handle_read.simps [simp del]

section \<open>The NALUs of a video message\<close>

definition nalu_ok :: "bytes \<Rightarrow> bool" where
  "nalu_ok n \<longleftrightarrow> n \<noteq> [] \<and> length n < 2 ^ 32"

lemma rtmp_nalus_step:
  assumes "nalu_ok n" and "length n \<le> raw_len"
  shows "rtmp_nalus raw_len (be 4 (length n) @ n @ rest) =
    (let (nalus, e) = rtmp_nalus raw_len rest in ((be 4 (length n) @ n) # nalus, e))"
proof -
  have "be_val (be 4 (length n)) = length n" using assms(1) by (simp add: be_simps nalu_ok_def)
  moreover have "be 4 (length n) \<noteq> []" by (simp flip: length_0_conv)
  moreover have "0 < length n" using assms(1) by (simp add: nalu_ok_def)
  ultimately show ?thesis using assms(2) by (subst rtmp_nalus.simps) (simp add: Let_def)
qed

lemma rtmp_nalus_exactly:
  assumes "list_all nalu_ok ns" and "length (concat (map (\<lambda>n. be 4 (length n) @ n) ns)) \<le> raw_len"
  shows "rtmp_nalus raw_len (concat (map (\<lambda>n. be 4 (length n) @ n) ns)) = (map (\<lambda>n. be 4 (length n) @ n) ns, NalusDone)"
  using assms
proof (induction ns)
  case (Cons n ns)
  then show ?case using rtmp_nalus_step [of n raw_len "concat (map (\<lambda>n. be 4 (length n) @ n) ns)"] by simp
qed (simp add: rtmp_nalus.simps)

text \<open>
  C28: The loop of \<open>OnVideo\<close> takes a message apart into exactly the NALUs the encoder put in, each with its length field, in order, and
  ends at the end of the message, so that its assertion holds.
\<close>

theorem rtmp_nalus_exact:
  assumes "list_all nalu_ok ns" and "length (concat (map (\<lambda>n. be 4 (length n) @ n) ns)) \<le> raw_len"
  shows "rtmp_nalus raw_len (concat (map (\<lambda>n. be 4 (length n) @ n) ns)) = (map (\<lambda>n. be 4 (length n) @ n) ns, NalusDone)"
  using assms by (rule rtmp_nalus_exactly)

lemma rtmp_nalus_exact_witness:
  "rtmp_nalus 13 (concat (map (\<lambda>n. be 4 (length n) @ n) [[0x65, 1], [0x06, 5, 4]]))
     = (map (\<lambda>n. be 4 (length n) @ n) [[0x65, 1], [0x06, 5, 4]], NalusDone)"
  by (rule rtmp_nalus_exact) (simp_all add: nalu_ok_def)

section \<open>Composition time and relaying\<close>

lemma sign_mask: "(0xFF800000 :: u32) = NOT (mask 23)"
  by (simp add: mask_eq_exp_minus_1)

lemma sign_extend_small: "take_bit 24 ((take_bit 23 (x :: u32) OR NOT (mask 23)) XOR NOT (mask 23)) = take_bit 23 x"
proof (rule bit_word_eqI)
  fix n assume "n < LENGTH(32)"
  show "bit (take_bit 24 ((take_bit 23 x OR NOT (mask 23)) XOR NOT (mask 23))) n \<longleftrightarrow> bit (take_bit 23 x) n"
    by (cases "n < 23") (auto simp: bit_take_bit_iff bit_xor_iff bit_or_iff bit_not_iff bit_mask_iff)
qed

lemma low_sign_disjoint: "take_bit 23 (x :: u32) AND NOT (mask 23) = 0"
  by (rule bit_word_eqI) (auto simp: bit_take_bit_iff bit_and_iff bit_not_iff bit_mask_iff)

lemma sign_bit_value: "(take_bit 24 (NOT (mask 23)) :: u32) = 0x800000"
  by (simp add: mask_eq_exp_minus_1 take_bit_eq_mod)

lemma sign_bit: "bit (take_bit 24 (NOT (mask 23)) :: u32) n \<longleftrightarrow> n = 23"
  by (auto simp: bit_take_bit_iff bit_not_iff bit_mask_iff)

lemma sign_extend_24:
  fixes x :: u32
  assumes "take_bit 24 x = x"
  shows "take_bit 24 ((x + 0xFF800000) XOR 0xFF800000) = x"
proof -
  have b: "n < 24" if "bit x n" for n using that assms by (metis bit_take_bit_iff)
  define z where "z = take_bit 23 x"
  define s where "s = take_bit 24 (NOT (mask 23) :: u32)"
  have s: "bit s n \<longleftrightarrow> n = 23" for n unfolding s_def by (rule sign_bit)
  have z: "bit z n \<longleftrightarrow> bit x n \<and> n \<noteq> 23" for n using b [of n] by (auto simp: z_def bit_take_bit_iff)
  show ?thesis
  proof (cases "bit x 23")
    case False
    then have xz: "x = take_bit 23 x" using z unfolding z_def by (intro bit_word_eqI) auto
    have "x + NOT (mask 23) = x OR NOT (mask 23)"
      by (subst (1 2) xz, rule disjunctive_add_eq_or, rule low_sign_disjoint)
    then have "take_bit 24 ((x + NOT (mask 23)) XOR NOT (mask 23)) = take_bit 24 ((x OR NOT (mask 23)) XOR NOT (mask 23))" by (rule arg_cong)
    also have "\<dots> = x" using sign_extend_small [of x] xz by metis
    finally show ?thesis by (simp only: sign_mask)
  next
    case True
    have "z AND s = 0" by (rule bit_word_eqI) (auto simp: bit_and_iff s z)
    then have "z + s = z OR s" by (rule disjunctive_add_eq_or)
    also have x: "z OR s = x" by (rule bit_word_eqI) (use True in \<open>auto simp: bit_or_iff s z\<close>)
    finally have "x = z + s" ..
    moreover have "s = 0x800000" unfolding s_def by (rule sign_bit_value)
    ultimately have "x + 0xFF800000 = z" by simp
    then have "take_bit 24 ((x + 0xFF800000) XOR 0xFF800000) = take_bit 24 (z XOR NOT (mask 23))" by (simp only: sign_mask)
    also have "\<dots> = z XOR s"
      unfolding take_bit_xor s_def [symmetric] by (simp add: z_def)
    also have "\<dots> = z OR s" by (rule bit_word_eqI) (auto simp: bit_or_iff bit_xor_iff s z)
    also have "\<dots> = x" by (rule x)
    finally show ?thesis .
  qed
qed

lemma rtmp_u24_composition: "rtmp_u24 (rtmp_composition_time a b c) = [a, b, c]"
proof -
  define x :: u32 where "x = push_bit 16 (ucast a) OR push_bit 8 (ucast b) OR ucast c"
  have x24: "take_bit 24 x = x"
    unfolding x_def by (rule bit_word_eqI) (auto simp: bit_simps dest: bit_imp_le_length)
  have "x = push_bit 8 (push_bit 8 (ucast a) OR ucast b) OR ucast c"
    unfolding x_def by (rule bit_word_eqI) (auto simp: bit_simps)
  also have "\<dots> = (ucast a * 256 + ucast b) * 256 + ucast c" by (simp add: shl8_or_byte)
  also have "\<dots> = word_of_nat (be_val [a, b, c])" by (simp add: be_val_def)
  finally have "x = word_of_nat (be_val [a, b, c])" .
  moreover have "be_val [a, b, c] < 2 ^ 24" using be_val_bound [of "[a, b, c]"] by simp
  ultimately have u: "unat x = be_val [a, b, c]" by (simp add: unat_of_nat)
  have m: "be 3 n = be 3 (n mod 2 ^ 24)" for n
    using be_be_val [of "be 3 n"] by (simp add: be_val_be)
  have "unat (take_bit 24 (rtmp_composition_time a b c)) = unat x"
    using sign_extend_24 [OF x24] by (simp add: rtmp_composition_time_def flip: x_def)
  moreover have "unat (take_bit 24 w) = unat w mod 2 ^ 24" for w :: u32
    by (simp only: unsigned_take_bit_eq take_bit_eq_mod [of 24 "unat w"])
  ultimately have "unat (rtmp_composition_time a b c) mod 2 ^ 24 = be_val [a, b, c]"
    using u by simp
  then have "be 3 (unat (rtmp_composition_time a b c)) = be 3 (be_val [a, b, c])" using m by metis
  moreover have "be 3 (be_val [a, b, c]) = [a, b, c]"
    using be_be_val [of "[a, b, c]"] by (simp only: list.size(3,4)) (simp only: numeral_3_eq_3 add_Suc_right add_0_right)
  ultimately show ?thesis by (simp only: rtmp_u24_be)
qed

lemma avc_first_byte:
  assumes "x = 0x17 \<or> x = 0x27"
  obtains ft b1 b2 where "bb_get_bits 4 (0xff :: u8) (bb_new [x, 1]) = (0, ft, b1)" and "bb_get_bits 4 (0xff :: u8) b1 = (0, 7, b2)"
    and "fst (snd (bb_get_bits 8 (0xff :: u8) b2)) = 1"
proof -
  have 1: "snd (snd (bb_get_bits 4 (0xff :: u8) (bb_new [x, 1]))) = \<lparr>bb_data = [x, 1], bb_len = 16, bb_pos = 4\<rparr>"
    and 0: "fst (bb_get_bits 4 (0xff :: u8) (bb_new [x, 1])) = 0"
    using assms by (auto, code_simp+)
  have 2: "bb_get_bits 4 (0xff :: u8) \<lparr>bb_data = [x, 1], bb_len = 16, bb_pos = 4\<rparr> = (0, 7, \<lparr>bb_data = [x, 1], bb_len = 16, bb_pos = 8\<rparr>)"
    using assms by (auto, code_simp+)
  have 3: "fst (snd (bb_get_bits 8 (0xff :: u8) \<lparr>bb_data = [x, 1], bb_len = 16, bb_pos = 8\<rparr>)) = 1"
    using assms by (auto, code_simp+)
  show thesis using that [of _ _ "\<lparr>bb_data = [x, 1], bb_len = 16, bb_pos = 8\<rparr>"] 0 1 2 3 by (metis prod.collapse)
qed

lemma rtmp_on_video_frame:
  assumes body: "rm_msg m = [x, 1, a, b, c] @ data" and len: "unat (rm_len m) = length (rm_msg m)" and x: "x = 0x17 \<or> x = 0x27" and d: "data \<noteq> []"
  shows "rtmp_on_video env m p =
    (let (nalus, e) = rtmp_nalus (length data) data;
         (out, p') = rtmp_on_nalus env (rm_timestamp_calc m) (rtmp_composition_time a b c) nalus (False, p)
     in (case e of NalusDone \<Rightarrow> Ret kSuccess | NalusTooLong \<Rightarrow> Abort | NalusOverread \<Rightarrow> Fault, out, p'))"
proof -
  obtain ft b1 b2 where bits: "bb_get_bits 4 (0xff :: u8) (bb_new [x, 1]) = (0, ft, b1)" "bb_get_bits 4 (0xff :: u8) b1 = (0, 7, b2)"
    "fst (snd (bb_get_bits 8 (0xff :: u8) b2)) = 1" using avc_first_byte [OF x] by blast
  have t: "take 2 (rm_msg m) = [x, 1]" and l: "5 < unat (rm_len m)" using body len d by auto
  obtain r ty b3 where b3: "bb_get_bits 8 (0xff :: u8) b2 = (r, ty, b3)" by (cases "bb_get_bits 8 (0xff :: u8) b2") auto
  with bits(3) have "ty = 1" by simp
  then show ?thesis unfolding rtmp_on_video_def t bits(1) using l bits(2) b3 body by (simp add: Let_def)
qed

lemma nalu_type_length: "n \<noteq> [] \<Longrightarrow> nalu_type (be 4 (length n) @ n) = hd n AND 0x1F"
  by (cases n) (simp_all add: nalu_type_def nth_append)

lemma ucast_up_down: "ucast (ucast (x :: u32) :: u64) = x"
  by (rule bit_word_eqI) (auto simp: bit_simps)

lemma rtmp_frame_header:
  assumes "pl_data f = Some d" "pl_is_video f" "pl_dts f = ucast calc" "pl_pts f = ucast (calc + rtmp_composition_time a b c)"
  shows "rtmp_video_header f = [if pl_is_iframe f then 0x17 else 0x27, 1, a, b, c]"
  using assms by (simp add: rtmp_video_header_def pl_defs rtmp_u24_composition ucast_up_down)

definition rtmp_frame :: "u32 \<Rightarrow> u32 \<Rightarrow> bytes \<Rightarrow> payload" where
  \<comment> \<open>what a slice becomes\<close>
  "rtmp_frame calc cto nalu =
     pl_set_pts (ucast (calc + cto))
       (if nalu_type nalu = 5 then pl_set_iframe (rtmp_video_payload calc nalu) else rtmp_video_payload calc nalu)"

lemma rtmp_on_nalu_slice:
  assumes "nalu_type nalu \<in> {1, 5}" and "rtmp_on_nalu env calc cto nalu (flag, p) = (out, flag', p')" and "s \<in> set (pb_subs p)"
  shows "ECall s (SMedia (rtmp_frame calc cto nalu)) \<in> set out"
  using assms by (auto simp: rtmp_on_nalu_def Let_def nal_types rtmp_frame_def pb_on_video_def pb_broadcast_def split_def ecalls_def)

lemma rtmp_frame_fields:
  "pl_data (rtmp_frame calc cto nalu) = Some nalu" "pl_len (rtmp_frame calc cto nalu) = word_of_nat (length nalu)"
  "pl_is_video (rtmp_frame calc cto nalu)" "\<not> pl_is_audio (rtmp_frame calc cto nalu)"
  "pl_dts (rtmp_frame calc cto nalu) = ucast calc" "pl_pts (rtmp_frame calc cto nalu) = ucast (calc + cto)"
  "pl_is_iframe (rtmp_frame calc cto nalu) \<longleftrightarrow> nalu_type nalu = 5"
  by (simp_all add: rtmp_frame_def rtmp_video_payload_def pl_defs)

definition test_env :: rtmp_env where
  "test_env = \<lparr>re_i2d = (\<lambda>i. i), re_d2u = (\<lambda>d. ucast d), re_srt = (\<lambda>s. False), re_mem = (\<lambda>i. 0), re_show_ms = (\<lambda>d. [])\<rparr>"

section \<open>Publishing and closing\<close>

lemma rs_send_message_keeps:
  "rs_send_message cs sid ty data s = (out, s') \<Longrightarrow> s' = s\<lparr>rs_out := rs_out s'\<rparr>"
  by (auto simp: rs_send_message_def split: prod.splits)

text \<open>What is fixed while a connection answers: everything but the state of its chunk layer.\<close>

definition rs_same :: "rtmp_session \<Rightarrow> rtmp_session \<Rightarrow> bool" where
  "rs_same s s' \<longleftrightarrow> s' = s\<lparr>rs_out := rs_out s'\<rparr>"

lemma rs_same_refl [simp]: "rs_same s s"
  by (simp add: rs_same_def)

lemma rs_same_trans: "rs_same s t \<Longrightarrow> rs_same t u \<Longrightarrow> rs_same s u"
  unfolding rs_same_def by (cases s; cases t; cases u) simp

lemma rs_same_fields:
  "rs_same s s' \<Longrightarrow> rs_role s' = rs_role s \<and> rs_app s' = rs_app s \<and> rs_stream s' = rs_stream s \<and> rs_id s' = rs_id s
     \<and> rs_pub s' = rs_pub s \<and> rs_publisher s' = rs_publisher s"
  unfolding rs_same_def by (cases s; cases s') simp

lemma rs_same_message: "rs_same s (snd (rs_send_message cs sid ty data s))"
  by (simp add: rs_same_def rs_send_message_def split_def Let_def)

lemma rs_same_seq: "(\<And>f s. f \<in> set fs \<Longrightarrow> rs_same s (snd (f s))) \<Longrightarrow> rs_same s (snd (rs_seq fs s))"
proof (induction fs arbitrary: s)
  case (Cons f fs)
  have "rs_same s (snd (f s))" using Cons.prems by simp
  moreover have "rs_same (snd (f s)) (snd (rs_seq fs (snd (f s))))" using Cons by simp
  ultimately show ?case using rs_same_trans by (simp add: split_def Let_def)
qed simp

lemma rs_same_amf: "(\<And>d s. rs_same s (snd (f d s))) \<Longrightarrow> rs_same s (snd (rs_amf env vs f s))"
  by (auto simp: rs_amf_def split: option.splits prod.splits)

text \<open>
  C18: Publishing and closing leave the registry as it was. When a connection that has no stream name yet publishes a name that is free, the
  name refers to it and no other name changes; and when it closes without changing its role or name, every lookup is what it was before.
\<close>

theorem publish_then_close:
  assumes "sc_ok center" and "rs_app s \<noteq> []" and "rs_stream s = []"
    and "5 \<le> length c" and "c ! 1 \<noteq> None" and "c ! 3 = Some (AString name)" and "name \<noteq> []" and "63 \<notin> set name"
    and "sc_get (rs_app s) name center = None"
  shows "\<exists>out center1 s1. rtmp_on_publish env m c center s = (Ret kSuccess, out, center1, s1)
    \<and> (\<forall>a n. sc_get a n center1 = (if a = rs_app s \<and> n = name then Some (rs_id s) else sc_get a n center))
    \<and> (\<forall>out2 center2 s2. rtmp_handle_close center1 s1 = (Ret kSuccess, out2, center2, s2) \<longrightarrow>
          (\<forall>a n. sc_get a n center2 = sc_get a n center))"
proof -
  define s0 where "s0 = s\<lparr>rs_role := kClientPush, rs_stream := name\<rparr>"
  define center1 where "center1 = snd (sc_register (rs_app s) name (rs_id s) center)"
  have n: "str_find name (bs ''?'') = None" using assms(8) by (simp add: bs_chars str_find_one)
  have new: "fst (sc_register (rs_app s) name (rs_id s) center)"
    "sc_get a n center1 = (if a = rs_app s \<and> n = name then Some (rs_id s) else sc_get a n center)" for a n
    using registry.reg_new [OF assms(1), of "rs_app s" name "rs_id s" a n] assms(2,7,9) by (simp_all add: center1_def)
  define fin where "fin = rs_amf env (rtmp_start_message ''NetStream.Publish.Start'')
    (\<lambda>data. rs_seq [rs_send_user_control_message 0 0, rs_send_message (rm_cs_id m) (rm_message_stream_id m) kAmf0Command data]) s0"
  have "rs_same s0 (snd fin)"
    unfolding fin_def by (intro rs_same_amf rs_same_seq) (auto simp: rs_same_message rs_send_user_control_message_def)
  note keep = rs_same_fields [OF this]
  have pub: "rtmp_on_publish env m c center s = (Ret kSuccess, fst fin, center1, snd fin)"
    using assms(3-6) n new(1) by (simp add: rtmp_on_publish_def Let_def any_get_string_def split_def s0_def fin_def center1_def)
  have "sc_get a n (snd (sc_unregister (rs_app s) name (rs_id s) center1)) = sc_get a n center" for a n
    using registry.reg_unreg [OF assms(1), of "rs_app s" name a n "rs_id s" "rs_id s"] assms(2,7,9) by (simp add: center1_def)
  then have "sc_get a n center2 = sc_get a n center" if "rtmp_handle_close center1 (snd fin) = (Ret kSuccess, out2, center2, s2)" for out2 center2 s2 a n
    using that keep by (simp add: rtmp_handle_close_def s0_def Let_def)
  with pub new(2) show ?thesis by blast
qed

lemma rs_start_playing_role: "rs_start_playing env m p t = (out, t') \<Longrightarrow> rs_role t' = rs_role t"
  by (auto simp: rs_start_playing_def rs_amf_def rs_send_message_def Let_def split_def split: option.splits if_splits)

text \<open>
  A connection that publishes and then sends \<open>play\<close> (or any command of four values with that name) leaves its registration behind when it
  closes: \<open>OnPlayCommand\<close> changes the role, and \<open>HandleClose\<close> unregisters only in the role \<open>kClientPush\<close>. The registry then
  refers to a destroyed publisher.
\<close>

theorem play_leaves_registration:
  assumes "sc_get app name center = Some (rs_id s)" and "4 \<le> length c" and "rtmp_on_play env m c center s = (res, out, s1)"
    and "rtmp_handle_close center s1 = (res2, out2, center2, s2)"
  shows "sc_get app name center2 = Some (rs_id s)"
proof -
  have "rs_role s1 = kClientPull" using assms(3)
    by (auto simp: rtmp_on_play_def Let_def split_def dest!: rs_start_playing_role split: option.splits if_splits prod.splits)
  then have "center2 = center" using assms(4) by (auto simp: rtmp_handle_close_def Let_def)
  then show ?thesis using assms(1) by simp
qed

lemma publish_then_close_witness:
  "\<exists>out center1 s1. rtmp_on_publish test_env rm_new [str ''publish'', num 4, None, str ''cam'', str ''live''] [] ((rs_new 7)\<lparr>rs_app := bs ''live''\<rparr>)
      = (Ret kSuccess, out, center1, s1) \<and> sc_get (bs ''live'') (bs ''cam'') center1 = Some 7"
  using publish_then_close [of "[]" "(rs_new 7)\<lparr>rs_app := bs ''live''\<rparr>" "[str ''publish'', num 4, None, str ''cam'', str ''live'']" "bs ''cam''" test_env rm_new]
  by (auto simp: rs_new_def str_def num_def sc_get_def bs_def sc_ok_def)

lemma play_leaves_registration_witness:
  "sc_get (bs ''live'') (bs ''cam'')
     (fst (snd (snd (rtmp_handle_close (snd (sc_register (bs ''live'') (bs ''cam'') 7 []))
       (snd (snd (rtmp_on_play test_env rm_new [str ''play'', num 5, None, str ''x''] (snd (sc_register (bs ''live'') (bs ''cam'') 7 [])) (rs_new 7))))))))
   = Some 7"
proof -
  let ?c = "snd (sc_register (bs ''live'') (bs ''cam'') 7 [])"
  obtain res out s1 where p: "rtmp_on_play test_env rm_new [str ''play'', num 5, None, str ''x''] ?c (rs_new 7) = (res, out, s1)" by (metis prod.collapse)
  obtain res2 out2 c2 s2 where h: "rtmp_handle_close ?c s1 = (res2, out2, c2, s2)" by (metis prod.collapse)
  have "sc_get (bs ''live'') (bs ''cam'') ?c = Some (rs_id (rs_new 7))"
    by (simp add: sc_register_def sc_get_def sm_insert_def bs_def rs_new_def)
  from play_leaves_registration [OF this _ p h] show ?thesis by (simp add: p h) (simp add: rs_new_def)
qed

section \<open>Commands are answered\<close>

lemma double_values:
  "double_of_nat 1 = 0x3FF0000000000000" "double_of_nat 2 = 0x4000000000000000" "double_of_nat 3 = 0x4008000000000000"
  "double_of_nat 4 = 0x4010000000000000" "double_of_nat 5 = 0x4014000000000000" "double_of_nat 6 = 0x4018000000000000"
  by (simp_all add: double_of_nat_def bit_len.simps)

lemma double_not_nan: "\<not> double_is_nan (double_of_nat 1)" "\<not> double_is_nan (double_of_nat 4)"
  by (simp_all add: double_values double_is_nan_def take_bit_eq_mod del: One_nat_def)

lemma amf_plain_str [simp]: "amf_plain (str s) \<longleftrightarrow> length s < 2 ^ 16"
  by (simp add: str_def)

lemma amf_plain_num [simp]: "amf_plain (num n)"
  by (simp add: num_def)

lemma amf_norm_str [simp]: "amf_norm i2d (str s) = str s"
  by (simp add: str_def)

lemma amf_norm_num [simp]: "amf_norm i2d (num n) = num n"
  by (simp add: num_def)

lemma amf_encode_nonempty: "amf_encode_all i2d (v # vs) = Some (0, out) \<Longrightarrow> out \<noteq> []"
proof -
  have "amf_encode i2d v = Some (0, out1) \<Longrightarrow> out1 \<noteq> []" for out1
    by (cases "(i2d, v)" rule: amf_encode.cases) (auto split: option.splits prod.splits)
  then show "amf_encode_all i2d (v # vs) = Some (0, out) \<Longrightarrow> out \<noteq> []"
    by (auto split: option.splits prod.splits if_splits)
qed

lemma rs_amf_sends:
  assumes "list_all amf_plain (v # vs)"
  shows "\<exists>data. (\<forall>f s. rs_amf env (v # vs) f s = f data s) \<and> amf_decode data = Some (0, map (amf_norm (re_i2d env)) (v # vs))"
proof -
  obtain data where d: "amf_encode_all (re_i2d env) (v # vs) = Some (0, data)" using amf_encode_ok [OF assms] by blast
  have "rs_amf env (v # vs) f s = f data s" for f s
    using d amf_encode_nonempty [OF d] by (simp add: rs_amf_def del: amf_encode_all.simps)
  then show ?thesis using amf_decode_back [OF assms d] by blast
qed

text \<open>
  \<open>createStream\<close> is answered with the caller's own transaction id: one command message on the caller's chunk stream and message stream, whose body
  decodes to \<open>_result\<close>, the transaction id bit by bit as it came, null, and the stream id 1.
\<close>

theorem create_stream_answered:
  assumes "3 \<le> length c" and "c ! 1 = Some (ADouble d)"
  shows "\<exists>data. rtmp_on_create_stream env m c s =
      (let (out, s1) = rs_send_message (rm_cs_id m) (rm_message_stream_id m) kAmf0Command data s in (Ret kSuccess, out, s1))
    \<and> amf_decode data = Some (0, [str ''_result'', Some (ADouble d), None, num 1])"
proof -
  have "list_all amf_plain [str ''_result'', Some (ADouble d), Some ANull, num 1]" by simp
  from rs_amf_sends [OF this, of env] obtain data
    where "\<And>f s. rs_amf env [str ''_result'', Some (ADouble d), Some ANull, num 1] f s = f data s"
      and "amf_decode data = Some (0, [str ''_result'', Some (ADouble d), None, num 1])" by auto
  then show ?thesis using assms by (auto simp: rtmp_on_create_stream_def any_get_double_def)
qed

lemma create_stream_answered_witness:
  "\<exists>data. amf_decode data = Some (0, [str ''_result'', Some (ADouble 7), None, num 1])"
  using create_stream_answered [of "[str ''createStream'', Some (ADouble 7), None]" 7 test_env rm_new "rs_new 1"] by auto

section \<open>Forwarding a stream to another server\<close>

fun rs_says :: "rtmp_out \<Rightarrow> (u32 \<times> u32 \<times> any option list) list \<Rightarrow> effect list \<Rightarrow> rtmp_out \<Rightarrow> bool" where
  \<comment> \<open>from a sender in the state \<open>ro\<close>, the effects are exactly these calls: for each one command message on its chunk stream and
     message stream, whose body a reader decodes to the call\<close>
  "rs_says ro [] out ro' \<longleftrightarrow> out = [] \<and> ro' = ro"
| "rs_says ro ((cs_id, sid, c) # calls) out ro' \<longleftrightarrow>
     (\<exists>data out2. amf_decode data = Some (0, c) \<and>
        out = map ESend (fst (rtmp_send_message cs_id sid kAmf0Command data ro)) @ out2 \<and>
        rs_says (snd (rtmp_send_message cs_id sid kAmf0Command data ro)) calls out2 ro')"

definition rs_calls :: "rtmp_session \<Rightarrow> nat \<Rightarrow> bytes \<Rightarrow> (nat, bytes) smap \<Rightarrow> rtmp_session \<Rightarrow> bool" where
  \<comment> \<open>\<open>s'\<close> is \<open>s\<close> after calls, up to the state of the chunk layer\<close>
  "rs_calls s n lst m s' \<longleftrightarrow> (\<exists>ro. s' = s\<lparr>rs_transaction := n, rs_out := ro, rs_last_command := lst, rs_commands := m\<rparr>)"

lemma rs_calls_fields:
  "rs_calls s n lst m s1 \<Longrightarrow> rs_stream s1 = rs_stream s \<and> rs_role s1 = rs_role s \<and> rs_publisher s1 = rs_publisher s
     \<and> rs_can_publish s1 = rs_can_publish s \<and> rs_last_command s1 = lst \<and> rs_commands s1 = m"
  unfolding rs_calls_def by auto

lemma rs_command_sends:
  assumes "list_all amf_plain args" and "length name < 2 ^ 16"
  obtains data where "amf_decode data = Some (0, str name # num (rs_transaction s + 1) # map (amf_norm (re_i2d env)) args)"
    and "rs_command env cs_id sid name args s =
      (map ESend (fst (rtmp_send_message cs_id sid kAmf0Command data (rs_out s))),
       s\<lparr>rs_transaction := rs_transaction s + 1, rs_out := snd (rtmp_send_message cs_id sid kAmf0Command data (rs_out s)),
         rs_last_command := bs name, rs_commands := sm_put (rs_transaction s + 1) (bs name) (rs_commands s)\<rparr>)"
proof -
  have "list_all amf_plain (str name # num (rs_transaction s + 1) # args)" using assms by simp
  from rs_amf_sends [OF this, of env] obtain data
    where "\<And>f t. rs_amf env (str name # num (rs_transaction s + 1) # args) f t = f data t"
      and "amf_decode data = Some (0, str name # num (rs_transaction s + 1) # map (amf_norm (re_i2d env)) args)" by auto
  then show thesis using that [of data] by (simp add: rs_command_def Let_def rs_send_message_def split_def)
qed

lemma rs_calls_command:
  assumes s1: "rs_calls s n lst m s1" and args: "list_all amf_plain args" and name: "length name < 2 ^ 16"
    and k: "k = n + 1" "m' = sm_put k (bs name) m"
  shows "rs_calls s k (bs name) m' (snd (rs_command env cs_id sid name args s1))" (is ?calls)
    and "rs_says (rs_out s1) [(cs_id, sid, str name # num k # map (amf_norm (re_i2d env)) args)]
      (fst (rs_command env cs_id sid name args s1)) (rs_out (snd (rs_command env cs_id sid name args s1)))" (is ?says)
proof -
  from s1 obtain ro1 where s: "s1 = s\<lparr>rs_transaction := n, rs_out := ro1, rs_last_command := lst, rs_commands := m\<rparr>"
    by (auto simp: rs_calls_def)
  obtain data where d: "amf_decode data = Some (0, str name # num (rs_transaction s1 + 1) # map (amf_norm (re_i2d env)) args)"
    and c: "rs_command env cs_id sid name args s1 =
      (map ESend (fst (rtmp_send_message cs_id sid kAmf0Command data (rs_out s1))),
       s1\<lparr>rs_transaction := rs_transaction s1 + 1, rs_out := snd (rtmp_send_message cs_id sid kAmf0Command data (rs_out s1)),
         rs_last_command := bs name, rs_commands := sm_put (rs_transaction s1 + 1) (bs name) (rs_commands s1)\<rparr>)"
    by (rule rs_command_sends [OF args name])
  show ?calls unfolding c rs_calls_def k by (auto simp: s)
  show ?says using d k unfolding c by (auto simp: s)
qed

lemma rs_says_append:
  "rs_says ro c1 o1 ro1 \<Longrightarrow> rs_says ro1 c2 o2 ro2 \<Longrightarrow> rs_says ro (c1 @ c2) (o1 @ o2) ro2"
proof (induction ro c1 o1 ro1 rule: rs_says.induct)
  case (2 ro cs_id sid c calls out ro')
  then show ?case by (simp del: rs_says.simps(1)) (metis append.assoc)
qed simp

lemma rs_find_fifth:
  "rs_find_command (double_of_nat 4) [(1, a), (2, b), (3, c), (4, d), (5, e)] = Some d"
  "rs_find_command (double_of_nat 1) [(1, a)] = Some a"
  using double_not_nan double_values by (simp_all add: rs_find_command_def del: One_nat_def)

text \<open>
  C19: A connection that forwards a stream to another server gets there. It calls \<open>connect\<close> (transaction id 1, with the application and
  the URL without the stream); on the server's answer to call 1 it sends exactly the calls \<open>releaseStream\<close>, \<open>FCPublish\<close>,
  \<open>createStream\<close> and \<open>_checkbw\<close>, in this order with the ids 2 to 5; and on the answer to call 4, \<open>publish\<close> with the id 6 and the name of the
  stream, on the message stream the server gave (1 when it gave none): each call as one command message whose body decodes to it. The server's \<open>onStatus\<close> then subscribes the
  connection to its publisher. The names of the URL are short enough for an AMF string.
\<close>

theorem push_reaches_subscription:
  assumes "rs_role s = kPushServer" and "rs_transaction s = 0" and "rs_commands s = []" and "rs_publisher s = Some p" and "\<not> rs_can_publish s"
    and "parse_rtmp_url url = Some (Some u)" and "length (ru_ip u) + length (ru_app u) + length (ru_stream u) < 2 ^ 15"
    and "rs_send_connect env url s = (out1, s1)"
    and "rtmp_on_result env [str ''_result'', num 1, x, y] s1 = (r2, out2, s2)"
    and "rtmp_on_result env [str ''_result'', num 4, None, z] s2 = (r3, out3, s3)"
  shows "r2 = Ret kSuccess \<and> r3 = Ret kSuccess
    \<and> rs_says (rs_out s) [(3, 0, [str ''connect'', num 1,
         Some (AMap [(bs ''app'', Some (AString (ru_app u))), (bs ''tcUrl'', Some (AString (bs ''rtmp://'' @ ru_ip u @ bs ''/'' @ ru_app u)))]),
         Some (AMap [])])] out1 (rs_out s1)
    \<and> rs_says (rs_out s1) [(3, 0, [str ''releaseStream'', num 2, None, Some (AString (ru_stream u))]),
         (8, 1, [str ''FCPublish'', num 3, None, str '''']), (3, 0, [str ''createStream'', num 4, None]),
         (3, 0, [str ''_checkbw'', num 5, None])] out2 (rs_out s2)
    \<and> rs_says (rs_out s2) [(8, re_d2u env (cmd_double z (double_of_nat 1)),
         [str ''publish'', num 6, None, Some (AString (ru_stream u)), str ''live''])] out3 (rs_out s3)
    \<and> rs_commands s3 = [(1, bs ''connect''), (2, bs ''releaseStream''), (3, bs ''FCPublish''), (4, bs ''createStream''), (5, bs ''_checkbw''), (6, bs ''publish'')]
    \<and> rtmp_on_status s3 = (Ret kSuccess, [EAdd p], s3\<lparr>rs_can_publish := True\<rparr>)"
proof -
  define t where "t = s\<lparr>rs_stream := ru_stream u\<rparr>"
  have t: "rs_role t = kPushServer" "rs_publisher t = Some p" "\<not> rs_can_publish t" "length (rs_stream t) < 2 ^ 16"
    "rs_stream t = ru_stream u" "rs_out t = rs_out s"
    using assms(1,4,5,7) by (simp_all add: t_def)
  have "t = t\<lparr>rs_transaction := 0, rs_out := rs_out t, rs_last_command := rs_last_command t, rs_commands := []\<rparr>"
    using assms(2,3) by (simp add: t_def)
  then have c0: "rs_calls t 0 (rs_last_command t) [] t" unfolding rs_calls_def by blast
  have con: "out1 = fst (rs_send_connect env url s)" "s1 = snd (rs_send_connect env url s)" using assms(8) by simp_all
  have 1: "rs_calls t 1 (bs ''connect'') [(1, bs ''connect'')] s1"
    "rs_says (rs_out t) [(3, 0, str ''connect'' # num 1 # map (amf_norm (re_i2d env))
         [Some (AMap [(bs ''app'', Some (AString (ru_app u))), (bs ''tcUrl'', Some (AString (bs ''rtmp://'' @ ru_ip u @ bs ''/'' @ ru_app u)))]),
          Some (AMap [])])] out1 (rs_out s1)"
    unfolding con rs_send_connect_def assms(6) option.case Let_def t_def [symmetric]
    by (rule rs_calls_command [OF c0]; use assms(7) in auto)+
  note f1 = rs_calls_fields [OF 1(1)]
  define a1 where "a1 = snd (rs_send_release_stream env s1)"
  define a2 where "a2 = snd (rs_send_fcpublish env a1)"
  define a3 where "a3 = snd (rs_send_create_stream env a2)"
  define a4 where "a4 = snd (rs_send_check_bw env a3)"
  have 2: "rs_calls t 2 (bs ''releaseStream'') [(1, bs ''connect''), (2, bs ''releaseStream'')] a1"
    "rs_says (rs_out s1) [(3, 0, str ''releaseStream'' # num 2 # map (amf_norm (re_i2d env)) [Some ANull, Some (AString (rs_stream s1))])]
       (fst (rs_send_release_stream env s1)) (rs_out a1)"
    unfolding a1_def rs_send_release_stream_def by (rule rs_calls_command [OF 1(1)]; use t(4) f1 in auto)+
  have 3: "rs_calls t 3 (bs ''FCPublish'') [(1, bs ''connect''), (2, bs ''releaseStream''), (3, bs ''FCPublish'')] a2"
    "rs_says (rs_out a1) [(8, 1, str ''FCPublish'' # num 3 # map (amf_norm (re_i2d env)) [Some ANull, str ''''])]
       (fst (rs_send_fcpublish env a1)) (rs_out a2)"
    unfolding a2_def rs_send_fcpublish_def by (rule rs_calls_command [OF 2(1)]; auto)+
  have 4: "rs_calls t 4 (bs ''createStream'') [(1, bs ''connect''), (2, bs ''releaseStream''), (3, bs ''FCPublish''), (4, bs ''createStream'')] a3"
    "rs_says (rs_out a2) [(3, 0, str ''createStream'' # num 4 # map (amf_norm (re_i2d env)) [Some ANull])]
       (fst (rs_send_create_stream env a2)) (rs_out a3)"
    unfolding a3_def rs_send_create_stream_def by (rule rs_calls_command [OF 3(1)]; auto)+
  have 5: "rs_calls t 5 (bs ''_checkbw'') [(1, bs ''connect''), (2, bs ''releaseStream''), (3, bs ''FCPublish''), (4, bs ''createStream''), (5, bs ''_checkbw'')] a4"
    "rs_says (rs_out a3) [(3, 0, str ''_checkbw'' # num 5 # map (amf_norm (re_i2d env)) [Some ANull])]
       (fst (rs_send_check_bw env a3)) (rs_out a4)"
    unfolding a4_def rs_send_check_bw_def by (rule rs_calls_command [OF 4(1)]; auto)+
  have r2: "r2 = Ret kSuccess" "s2 = a4"
    "out2 = fst (rs_send_release_stream env s1) @ fst (rs_send_fcpublish env a1) @ fst (rs_send_create_stream env a2) @ fst (rs_send_check_bw env a3)"
    using assms(9) f1 t(1) by (auto simp: rtmp_on_result_def num_def cmd_double_def any_get_double_def rs_find_fifth a1_def a2_def a3_def a4_def
        split_def Let_def simp del: One_nat_def)
  note says2 = rs_says_append [OF 2(2) rs_says_append [OF 3(2) rs_says_append [OF 4(2) 5(2)]], folded r2(3), folded r2(2)]
  note f5 = rs_calls_fields [OF 5(1)]
  define sid where "sid = cmd_double z (double_of_nat 1)"
  have 6: "rs_calls t 6 (bs ''publish'') [(1, bs ''connect''), (2, bs ''releaseStream''), (3, bs ''FCPublish''), (4, bs ''createStream''), (5, bs ''_checkbw''), (6, bs ''publish'')]
      (snd (rs_send_publish env sid a4))"
    "rs_says (rs_out a4) [(8, re_d2u env sid, str ''publish'' # num 6 # map (amf_norm (re_i2d env)) [Some ANull, Some (AString (rs_stream a4)), str ''live''])]
       (fst (rs_send_publish env sid a4)) (rs_out (snd (rs_send_publish env sid a4)))"
    unfolding rs_send_publish_def by (rule rs_calls_command [OF 5(1)]; use t(4) f5 in auto)+
  have r3: "r3 = Ret kSuccess" "s3 = snd (rs_send_publish env sid a4)" "out3 = fst (rs_send_publish env sid a4)"
    using assms(10) f5 t(1) r2(2) by (auto simp: rtmp_on_result_def num_def cmd_double_def any_get_double_def rs_find_fifth sid_def bs_def
        split_def Let_def simp del: One_nat_def)
  note f6 = rs_calls_fields [OF 6(1), folded r3(2)]
  have st: "rtmp_on_status s3 = (Ret kSuccess, [EAdd p], s3\<lparr>rs_can_publish := True\<rparr>)"
    using f6 t by (simp add: rtmp_on_status_def)
  note says6 = 6(2) [folded r3(2,3)]
  show ?thesis using r2(1) r3(1) f6 st 1(2) says2 says6 unfolding sid_def [symmetric]
    by (simp add: t(5,6) f1 f5 r2(2) del: rs_says.simps)
qed

lemma push_reaches_subscription_witness:
  "\<exists>s3. rs_commands s3 = [(1, bs ''connect''), (2, bs ''releaseStream''), (3, bs ''FCPublish''), (4, bs ''createStream''), (5, bs ''_checkbw''), (6, bs ''publish'')]
    \<and> rtmp_on_status s3 = (Ret kSuccess, [EAdd 9], s3\<lparr>rs_can_publish := True\<rparr>)"
proof -
  let ?s = "(rs_new 1)\<lparr>rs_role := kPushServer, rs_publisher := Some 9\<rparr>"
  obtain out1 s1 where 1: "rs_send_connect test_env (bs ''rtmp://h/live/a=b'') ?s = (out1, s1)" by fastforce
  obtain r2 out2 s2 where 2: "rtmp_on_result test_env [str ''_result'', num 1, None, None] s1 = (r2, out2, s2)"
    by (metis prod.collapse)
  obtain r3 out3 s3 where 3: "rtmp_on_result test_env [str ''_result'', num 4, None, num 1] s2 = (r3, out3, s3)" by (metis prod.collapse)
  from push_reaches_subscription [OF _ _ _ _ _ rtmp_url_no_arguments _ 1 2 3, of 9] show ?thesis by (auto simp: rs_new_def)
qed

section \<open>Malformed video\<close>

text \<open>
  The loop of \<open>OnVideo\<close> compares each NALU length with the length of all NALUs, not with what is left: a second NALU whose length is
  larger than the rest of the message, but not than the whole, is read past the end of the block (and what is found there is sent to the subscribers).
\<close>

theorem rtmp_nalu_overread:
  assumes body: "rm_msg m = [x, 1, a, b, c] @ be 4 (length n) @ n @ be 4 k @ rest" and x: "x = 0x17 \<or> x = 0x27"
    and len: "unat (rm_len m) = length (rm_msg m)" and n: "nalu_ok n"
    and k: "length rest < k" "k \<le> length n + length rest + 8" "k < 2 ^ 32"
  shows "fst (rtmp_on_video env m p) = Fault"
proof -
  define data where "data = be 4 (length n) @ n @ be 4 k @ rest"
  have d: "data \<noteq> []" "length data = length n + length rest + 8" by (simp_all add: data_def)
  have "rtmp_nalus (length data) (be 4 k @ rest) = ([], NalusOverread)"
  proof -
    have "be_val (be 4 k) = k" using k(3) by (simp add: be_simps)
    moreover have "\<not> length data < k" "be 4 k @ rest \<noteq> []" using k(2) d by simp_all
    ultimately show ?thesis using k(1) by (subst rtmp_nalus.simps) (simp add: Let_def)
  qed
  then have "rtmp_nalus (length data) data = ([be 4 (length n) @ n], NalusOverread)"
    using rtmp_nalus_step [OF n, of "length data" "be 4 k @ rest"] d by (simp add: data_def)
  then show ?thesis using rtmp_on_video_frame [OF _ len x d(1), of a b c env p] body by (simp add: data_def split_def Let_def)
qed

lemma rtmp_nalu_overread_witness:
  "fst (rtmp_on_video test_env (rm_new\<lparr>rm_msg := [0x17, 1, 0, 0, 0] @ be 4 (length [0x65, 1 :: u8]) @ [0x65, 1] @ be 4 9 @ [0x65], rm_len := 16\<rparr>) pb_new) = Fault"
  by (rule rtmp_nalu_overread [where x = "0x17" and a = 0 and b = 0 and c = 0 and n = "[0x65, 1]" and k = 9 and rest = "[0x65]"]) (simp_all add: nalu_ok_def)

end
