(* ===== verification/RtmpLink.thy ===== *)
theory RtmpLink
  imports RtmpSession
begin

text \<open>
  Two connections of \<open>src/rtmp_protocol.cpp\<close> end to end. \<open>HandleRead\<close> (theory \<open>RtmpSession\<close>) is shown to do what
  \<open>OnRtmpMessage\<close> does on the messages that the chunk layer finds in the stream (\<open>rtmp_recv\<close>, theory \<open>RtmpChunk\<close>), in
  order, up to the first that is not accepted; not to depend on how the stream is cut; and so to
  receive what \<open>SendData\<close>, \<open>SetOutChunkSize\<close> and the senders of media of another connection send.
\<close>

section \<open>HandleRead and the messages\<close>

fun rtmp_dispatch :: "rtmp_env \<Rightarrow> stream_center \<Rightarrow> rtmp_session \<Rightarrow> rtmp_message list \<Rightarrow> rtmp_result" where
  \<comment> \<open>\<open>OnRtmpMessage\<close> on one message after the other, until one is not accepted\<close>
  "rtmp_dispatch env center s [] = (Ret kNoEnoughData, [], center, s)"
| "rtmp_dispatch env center s (m # ms) =
     (case rtmp_on_message env m center s of
        (res, out, center1, s1) \<Rightarrow>
          if res = Ret kSuccess
          then let (res2, out2, center2, s2) = rtmp_dispatch env center1 s1 ms in (res2, out @ out2, center2, s2)
          else (res, out, center1, s1))"

definition rtmp_receives :: "hs_env \<Rightarrow> rtmp_env \<Rightarrow> stream_center \<Rightarrow> rtmp_session \<Rightarrow> bytes \<Rightarrow> rtmp_message list \<Rightarrow> bool" where
  \<comment> \<open>\<open>HandleRead\<close> returns, sends and does to the registry and the connection what \<open>OnRtmpMessage\<close> does on these messages (the chunk
     layer's own state apart); when all are accepted, nothing is left in the buffer and no copy has left its block\<close>
  "rtmp_receives henv env center s xs ms \<longleftrightarrow>
     (case rtmp_dispatch env center s ms of
        (res, out, center1, s1) \<Rightarrow> \<exists>st ys.
          rtmp_handle_read henv env center s xs = ((res, out, center1, s1\<lparr>rs_in := st\<rparr>), ys) \<and>
          (res = Ret kNoEnoughData \<longrightarrow> ys = [] \<and> ri_fault st = ri_fault (rs_in s)))"

lemma rtmp_handle_read_eq:
  "rtmp_handle_read henv env center s xs =
     (case rtmp_parse henv env center s xs of
        ((res, out, center1, s1), ys) \<Rightarrow>
          if res = Ret kSuccess
          then (case rtmp_handle_read henv env center1 s1 ys of
                  ((res2, out2, center2, s2), zs) \<Rightarrow> ((res2, out @ out2, center2, s2), zs))
          else ((res, out, center1, s1), ys))"
  by (subst rtmp_handle_read.simps) (auto split: prod.split parsed.split ret_code.split)

text \<open>One round on each kind of chunk.\<close>

lemma rtmp_read_steps:
  assumes "hs_status (rs_hs s) = kStatus_Done"
  shows "rtmp_read_chunk (rs_in s) xs = (ChunkNoData, st, ys) \<Longrightarrow>
      rtmp_handle_read henv env center s xs = ((Ret kNoEnoughData, [], center, s\<lparr>rs_in := st\<rparr>), xs)"
    and "rtmp_read_chunk (rs_in s) xs = (ChunkMore, st, ys) \<Longrightarrow>
      rtmp_handle_read henv env center s xs = rtmp_handle_read henv env center (s\<lparr>rs_in := st\<rparr>) ys"
    and "rtmp_read_chunk (rs_in s) xs = (ChunkMessage cs, st, ys) \<Longrightarrow> rtmp_take_message cs st = (m, st1) \<Longrightarrow>
      rtmp_on_message env m center (s\<lparr>rs_in := st1\<rparr>) = (res, out, center1, s1) \<Longrightarrow>
      rtmp_handle_read henv env center s xs =
        (if res = Ret kSuccess
         then (case rtmp_handle_read henv env center1 s1 ys of
                 ((res2, out2, center2, s2), zs) \<Rightarrow> ((res2, out @ out2, center2, s2), zs))
         else ((res, out, center1, s1), ys))"
  using assms rtmp_read_chunk_progress [of "rs_in s" xs]
  by (subst rtmp_handle_read_eq; fastforce simp: rtmp_parse_def split: prod.split)+

lemma rtmp_handle_read_rebase:
  assumes "hs_status h = kStatus_Done" and "rtmp_recv a xs = (ms, st, ys)"
  shows "\<exists>st1 ys1. rtmp_handle_read henv env center (rs_rebase a h s) xs = (rs_onto4 st1 h (rtmp_dispatch env center s ms), ys1) \<and>
    (fst (rtmp_dispatch env center s ms) = Ret kNoEnoughData \<longrightarrow> st1 = st \<and> ys1 = ys)"
  using assms(2)
proof (induction xs arbitrary: s a ms center rule: measure_induct_rule [of length])
  case (less xs)
  have dn: "hs_status (rs_hs (rs_rebase a h s)) = kStatus_Done" using assms(1) by simp
  obtain r st1 zs where c: "rtmp_read_chunk a xs = (r, st1, zs)" using prod_cases3 by blast
  note p = rtmp_read_chunk_progress [OF c]
  note read = rtmp_read_steps [OF dn, unfolded rs_rebase_fields rs_rebase_updates, of xs]
  show ?case
  proof (cases r)
    case ChunkNoData
    then have "ms = []" "st = st1" "ys = xs" using less.prems c by (auto simp: rtmp_recv_eqs(1))
    then show ?thesis using c ChunkNoData by (simp add: read(1))
  next
    case ChunkMore
    then have "rtmp_recv st1 zs = (ms, st, ys)" using less.prems c by (simp add: rtmp_recv_eqs(2))
    from less.IH [OF _ this, of center s] show ?thesis using c p ChunkMore by (simp add: read(2))
  next
    case (ChunkMessage cs)
    obtain m st2 where t: "rtmp_take_message cs st1 = (m, st2)" by fastforce
    obtain ms' where rest: "rtmp_recv (rtmp_resized m st2) zs = (ms', st, ys)" and ms: "ms = m # ms'"
      using less.prems c ChunkMessage t by (cases "rtmp_recv (rtmp_resized m st2) zs") (auto simp: rtmp_recv_eqs(3))
    obtain res out c1 s1 where on: "rtmp_on_message env m center s = (res, out, c1, s1)" using prod_cases4 by blast
    then have on': "rtmp_on_message env m center (rs_rebase st2 h s) = (res, out, c1, rs_rebase (rtmp_resized m st2) h s1)"
      by (simp add: rtmp_on_message_rebase)
    have len: "length zs < length xs" using p ChunkMessage by simp
    note step = read(3) [OF c [unfolded ChunkMessage] t on', of henv]
    show ?thesis
    proof (cases "res = Ret kSuccess")
      case True
      obtain res2 out2 c2 s2 where d: "rtmp_dispatch env c1 s1 ms' = (res2, out2, c2, s2)" using prod_cases4 by blast
      from less.IH [OF len rest, of c1 s1] show ?thesis using True by (auto simp: step ms on d)
    next
      case False
      have "res \<noteq> Ret kNoEnoughData" using rtmp_on_message_goes_on [of env m center s] on by simp
      then show ?thesis using False by (auto simp: step ms on)
    qed
  qed
qed

lemma rtmp_dispatch_keeps: "rtmp_dispatch env center s ms = (res, out, center1, s1) \<Longrightarrow> rs_hs s1 = rs_hs s"
proof (induction ms arbitrary: center s out)
  case (Cons m ms)
  obtain r o1 c1 t where on: "rtmp_on_message env m center s = (r, o1, c1, t)" using prod_cases4 by blast
  then show ?case using Cons rtmp_on_message_keeps(1) [OF on] by (fastforce split: if_splits prod.splits)
qed simp

text \<open>
  A refinement: \<open>HandleRead\<close> on any bytes is \<open>OnRtmpMessage\<close> on the messages in them.
\<close>

theorem rtmp_handle_read_messages:
  assumes "hs_status (rs_hs s) = kStatus_Done" and "rtmp_recv (rs_in s) xs = (ms, st, ys)"
    and "rtmp_dispatch env center s ms = (res, out, center1, s1)"
  shows "\<exists>st1 ys1. rtmp_handle_read henv env center s xs = ((res, out, center1, s1\<lparr>rs_in := st1\<rparr>), ys1) \<and>
    (res = Ret kNoEnoughData \<longrightarrow> st1 = st \<and> ys1 = ys)"
proof -
  have hs: "rs_rebase st1 (rs_hs s) s1 = s1\<lparr>rs_in := st1\<rparr>" for st1
    using rtmp_dispatch_keeps [OF assms(3)] by (simp add: rs_rebase_def)
  show ?thesis using rtmp_handle_read_rebase [OF assms(1,2), of henv env center s] assms(3) hs by auto
qed

lemma rtmp_receivesI:
  assumes "hs_status (rs_hs s) = kStatus_Done" and "rtmp_recv (rs_in s) xs = (ms, st, [])" and "ri_fault st = ri_fault (rs_in s)"
  shows "rtmp_receives henv env center s xs ms"
proof -
  obtain res out center1 s1 where d: "rtmp_dispatch env center s ms = (res, out, center1, s1)" using prod_cases4 by blast
  show ?thesis using rtmp_handle_read_messages [OF assms(1,2) d, of henv] assms(3) by (fastforce simp: rtmp_receives_def d)
qed

section \<open>TCP may cut the stream anywhere\<close>

fun rtmp_feed :: "hs_env \<Rightarrow> rtmp_env \<Rightarrow> stream_center \<Rightarrow> rtmp_session \<Rightarrow> bytes \<Rightarrow> bytes list \<Rightarrow> rtmp_result \<times> bytes" where
  \<comment> \<open>the reads of a socket: each appends a piece to what is left and calls \<open>HandleRead\<close>, as long as that only wants more\<close>
  "rtmp_feed henv env center s left [] = ((Ret kNoEnoughData, [], center, s), left)"
| "rtmp_feed henv env center s left (p # ps) =
     (case rtmp_handle_read henv env center s (left @ p) of
        ((res, out, center1, s1), ys) \<Rightarrow>
          if res = Ret kNoEnoughData
          then (case rtmp_feed henv env center1 s1 ys ps of
                  ((res2, out2, center2, s2), zs) \<Rightarrow> ((res2, out @ out2, center2, s2), zs))
          else ((res, out, center1, s1), ys))"

definition rtmp_size_ok :: "rtmp_message \<Rightarrow> bool" where
  \<comment> \<open>a chunk size below 2^31, as the protocol demands\<close>
  "rtmp_size_ok m \<longleftrightarrow> (rm_message_type_id m = kSetChunkSize \<longrightarrow> unat (ri_chunk_size (rtmp_resized m (rtmp_in_init 0))) < 2 ^ 31)"

lemma rtmp_size_ok_in: "rtmp_in_ok st \<Longrightarrow> rtmp_size_ok m \<Longrightarrow> rtmp_in_ok (rtmp_resized m st)"
  by (cases "rm_message_type_id m = kSetChunkSize")
    (simp_all add: rtmp_size_ok_def rtmp_in_ok_def rtmp_resized_def split_def Let_def)

lemma rtmp_handle_read_append:
  assumes "hs_status (rs_hs s) = kStatus_Done" and "rtmp_in_ok (rs_in s)"
    and "\<forall>m \<in> set (fst (rtmp_recv (rs_in s) (xs @ zs))). rtmp_size_ok m"
    and "rtmp_handle_read henv env center s xs = ((res, out, center1, s1), ys)"
  shows "rtmp_handle_read henv env center s (xs @ zs) =
      (if res = Ret kNoEnoughData
       then (case rtmp_handle_read henv env center1 s1 (ys @ zs) of
               ((res2, out2, center2, s2), ws) \<Rightarrow> ((res2, out @ out2, center2, s2), ws))
       else ((res, out, center1, s1), ys @ zs))" (is ?eq)
    and "res = Ret kNoEnoughData \<Longrightarrow> hs_status (rs_hs s1) = kStatus_Done \<and> rtmp_in_ok (rs_in s1) \<and>
      (\<forall>m \<in> set (fst (rtmp_recv (rs_in s1) (ys @ zs))). rtmp_size_ok m)" (is "_ \<Longrightarrow> ?inv")
proof -
  have "?eq \<and> (res = Ret kNoEnoughData \<longrightarrow> ?inv)"
    using assms
  proof (induction xs arbitrary: s center out rule: measure_induct_rule [of length])
    case (less xs)
    obtain r st ws where c: "rtmp_read_chunk (rs_in s) xs = (r, st, ws)" using prod_cases3 by blast
    note p = rtmp_read_chunk_progress [OF c]
    note read = rtmp_read_steps [OF less.prems(1)]
    have ok: "rtmp_in_ok st" using less.prems(2) rtmp_read_chunk_keeps_size [OF c] by (simp add: rtmp_in_ok_def)
    show ?case
    proof (cases r)
      case ChunkNoData
      have r: "res = Ret kNoEnoughData" "out = []" "center1 = center" "s1 = s\<lparr>rs_in := st\<rparr>" "ys = xs"
        using less.prems(4) c ChunkNoData by (simp_all add: read(1))
      have same: "rtmp_read_chunk st (xs @ zs) = rtmp_read_chunk (rs_in s) (xs @ zs)"
        by (rule rtmp_read_chunk_retry [OF less.prems(2) c [unfolded ChunkNoData]])
      then have "rtmp_parse henv env center s1 (xs @ zs) = rtmp_parse henv env center s (xs @ zs)"
        using less.prems(1) by (simp add: rtmp_parse_def r split: prod.split chunk_result.split)
      moreover have "rtmp_recv st (xs @ zs) = rtmp_recv (rs_in s) (xs @ zs)"
        using same by (simp add: rtmp_recv.simps)
      ultimately show ?thesis using less.prems(1,3) ok
        by (simp add: r rtmp_handle_read_eq [of henv env center _ "xs @ zs"] split: prod.split)
    next
      case ChunkMore
      have c': "rtmp_read_chunk (rs_in s) (xs @ zs) = (ChunkMore, st, ws @ zs)"
        using rtmp_read_chunk_append [OF less.prems(2) c] ChunkMore by simp
      have "\<forall>m \<in> set (fst (rtmp_recv st (ws @ zs))). rtmp_size_ok m"
        using less.prems(3) by (simp add: rtmp_recv_eqs(2) [OF c'])
      then show ?thesis
        using less.IH [of ws "s\<lparr>rs_in := st\<rparr>" center out] less.prems(1,4) p ok c c' ChunkMore by (simp add: read(2))
    next
      case (ChunkMessage cs)
      obtain m st2 where t: "rtmp_take_message cs st = (m, st2)" by fastforce
      have ok2: "rtmp_in_ok st2" using t ok by (auto simp: rtmp_take_message_def Let_def rtmp_in_ok_def)
      have c': "rtmp_read_chunk (rs_in s) (xs @ zs) = (ChunkMessage cs, st, ws @ zs)"
        using rtmp_read_chunk_append [OF less.prems(2) c] ChunkMessage by simp
      obtain res1 o1 c1 t1 where on: "rtmp_on_message env m center (s\<lparr>rs_in := st2\<rparr>) = (res1, o1, c1, t1)" using prod_cases4 by blast
      note step = read(3) [OF c [unfolded ChunkMessage] t on, of henv] and step' = read(3) [OF c' t on, of henv]
      show ?thesis
      proof (cases "res1 = Ret kSuccess")
        case True
        obtain res2 o2 where h: "rtmp_handle_read henv env c1 t1 ws = ((res2, o2, center1, s1), ys)" "res2 = res" "out = o1 @ o2"
          using less.prems(4) True by (auto simp: step split: prod.splits)
        have all: "rtmp_size_ok m" "\<forall>m \<in> set (fst (rtmp_recv (rtmp_resized m st2) (ws @ zs))). rtmp_size_ok m"
          using less.prems(3) by (simp_all add: rtmp_recv_eqs(3) [OF c' t] split_def Let_def)
        have "rs_in t1 = rtmp_resized m st2" "rs_hs t1 = rs_hs s" using rtmp_on_message_keeps [OF on] by simp_all
        then show ?thesis
          using less.IH [of ws t1 c1 o2] less.prems(1) p ChunkMessage all h rtmp_size_ok_in [OF ok2 all(1)] True
          by (auto simp: step' split: prod.splits)
      next
        case False
        have "res1 \<noteq> Ret kNoEnoughData" using rtmp_on_message_goes_on [of env m center "s\<lparr>rs_in := st2\<rparr>"] on by simp
        then show ?thesis using False less.prems(4) by (simp add: step step')
      qed
    qed
  qed
  then show ?eq and "res = Ret kNoEnoughData \<Longrightarrow> ?inv" by auto
qed

text \<open>
  C12: \<open>HandleRead\<close> does not depend on how TCP cuts the stream. Once the handshake is done, reading the bytes as they arrive in any number
  of pieces, each appended to what the previous read left in the buffer, returns, sends and does to the registry and to the connection
  what reading the whole stream at once does, and leaves the same bytes when it wants more: also when messages change the chunk size on the way
  or are not accepted. Chunk sizes are below 2^31, as the protocol demands, so that the comparison of lengths cannot wrap.
\<close>

theorem rtmp_read_segmentation:
  assumes "hs_status (rs_hs s) = kStatus_Done" and "unat (ri_chunk_size (rs_in s)) < 2 ^ 31"
    and "\<forall>m \<in> set (fst (rtmp_recv (rs_in s) (left @ p @ concat ps))). rtmp_size_ok m"
  shows "fst (rtmp_feed henv env center s left (p # ps)) = fst (rtmp_handle_read henv env center s (left @ p @ concat ps)) \<and>
    (fst (fst (rtmp_feed henv env center s left (p # ps))) = Ret kNoEnoughData \<longrightarrow>
       snd (rtmp_feed henv env center s left (p # ps)) = snd (rtmp_handle_read henv env center s (left @ p @ concat ps)))"
proof -
  have "rtmp_in_ok (rs_in s) \<Longrightarrow> ?thesis"
    using assms(1,3)
  proof (induction ps arbitrary: s center left p)
    case Nil
    then show ?case by (simp split: prod.split)
  next
    case (Cons q qs)
    obtain res out c1 s1 ys where h: "rtmp_handle_read henv env center s (left @ p) = ((res, out, c1, s1), ys)"
      by (metis prod.collapse)
    note app = rtmp_handle_read_append [OF Cons.prems(2,1) _ h, of "q @ concat qs"]
    have eq: "rtmp_handle_read henv env center s ((left @ p) @ q @ concat qs) =
      (if res = Ret kNoEnoughData
       then (case rtmp_handle_read henv env c1 s1 (ys @ q @ concat qs) of
               ((res2, out2, center2, s2), ws) \<Rightarrow> ((res2, out @ out2, center2, s2), ws))
       else ((res, out, c1, s1), ys @ q @ concat qs))"
      by (rule app(1)) (use Cons.prems(3) in simp)
    show ?case
    proof (cases "res = Ret kNoEnoughData")
      case True
      have inv: "hs_status (rs_hs s1) = kStatus_Done \<and> rtmp_in_ok (rs_in s1) \<and>
          (\<forall>m \<in> set (fst (rtmp_recv (rs_in s1) (ys @ q @ concat qs))). rtmp_size_ok m)"
        by (rule app(2)) (use Cons.prems(3) True in simp_all)
      obtain f g where f: "rtmp_feed henv env c1 s1 ys (q # qs) = f" and g: "rtmp_handle_read henv env c1 s1 (ys @ q @ concat qs) = g"
        by blast
      have fg: "fst f = fst g" "fst (fst f) = Ret kNoEnoughData \<longrightarrow> snd f = snd g"
        using Cons.IH [of s1 ys q c1] inv f g by auto
      have "rtmp_feed henv env center s left (p # q # qs) =
          (case f of ((res2, out2, center2, s2), ws) \<Rightarrow> ((res2, out @ out2, center2, s2), ws))"
        using True h f by (cases f) (simp del: rtmp_feed.simps(2) add: rtmp_feed.simps(2) [of _ _ _ s] split: prod.split)
      moreover have "rtmp_handle_read henv env center s (left @ p @ concat (q # qs)) =
          (case g of ((res2, out2, center2, s2), ws) \<Rightarrow> ((res2, out @ out2, center2, s2), ws))"
        using eq True g by (cases g) (simp split: prod.split)
      ultimately show ?thesis using fg by (cases f; cases g) (auto split: prod.splits)
    next
      case False
      then show ?thesis using h eq by (simp del: rtmp_feed.simps(2) add: rtmp_feed.simps(2) [of _ _ _ s])
    qed
  qed
  then show ?thesis using assms(2) by (simp add: rtmp_in_ok_def)
qed

section \<open>What is sent is what is received\<close>

text \<open>
  C1: The chunk layer is lossless. Whatever messages and changes of the chunk size a connection sends one after the other (\<open>SendData\<close>,
  \<open>SetOutChunkSize\<close>), on any of the one-byte chunk streams (2 to 63), of any other type, below 16 MiB, with or without a forced full header,
  a peer whose receiver agrees with the sender hands exactly these messages to \<open>OnRtmpMessage\<close>: same order, same chunk stream, same type, same
  body (for a video payload the 5-byte AVC header followed by its bytes). \<open>HandleRead\<close> returns and does what \<open>OnRtmpMessage\<close> does on them until
  one is not accepted; when all are, nothing is left in the buffer and no copy has left its block.
  In particular the compressed headers 1, 2 and 3 that \<open>SendData\<close> chooses from the previous message are understood as it meant them.
\<close>

theorem rtmp_chunks_roundtrip:
  assumes "hs_status (rs_hs peer) = kStatus_Done" and "rtmp_agree out (rs_in peer)" and "rtmp_ops_ok xs out"
  shows "\<exists>ms. map rtmp_key ms = map rtmp_seen xs \<and> list_all (\<lambda>m. unat (rm_len m) = length (rm_msg m)) ms \<and>
    rtmp_receives henv env center peer (fst (rtmp_send_all xs out)) ms"
proof -
  obtain ms st where "rtmp_recv (rs_in peer) (fst (rtmp_send_all xs out)) = (ms, st, [])" "map rtmp_key ms = map rtmp_seen xs"
    "list_all (\<lambda>m. unat (rm_len m) = length (rm_msg m)) ms" "ri_fault st = ri_fault (rs_in peer)"
    using rtmp_send_recv_all [OF assms(2,3)] by blast
  then show ?thesis using rtmp_receivesI [OF assms(1)] by blast
qed

section \<open>Timestamps\<close>

text \<open>
  C22: A subscriber sees the publisher's clock. On a connection that has sent nothing yet on the chunk streams 4 and 6, what \<open>OnNewSubscriber\<close> makes it send
  (the metadata if there are any, then the two codec headers) and the audio and video frames behind it, interleaved in any
  order, reach the peer's \<open>OnRtmpMessage\<close> as exactly these messages: the headers at time 0, and each frame with its body and with its decoding time modulo 2^32
  as message timestamp. Only the differences between frames of one kind travel, in 24 bits, so the frames of a kind are less than 2^24 ms
  apart, and the first one less than 2^24 ms from zero: a player that joins a stream that has run longer is outside this.
\<close>

theorem rtmp_session_timestamps:
  assumes "hs_status (rs_hs peer) = kStatus_Done" and "rtmp_agree out (rs_in peer)" and "5 \<le> unat (ro_chunk_size out)"
    and "\<forall>cs \<in> {4, 6}. ro_pre out cs = None \<and> ri_head (rs_in peer) cs = None"
    and "length md < 2 ^ 24" and "length ah < 2 ^ 24 - 5" and "length vh < 2 ^ 24 - 5" and "rtmp_frames_ok 0 0 ps"
  shows "\<exists>ms. map (\<lambda>m. (rtmp_key m, rm_timestamp_calc m)) ms =
      (if md = [] then [] else [((4, kMetaData_AMF0, md), 0)]) @
      [((4, kAudio, [0xAF, 0x00] @ ah), 0), ((6, kVideo, [0x17, 0x00, 0x00, 0x00, 0x00] @ vh), 0)] @ map rtmp_media_seen ps \<and>
    rtmp_receives henv env center peer (fst (rtmp_send_session md ah vh ps out)) ms"
proof -
  have fresh: "ro_pre out cs = None \<and> ri_head (rs_in peer) cs = None" if "cs = 4 \<or> cs = 6" for cs using assms(4) that by auto
  obtain ms st where r: "rtmp_recv (rs_in peer) (fst (rtmp_send_session md ah vh ps out)) = (ms, st, [])"
    "map (\<lambda>m. (rtmp_key m, rm_timestamp_calc m)) ms = (if md = [] then [] else [((4, kMetaData_AMF0, md), 0)]) @
      [((4, kAudio, [0xAF, 0x00] @ ah), 0), ((6, kVideo, [0x17, 0x00, 0x00, 0x00, 0x00] @ vh), 0)] @ map rtmp_media_seen ps"
    "ri_fault st = ri_fault (rs_in peer)"
    using rtmp_session_recv [OF assms(2,3) fresh assms(5-8)] by blast
  then show ?thesis using rtmp_receivesI [OF assms(1) r(1,3)] by blast
qed

section \<open>Video is relayed\<close>

definition media_to :: "nat \<Rightarrow> effect list \<Rightarrow> payload list" where
  \<comment> \<open>the frames given to a subscriber, in order\<close>
  "media_to s out = concat (map (\<lambda>e. case e of ECall t (SMedia p) \<Rightarrow> if t = s then [p] else [] | _ \<Rightarrow> []) out)"

definition nalu_framed :: "bytes \<Rightarrow> bytes" where
  "nalu_framed n = be 4 (length n) @ n"

definition is_slice :: "bytes \<Rightarrow> bool" where
  "is_slice n \<longleftrightarrow> hd n AND 0x1F = 1 \<or> hd n AND 0x1F = 5"

definition is_parameter_set :: "bytes \<Rightarrow> bool" where
  "is_parameter_set n \<longleftrightarrow> hd n AND 0x1F = 7 \<or> hd n AND 0x1F = 8"

lemma media_to_simps [simp]: "media_to s [] = []" "media_to s (a @ b) = media_to s a @ media_to s b"
  "media_to s (EWebrtc v # a) = media_to s a"
  by (simp_all add: media_to_def)

lemma media_to_broadcast:
  assumes "distinct (pb_subs b)" and "s \<in> set (pb_subs b)"
  shows "media_to s (ecalls (pb_broadcast srt pkts p b)) = [p]"
proof -
  have "concat (map (\<lambda>t. if t = s then [p] else []) ss) = (if s \<in> set ss then [p] else [])" if "distinct ss" for ss :: "nat list"
    using that by (induction ss) auto
  from this [OF assms(1)] assms(2) have "media_to s (ecalls (map (\<lambda>s. (s, SMedia p)) (pb_subs b))) = [p]"
    by (simp add: media_to_def ecalls_def comp_def)
  moreover have "media_to s (ecalls (concat (map (\<lambda>pkt. map (\<lambda>s. (s, SData pkt)) (filter srt (pb_subs b))) pkts))) = []"
    by (auto simp: media_to_def ecalls_def)
  ultimately show ?thesis by (simp add: pb_broadcast_def ecalls_def)
qed

lemma rtmp_on_nalu_media:
  assumes "nalu_ok n" and "\<not> is_parameter_set n" and "distinct (pb_subs b)" and "s \<in> set (pb_subs b)"
    and "rtmp_on_nalu env calc cto (nalu_framed n) (flag, b) = (out, flag1, b1)"
  shows "media_to s out = (if is_slice n then [rtmp_frame calc cto (nalu_framed n)] else [])" and "pb_subs b1 = pb_subs b"
proof -
  have ty: "nalu_type (nalu_framed n) = hd n AND 0x1F"
    using assms(1) by (simp add: nalu_framed_def nalu_type_length nalu_ok_def)
  have v: "fst (pb_on_video srt mem show_ms p b) = pb_broadcast srt (fst (mm_on_video mem show_ms p (pb_mm b))) p b"
    "pb_subs (snd (pb_on_video srt mem show_ms p b)) = pb_subs b" for srt mem show_ms p
    by (simp_all add: pb_on_video_def split_def Let_def)
  show "media_to s out = (if is_slice n then [rtmp_frame calc cto (nalu_framed n)] else [])" and "pb_subs b1 = pb_subs b"
    using assms(2,5) media_to_broadcast [OF assms(3,4)]
    by (auto simp: rtmp_on_nalu_def Let_def ty nal_types is_slice_def is_parameter_set_def rtmp_frame_def split_def v split: if_splits)
qed

lemma rtmp_on_nalus_media:
  assumes "list_all nalu_ok ns" and "list_all (\<lambda>n. \<not> is_parameter_set n) ns" and "distinct (pb_subs b)" and "s \<in> set (pb_subs b)"
  shows "media_to s (fst (rtmp_on_nalus env calc cto (map nalu_framed ns) (flag, b))) =
    map (\<lambda>n. rtmp_frame calc cto (nalu_framed n)) (filter is_slice ns)"
  using assms
proof (induction ns arbitrary: flag b)
  case (Cons n ns)
  obtain out flag1 b1 where on: "rtmp_on_nalu env calc cto (nalu_framed n) (flag, b) = (out, flag1, b1)" using prod_cases3 by blast
  have "nalu_ok n" "\<not> is_parameter_set n" using Cons.prems by simp_all
  note m = rtmp_on_nalu_media [OF this Cons.prems(3,4) on]
  show ?case using Cons.IH [of b1 flag1] Cons.prems m by (simp add: on split_def Let_def)
qed simp

lemma rtmp_frames_same:
  assumes "\<forall>f \<in> set fs. rtmp_media_ok t f \<and> \<not> pl_is_audio f \<and> ucast (pl_dts f) = (calc :: u32)"
  shows "rtmp_frames_ok ta t fs"
proof -
  have later: "rtmp_frames_ok ta calc fs" if "\<forall>f \<in> set fs. rtmp_media_ok t f \<and> \<not> pl_is_audio f \<and> ucast (pl_dts f) = calc" for fs
    using that by (induction fs) (auto simp: rtmp_media_ok_def)
  show ?thesis using assms later [of "tl fs"] by (cases fs) auto
qed

text \<open>
  C2: The server relays video slice by slice. Take a publisher's AVC video message of any NALUs that are no parameter sets (those inside
  frames are a different branch of the code), below 16 MiB. \<open>OnRtmpMessage\<close> accepts it and gives every subscriber exactly its slices, each as one frame of its own, in
  their order (SEI and other NALUs are not given to the subscribers). When a subscriber's connection, in step with its player and
  less than 2^24 ms after the video frame before, sends these frames, the player's \<open>OnRtmpMessage\<close> gets one video message for each: the first byte says whether the slice is of a key frame,
  the composition time and the NALU are the publisher's, and so is the timestamp.
\<close>

theorem rtmp_video_relayed:
  assumes body: "rm_msg m = [x, 1, a, b, c] @ concat (map nalu_framed ns)" and x: "x = 0x17 \<or> x = 0x27" and ty: "rm_message_type_id m = kVideo"
    and ns: "ns \<noteq> []" "list_all nalu_ok ns" "list_all (\<lambda>n. \<not> is_parameter_set n) ns"
    and len: "unat (rm_len m) = length (rm_msg m)" and small: "length (rm_msg m) < 2 ^ 24"
    and message: "rtmp_on_message env m center pub = (res, out, center1, pub1)"
    and s: "s \<in> set (pb_subs (rs_pub pub))" "distinct (pb_subs (rs_pub pub))"
    and player: "hs_status (rs_hs player) = kStatus_Done" "rtmp_agree pout (rs_in player)" "5 \<le> unat (ro_chunk_size pout)"
      "rtmp_clock 4 ta pout (rs_in player)" "rtmp_clock 6 t pout (rs_in player)"
    and delta: "unat (rm_timestamp_calc m - t) < 2 ^ 24"
  shows "res = Ret kSuccess \<and> (\<exists>ms. map (\<lambda>m2. (rtmp_key m2, rm_timestamp_calc m2)) ms =
      map (\<lambda>n. ((6, kVideo, [if hd n AND 0x1F = 5 then 0x17 else 0x27, 1, a, b, c] @ nalu_framed n), rm_timestamp_calc m)) (filter is_slice ns) \<and>
    rtmp_receives henv env2 center2 player (fst (rtmp_send_media_all (media_to s out) pout)) ms)"
proof -
  define data where "data = concat (map nalu_framed ns)"
  define cto where "cto = rtmp_composition_time a b c"
  define calc where "calc = rm_timestamp_calc m"
  define frame where "frame = (\<lambda>n. rtmp_frame calc cto (nalu_framed n))"
  have framed: "nalu_framed n \<noteq> []" "length (nalu_framed n) = length n + 4" for n by (simp_all add: nalu_framed_def)
  have d: "data \<noteq> []" using ns(1) framed by (cases ns) (auto simp: data_def)
  have loop: "rtmp_nalus (length data) data = (map nalu_framed ns, NalusDone)"
    unfolding data_def nalu_framed_def by (rule rtmp_nalus_exactly [OF ns(2)]) simp
  have on: "rtmp_on_video env m (rs_pub pub) = (Ret kSuccess, rtmp_on_nalus env calc cto (map nalu_framed ns) (False, rs_pub pub))"
    using rtmp_on_video_frame [OF body [folded data_def] len x d, of env "rs_pub pub"] loop by (simp add: cto_def calc_def split_def)
  have r: "res = Ret kSuccess" "out = fst (rtmp_on_nalus env calc cto (map nalu_framed ns) (False, rs_pub pub))"
    using message ty by (auto simp: rtmp_on_message_def Let_def on media_only_def kVideo_def kSetChunkSize_def kAcknowledgement_def
        kWindowAcknowledgementSize_def kSetPeerBandwidth_def kUserControlMessage_def kAudio_def split_def)
  have media: "media_to s out = map frame (filter is_slice ns)"
    unfolding r(2) frame_def by (rule rtmp_on_nalus_media [OF ns(2,3) s(2,1)])
  note ff = rtmp_frame_fields [of calc cto]
  have dts: "ucast (pl_dts (frame n)) = calc" for n by (simp add: frame_def ff ucast_up_down)
  have ok: "rtmp_media_ok t (frame n)" if "n \<in> set ns" for n
  proof -
    have "length (nalu_framed n) \<le> length data"
      using that by (auto simp: data_def length_concat intro!: member_le_sum_list)
    then have l: "length n + 4 < 2 ^ 24 - 5" using small body framed(2) [of n] by (simp add: data_def)
    have "length (nalu_framed n) < 2 ^ 64" using l framed(2) [of n] by simp
    then have "unat (pl_len (frame n)) = length (nalu_framed n)" by (simp add: frame_def ff unat_of_nat)
    moreover have "pl_data (frame n) = Some (nalu_framed n)" "pl_is_video (frame n)" by (simp_all add: frame_def ff)
    ultimately show ?thesis using l delta [folded calc_def] framed dts [of n] by (simp add: rtmp_media_ok_def)
  qed
  have "rtmp_frames_ok ta t (map frame (filter is_slice ns))"
    by (rule rtmp_frames_same [where calc = calc]) (use ok dts in \<open>auto simp: frame_def ff\<close>)
  then obtain ms st where 1: "rtmp_recv (rs_in player) (fst (rtmp_send_media_all (map frame (filter is_slice ns)) pout)) = (ms, st, [])"
    "map (\<lambda>m. (rtmp_key m, rm_timestamp_calc m)) ms = map rtmp_media_seen (map frame (filter is_slice ns))" "ri_fault st = ri_fault (rs_in player)"
    using rtmp_media_all_ok [OF player(2-5)] by blast
  have seen: "rtmp_media_seen (frame n) = ((6, kVideo, [if hd n AND 0x1F = 5 then 0x17 else 0x27, 1, a, b, c] @ nalu_framed n), calc)"
    if "nalu_ok n" for n
  proof -
    have "rtmp_video_header (frame n) = [if pl_is_iframe (frame n) then 0x17 else 0x27, 1, a, b, c]"
      unfolding frame_def cto_def by (rule rtmp_frame_header) (rule rtmp_frame_fields)+
    moreover have "pl_is_iframe (frame n) \<longleftrightarrow> hd n AND 0x1F = 5"
      using that by (simp add: frame_def ff nalu_framed_def nalu_type_length nalu_ok_def)
    ultimately show ?thesis
      by (simp add: rtmp_media_seen_def dts) (simp add: frame_def ff rtmp_media_cs_def rtmp_media_data_def)
  qed
  have all: "map rtmp_media_seen (map frame (filter is_slice ns)) =
      map (\<lambda>n. ((6, kVideo, [if hd n AND 0x1F = 5 then 0x17 else 0x27, 1, a, b, c] @ nalu_framed n), calc)) (filter is_slice ns)"
    using ns(2) seen by (simp add: list_all_iff)
  show ?thesis unfolding media
  proof (intro conjI exI)
    show "res = Ret kSuccess" by (rule r(1))
    show "map (\<lambda>m2. (rtmp_key m2, rm_timestamp_calc m2)) ms =
      map (\<lambda>n. ((6, kVideo, [if hd n AND 0x1F = 5 then 0x17 else 0x27, 1, a, b, c] @ nalu_framed n), rm_timestamp_calc m)) (filter is_slice ns)"
      unfolding 1(2) calc_def [symmetric] by (rule all)
    show "rtmp_receives henv env2 center2 player (fst (rtmp_send_media_all (map frame (filter is_slice ns)) pout)) ms"
      by (rule rtmp_receivesI [OF player(1) 1(1,3)])
  qed
qed

section \<open>Witnesses\<close>

definition test_peer :: "u32 \<Rightarrow> rtmp_session" where
  \<comment> \<open>a connection that has done the handshake, with that chunk size\<close>
  "test_peer c = (rs_new 7)\<lparr>rs_hs := \<lparr>hs_status = kStatus_Done, hs_version = 3, hs_scheme = 0, hs_encrypted = False\<rparr>, rs_in := rtmp_in_init c\<rparr>"

lemma test_peer_fields [simp]: "hs_status (rs_hs (test_peer c)) = kStatus_Done" "rs_in (test_peer c) = rtmp_in_init c"
  by (simp_all add: test_peer_def)

lemma rtmp_read_segmentation_witness:
  "fst (rtmp_feed hs_test_env test_env [] (test_peer 128) [] [[3, 0], [], [0, 7]]) =
   fst (rtmp_handle_read hs_test_env test_env [] (test_peer 128) [3, 0, 0, 7])"
proof -
  have b: "rtmp_basic_header [3, 0, 0, 7] = Some (0, 3, 1)"
    using basic_header_first [of 0 3 "[0, 0, 7]"] by (simp add: rtmp_first_byte_def)
  then have "fst (rtmp_read_chunk (rtmp_in_init 128) [3, 0, 0, 7]) = ChunkNoData"
    by (simp add: rtmp_read_chunk_def Let_def rtmp_message_header_len_def)
  then have "fst (rtmp_recv (rtmp_in_init 128) [3, 0, 0, 7]) = []" by (cases "rtmp_read_chunk (rtmp_in_init 128) [3, 0, 0, 7]") (simp add: rtmp_recv_eqs(1))
  then show ?thesis
    using rtmp_read_segmentation [of "test_peer 128" "[]" "[3, 0]" "[[], [0, 7]]" hs_test_env test_env "[]"]
    by (simp add: rtmp_in_init_def del: rtmp_feed.simps)
qed

definition test_ops :: "rtmp_op list" where
  "test_ops = [Message (rm_new\<lparr>rm_cs_id := 3, rm_message_length := 3, rm_message_type_id := 20\<rparr>) [7, 8, 9] (pl_empty 0 0) True,
     Resize 4096, Message (rm_new\<lparr>rm_cs_id := 3, rm_message_length := 1, rm_message_type_id := 77\<rparr>) [5] (pl_empty 0 0) False]"

lemma test_ops_ok: "rtmp_ops_ok test_ops (rtmp_out_init 5)"
proof -
  have nv: "\<not> pl_is_video (pl_empty 0 0)" by (simp add: pl_defs)
  then have vh: "rtmp_video_header (pl_empty 0 0) = []" by (simp add: rtmp_video_header_def)
  have size: "ro_chunk_size (snd (rtmp_send_data cur data p force out)) = ro_chunk_size out" for cur data p force out
    by (rule rtmp_send_keeps_size)
  show ?thesis
    using nv vh by (simp add: test_ops_def rtmp_sendable_def size) (simp add: rm_new_def kSetChunkSize_def rtmp_out_init_def size)
qed

lemma rtmp_chunks_roundtrip_witness:
  "\<exists>ms. map rtmp_key ms = [(3, 20, [7, 8, 9]), (2, 1, [0, 0, 16, 0]), (3, 77, [5])] \<and>
    rtmp_receives hs_test_env test_env [] (test_peer 5) (fst (rtmp_send_all test_ops (rtmp_out_init 5))) ms"
proof -
  have a: "rtmp_agree (rtmp_out_init 5) (rs_in (test_peer 5))" using rtmp_agree_init [of 5] by simp
  have "rtmp_video_header (pl_empty 0 0) = []" by (simp add: rtmp_video_header_def pl_defs)
  then have "map rtmp_seen test_ops = [(3, 20, [7, 8, 9]), (2, 1, [0, 0, 16, 0]), (3, 77, [5])]"
    by (simp add: test_ops_def kSetChunkSize_def) code_simp
  then have seen: "map rtmp_key ms = map rtmp_seen test_ops \<Longrightarrow> map rtmp_key ms = [(3, 20, [7, 8, 9]), (2, 1, [0, 0, 16, 0]), (3, 77, [5])]" for ms
    by (simp only:)
  obtain ms where "map rtmp_key ms = map rtmp_seen test_ops"
    "rtmp_receives hs_test_env test_env [] (test_peer 5) (fst (rtmp_send_all test_ops (rtmp_out_init 5))) ms"
    using rtmp_chunks_roundtrip [OF test_peer_fields(1) a test_ops_ok, of hs_test_env test_env "[]"] by (elim exE conjE) (rule that; assumption)
  then show ?thesis by (intro exI conjI) (rule seen)
qed

definition test_frames :: "payload list" where
  "test_frames = [pl_set_audio (pl_new 5 5 [0xAF, 1, 9] 3), pl_set_video (pl_new 40 40 [0, 0, 0, 1, 6] 5)]"

lemma rtmp_session_timestamps_witness:
  "\<exists>ms. map (\<lambda>m. (rm_cs_id m, rm_timestamp_calc m)) ms = [(4, 0), (4, 0), (6, 0), (4, 5), (6, 40)] \<and>
    rtmp_receives hs_test_env test_env [] (test_peer 128) (fst (rtmp_send_session [2] [18] [1] test_frames (rtmp_out_init 128))) ms"
proof -
  have a: "rtmp_agree (rtmp_out_init 128) (rs_in (test_peer 128))" using rtmp_agree_init [of 128] by simp
  have f: "rtmp_frames_ok 0 0 test_frames" by (simp add: test_frames_def rtmp_media_ok_def pl_defs)
  have c: "5 \<le> unat (ro_chunk_size (rtmp_out_init 128))"
    "\<forall>cs \<in> {4, 6}. ro_pre (rtmp_out_init 128) cs = None \<and> ri_head (rs_in (test_peer 128)) cs = None"
    by (simp_all add: rtmp_out_init_def rtmp_in_init_def)
  have l: "length [2 :: u8] < 2 ^ 24" "length [18 :: u8] < 2 ^ 24 - 5" "length [1 :: u8] < 2 ^ 24 - 5" by simp_all
  obtain ms where ms: "map (\<lambda>m. (rtmp_key m, rm_timestamp_calc m)) ms =
      (if [2 :: u8] = [] then [] else [((4, kMetaData_AMF0, [2]), 0)]) @
      [((4, kAudio, [0xAF, 0x00] @ [18]), 0), ((6, kVideo, [0x17, 0x00, 0x00, 0x00, 0x00] @ [1]), 0)] @ map rtmp_media_seen test_frames"
    "rtmp_receives hs_test_env test_env [] (test_peer 128) (fst (rtmp_send_session [2] [18] [1] test_frames (rtmp_out_init 128))) ms"
    using rtmp_session_timestamps [OF test_peer_fields(1) a c l f, of hs_test_env test_env "[]"] by blast
  have "map (\<lambda>m. (rm_cs_id m, rm_timestamp_calc m)) ms = map (\<lambda>(k, t). (fst k, t)) (map (\<lambda>m. (rtmp_key m, rm_timestamp_calc m)) ms)"
    by (simp add: rtmp_key_def comp_def)
  also have "\<dots> = [(4, 0), (4, 0), (6, 0), (4, 5), (6, 40)]"
    unfolding ms(1) by (simp add: test_frames_def rtmp_media_seen_def rtmp_media_cs_def pl_defs)
  finally have "map (\<lambda>m. (rm_cs_id m, rm_timestamp_calc m)) ms = [(4, 0), (4, 0), (6, 0), (4, 5), (6, 40)]" .
  then show ?thesis using ms(2) by (intro exI conjI)
qed

definition test_player :: "rtmp_out \<times> rtmp_session" where
  \<comment> \<open>a subscriber's sender and its player, some frames after the start\<close>
  "test_player =
     (let a = rm_new\<lparr>rm_message_length := 10, rm_message_type_id := kAudio\<rparr>; v = rm_new\<lparr>rm_message_length := 10, rm_message_type_id := kVideo\<rparr>
      in (\<lparr>ro_chunk_size = 128, ro_pre = [4 \<mapsto> a, 6 \<mapsto> v]\<rparr>,
          (test_peer 128)\<lparr>rs_in := \<lparr>ri_chunk_size = 128, ri_head = [4 \<mapsto> a, 6 \<mapsto> v], ri_fault = False\<rparr>\<rparr>))"

lemma test_player_ok:
  "hs_status (rs_hs (snd test_player)) = kStatus_Done" "rtmp_agree (fst test_player) (rs_in (snd test_player))"
  "5 \<le> unat (ro_chunk_size (fst test_player))" "rtmp_clock 4 0 (fst test_player) (rs_in (snd test_player))"
  "rtmp_clock 6 0 (fst test_player) (rs_in (snd test_player))"
  by (auto simp: test_player_def rtmp_agree_def rtmp_clock_def rm_ref_def rm_new_def Let_def)

definition test_video :: rtmp_message where
  \<comment> \<open>SEI and two slices\<close>
  "test_video = rm_new\<lparr>rm_message_type_id := kVideo, rm_timestamp_calc := 80, rm_len := 24,
     rm_msg := [0x17, 1, 0, 0, 40] @ concat (map nalu_framed [[0x06, 5], [0x65, 9], [0x65, 8, 7]])\<rparr>"

lemma test_video_ok:
  "rm_msg test_video = [0x17, 1, 0, 0, 40] @ concat (map nalu_framed [[0x06, 5], [0x65, 9], [0x65, 8, 7]])"
  "(0x17 :: u8) = 0x17 \<or> (0x17 :: u8) = 0x27" "rm_message_type_id test_video = kVideo" "[[0x06, 5], [0x65, 9], [0x65, 8, 7 :: u8]] \<noteq> []"
  "list_all nalu_ok [[0x06, 5], [0x65, 9], [0x65, 8, 7]]" "list_all (\<lambda>n. \<not> is_parameter_set n) [[0x06, 5], [0x65, 9], [0x65, 8, 7]]"
  "unat (rm_len test_video) = length (rm_msg test_video)" "length (rm_msg test_video) < 2 ^ 24"
  by (simp_all add: test_video_def nalu_framed_def nalu_ok_def is_parameter_set_def)

lemma rtmp_video_relayed_witness:
  "\<exists>out ms. map (\<lambda>m. (rtmp_key m, rm_timestamp_calc m)) ms =
      map (\<lambda>n. ((6, kVideo, [if hd n AND 0x1F = 5 then 0x17 else 0x27, 1, 0, 0, 40] @ nalu_framed n), rm_timestamp_calc test_video))
        (filter is_slice [[0x06, 5], [0x65, 9], [0x65, 8, 7]])
     \<and> rtmp_receives hs_test_env test_env [] (snd test_player) (fst (rtmp_send_media_all (media_to 3 out) (fst test_player))) ms"
proof -
  let ?pub = "(rs_new 1)\<lparr>rs_pub := pb_new\<lparr>pb_subs := [3]\<rparr>\<rparr>"
  obtain res out c1 p1 where v: "rtmp_on_message test_env test_video [] ?pub = (res, out, c1, p1)" using prod_cases4 by blast
  have p: "3 \<in> set (pb_subs (rs_pub ?pub))" "distinct (pb_subs (rs_pub ?pub))" by simp_all
  have delta: "unat (rm_timestamp_calc test_video - 0) < 2 ^ 24" by (simp add: test_video_def)
  show ?thesis
    using rtmp_video_relayed [OF test_video_ok v p test_player_ok delta, of hs_test_env test_env "[]"]
    by (elim conjE exE) (intro exI conjI; assumption)
qed

end
