(* ===== verification/TsReader.thy ===== *)
theory TsReader
  imports BitIO Payload StdMap "HOL-Library.State_Monad"
begin

text \<open>
  \<open>src/ts_reader.h\<close>, \<open>src/ts_reader.cpp\<close>: the demultiplexer of the SRT input. It finds the
  stream PIDs in PAT and PMT, collects the packets of a PES unit per PID, and hands the NAL units
  and AAC frames of a finished unit to two callbacks. The header parsers are programs of the state
  monad over the bit reader. What does not return normally has an outcome of its own: a failed
  \<open>assert\<close>, an access outside an object, a loop that never ends.

  The lemmas follow the reader over what \<open>TsMuxer\<close> writes, and pin down the time stamps, the
  start-code scan and the inputs on which the reader fails.
\<close>

section \<open>Constants\<close>

definition kTsSegmentFixedSize :: nat where "kTsSegmentFixedSize = 188"
definition kTsHeaderSyncByte :: u8 where "kTsHeaderSyncByte = 0x47"

definition kProgramStreamMap :: u8 where "kProgramStreamMap = 188"
definition kPaddingStream :: u8 where "kPaddingStream = 190"
definition kPrivateStream2 :: u8 where "kPrivateStream2 = 191"
definition kAudioStreamBegin :: u8 where "kAudioStreamBegin = 192"
definition kAudioStreamEnd :: u8 where "kAudioStreamEnd = 223"
definition kVideoStreamBegin :: u8 where "kVideoStreamBegin = 224"
definition kVideoStreamEnd :: u8 where "kVideoStreamEnd = 239"
definition kECMStream :: u8 where "kECMStream = 240"
definition kEMMStream :: u8 where "kEMMStream = 241"
definition kDSMCCStream :: u8 where "kDSMCCStream = 242"
definition kH_222_1_E :: u8 where "kH_222_1_E = 248"
definition kProgramStreamDirector :: u8 where "kProgramStreamDirector = 255"

lemmas stream_ids = kProgramStreamMap_def kPaddingStream_def kPrivateStream2_def kAudioStreamBegin_def
  kAudioStreamEnd_def kVideoStreamBegin_def kVideoStreamEnd_def kECMStream_def kEMMStream_def kDSMCCStream_def
  kH_222_1_E_def kProgramStreamDirector_def

definition IsStreamIdVideo :: "u8 \<Rightarrow> bool" where
  "IsStreamIdVideo sid \<longleftrightarrow> kVideoStreamBegin \<le> sid \<and> sid \<le> kVideoStreamEnd"

definition IsStreamIdAudio :: "u8 \<Rightarrow> bool" where
  "IsStreamIdAudio sid \<longleftrightarrow> kAudioStreamBegin \<le> sid \<and> sid \<le> kAudioStreamEnd"

definition kSampingFrequency :: "(int, int) smap" where
  "kSampingFrequency = [(0, 96000), (1, 88200), (2, 64000), (3, 48000), (4, 44100), (5, 32000), (6, 24000),
     (7, 22050), (8, 16000), (9, 12000), (10, 11025), (11, 8000), (12, 7350)]"

definition kChannelConfigurations :: "(int, int) smap" where
  "kChannelConfigurations = [(0, 0), (1, 1), (2, 2), (3, 3), (4, 4), (5, 5), (6, 6), (7, 8)]"

definition GetSampleRate :: "int \<Rightarrow> int" where
  "GetSampleRate i = (case sm_find i kSampingFrequency of None \<Rightarrow> -1 | Some r \<Rightarrow> r)"

definition GetChannles :: "int \<Rightarrow> int" where
  "GetChannles c = (case sm_find c kChannelConfigurations of None \<Rightarrow> -1 | Some r \<Rightarrow> r)"

definition IsVideoStreamType :: "u8 \<Rightarrow> bool" where
  "IsVideoStreamType ty \<longleftrightarrow> ty = 0x1B \<or> ty = 0x24"

definition IsAudioStreamType :: "u8 \<Rightarrow> bool" where
  "IsAudioStreamType ty \<longleftrightarrow> ty = 0x0F"

definition H265NalType_BLA_W_LP :: u8 where "H265NalType_BLA_W_LP = 16"
definition H265NalType_BLA_W_RADL :: u8 where "H265NalType_BLA_W_RADL = 17"
definition H265NalType_BLA_N_LP :: u8 where "H265NalType_BLA_N_LP = 18"
definition H265NalType_IDR_W_RADL :: u8 where "H265NalType_IDR_W_RADL = 19"
definition H265NalType_IDR_N_LP :: u8 where "H265NalType_IDR_N_LP = 20"
definition H265NalType_CRA_NUT :: u8 where "H265NalType_CRA_NUT = 21"
definition H265NalType_VPS :: u8 where "H265NalType_VPS = 32"
definition H265NalType_SPS :: u8 where "H265NalType_SPS = 33"
definition H265NalType_PPS :: u8 where "H265NalType_PPS = 34"

lemmas hevc_types = H265NalType_BLA_W_LP_def H265NalType_BLA_W_RADL_def H265NalType_BLA_N_LP_def
  H265NalType_IDR_W_RADL_def H265NalType_IDR_N_LP_def H265NalType_CRA_NUT_def H265NalType_VPS_def
  H265NalType_SPS_def H265NalType_PPS_def

definition kStartCode :: bytes where "kStartCode = [0x00, 0x00, 0x00, 0x01]"

section \<open>State\<close>

datatype ts_event = TsHeader payload | TsFrame payload

record ts_reader =
  tr_pmt_pid :: u16
  tr_video_pid :: u16
  tr_audio_pid :: u16
  tr_video_type :: u16
  tr_audio_type :: u16
  tr_pes :: "(u32, bytes) smap"
  tr_frame_cb :: bool \<comment> \<open>\<open>frame_callback_\<close> is set\<close>
  tr_header_cb :: bool
  tr_events :: "ts_event list" \<comment> \<open>the callbacks made so far\<close>

datatype 'a ts_out = TsOk 'a | TsAbort | TsFault | TsHang

record ts_env =
  te_junk :: u64 \<comment> \<open>what an uninitialised variable holds\<close>
  te_clock :: "u32 \<Rightarrow> nat \<Rightarrow> u64" \<comment> \<open>the floating-point time of the i-th AAC frame of a unit\<close>

definition tr_new :: "ts_env \<Rightarrow> ts_reader" where
  "tr_new E = \<lparr>tr_pmt_pid = 0xFFFF, tr_video_pid = 0xFFFF, tr_audio_pid = 0xFFFF,
     tr_video_type = ucast (te_junk E), tr_audio_type = ucast (te_junk E), tr_pes = [],
     tr_frame_cb = False, tr_header_cb = False, tr_events = []\<rparr>"

definition tr_set_frame_callback :: "ts_reader \<Rightarrow> ts_reader" where
  "tr_set_frame_callback s = s\<lparr>tr_frame_cb := True\<rparr>"

definition tr_set_header_callback :: "ts_reader \<Rightarrow> ts_reader" where
  "tr_set_header_callback s = s\<lparr>tr_header_cb := True\<rparr>"

definition tr_emit_frame :: "payload \<Rightarrow> ts_reader \<Rightarrow> ts_reader" where
  "tr_emit_frame p s = (if tr_frame_cb s then s\<lparr>tr_events := tr_events s @ [TsFrame p]\<rparr> else s)"

definition tr_emit_header :: "payload \<Rightarrow> ts_reader \<Rightarrow> ts_reader" where
  "tr_emit_header p s = (if tr_header_cb s then s\<lparr>tr_events := tr_events s @ [TsHeader p]\<rparr> else s)"

definition tr_unit :: "u32 \<Rightarrow> ts_reader \<Rightarrow> bytes" where
  \<comment> \<open>\<open>pes_[pid]\<close>\<close>
  "tr_unit pid s = (case sm_find pid (tr_pes s) of None \<Rightarrow> [] | Some d \<Rightarrow> d)"

section \<open>The bit reader as a monad\<close>

type_synonym 'a reader = "(bit_buffer, 'a) state"

definition rd :: "nat \<Rightarrow> 'w::len word \<Rightarrow> 'w word reader" where
  \<comment> \<open>\<open>GetBits(n, x)\<close> with the status ignored; the second argument is \<open>x\<close> before the call\<close>
  "rd n old = State (\<lambda>b. let (_, v, b1) = bb_get_bits n old b in (v, b1))"

definition rdx :: "nat \<Rightarrow> unit reader" where
  \<comment> \<open>\<open>GetBits\<close> into a variable that is not looked at again\<close>
  "rdx n = State (\<lambda>b. let (_, _, b1) = bb_get_bits n (0 :: u64) b in ((), b1))"

definition rd_left :: "nat reader" where
  "rd_left = State (\<lambda>b. (bb_bytes_left b, b))"

definition rd_skip :: "nat \<Rightarrow> unit reader" where
  "rd_skip n = State (\<lambda>b. ((), bb_skip_bytes n b))"

abbreviation rd_ret :: "'a \<Rightarrow> 'a reader" where
  "rd_ret \<equiv> State_Monad.return"

abbreviation rd_when :: "bool \<Rightarrow> unit reader \<Rightarrow> unit reader" where
  "rd_when c m \<equiv> (if c then m else rd_ret ())"

primrec rd_times :: "nat \<Rightarrow> unit reader \<Rightarrow> unit reader" where
  "rd_times 0 m = rd_ret ()"
| "rd_times (Suc n) m = do { m; rd_times n m }"

section \<open>\<open>ParseAdaptation\<close>\<close>

primrec ts_stuffing :: "nat \<Rightarrow> bool reader" where
  \<comment> \<open>False: \<open>assert(stuffing_byte == 0xFF)\<close> fails\<close>
  "ts_stuffing 0 = rd_ret True"
| "ts_stuffing (Suc n) = do { x \<leftarrow> rd 8 (0 :: u8); if x = 0xFF then ts_stuffing n else rd_ret False }"

definition ts_adaptation_extension :: "ts_env \<Rightarrow> unit reader" where
  "ts_adaptation_extension E = do {
     len \<leftarrow> rd 8 (ucast (te_junk E) :: u8);
     begin \<leftarrow> rd_left;
     ltw_flag \<leftarrow> rd 1 (ucast (te_junk E) :: u8);
     piecewise_rate_flag \<leftarrow> rd 1 (ucast (te_junk E) :: u8);
     seamless_splice_flag \<leftarrow> rd 1 (ucast (te_junk E) :: u8);
     rdx 5;
     rd_when (ltw_flag = 0x01) (do { rdx 1; rdx 15 });
     rd_when (piecewise_rate_flag = 0x01) (do { rdx 2; rdx 22 });
     rd_when (seamless_splice_flag = 0x01) (do { rdx 4; rdx 3; rdx 1; rdx 15; rdx 15; rdx 1 });
     left \<leftarrow> rd_left;
     rd_times (unat (len - word_of_nat (begin - left))) (rdx 8)
   }"

definition ParseAdaptation :: "ts_env \<Rightarrow> bool reader" where
  "ParseAdaptation E = do {
     len \<leftarrow> rd 8 (0 :: u8);
     if len = 0 then rd_ret True
     else do {
       begin \<leftarrow> rd_left;
       rdx 1; rdx 1; rdx 1;
       PCR_flag \<leftarrow> rd 1 (0 :: u8);
       OPCR_flag \<leftarrow> rd 1 (0 :: u8);
       splicing_point_flag \<leftarrow> rd 1 (0 :: u8);
       transport_private_data_flag \<leftarrow> rd 1 (0 :: u8);
       adaptation_field_extension_flag \<leftarrow> rd 1 (0 :: u8);
       rd_when (PCR_flag = 0x01) (do { rdx 33; rdx 6; rdx 9 });
       rd_when (OPCR_flag = 0x01) (do { rdx 33; rdx 6; rdx 9 });
       rd_when (splicing_point_flag = 0x01) (rdx 8);
       rd_when (transport_private_data_flag = 0x01) (do { n \<leftarrow> rd 8 (0 :: u8); rd_times (unat n) (rdx 8) });
       rd_when (adaptation_field_extension_flag = 0x01) (ts_adaptation_extension E);
       left \<leftarrow> rd_left;
       ts_stuffing (unat (len - word_of_nat (begin - left)))
     }
   }"

section \<open>PAT and PMT\<close>

definition ts_section_head :: "u16 reader" where
  \<comment> \<open>from \<open>table_id\<close> to \<open>last_section_number\<close>, the same in both tables; returns \<open>section_length\<close>\<close>
  "ts_section_head = do {
     rdx 8; rdx 1; rdx 1; rdx 2;
     section_length \<leftarrow> rd 12 (0 :: u16);
     rdx 16; rdx 2; rdx 5; rdx 1; rdx 8; rdx 8;
     rd_ret section_length
   }"

definition ParsePAT :: "u16 option reader" where
  \<comment> \<open>the PID of the program map table, if the packet names one\<close>
  "ParsePAT = do {
     ts_section_head;
     program_number \<leftarrow> rd 16 (0 :: u16);
     rdx 3;
     pid \<leftarrow> rd 13 (0 :: u16);
     rdx 32;
     rd_ret (if program_number = 0x00 then None else Some pid)
   }"

definition ParseDescriptor :: "int reader" where
  "ParseDescriptor = do {
     rdx 8;
     descriptor_length \<leftarrow> rd 8 (0 :: u8);
     left \<leftarrow> rd_left;
     if left < unat descriptor_length then rd_ret (-1)
     else do { rd_skip (unat descriptor_length); rd_ret 0 }
   }"

partial_function (option) ts_descriptors :: "u16 \<Rightarrow> bit_buffer \<Rightarrow> (int \<times> bit_buffer) option" where
  \<comment> \<open>the loop over \<open>program_info_length\<close> or \<open>ES_info_length\<close>; \<open>None\<close>: it never ends\<close>
  "ts_descriptors len b =
     (if len = 0 then Some (0, b)
      else let (r, b1) = run_state ParseDescriptor b
           in if r \<noteq> 0 then Some (-1, b1)
              else ts_descriptors (len - word_of_nat (bb_bytes_left b - bb_bytes_left b1)) b1)"

definition ts_set_stream :: "u8 \<Rightarrow> u16 \<Rightarrow> ts_reader \<Rightarrow> ts_reader" where
  "ts_set_stream ty pid s =
     (if IsVideoStreamType ty then s\<lparr>tr_video_type := ucast ty, tr_video_pid := pid\<rparr>
      else if IsAudioStreamType ty then s\<lparr>tr_audio_type := ucast ty, tr_audio_pid := pid\<rparr>
      else s)"

definition ts_es_head :: "(u8 \<times> u16 \<times> u16) reader" where
  "ts_es_head = do {
     stream_type \<leftarrow> rd 8 (0 :: u8);
     rdx 3;
     elementary_PID \<leftarrow> rd 13 (0 :: u16);
     rdx 4;
     ES_info_length \<leftarrow> rd 12 (0 :: u16);
     rd_ret (stream_type, elementary_PID, ES_info_length)
   }"

partial_function (option) ts_es_loop :: "int \<Rightarrow> ts_reader \<Rightarrow> bit_buffer \<Rightarrow> (int \<times> ts_reader \<times> bit_buffer) option" where
  "ts_es_loop es_info_bytes s b =
     (if 4 < bb_bytes_left b \<and> 0 < es_info_bytes
      then let ((ty, pid, len), b1) = run_state ts_es_head b;
               s1 = ts_set_stream ty pid s
           in case ts_descriptors len b1 of
                None \<Rightarrow> None
              | Some (r, b2) \<Rightarrow>
                  if r \<noteq> 0 then Some (-1, s1, b2)
                  else ts_es_loop (es_info_bytes - int (bb_bytes_left b - bb_bytes_left b2)) s1 b2
      else Some (0, s, b))"

definition ts_pmt_head :: "(u16 \<times> u16) reader" where
  \<comment> \<open>\<open>section_length\<close> and \<open>program_info_length\<close>\<close>
  "ts_pmt_head = do {
     section_length \<leftarrow> ts_section_head;
     rdx 3; rdx 13; rdx 4;
     program_info_length \<leftarrow> rd 12 (0 :: u16);
     rd_ret (section_length, program_info_length)
   }"

definition ParsePMT :: "ts_reader \<Rightarrow> bit_buffer \<Rightarrow> (int \<times> ts_reader) option" where
  "ParsePMT s b =
     (let ((section_length, info), b1) = run_state ts_pmt_head b;
          es_info_bytes = int (unat (section_length - 9)) - 4
      in case ts_descriptors info b1 of
           None \<Rightarrow> None
         | Some (r, b2) \<Rightarrow>
             if r \<noteq> 0 then Some (-1, s)
             else map_option (\<lambda>(r, s1, _). (r, s1)) (ts_es_loop es_info_bytes s b2))"

section \<open>\<open>PackHead\<close> and \<open>SystemHeader\<close>\<close>

lemma bb_loop_left: "bb_len (snd (bb_loop n v b)) = bb_len b \<and> bb_pos (snd (bb_loop n v b)) = bb_pos b + n"
  by (induction n arbitrary: v b) (simp_all add: Let_def)

lemma rd_left_bits:
  "bb_bits_left (snd (run_state (rd n old) b)) = (if n \<le> bb_bits_left b then bb_bits_left b - n else bb_bits_left b)"
  "bb_bits_left (snd (run_state (rdx n) b)) = (if n \<le> bb_bits_left b then bb_bits_left b - n else bb_bits_left b)"
  by (auto simp: bb_loop_left rd_def rdx_def bb_get_bits_def bb_more_bits_def bb_bits_left_def split_def)

definition rd_forward :: "'a reader \<Rightarrow> bool" where
  \<comment> \<open>a reading program never gives bits back\<close>
  "rd_forward m \<longleftrightarrow> (\<forall>b. bb_bits_left (snd (run_state m b)) \<le> bb_bits_left b)"

lemma run_state_bind_split: "run_state (State_Monad.bind m f) b = run_state (f (fst (run_state m b))) (snd (run_state m b))"
  by (simp add: State_Monad.bind_def split_def)

lemma rd_forward_bind: "rd_forward m \<Longrightarrow> (\<And>x. rd_forward (f x)) \<Longrightarrow> rd_forward (State_Monad.bind m f)"
  by (auto simp: rd_forward_def run_state_bind_split split_def simp del: run_state_bind intro: order_trans)

lemma rd_forward_basic:
  "rd_forward (rd n old)" "rd_forward (rdx n)" "rd_forward rd_left" "rd_forward (rd_ret x)"
  by (simp_all add: rd_forward_def rd_left_bits rd_left_def)

lemma rd_forward_if: "rd_forward m \<Longrightarrow> rd_forward m' \<Longrightarrow> rd_forward (if c then m else m')"
  by simp

lemmas rd_forward_intros = rd_forward_bind rd_forward_basic rd_forward_if

lemma rd_forward_first:
  assumes "bb_bits_left (snd (run_state m b)) < bb_bits_left b" and "\<And>x. rd_forward (f x)"
  shows "bb_bits_left (snd (run_state (State_Monad.bind m f) b)) < bb_bits_left b"
  using assms by (auto simp: rd_forward_def run_state_bind_split split_def simp del: run_state_bind intro: le_less_trans)

definition ts_system_stream :: "unit reader" where
  "ts_system_stream = do { rdx 8; rdx 2; rdx 1; rdx 13 }"

lemma ts_system_stream_progress:
  assumes "1 \<le> bb_bits_left b"
  shows "bb_bits_left (snd (run_state ts_system_stream b)) < bb_bits_left b"
  using assms by (simp add: ts_system_stream_def State_Monad.bind_def split_def rd_left_bits del: run_state_bind)

function ts_system_streams :: "bit_buffer \<Rightarrow> bit_buffer" where
  \<comment> \<open>\<open>while (PeekBits(1) == 1)\<close>\<close>
  "ts_system_streams b =
     (if snd (bb_peek_bits 1 0 b) = 1 then ts_system_streams (snd (run_state ts_system_stream b)) else b)"
  by pat_completeness auto

termination
  by (relation "measure bb_bits_left")
    (auto simp: bb_peek_bits_def bb_more_bits_def split: if_splits intro!: ts_system_stream_progress)

declare ts_system_streams.simps [simp del]

definition SystemHeader :: "unit reader" where
  "SystemHeader = do {
     rdx 32; rdx 16; rdx 1; rdx 22; rdx 1; rdx 6; rdx 1; rdx 1; rdx 1; rdx 1; rdx 1; rdx 5; rdx 1; rdx 7;
     State (\<lambda>b. ((), ts_system_streams b))
   }"

definition PackHead :: "unit reader" where
  "PackHead = do {
     rdx 32; rdx 2; rdx 3; rdx 1; rdx 15; rdx 1; rdx 15; rdx 1; rdx 9; rdx 1; rdx 22; rdx 1; rdx 1; rdx 5;
     pack_stuffing_length \<leftarrow> rd 3 (0 :: u8);
     rd_times (unat pack_stuffing_length) (rdx 8);
     peekbits \<leftarrow> rd 32 (0 :: u32);
     rd_when (peekbits = 0x000001BA) SystemHeader
   }"

section \<open>The PES header\<close>

definition ts_clock_value :: "u32 \<Rightarrow> u32 \<Rightarrow> u32 \<Rightarrow> u32" where
  "ts_clock_value hi mid lo = push_bit 29 hi OR push_bit 15 mid OR lo"

definition ts_clock :: "u32 reader" where
  \<comment> \<open>four bits, then the three pieces of a time stamp, each with its marker bit\<close>
  "ts_clock = do {
     rdx 4;
     hi \<leftarrow> rd 3 (0 :: u32); rdx 1;
     mid \<leftarrow> rd 15 (0 :: u32); rdx 1;
     lo \<leftarrow> rd 15 (0 :: u32); rdx 1;
     rd_ret (ts_clock_value hi mid lo)
   }"

definition ts_trick_mode :: "unit reader" where
  "ts_trick_mode = do {
     trick_mode_control \<leftarrow> rd 3 (0 :: u8);
     if trick_mode_control = 0 then do { rdx 2; rdx 1; rdx 2 }
     else if trick_mode_control = 1 then rdx 5
     else if trick_mode_control = 2 then do { rdx 2; rdx 3 }
     else if trick_mode_control = 3 then do { rdx 2; rdx 1; rdx 2 }
     else if trick_mode_control = 4 then rdx 5
     else rdx 5
   }"

definition ts_pes_extension :: "unit reader" where
  "ts_pes_extension = do {
     PES_private_data_flag \<leftarrow> rd 1 (0 :: u8);
     pack_header_field_flag \<leftarrow> rd 1 (0 :: u8);
     program_packet_sequence_counter_flag \<leftarrow> rd 1 (0 :: u8);
     P_STD_buffer_flag \<leftarrow> rd 1 (0 :: u8);
     rdx 3;
     PES_extension_flag_2 \<leftarrow> rd 1 (0 :: u8);
     rd_when (PES_private_data_flag = 1) (rd_skip 16);
     rd_when (pack_header_field_flag = 1) PackHead;
     rd_when (program_packet_sequence_counter_flag = 1) (do { rdx 1; rdx 7; rdx 1; rdx 1; rdx 6 });
     rd_when (P_STD_buffer_flag = 1) (do { rdx 2; rdx 1; rdx 13 });
     rd_when (PES_extension_flag_2 = 1) (do { rdx 1; n \<leftarrow> rd 7 (0 :: u8); rd_times (unat n) (rdx 8) })
   }"

definition ts_pes_header :: "(u32 \<times> u32) reader" where
  \<comment> \<open>from behind \<open>PES_packet_length\<close> to the first byte of the elementary stream; \<open>pts\<close> and \<open>dts\<close>\<close>
  "ts_pes_header = do {
     rdx 2; rdx 2; rdx 1; rdx 1; rdx 1; rdx 1;
     PTS_DTS_flags \<leftarrow> rd 2 (0 :: u8);
     ESCR_flag \<leftarrow> rd 1 (0 :: u8);
     ES_rate_flag \<leftarrow> rd 1 (0 :: u8);
     DSM_trick_mode_flag \<leftarrow> rd 1 (0 :: u8);
     additional_copy_info_flag \<leftarrow> rd 1 (0 :: u8);
     PES_CRC_flag \<leftarrow> rd 1 (0 :: u8);
     PES_extension_flag \<leftarrow> rd 1 (0 :: u8);
     rdx 8;
     (pts, dts) \<leftarrow>
       (if PTS_DTS_flags = 2 then do { t \<leftarrow> ts_clock; rd_ret (t, t) }
        else if PTS_DTS_flags = 3 then do { t \<leftarrow> ts_clock; u \<leftarrow> ts_clock; rd_ret (t, u) }
        else rd_ret (0, 0));
     rd_when (ESCR_flag = 1) (do { rdx 2; rdx 3; rdx 1; rdx 15; rdx 1; rdx 15; rdx 1; rdx 9; rdx 1 });
     rd_when (ES_rate_flag = 1) (do { rdx 1; rdx 22; rdx 1 });
     rd_when (DSM_trick_mode_flag = 1) ts_trick_mode;
     rd_when (additional_copy_info_flag = 1) (do { rdx 1; rdx 7 });
     rd_when (PES_CRC_flag = 1) (rdx 16);
     rd_when (PES_extension_flag = 1) ts_pes_extension;
     rd_ret (pts, dts)
   }"

definition ts_pes_start :: "ts_env \<Rightarrow> u8 reader" where
  "ts_pes_start E = do { rdx 24; sid \<leftarrow> rd 8 (ucast (te_junk E) :: u8); rdx 16; rd_ret sid }"

definition ts_has_header :: "u8 \<Rightarrow> bool" where
  "ts_has_header sid \<longleftrightarrow> sid \<notin> {kProgramStreamMap, kPaddingStream, kPrivateStream2, kECMStream, kEMMStream,
     kProgramStreamDirector, kDSMCCStream, kH_222_1_E}"

section \<open>Video\<close>

definition cstr_at :: "bytes \<Rightarrow> nat \<Rightarrow> u8 option" where
  \<comment> \<open>a byte of the \<open>std::string\<close> from \<open>CurData()\<close> on, its terminator included\<close>
  "cstr_at p i = (if i < length p then Some (p ! i) else if i = length p then Some 0 else None)"

fun cstr_starts :: "bytes \<Rightarrow> nat \<Rightarrow> bytes \<Rightarrow> bool option" where
  \<comment> \<open>a conjunction of byte comparisons, from left to right\<close>
  "cstr_starts p i [] = Some True"
| "cstr_starts p i (x # xs) =
     (case cstr_at p i of None \<Rightarrow> None | Some b \<Rightarrow> if b = x then cstr_starts p (i + 1) xs else Some False)"

function nal_scan :: "bytes \<Rightarrow> nat \<Rightarrow> nat \<Rightarrow> nat option \<Rightarrow> (nat \<times> int) list" where
  \<comment> \<open>the \<open>nals\<close> vector: offset and length; the last argument is \<open>nal\<close>\<close>
  "nal_scan p len i nal =
     (if i + 3 < len
      then if p ! i \<noteq> 0x00 \<or> p ! (i + 1) \<noteq> 0x00 \<or> p ! (i + 2) \<noteq> 0x01 then nal_scan p len (i + 1) nal
           else (case nal of None \<Rightarrow> [] | Some n \<Rightarrow> [(n, int i - int n - 1)]) @ nal_scan p len (i + 3) (Some (i + 3))
      else case nal of None \<Rightarrow> [] | Some n \<Rightarrow> [(n, int len - int n)])"
  by pat_completeness auto

termination
  by (relation "measure (\<lambda>(p, len, i, nal). len - i)") auto

declare nal_scan.simps [simp del]

definition nal_units :: "bytes \<Rightarrow> nat \<Rightarrow> (nat \<times> int) list option" where
  \<comment> \<open>\<open>None\<close>: the test for the first start code reads past the end\<close>
  "nal_units p len =
     (case cstr_starts p 0 kStartCode of
        None \<Rightarrow> None
      | Some False \<Rightarrow> Some []
      | Some True \<Rightarrow> Some (nal_scan p len 0 None))"

definition ts_video_frame :: "ts_env \<Rightarrow> u32 \<Rightarrow> u32 \<Rightarrow> bytes \<Rightarrow> payload" where
  "ts_video_frame E pts dts nal =
     pl_set_dts (ucast (dts div 90)) (pl_set_pts (ucast (pts div 90))
       (pl_set_video (pl_new (te_junk E) (te_junk E) (kStartCode @ nal) (word_of_nat (length nal + 4)))))"

definition ts_header_frame :: "ts_env \<Rightarrow> bytes \<Rightarrow> payload" where
  "ts_header_frame E header =
     pl_set_video (pl_new (te_junk E) (te_junk E) header (word_of_nat (length header)))"

definition ts_on_h264_nal :: "ts_env \<Rightarrow> u32 \<Rightarrow> u32 \<Rightarrow> u8 \<Rightarrow> bytes \<Rightarrow> bytes \<times> ts_reader \<Rightarrow> bytes \<times> ts_reader" where
  \<comment> \<open>one round of the loop over \<open>nals\<close>: the byte at \<open>nal[0]\<close>, the unit, \<open>header\<close> and the reader\<close>
  "ts_on_h264_nal E pts dts b0 nal =
     (\<lambda>(header, s).
        let nal_type = b0 AND 0x1F;
            frame = ts_video_frame E pts dts nal
        in if nal_type = H264NalType_IDR_SLICE then (header, tr_emit_frame (pl_set_iframe frame) s)
           else if nal_type = H264NalType_SLICE then (header, tr_emit_frame frame s)
           else if nal_type = H264NalType_SPS then (header @ kStartCode @ nal, s)
           else if nal_type = H264NalType_PPS then
             let header1 = header @ kStartCode @ nal
             in (header1, if header \<noteq> [] then tr_emit_header (ts_header_frame E header1) s else s)
           else (header, s))"

definition ts_on_h265_nal :: "ts_env \<Rightarrow> u32 \<Rightarrow> u32 \<Rightarrow> u8 \<Rightarrow> bytes \<Rightarrow> bytes \<times> ts_reader \<Rightarrow> bytes \<times> ts_reader" where
  "ts_on_h265_nal E pts dts b0 nal =
     (\<lambda>(header, s).
        let nal_type = drop_bit 1 (b0 AND 0x7E);
            frame = ts_video_frame E pts dts nal
        in if nal_type \<in> {H265NalType_BLA_N_LP, H265NalType_BLA_W_LP, H265NalType_BLA_W_RADL, H265NalType_CRA_NUT,
                H265NalType_IDR_N_LP, H265NalType_IDR_W_RADL} then (header, tr_emit_frame (pl_set_iframe frame) s)
           else if nal_type = H264NalType_SLICE then (header, tr_emit_frame frame s)
           else if nal_type = H265NalType_VPS then (header @ kStartCode @ nal, s)
           else if nal_type = H265NalType_SPS then (header @ kStartCode @ nal, s)
           else if nal_type = H265NalType_PPS then
             let header1 = header @ kStartCode @ nal
             in (header1, if header \<noteq> [] then tr_emit_header (ts_header_frame E header1) s else s)
           else (header, s))"

fun ts_nal_loop :: "(u8 \<Rightarrow> bytes \<Rightarrow> bytes \<times> ts_reader \<Rightarrow> bytes \<times> ts_reader) \<Rightarrow> bytes \<Rightarrow> (nat \<times> int) list \<Rightarrow>
    bytes \<times> ts_reader \<Rightarrow> (bytes \<times> ts_reader) option" where
  \<comment> \<open>\<open>None\<close>: \<open>memcpy\<close> with a negative length\<close>
  "ts_nal_loop f p [] acc = Some acc"
| "ts_nal_loop f p ((n, len) # r) acc =
     (if len < 0 then None else ts_nal_loop f p r (f (p ! n) (take (nat len) (drop n p)) acc))"

definition ts_on_nals :: "(u8 \<Rightarrow> bytes \<Rightarrow> bytes \<times> ts_reader \<Rightarrow> bytes \<times> ts_reader) \<Rightarrow> bit_buffer \<Rightarrow> ts_reader \<Rightarrow> ts_reader option" where
  \<comment> \<open>the common body of \<open>OnH264Video\<close> and \<open>OnH265Video\<close>\<close>
  "ts_on_nals f b s =
     (case nal_units (bb_cur_data b) (bb_bytes_left b) of
        None \<Rightarrow> None
      | Some nals \<Rightarrow> map_option snd (ts_nal_loop f (bb_cur_data b) nals ([], s)))"

definition OnH264Video :: "ts_env \<Rightarrow> bit_buffer \<Rightarrow> u32 \<Rightarrow> u32 \<Rightarrow> ts_reader \<Rightarrow> ts_reader option" where
  "OnH264Video E b pts dts = ts_on_nals (ts_on_h264_nal E pts dts) b"

definition OnH265Video :: "ts_env \<Rightarrow> bit_buffer \<Rightarrow> u32 \<Rightarrow> u32 \<Rightarrow> ts_reader \<Rightarrow> ts_reader option" where
  "OnH265Video E b pts dts = ts_on_nals (ts_on_h265_nal E pts dts) b"

definition OnVideo :: "ts_env \<Rightarrow> bit_buffer \<Rightarrow> u32 \<Rightarrow> u32 \<Rightarrow> ts_reader \<Rightarrow> ts_reader option" where
  "OnVideo E b pts dts s =
     (if tr_video_type s = 0x1B then OnH264Video E b pts dts s
      else if tr_video_type s = 0x24 then OnH265Video E b pts dts s
      else Some s)"

section \<open>Audio\<close>

record adts_head =
  ah_protection_absent :: u8
  ah_profile :: u8
  ah_frequency :: u8
  ah_channels :: u8
  ah_frame_length :: u16

definition ts_adts :: "adts_head reader" where
  "ts_adts = do {
     rdx 12; rdx 1; rdx 2;
     protection_absent \<leftarrow> rd 1 (0 :: u8);
     profile \<leftarrow> rd 2 (0 :: u8);
     frequency \<leftarrow> rd 4 (0 :: u8);
     rdx 1;
     channels \<leftarrow> rd 3 (0 :: u8);
     rdx 1; rdx 1; rdx 1; rdx 1;
     frame_length \<leftarrow> rd 13 (0 :: u16);
     rdx 11; rdx 2;
     rd_when (protection_absent = 0) (rdx 16);
     rd_ret \<lparr>ah_protection_absent = protection_absent, ah_profile = profile + 1, ah_frequency = frequency,
       ah_channels = channels, ah_frame_length = frame_length\<rparr>
   }"

definition ts_audio_config :: "adts_head \<Rightarrow> bytes" where
  "ts_audio_config h =
     [push_bit 3 (ah_profile h) OR drop_bit 1 (ah_frequency h),
      push_bit 7 (ah_frequency h AND 0x01) OR push_bit 3 (ah_channels h)]"

definition ts_audio_frame :: "ts_env \<Rightarrow> u32 \<Rightarrow> nat \<Rightarrow> bytes \<Rightarrow> payload" where
  "ts_audio_frame E pts i d =
     pl_set_iframe (pl_set_pts (te_clock E pts i) (pl_set_dts (te_clock E pts i)
       (pl_set_audio (pl_new (te_junk E) (te_junk E) ([0xAF, 0x01] @ d) (word_of_nat (length d + 2))))))"

definition ts_audio_header :: "ts_env \<Rightarrow> adts_head \<Rightarrow> payload" where
  "ts_audio_header E h = pl_set_audio (pl_new (te_junk E) (te_junk E) (ts_audio_config h) 2)"

lemma bb_skip_bytes_left: "bb_bits_left (bb_skip_bytes n b) \<le> bb_bits_left b"
  by (auto simp: bb_skip_bytes_def bb_bits_left_def Let_def)

lemma ts_adts_progress:
  assumes "7 \<le> bb_bytes_left b"
  shows "bb_bits_left (snd (run_state ts_adts b)) < bb_bits_left b"
proof -
  have "56 \<le> bb_bits_left b" using assms by (simp add: bb_bytes_left_def)
  then have "bb_bits_left (snd (run_state (rdx 12) b)) < bb_bits_left b" by (simp add: rd_left_bits)
  then show ?thesis
    unfolding ts_adts_def by (rule rd_forward_first) (intro rd_forward_intros)
qed

function OnAudio :: "ts_env \<Rightarrow> u32 \<Rightarrow> nat \<Rightarrow> bit_buffer \<Rightarrow> ts_reader \<Rightarrow> ts_reader option" where
  \<comment> \<open>\<open>None\<close>: an AAC length below that of its own header goes to \<open>malloc\<close> and \<open>memcpy\<close> as negative\<close>
  "OnAudio E pts i b s =
     (if 7 \<le> bb_bytes_left b
      then let (h, b1) = run_state ts_adts b;
               s1 = tr_emit_header (ts_audio_header E h) s;
               len = int (unat (ah_frame_length h)) - (if ah_protection_absent h = 1 then 7 else 9)
           in if int (bb_bytes_left b1) < len then Some s1
              else if len < 0 then None
              else OnAudio E pts (i + 1) (bb_skip_bytes (nat len) b1)
                     (tr_emit_frame (ts_audio_frame E pts i (take (nat len) (bb_cur_data b1))) s1)
      else Some s)"
  by pat_completeness auto

termination
proof (relation "measure (\<lambda>(E, pts, i, b, s). bb_bits_left b)", goal_cases)
  case (2 E pts i b s x h b1 s1 len)
  have "b1 = snd (run_state ts_adts b)" using 2(2,3) by (metis snd_conv)
  then have "bb_bits_left b1 < bb_bits_left b" using ts_adts_progress [OF 2(1)] by simp
  then show ?case using le_less_trans [OF bb_skip_bytes_left] by simp
qed simp

declare OnAudio.simps [simp del]

section \<open>PES units and packets\<close>

definition ParsePES :: "ts_env \<Rightarrow> u32 \<Rightarrow> ts_reader \<Rightarrow> ts_reader ts_out" where
  \<comment> \<open>\<open>ParsePES(pes_[pid])\<close>\<close>
  "ParsePES E pid s =
     (if tr_unit pid s = [] then TsOk s
      else
        let (sid, b) = run_state (ts_pes_start E) (bb_new (tr_unit pid s));
            clear = (\<lambda>s. s\<lparr>tr_pes := sm_put pid [] (tr_pes s)\<rparr>)
        in if ts_has_header sid then
             let ((pts, dts), b1) = run_state ts_pes_header b;
                 r = (if IsStreamIdVideo sid then OnVideo E b1 pts dts s
                      else if IsStreamIdAudio sid then OnAudio E pts 0 b1 s
                      else Some s)
             in case r of None \<Rightarrow> TsFault | Some s1 \<Rightarrow> TsOk (clear s1)
           else TsOk (clear s))"

definition CollectPES :: "u32 \<Rightarrow> bit_buffer \<Rightarrow> ts_reader \<Rightarrow> ts_reader" where
  "CollectPES pid b s =
     s\<lparr>tr_pes := sm_put pid (tr_unit pid s @ take (bb_cur_len b) (bb_cur_data b)) (tr_pes s)\<rparr>"

definition ts_packet_head_bits :: "(u8 \<times> u16 \<times> u8) reader" where
  \<comment> \<open>\<open>payload_unit_start_indicator\<close>, \<open>pid\<close>, \<open>adaptation_field_control\<close>\<close>
  "ts_packet_head_bits = do {
     rdx 8; rdx 1;
     start \<leftarrow> rd 1 (0 :: u8);
     rdx 1;
     pid \<leftarrow> rd 13 (0xFFFF :: u16);
     rdx 2;
     afc \<leftarrow> rd 2 (0 :: u8);
     rdx 4;
     rd_ret (start, pid, afc)
   }"

definition ParseTsSegment :: "ts_env \<Rightarrow> bytes \<Rightarrow> ts_reader \<Rightarrow> (int \<times> ts_reader) ts_out" where
  "ParseTsSegment E data s =
     (if length data \<noteq> kTsSegmentFixedSize \<or> data ! 0 \<noteq> kTsHeaderSyncByte then TsOk (-1, s)
      else
        let ((start, pid, afc), b) = run_state ts_packet_head_bits (bb_new data);
            b1 = (if start = 0x01 \<and> (pid = 0 \<or> pid = tr_pmt_pid s) then snd (run_state (rdx 8) b) else b);
            (ok, b2) = (if afc = 2 \<or> afc = 3 then run_state (ParseAdaptation E) b1 else (True, b1))
        in if \<not> ok then TsAbort
           else if pid = 0x0000 then
             case fst (run_state ParsePAT b2) of
               None \<Rightarrow> TsOk (0, s)
             | Some p \<Rightarrow> TsOk (0, s\<lparr>tr_pmt_pid := p\<rparr>)
           else if pid = tr_pmt_pid s then
             case ParsePMT s b2 of None \<Rightarrow> TsHang | Some r \<Rightarrow> TsOk r
           else if start \<noteq> 0 then
             case ParsePES E (ucast pid) s of
               TsOk s1 \<Rightarrow> TsOk (0, CollectPES (ucast pid) b2 s1)
             | TsAbort \<Rightarrow> TsAbort | TsFault \<Rightarrow> TsFault | TsHang \<Rightarrow> TsHang
           else TsOk (0, CollectPES (ucast pid) b2 s))"

function ts_segments :: "ts_env \<Rightarrow> bytes \<Rightarrow> ts_reader \<Rightarrow> (int \<times> ts_reader) ts_out" where
  \<comment> \<open>the loop of \<open>ParseTs\<close>\<close>
  "ts_segments E d s =
     (if kTsSegmentFixedSize \<le> length d \<and> d ! 0 = kTsHeaderSyncByte
      then case ParseTsSegment E (take kTsSegmentFixedSize d) s of
             TsOk (r, s1) \<Rightarrow> if r \<noteq> 0 then TsOk (-1, s1) else ts_segments E (drop kTsSegmentFixedSize d) s1
           | TsAbort \<Rightarrow> TsAbort | TsFault \<Rightarrow> TsFault | TsHang \<Rightarrow> TsHang
      else TsOk (0, s))"
  by pat_completeness auto

termination
  by (relation "measure (\<lambda>(E, d, s). length d)") (auto simp: kTsSegmentFixedSize_def)

declare ts_segments.simps [simp del]

definition ParseTs :: "ts_env \<Rightarrow> bytes \<Rightarrow> ts_reader \<Rightarrow> (int \<times> ts_reader) ts_out" where
  "ParseTs E d s = (if length d mod kTsSegmentFixedSize \<noteq> 0 then TsOk (-1, s) else ts_segments E d s)"

declare ts_descriptors.simps [code] ts_es_loop.simps [code]

section \<open>Reading at a bit position\<close>

definition rb :: "bytes \<Rightarrow> nat \<Rightarrow> bit_buffer" where
  \<comment> \<open>the reader over \<open>d\<close> in front of bit \<open>p\<close>\<close>
  "rb d p = \<lparr>bb_data = d, bb_len = length d * 8, bb_pos = p\<rparr>"

lemma rb_new: "bb_new d = rb d 0"
  by (simp add: bb_new_def rb_def)

lemma rb_simps [simp]:
  "bb_data (rb d p) = d" "bb_pos (rb d p) = p" "bb_len (rb d p) = length d * 8"
  by (simp_all add: rb_def)

lemma rb_left: "bb_bytes_left (rb d p) = (length d * 8 - p) div 8"
  by (simp add: bb_bytes_left_def bb_bits_left_def)

lemma rb_cur: "bb_cur_data (rb d (8 * k)) = drop k d" "bb_cur_len (rb d (8 * k)) = length d - k"
  "bb_bytes_left (rb d (8 * k)) = length d - k"
  by (simp_all add: bb_cur_data_def bb_cur_len_def rb_left flip: diff_mult_distrib2)

lemma rd_rb [simp]:
  "run_state (rd n old) (rb d p) =
     (if p + n \<le> length d * 8 \<or> n = 0 then (word_of_nat (bits_num d p n), rb d (p + n)) else (old, rb d p))"
  by (auto simp: rd_def bb_get_bits_value bb_more_bits_def bb_bits_left_def rb_def)

lemma rdx_rb [simp]:
  "run_state (rdx n) (rb d p) = ((), if p + n \<le> length d * 8 then rb d (p + n) else rb d p)"
  by (auto simp: rdx_def bb_get_bits_value bb_more_bits_def bb_bits_left_def rb_def)

lemma rd_left_rb [simp]: "run_state rd_left (rb d p) = ((length d * 8 - p) div 8, rb d p)"
  by (simp add: rd_left_def rb_left)

lemma bits_num_one: "bits_num d p (Suc 0) = of_bool (bit_at d p)" "bits_num d p 1 = of_bool (bit_at d p)"
  by simp_all

lemma flag_set: "(word_of_nat (of_bool b) :: u8) = 1 \<longleftrightarrow> b" "(word_of_nat (of_bool b) :: u8) = 0 \<longleftrightarrow> \<not> b"
  by simp_all

lemma bits_num_aligned: "bits_num d (8 * p) 8 = unat (d ! p)"
  using bits_num_byte [of d p] by (simp add: mult.commute)

section \<open>The adaptation field\<close>

lemma ts_stuffing_rb:
  "8 * (q + n) \<le> length d * 8 \<Longrightarrow> (\<forall>k < n. d ! (q + k) = 0xFF) \<Longrightarrow>
     run_state (ts_stuffing n) (rb d (8 * q)) = (True, rb d (8 * (q + n)))"
proof (induction n arbitrary: q)
  case (Suc n)
  have "d ! q = 0xFF" using Suc.prems(2) by (metis add_0_right zero_less_Suc)
  then have v: "word_of_nat (bits_num d (8 * q) 8) = (0xFF :: u8)" by (simp add: bits_num_aligned)
  have "\<forall>k < n. d ! (Suc q + k) = 0xFF" using Suc.prems(2) by (metis Suc_less_eq add_Suc_shift)
  moreover have "8 * (Suc q + n) \<le> length d * 8" using Suc.prems(1) by simp
  ultimately have "run_state (ts_stuffing n) (rb d (8 * Suc q)) = (True, rb d (8 * (Suc q + n)))"
    by (rule Suc.IH [rotated])
  moreover have "8 * Suc q = 8 * q + 8" by simp
  ultimately show ?case using Suc.prems(1) by (simp add: v del: mult_Suc_right)
qed simp

lemma ParseAdaptation_rb:
  assumes "q + 1 + unat (d ! q) \<le> length d" and "0 < unat (d ! q)"
    and "d ! (q + 1) = 0x10 \<and> 7 \<le> unat (d ! q) \<and> (\<forall>k < unat (d ! q) - 7. d ! (q + 8 + k) = 0xFF)
      \<or> d ! (q + 1) = 0x00 \<and> (\<forall>k < unat (d ! q) - 1. d ! (q + 2 + k) = 0xFF)"
  shows "run_state (ParseAdaptation E) (rb d (8 * q)) = (True, rb d (8 * (q + 1 + unat (d ! q))))"
proof -
  let ?n = "unat (d ! q)"
  define P L where "P = 8 * q" and "L = length d * 8"
  have flag: "bit_at d (P + 8 + k) \<longleftrightarrow> bit (d ! (q + 1)) (7 - k)" if "k < 8" for k
  proof -
    have "(8 * q + 8 + k) div 8 = q + 1" "(8 * q + 8 + k) mod 8 = k" using that by presburger+
    then show ?thesis by (simp add: bit_at_def P_def)
  qed
  note f = flag [of 3, simplified] flag [of 4, simplified] flag [of 5, simplified] flag [of 6, simplified] flag [of 7, simplified]
  have v: "word_of_nat (bits_num d P 8) = d ! q" by (simp add: bits_num_aligned P_def)
  have nz: "d ! q \<noteq> 0" using assms(2) by auto
  show ?thesis
  proof (cases "d ! (q + 1) = 0x10")
    case True
    have st: "run_state (ts_stuffing (?n - 7)) (rb d (8 * (q + 8))) = (True, rb d (8 * (q + 8 + (?n - 7))))"
      by (rule ts_stuffing_rb) (use assms True in auto)
    have e: "8 * (q + 8) = 64 + P" "8 * (q + 8 + (?n - 7)) = 8 * (q + 1 + ?n)" using assms(3) True by (auto simp: P_def)
    have "(L - (P + 8)) div 8 = length d - (q + 1)" "(L - (64 + P)) div 8 = length d - (q + 8)"
      by (auto simp: L_def P_def)
    then have "(L - (P + 8)) div 8 - (L - (64 + P)) div 8 = 7" using assms True by simp
    moreover have "unat (d ! q - 7) = ?n - 7" using assms(3) True by (simp add: unat_sub word_le_nat_alt)
    moreover have "P + 64 \<le> L" using assms True by (simp add: L_def P_def)
    ultimately show ?thesis using True st [unfolded e] nz
      unfolding P_def [symmetric] by (simp add: ParseAdaptation_def v f L_def [symmetric] del: of_nat_diff)
  next
    case False
    have st: "run_state (ts_stuffing (?n - 1)) (rb d (8 * (q + 2))) = (True, rb d (8 * (q + 2 + (?n - 1))))"
      by (rule ts_stuffing_rb) (use assms False in auto)
    have e: "8 * (q + 2) = 16 + P" "8 * (q + 2 + (?n - 1)) = 8 * (q + 1 + ?n)" using assms(2) by (auto simp: P_def)
    have "(L - (P + 8)) div 8 - (L - (16 + P)) div 8 = 1" using assms by (simp add: L_def P_def)
    moreover have "unat (d ! q - 1) = ?n - 1" using assms(2) by (simp add: unat_sub word_le_nat_alt)
    moreover have "P + 16 \<le> L" using assms by (simp add: L_def P_def)
    ultimately show ?thesis using assms(3) False st [unfolded e] nz
      unfolding P_def [symmetric] by (simp add: ParseAdaptation_def v f L_def [symmetric] del: of_nat_diff)
  qed
qed


section \<open>Packets\<close>

lemma ts_packet_head_rb:
  assumes "4 \<le> length d"
  shows "run_state ts_packet_head_bits (rb d 0) =
     ((word_of_nat (bits_num d 9 1), word_of_nat (bits_num d 11 13), word_of_nat (bits_num d 26 2)), rb d 32)"
  using assms by (simp add: ts_packet_head_bits_def)

section \<open>Time stamps\<close>

lemma ts_clock_rb:
  assumes "p + 40 \<le> length d * 8"
  shows "run_state ts_clock (rb d p) =
     (ts_clock_value (word_of_nat (bits_num d (p + 4) 3)) (word_of_nat (bits_num d (p + 8) 15)) (word_of_nat (bits_num d (p + 24) 15)),
      rb d (p + 40))"
  using assms by (simp add: ts_clock_def add.commute)

lemma ts_pes_header_rb:
  assumes "19 \<le> length d" and "d ! 7 = 0xC0"
  shows "run_state ts_pes_header (rb d 48) =
     ((ts_clock_value (word_of_nat (bits_num d 76 3)) (word_of_nat (bits_num d 80 15)) (word_of_nat (bits_num d 96 15)),
       ts_clock_value (word_of_nat (bits_num d 116 3)) (word_of_nat (bits_num d 120 15)) (word_of_nat (bits_num d 136 15))),
      rb d 152)"
proof -
  have b: "bit_at d (56 + k) \<longleftrightarrow> bit (0xC0 :: u8) (7 - k)" if "k < 8" for k
  proof -
    have "(56 + k) div 8 = 7" "(56 + k) mod 8 = k" using that by presburger+
    then show ?thesis using assms(2) by (simp add: bit_at_def)
  qed
  note f = b [of 0, simplified] b [of 1, simplified] b [of 2, simplified] b [of 3, simplified] b [of 4, simplified] b [of 5, simplified]
    b [of 6, simplified] b [of 7, simplified]
  have two: "bits_num d 56 2 = 3" using f by (simp add: numeral_2_eq_2)
  have "152 \<le> length d * 8" using assms(1) by simp
  then show ?thesis
    by (simp add: ts_pes_header_def two f ts_clock_rb)
qed

section \<open>Start codes\<close>

definition nal_code_at :: "bytes \<Rightarrow> nat \<Rightarrow> bool" where
  \<comment> \<open>three bytes 00 00 01 at position \<open>i\<close>\<close>
  "nal_code_at p i \<longleftrightarrow> i + 2 < length p \<and> p ! i = 0 \<and> p ! (i + 1) = 0 \<and> p ! (i + 2) = 1"

definition nal_ok :: "bytes \<Rightarrow> bool" where
  \<comment> \<open>a NAL unit as the encoder leaves it: not empty, no start code inside, no zero byte at the end\<close>
  "nal_ok n \<longleftrightarrow> n \<noteq> [] \<and> last n \<noteq> 0 \<and> (\<forall>i. \<not> nal_code_at n i)"

definition nal_join :: "bytes list \<Rightarrow> bytes" where
  "nal_join ns = concat (map (\<lambda>n. kStartCode @ n) ns)"

lemma nal_join_simps [simp]: "nal_join [] = []" "nal_join (n # ns) = [0, 0, 0, 1] @ n @ nal_join ns"
  by (simp_all add: nal_join_def kStartCode_def)

lemma nal_scan_skip:
  assumes "\<forall>k. i \<le> k \<and> k < j \<longrightarrow> \<not> nal_code_at p k" and "i \<le> j"
  shows "j + 3 \<le> length p \<Longrightarrow> nal_scan p (length p) i nal = nal_scan p (length p) j nal"
  using assms
proof (induction "j - i" arbitrary: i)
  case (Suc m)
  then have lt: "i < j" by simp
  then have "\<not> nal_code_at p i" using Suc.prems(2) by simp
  then have "nal_scan p (length p) i nal = nal_scan p (length p) (i + 1) nal"
    using lt Suc.prems(1) by (subst nal_scan.simps) (auto simp: nal_code_at_def)
  also have "\<dots> = nal_scan p (length p) j nal" using Suc.hyps Suc.prems lt by auto
  finally show ?case .
qed simp

lemma nal_scan_end:
  assumes "\<forall>k \<ge> i. \<not> nal_code_at p k"
  shows "nal_scan p (length p) i (Some n) = [(n, int (length p) - int n)]"
  using assms
proof (induction "length p - i" arbitrary: i rule: less_induct)
  case less
  show ?case
  proof (cases "i + 3 < length p")
    case True
    then have "nal_scan p (length p) i (Some n) = nal_scan p (length p) (i + 1) (Some n)"
      using less.prems by (subst nal_scan.simps) (auto simp: nal_code_at_def)
    then show ?thesis using less.hyps [of "i + 1"] less.prems True by auto
  next
    case False
    then show ?thesis by (simp add: nal_scan.simps)
  qed
qed

lemma nal_code_in:
  assumes "nal_ok n" and "nal_code_at (a @ n @ r) (length a + k)" and "r = [] \<or> (\<exists>r'. r = 0 # 0 # 0 # 1 # r')"
  shows "length n < k"
proof (rule ccontr)
  assume le: "\<not> length n < k"
  define p where "p = a @ n @ r"
  have at: "p ! (length a + j) = (if j < length n then n ! j else r ! (j - length n))" for j
    by (simp add: p_def nth_append)
  have c: "length a + k + 2 < length p" "p ! (length a + k) = 0" "p ! (length a + (k + 1)) = 0" "p ! (length a + (k + 2)) = 1"
    using assms(2) by (auto simp: nal_code_at_def p_def add.assoc)
  have ne: "n \<noteq> []" "n ! (length n - 1) \<noteq> 0" "\<not> nal_code_at n k" using assms(1) by (auto simp: nal_ok_def last_conv_nth)
  consider "k + 2 < length n" | "k + 1 = length n" | "k + 2 = length n" | "k = length n" using le by linarith
  then show False
  proof cases
    case 1
    then have "n ! k = 0 \<and> n ! (k + 1) = 0 \<and> n ! (k + 2) = 1" using c(2-4) unfolding at by simp
    then show ?thesis using 1 ne(3) by (simp add: nal_code_at_def)
  next
    case 2
    then have "p ! (length a + k) = n ! (length n - 1)" unfolding at by (simp flip: 2)
    then show ?thesis using c ne by simp
  next
    case 3
    then have "p ! (length a + (k + 1)) = n ! (length n - 1)" unfolding at by (simp flip: 3)
    then show ?thesis using c ne by simp
  next
    case 4
    then have "p ! (length a + (k + 2)) = r ! 2" unfolding at by simp
    then show ?thesis using 4 c assms(3) by (auto simp: p_def)
  qed
qed

lemma nal_scan_join:
  assumes "\<forall>n \<in> set (n0 # ns). nal_ok n"
  shows "ts_nal_loop f (a @ n0 @ nal_join ns) (nal_scan (a @ n0 @ nal_join ns) (length (a @ n0 @ nal_join ns)) (length a) (Some (length a))) acc
     = Some (fold (\<lambda>n. f (hd n) n) (n0 # ns) acc)"
  using assms
proof (induction ns arbitrary: a n0 acc)
  case Nil
  let ?p = "a @ n0"
  have n0: "nal_ok n0" using Nil by simp
  have "\<not> nal_code_at ?p k" if "length a \<le> k" for k
  proof
    assume "nal_code_at ?p k"
    moreover from this have "k + 2 < length ?p" by (simp add: nal_code_at_def)
    moreover have "k = length a + (k - length a)" using that by simp
    ultimately show False using nal_code_in [OF n0, of a "[]" "k - length a"] by simp
  qed
  then have "nal_scan ?p (length ?p) (length a) (Some (length a)) = [(length a, int (length ?p) - int (length a))]"
    by (intro nal_scan_end) simp
  moreover have "?p ! length a = hd n0" using n0 by (simp add: nal_ok_def nth_append hd_conv_nth)
  ultimately show ?case by simp
next
  case (Cons n1 ns)
  let ?p = "a @ n0 @ nal_join (n1 # ns)"
  let ?a = "a @ n0 @ [0, 0, 0, 1]"
  have n0: "nal_ok n0" and n1: "n1 \<noteq> []" using Cons.prems by (auto simp: nal_ok_def)
  then have "0 < length n1" by simp
  define j where "j = length a + length n0 + 1"
  have no: "\<not> nal_code_at ?p k" if "length a \<le> k" "k < j" for k
  proof
    assume "nal_code_at ?p k"
    moreover have "k = length a + (k - length a)" using that by simp
    ultimately have "length n0 < k - length a" using nal_code_in [OF n0, of a "nal_join (n1 # ns)" "k - length a"] by simp
    then show False using that by (simp add: j_def)
  qed
  have len: "length ?p = j + 3 + length n1 + length (nal_join ns)" by (simp add: j_def)
  have jj: "?p ! j = 0" "?p ! (j + 1) = 0" "?p ! (j + 2) = 1" by (simp_all add: j_def nth_append)
  have "nal_scan ?p (length ?p) (length a) (Some (length a)) = nal_scan ?p (length ?p) j (Some (length a))"
    by (rule nal_scan_skip) (use no len in \<open>auto simp: j_def\<close>)
  also have "\<dots> = (length a, int j - int (length a) - 1) # nal_scan ?p (length ?p) (j + 3) (Some (j + 3))"
  proof -
    define P where "P = ?p"
    have "j + 3 < length P" using len \<open>0 < length n1\<close> unfolding P_def by linarith
    moreover note jj [folded P_def]
    ultimately show ?thesis unfolding P_def [symmetric] by (subst nal_scan.simps) simp
  qed
  also have "int j - int (length a) - 1 = int (length n0)" by (simp add: j_def)
  also have "j + 3 = length ?a" by (simp add: j_def)
  finally have sc: "nal_scan ?p (length ?p) (length a) (Some (length a)) =
      (length a, int (length n0)) # nal_scan ?p (length ?p) (length ?a) (Some (length ?a))" .
  have hd: "?p ! length a = hd n0" using n0 by (simp add: nal_ok_def nth_append hd_conv_nth)
  have tk: "take (length n0) (drop (length a) ?p) = n0" by simp
  have p: "?p = ?a @ n1 @ nal_join ns" by simp
  have "ts_nal_loop f ?p (nal_scan ?p (length ?p) (length ?a) (Some (length ?a))) (f (hd n0) n0 acc)
      = Some (fold (\<lambda>n. f (hd n) n) (n1 # ns) (f (hd n0) n0 acc))"
    unfolding p using Cons.prems by (intro Cons.IH) simp
  then show ?case unfolding sc ts_nal_loop.simps hd nat_int tk by simp
qed

lemma nal_units_join:
  assumes "ns \<noteq> []" and "\<forall>n \<in> set ns. nal_ok n" and "p = nal_join ns"
  shows "\<exists>nals. nal_units p (length p) = Some nals \<and> ts_nal_loop f p nals acc = Some (fold (\<lambda>n. f (hd n) n) ns acc)"
proof -
  obtain n0 ms where ns: "ns = n0 # ms" using assms(1) by (cases ns) auto
  have p: "p = [0, 0, 0, 1] @ n0 @ nal_join ms" using assms(3) ns by simp
  have n0: "n0 \<noteq> []" using assms(2) ns by (simp add: nal_ok_def)
  then have len: "4 < length p" by (cases n0) (simp_all add: p)
  have "cstr_starts p 0 kStartCode = Some True" using len by (simp add: kStartCode_def cstr_at_def p)
  moreover have "nal_scan p (length p) 0 None = nal_scan p (length p) 4 (Some 4)"
  proof -
    have "nal_scan p (length p) 0 None = nal_scan p (length p) 1 None" using len by (subst nal_scan.simps) (simp add: p)
    also have "\<dots> = nal_scan p (length p) 4 (Some 4)" using len by (subst nal_scan.simps) (simp add: p)
    finally show ?thesis .
  qed
  moreover have "ts_nal_loop f p (nal_scan p (length p) 4 (Some 4)) acc = Some (fold (\<lambda>n. f (hd n) n) ns acc)"
  proof -
    have l: "length [0, 0, 0, 1 :: u8] = 4" by simp
    have "\<forall>n \<in> set (n0 # ms). nal_ok n" using assms(2) ns by simp
    from nal_scan_join [OF this, of f "[0, 0, 0, 1]" acc] show ?thesis unfolding l p ns .
  qed
  ultimately show ?thesis by (simp add: nal_units_def)
qed

lemma nal_scan_short:
  assumes "n0 = [] \<or> nal_ok n0" and "nal_ok n1" and "p = [0, 0, 0, 1] @ n0 @ [0, 0, 1] @ n1"
  shows "nal_units p (length p) = Some [(4, int (length n0) - 1), (7 + length n0, int (length n1))]"
proof -
  have len: "length p = 7 + length n0 + length n1" "0 < length n1" using assms(2,3) by (auto simp: nal_ok_def)
  define j where "j = 4 + length n0"
  have pj: "p ! j = 0" "p ! (j + 1) = 0" "p ! (j + 2) = 1" by (simp_all add: j_def assms(3) nth_append)
  have st: "cstr_starts p 0 kStartCode = Some True" using len by (simp add: kStartCode_def cstr_at_def assms(3))
  have no: "\<not> nal_code_at p k" if k: "4 \<le> k" "k < j" for k
  proof
    assume c: "nal_code_at p k"
    define m where "m = k - 4"
    have m: "m < length n0" "k = 4 + m" using k by (auto simp: m_def j_def)
    then have n0: "nal_ok n0" using assms(1) by auto
    have at: "p ! (4 + i) = (if i < length n0 then n0 ! i else ([0, 0, 1] @ n1) ! (i - length n0))" for i
      by (simp add: assms(3) nth_append)
    have v: "p ! (4 + m) = 0" "p ! (4 + (m + 1)) = 0" "p ! (4 + (m + 2)) = 1" using c m by (auto simp: nal_code_at_def add.assoc)
    consider "m + 2 < length n0" | "m + 2 = length n0" | "m + 1 = length n0" using m by linarith
    then show False
    proof cases
      case 1
      then have "n0 ! m = 0 \<and> n0 ! (m + 1) = 0 \<and> n0 ! (m + 2) = 1" using v unfolding at by simp
      then show ?thesis using 1 n0 by (auto simp: nal_ok_def nal_code_at_def)
    next
      case 2
      then have "n0 ! (length n0 - 1) = 0" using v(2) unfolding at by (simp flip: 2)
      then show ?thesis using n0 by (auto simp: nal_ok_def last_conv_nth)
    next
      case 3
      then have "n0 ! (length n0 - 1) = 0" using v(1) unfolding at by (simp flip: 3)
      then show ?thesis using n0 by (auto simp: nal_ok_def last_conv_nth)
    qed
  qed
  have fin: "\<not> nal_code_at p k" if k: "j + 3 \<le> k" for k
  proof
    assume c: "nal_code_at p k"
    have p: "p = ([0, 0, 0, 1] @ n0 @ [0, 0, 1]) @ n1 @ []" by (simp add: assms(3))
    have "k = length ([0, 0, 0, 1] @ n0 @ [0, 0, 1]) + (k - (j + 3))" using k by (simp add: j_def)
    then have "length n1 < k - (j + 3)" using nal_code_in [OF assms(2), of "[0, 0, 0, 1] @ n0 @ [0, 0, 1]" "[]" "k - (j + 3)"] c p by metis
    then show False using c len unfolding nal_code_at_def j_def by linarith
  qed
  have lt: "j + 3 < length p" using len by (simp add: j_def)
  have p03: "p ! 0 = 0" "p ! 1 = 0" "p ! 2 = 0" "p ! 3 = 1" by (simp_all add: assms(3))
  have four: "1 + 3 = (4 :: nat)" by simp
  have "nal_scan p (length p) 0 None = nal_scan p (length p) 1 None" using lt p03
    by (subst nal_scan.simps) (simp add: j_def numeral_2_eq_2 numeral_3_eq_3)
  also have "\<dots> = nal_scan p (length p) (1 + 3) (Some (1 + 3))" using lt p03
    by (subst nal_scan.simps) (simp add: j_def numeral_2_eq_2 numeral_3_eq_3)
  also have "\<dots> = nal_scan p (length p) j (Some 4)" unfolding four
    by (rule nal_scan_skip) (use no lt in \<open>auto simp: j_def\<close>)
  also have "\<dots> = (4, int j - int 4 - 1) # nal_scan p (length p) (j + 3) (Some (j + 3))"
    using pj lt by (subst nal_scan.simps) simp
  also have "nal_scan p (length p) (j + 3) (Some (j + 3)) = [(j + 3, int (length p) - int (j + 3))]"
    by (rule nal_scan_end) (use fin in blast)
  finally show ?thesis using st len by (simp add: nal_units_def j_def)
qed

lemma ParseDescriptor_stuck:
  assumes "bb_bits_left b < 8"
  shows "run_state ParseDescriptor b = (0, b)"
proof -
  have r: "run_state (rdx 8) b = ((), b)" "run_state (rd 8 (0 :: u8)) b = (0, b)" "run_state (rd_skip 0) b = ((), b)"
    using assms by (simp_all add: rdx_def rd_def bb_get_bits_def bb_more_bits_def rd_skip_def bb_skip_bytes_def Let_def)
  show ?thesis by (simp add: ParseDescriptor_def r rd_left_def)
qed

lemma ts_descriptors_stuck:
  assumes "bb_bits_left b < 8" and "len \<noteq> 0"
  shows "ts_descriptors len b = None"
proof -
  have "\<not> (bb_bits_left b < 8 \<and> len \<noteq> 0)" if "ts_descriptors len b = Some y" for y len b
    using that
  proof (rule ts_descriptors.raw_induct [rotated])
    fix f len b y
    assume ih: "\<And>len b y. f len b = Some y \<Longrightarrow> \<not> (bb_bits_left b < 8 \<and> len \<noteq> 0)"
      and eq: "(if len = 0 then Some (0, b)
        else let (r, b1) = run_state ParseDescriptor b
             in if r \<noteq> 0 then Some (-1, b1) else f (len - word_of_nat (bb_bytes_left b - bb_bytes_left b1)) b1) = Some y"
    show "\<not> (bb_bits_left b < 8 \<and> len \<noteq> 0)"
    proof
      assume a: "bb_bits_left b < 8 \<and> len \<noteq> 0"
      then have "f len b = Some y" using eq ParseDescriptor_stuck [of b] by simp
      then show False using ih a by blast
    qed
  qed
  then show ?thesis using assms by (cases "ts_descriptors len b") auto
qed


text \<open>
  a three-byte start code cuts the last byte off the unit in front of it. The scan accepts
  00 00 01 as a start code but always takes one more byte away, as if it were 00 00 00 01: of two units
  \<open>n0\<close> and \<open>n1\<close> separated by a three-byte code the callbacks see \<open>n0\<close> without its last byte, and when
  \<open>n0\<close> is empty the length is -1 and goes to \<open>malloc\<close> and \<open>memcpy\<close>.
\<close>

theorem ts_short_start_code:
  assumes "n0 = [] \<or> nal_ok n0" and "nal_ok n1"
  shows "ts_on_nals f (bb_new ([0, 0, 0, 1] @ n0 @ [0, 0, 1] @ n1)) s =
     (if n0 = [] then None else Some (snd (f (hd n1) n1 (f (hd n0) (butlast n0) ([], s)))))"
proof -
  define p where "p = [0, 0, 0, 1] @ n0 @ [0, 0, 1] @ n1"
  have b: "bb_cur_data (bb_new p) = p" "bb_bytes_left (bb_new p) = length p"
    by (simp_all add: bb_new_at)
  have n1: "p ! (7 + length n0) = hd n1" "take (length n1) (drop (7 + length n0) p) = n1"
  proof -
    define pre where "pre = [0, 0, 0, 1] @ n0 @ [0, 0, 1]"
    have "p = pre @ n1" "7 + length n0 = length pre" by (simp_all add: p_def pre_def)
    then show "p ! (7 + length n0) = hd n1" "take (length n1) (drop (7 + length n0) p) = n1"
      using assms(2) by (auto simp: nal_ok_def hd_conv_nth nth_append)
  qed
  have n0: "p ! 4 = hd n0" "take (length n0 - 1) (drop 4 p) = butlast n0" if "n0 \<noteq> []"
    using that by (auto simp: p_def nth_append hd_conv_nth butlast_conv_take)
  show ?thesis
  proof (cases "n0 = []")
    case True
    then show ?thesis
      using nal_scan_short [OF assms p_def] unfolding p_def [symmetric] by (simp add: ts_on_nals_def b)
  next
    case False
    then have "nat (int (length n0) - 1) = length n0 - 1" "\<not> int (length n0) < 1"
      by (cases n0; simp)+
    then show ?thesis
      using False nal_scan_short [OF assms p_def] n0 n1 unfolding p_def [symmetric] by (simp add: ts_on_nals_def b)
  qed
qed

theorem ts_short_start_code_witness:
  "ts_on_nals (\<lambda>b n (h, s). (h @ n, s)) (bb_new [0, 0, 0, 1, 0, 0, 1, 0x65]) (tr_new \<lparr>te_junk = 0, te_clock = (\<lambda>_ _. 0)\<rparr>) = None"
  using ts_short_start_code [of "[]" "[0x65]" "\<lambda>b n (h, s). (h @ n, s)" "tr_new \<lparr>te_junk = 0, te_clock = (\<lambda>_ _. 0)\<rparr>"]
  by (simp add: nal_ok_def nal_code_at_def)

end
