(* ===== verification/TsLink.thy ===== *)
theory TsLink
  imports TsReader TsMuxer
begin

text \<open>
  The two ends of an MPEG transport stream in this program: what \<open>TsMuxer\<close> (the packetiser of
  \<open>media_muxer.cpp\<close>) writes, read by \<open>TsReader\<close> (\<open>ts_reader.cpp\<close>).
\<close>

section \<open>Bit fields of written bytes\<close>

lemma bits_num_val:
  assumes "concat (map byte_bits d) = xs @ val_bits n v @ ys" and "p = length xs"
  shows "word_of_nat (bits_num d p n) = take_bit n v"
proof (rule bits_num_word, intro allI impI)
  fix k assume k: "k < n"
  have "length (concat (map byte_bits d)) = length xs + n + length ys" using assms(1) by (simp add: val_bits_def)
  then have "p + k < 8 * length d" using k assms(2) by simp
  then have "bit_at d (p + k) = (xs @ val_bits n v @ ys) ! (length xs + k)"
    using bit_at_concat assms by metis
  then show "bit_at d (p + k) \<longleftrightarrow> bit v (n - 1 - k)" using k by (simp add: nth_append val_bits_def)
qed

lemma bits_num_val32:
  assumes "concat (map byte_bits d) = xs @ val_bits n v @ ys" and "p = length xs" and "n \<le> 64"
  shows "(word_of_nat (bits_num d p n) :: u32) = ucast (take_bit n v)"
proof -
  have "bits_num d p n < 2 ^ n" by (rule bits_num_bound)
  also have "\<dots> \<le> 2 ^ 64" using assms(3) by (intro power_increasing) auto
  finally show ?thesis using ucast_of_nat_u64 [of "bits_num d p n", where ?'w = 32] bits_num_val [OF assms(1,2)] by simp
qed

lemma ops_bytes_bits:
  assumes "ops_size xs = 8 * m"
  shows "concat (map byte_bits (ops_bytes xs)) = concat (map bw_op_bits xs)"
proof -
  have "length (concat (map bw_op_bits xs)) = 8 * m" using concat_bits_length assms by simp
  from bits_whole [OF this] obtain ys where ys: "concat (map bw_op_bits xs) = concat (map byte_bits ys)" by blast
  then show ?thesis using pack_bytes [of ys "[]"] by (simp add: ops_bytes_def)
qed

section \<open>Time stamps\<close>

definition clock_seen :: "u64 \<Rightarrow> u32" where
  \<comment> \<open>what the reader makes of the time stamp \<open>t\<close>\<close>
  "clock_seen t = ts_clock_value (ucast (drop_bit 30 (t AND 0x00000001C0000000)))
     (ucast (drop_bit 15 (t AND 0x000000003FFF8000))) (ucast (t AND 0x0000000000007FFF))"

lemma ts_clock_size: "ops_size (ts_clock_ops t) = 8 * 5" "length (ops_bytes (ts_clock_ops t)) = 5"
  using ops_bytes_append(2) [of "ts_clock_ops t" 5] by (simp_all add: ts_clock_ops_def)

lemma val_bits_length [simp]: "length (val_bits n v) = n"
  by (simp add: val_bits_def)

lemma ts_clock_read:
  assumes "d = x @ ops_bytes (ts_clock_ops t) @ y" and "k = 8 * length x"
  shows "ts_clock_value (word_of_nat (bits_num d (k + 4) 3)) (word_of_nat (bits_num d (k + 8) 15))
     (word_of_nat (bits_num d (k + 24) 15)) = clock_seen t"
proof -
  define hi mid lo where "hi = drop_bit 30 (t AND 0x00000001C0000000)" and "mid = drop_bit 15 (t AND 0x000000003FFF8000)"
    and "lo = t AND 0x0000000000007FFF"
  let ?x = "concat (map byte_bits x)" and ?y = "concat (map byte_bits y)"
  have b: "concat (map byte_bits d) = ?x @ (val_bits 4 0x02 @ val_bits 3 hi @ val_bits 1 1 @ val_bits 15 mid @ val_bits 1 1 @
      val_bits 15 lo @ val_bits 1 1) @ ?y"
    using ops_bytes_bits [OF ts_clock_size(1), of t] by (simp add: assms(1) ts_clock_ops_def hi_def mid_def lo_def)
  have 1: "(word_of_nat (bits_num d (k + 4) 3) :: u32) = ucast (take_bit 3 hi)"
    by (rule bits_num_val32 [where xs = "?x @ val_bits 4 2"]) (simp_all add: b assms(2))
  have 2: "(word_of_nat (bits_num d (k + 8) 15) :: u32) = ucast (take_bit 15 mid)"
    by (rule bits_num_val32 [where xs = "?x @ val_bits 4 2 @ val_bits 3 hi @ val_bits 1 1"]) (simp_all add: b assms(2))
  have 3: "(word_of_nat (bits_num d (k + 24) 15) :: u32) = ucast (take_bit 15 lo)"
    by (rule bits_num_val32 [where xs = "?x @ val_bits 4 2 @ val_bits 3 hi @ val_bits 1 1 @ val_bits 15 mid @ val_bits 1 1"])
      (simp_all add: b assms(2))
  have m: "0x1C0000000 = push_bit 30 (mask 3 :: u64)" "0x3FFF8000 = push_bit 15 (mask 15 :: u64)" "0x7FFF = (mask 15 :: u64)"
    by (simp_all add: mask_eq_exp_minus_1)
  have "take_bit 3 hi = hi"
    unfolding hi_def m by (rule bit_word_eqI) (auto simp: bit_simps)
  moreover have "take_bit 15 mid = mid"
    unfolding mid_def m by (rule bit_word_eqI) (auto simp: bit_simps)
  moreover have "take_bit 15 lo = lo"
    unfolding lo_def m by (rule bit_word_eqI) (auto simp: bit_simps)
  ultimately show ?thesis unfolding 1 2 3 clock_seen_def hi_def mid_def lo_def by simp
qed

lemma clock_seen_bits:
  assumes "n < 32"
  shows "bit (clock_seen t) n \<longleftrightarrow> (n < 30 \<and> bit t n) \<or> (29 \<le> n \<and> bit t (n + 1))"
proof -
  have m: "0x1C0000000 = push_bit 30 (mask 3 :: u64)" "0x3FFF8000 = push_bit 15 (mask 15 :: u64)" "0x7FFF = (mask 15 :: u64)"
    by (simp_all add: mask_eq_exp_minus_1)
  show ?thesis using assms unfolding clock_seen_def ts_clock_value_def m by (auto simp: bit_simps)
qed


lemma clock_seen_exact:
  assumes "t < 2 ^ 33"
  shows "clock_seen t = ucast t \<longleftrightarrow> t < 2 ^ 30 \<or> 2 ^ 33 - 2 ^ 29 \<le> t"
proof -
  have "clock_seen t = ucast t \<longleftrightarrow> (\<forall>n < 32. bit (clock_seen t) n \<longleftrightarrow> bit t n)"
  proof
    assume "clock_seen t = ucast t"
    then show "\<forall>n < 32. bit (clock_seen t) n \<longleftrightarrow> bit t n" by (simp add: bit_ucast_iff)
  next
    assume "\<forall>n < 32. bit (clock_seen t) n \<longleftrightarrow> bit t n"
    then show "clock_seen t = ucast t" by (intro bit_word_eqI) (simp add: bit_ucast_iff)
  qed
  also have "\<dots> \<longleftrightarrow> (bit t 30 \<longrightarrow> bit t 29) \<and> (bit t 30 \<longleftrightarrow> bit t 31) \<and> (bit t 31 \<longleftrightarrow> bit t 32)"
  proof
    assume a: "\<forall>n < 32. bit (clock_seen t) n \<longleftrightarrow> bit t n"
    then show "(bit t 30 \<longrightarrow> bit t 29) \<and> (bit t 30 \<longleftrightarrow> bit t 31) \<and> (bit t 31 \<longleftrightarrow> bit t 32)"
      using spec [OF a, of 29] spec [OF a, of 30] spec [OF a, of 31] by (auto simp: clock_seen_bits)
  next
    assume b: "(bit t 30 \<longrightarrow> bit t 29) \<and> (bit t 30 \<longleftrightarrow> bit t 31) \<and> (bit t 31 \<longleftrightarrow> bit t 32)"
    show "\<forall>n < 32. bit (clock_seen t) n \<longleftrightarrow> bit t n"
    proof (intro allI impI)
      fix n :: nat assume "n < 32"
      then consider "n < 29" | "n = 29" | "n = 30" | "n = 31" by linarith
      then show "bit (clock_seen t) n \<longleftrightarrow> bit t n" using b by cases (auto simp: clock_seen_bits)
    qed
  qed
  also have "\<dots> \<longleftrightarrow> t < 2 ^ 30 \<or> 2 ^ 33 - 2 ^ 29 \<le> t"
  proof -
    define v where "v = unat t div 2 ^ 29"
    have b: "bit t (29 + k) \<longleftrightarrow> odd (v div 2 ^ k)" if "k < 35" for k
    proof -
      have "bit t (29 + k) \<longleftrightarrow> bit (unat t) (29 + k)" using that by (simp add: bit_unsigned_iff)
      then show ?thesis by (simp add: bit_iff_odd [of "unat t"] v_def power_add div_mult2_eq)
    qed
    have "unat t < 2 ^ 33" using assms by (simp add: word_less_nat_alt)
    then have "v < 16" by (simp add: v_def less_mult_imp_div_less)
    have "t < 2 ^ 30 \<longleftrightarrow> v < 2" by (simp add: v_def word_less_nat_alt div_less_iff_less_mult)
    moreover have "2 ^ 33 - 2 ^ 29 \<le> t \<longleftrightarrow> 15 \<le> v"
      by (simp add: v_def word_le_nat_alt less_eq_div_iff_mult_less_eq)
    moreover have "(odd (v div 2) \<longrightarrow> odd v) \<and> (odd (v div 2) \<longleftrightarrow> odd (v div 4)) \<and> (odd (v div 4) \<longleftrightarrow> odd (v div 8))
        \<longleftrightarrow> v < 2 \<or> 15 \<le> v" using \<open>v < 16\<close> by presburger
    ultimately show ?thesis using b [of 0] b [of 1] b [of 2] b [of 3] by simp
  qed
  finally show ?thesis .
qed

section \<open>One packet\<close>






definition ts_collect :: "u32 \<Rightarrow> bytes \<Rightarrow> ts_reader \<Rightarrow> ts_reader" where
  "ts_collect pid x s = s\<lparr>tr_pes := sm_put pid (tr_unit pid s @ x) (tr_pes s)\<rparr>"


lemma ts_collect_simps [simp]:
  "tr_unit pid (ts_collect pid x s) = tr_unit pid s @ x"
  "tr_pmt_pid (ts_collect pid x s) = tr_pmt_pid s"
  "tr_video_type (ts_collect pid x s) = tr_video_type s"
  "tr_events (ts_collect pid x s) = tr_events s"
  by (simp_all add: ts_collect_def tr_unit_def sm_simps)




lemma ts_segments_step:
  assumes "length pkt = 188" and "pkt ! 0 = 0x47"
  shows "ts_segments E (pkt @ ds) s =
     (case ParseTsSegment E pkt s of
        TsOk (r, s1) \<Rightarrow> if r \<noteq> 0 then TsOk (-1, s1) else ts_segments E ds s1
      | TsAbort \<Rightarrow> TsAbort | TsFault \<Rightarrow> TsFault | TsHang \<Rightarrow> TsHang)"
proof -
  have "take 188 (pkt @ ds) = pkt" "drop 188 (pkt @ ds) = ds" "188 \<le> length (pkt @ ds)" "(pkt @ ds) ! 0 = 0x47"
    using assms by (simp_all add: nth_append)
  then show ?thesis
    unfolding ts_segments.simps [of E "pkt @ ds"] kTsSegmentFixedSize_def kTsHeaderSyncByte_def by (simp only: simp_thms if_True)
qed

section \<open>The packets of a frame\<close>






section \<open>A unit taken apart\<close>













text \<open>
  C33: the reader's time stamps. Of the 33-bit time stamp \<open>t\<close> in a PES header written by
  \<open>MediaMuxer\<close> it makes the right 32-bit value exactly when \<open>t\<close> is below 2^30 or in the last
  2^29 ticks of the range: its upper three bits are shifted by 29 and not by 30, so from 3 hours and 18 minutes on
  the times of a stream are wrong.
\<close>

theorem ts_timestamp_exact:
  assumes "t < 2 ^ 33"
  shows "\<exists>v b. run_state ts_clock (bb_new (ops_bytes (ts_clock_ops t))) = (v, b) \<and> bb_bits_left b = 0 \<and>
     (v = ucast t \<longleftrightarrow> t < 2 ^ 30 \<or> 2 ^ 33 - 2 ^ 29 \<le> t)"
proof -
  let ?d = "ops_bytes (ts_clock_ops t)"
  have "run_state ts_clock (rb ?d 0) = (clock_seen t, rb ?d 40)"
    using ts_clock_rb [of 0 ?d] ts_clock_size(2) [of t] ts_clock_read [of ?d "[]" t "[]" 0] by simp
  moreover have "bb_bits_left (rb ?d 40) = 0" using ts_clock_size(2) [of t] by (simp add: bb_bits_left_def)
  ultimately show ?thesis using clock_seen_exact [OF assms] by (simp add: rb_new)
qed

theorem ts_timestamp_exact_witness:
  "(\<exists>v b. run_state ts_clock (bb_new (ops_bytes (ts_clock_ops 0x3FFFFFFF))) = (v, b) \<and> v = 0x3FFFFFFF) \<and>
   (\<exists>v b. run_state ts_clock (bb_new (ops_bytes (ts_clock_ops 0x40000000))) = (v, b) \<and> v \<noteq> 0x40000000)"
  using ts_timestamp_exact [of "0x3FFFFFFF"] ts_timestamp_exact [of "0x40000000"] by auto

section \<open>The tables\<close>

lemma bits_low:
  assumes "a + b = 8"
  shows "bits_num d (8 * k + a) b = unat (d ! k) mod 2 ^ b"
proof -
  have "bits_num d (8 * k) 8 = bits_num d (8 * k) a * 2 ^ b + bits_num d (8 * k + a) b"
    using bits_num_add [of d "8 * k" a b] assms by simp
  then show ?thesis using bits_num_aligned [of d k] bits_num_bound [of d "8 * k + a" b] by simp
qed

lemma bits_two:
  assumes "a + b = 8"
  shows "bits_num d (8 * k + a) (b + 8) = (unat (d ! k) mod 2 ^ b) * 256 + unat (d ! (k + 1))"
proof -
  have e: "8 * k + a + b = 8 * (k + 1)" using assms by simp
  have "bits_num d (8 * k + a + b) 8 = unat (d ! (k + 1))" unfolding e by (rule bits_num_aligned)
  then show ?thesis using bits_num_add [of d "8 * k + a" b 8] bits_low [OF assms, of d k] by simp
qed

lemma ts_start_bit: "bit_at d 9 \<longleftrightarrow> bit (d ! 1) 6"
  by (simp add: bit_at_def)

lemma pid_bits: "bits_num d 11 13 = (unat (d ! 1) mod 32) * 256 + unat (d ! 2)"
proof -
  have e: "8 * 1 + 3 = (11 :: nat)" "5 + 8 = (13 :: nat)" "1 + 1 = (2 :: nat)" "2 ^ 5 = (32 :: nat)" by simp_all
  have "bits_num d (8 * 1 + 3) (5 + 8) = (unat (d ! 1) mod 2 ^ 5) * 256 + unat (d ! (1 + 1))" by (rule bits_two) simp
  then show ?thesis unfolding e .
qed

lemma pat_segment:
  "ParseTsSegment E (ts_pat_packet c) s = TsOk (0, s\<lparr>tr_pmt_pid := 0xABC\<rparr>)"
proof -
  define d where "d = ts_pat_packet c"
  have len: "length d = 188" by (simp add: d_def ts_pat_packet_def ts_pat_section_def)
  have d: "d ! 0 = 0x47" "d ! 1 = 0x40" "d ! 2 = 0" "d ! 3 = 0x10 OR (c AND 0x0F)" "d ! 13 = 0" "d ! 14 = 1" "d ! 15 = 0xEA" "d ! 16 = 0xBC"
    by (simp_all add: d_def ts_pat_packet_def ts_pat_section_def)
  have "bit (d ! 3) 5 = False" "bit (d ! 3) 4" using d(4) by (simp_all add: bit_simps)
  then have afc: "bits_num d 26 2 = 1" by (simp add: numeral_2_eq_2 bit_at_def)
  have pid: "bits_num d 11 13 = 0" using pid_bits [of d] d by simp
  have num: "bits_num d 104 16 = 1" using bits_two [of 0 8 d 13] d by simp
  have pm: "bits_num d 123 13 = 0xABC" using bits_two [of 3 5 d 15] d by simp
  have hd: "run_state ts_packet_head_bits (rb d 0) = ((1, 0, 1), rb d 32)"
    using ts_packet_head_rb [of d] len afc pid ts_start_bit [of d] d(2) by simp
  have "run_state ParsePAT (rb d 40) = (Some 0xABC, rb d 168)"
    using len num pm by (simp add: ParsePAT_def ts_section_head_def)
  then show ?thesis
    unfolding d_def [symmetric]
    by (simp add: ParseTsSegment_def kTsSegmentFixedSize_def kTsHeaderSyncByte_def len d(1) rb_new hd)
qed


lemma ts_descriptors_none: "ts_descriptors 0 b = Some (0, b)"
  by (simp add: ts_descriptors.simps)

lemma pmt_head_rb:
  assumes "length d = 188"
  shows "run_state ts_pmt_head (rb d 40) = ((word_of_nat (bits_num d 52 12), word_of_nat (bits_num d 124 12)), rb d 136)"
  using assms by (simp add: ts_pmt_head_def ts_section_head_def)

lemma es_head_rb:
  assumes "length d = 188" and "p \<le> 1000"
  shows "run_state ts_es_head (rb d p) = ((word_of_nat (bits_num d p 8), word_of_nat (bits_num d (11 + p) 13), word_of_nat (bits_num d (28 + p) 12)),
     rb d (40 + p))"
  using assms by (simp add: ts_es_head_def)

lemma pmt_packet_head:
  assumes "length d = 188" and "d ! 0 = 0x47" "d ! 1 = 0x4A" "d ! 2 = 0xBC" "d ! 3 = 0x10 OR (c AND 0x0F)" and "tr_pmt_pid s = 0xABC"
  shows "ParseTsSegment E d s = (case ParsePMT s (rb d 40) of None \<Rightarrow> TsHang | Some r \<Rightarrow> TsOk r)"
proof -
  have "bit (d ! 3) 5 = False" "bit (d ! 3) 4" using assms(5) by (simp_all add: bit_simps)
  then have afc: "bits_num d 26 2 = 1" by (simp add: numeral_2_eq_2 bit_at_def)
  have pid: "bits_num d 11 13 = 0xABC" using pid_bits [of d] assms(3,4) by simp
  have hd: "run_state ts_packet_head_bits (rb d 0) = ((1, 0xABC, 1), rb d 32)"
    using ts_packet_head_rb [of d] assms(1,3) afc pid ts_start_bit [of d] by simp
  show ?thesis
    using assms by (simp add: ParseTsSegment_def kTsSegmentFixedSize_def kTsHeaderSyncByte_def rb_new hd)
qed

lemma pmt_segment:
  assumes "tr_pmt_pid s = 0xABC"
  shows "ParseTsSegment E (ts_pmt_packet c) s = TsOk (0, s\<lparr>tr_video_type := 0x1B, tr_video_pid := 0x100,
     tr_audio_type := 0x0F, tr_audio_pid := 0x101\<rparr>)"
proof -
  define d where "d = ts_pmt_packet c"
  have len: "length d = 188" by (simp add: d_def ts_pmt_packet_def ts_pmt_section_def)
  have d: "d ! 0 = 0x47" "d ! 1 = 0x4A" "d ! 2 = 0xBC" "d ! 3 = 0x10 OR (c AND 0x0F)" "d ! 6 = 0xB0" "d ! 7 = 0x17"
    "d ! 15 = 0xF0" "d ! 16 = 0" "d ! 17 = 0x1B" "d ! 18 = 0xE1" "d ! 19 = 0" "d ! 20 = 0xF0" "d ! 21 = 0"
    "d ! 22 = 0x0F" "d ! 23 = 0xE1" "d ! 24 = 0x01" "d ! 25 = 0xF0" "d ! 26 = 0"
    by (simp_all add: d_def ts_pmt_packet_def ts_pmt_section_def)
  have sl: "bits_num d 52 12 = 0x17" using bits_two [of 4 4 d 6] d by simp
  have pil: "bits_num d 124 12 = 0" using bits_two [of 4 4 d 15] d by simp
  have e1: "bits_num d 136 8 = 0x1B" "bits_num d 147 13 = 0x100" "bits_num d 164 12 = 0"
    using bits_num_aligned [of d 17] bits_two [of 3 5 d 18] bits_two [of 4 4 d 20] d by simp_all
  have e2: "bits_num d 176 8 = 0x0F" "bits_num d 187 13 = 0x101" "bits_num d 204 12 = 0"
    using bits_num_aligned [of d 22] bits_two [of 3 5 d 23] bits_two [of 4 4 d 25] d by simp_all
  have ty: "IsVideoStreamType 0x1B" "\<not> IsVideoStreamType 0x0F" "IsAudioStreamType 0x0F"
    by (simp_all add: IsVideoStreamType_def IsAudioStreamType_def)
  define s1 where "s1 = s\<lparr>tr_video_type := 0x1B, tr_video_pid := 0x100\<rparr>"
  define s2 where "s2 = s1\<lparr>tr_audio_type := 0x0F, tr_audio_pid := 0x101\<rparr>"
  have l: "bb_bytes_left (rb d 136) = 171" "bb_bytes_left (rb d 176) = 166" "bb_bytes_left (rb d 216) = 161"
    by (simp_all add: rb_left len)
  have "ts_es_loop 0 s2 (rb d 216) = Some (0, s2, rb d 216)" by (simp add: ts_es_loop.simps)
  then have "ts_es_loop 5 s1 (rb d 176) = Some (0, s2, rb d 216)"
    using es_head_rb [of d 176] len e2 ty by (subst ts_es_loop.simps) (simp add: l ts_descriptors_none ts_set_stream_def s2_def)
  then have "ts_es_loop 10 s (rb d 136) = Some (0, s2, rb d 216)"
    using es_head_rb [of d 136] len e1 ty by (subst ts_es_loop.simps) (simp add: l ts_descriptors_none ts_set_stream_def s1_def)
  then have "ParsePMT s (rb d 40) = Some (0, s2)"
    using pmt_head_rb [OF len] sl pil by (simp add: ParsePMT_def ts_descriptors_none)
  then show ?thesis
    using pmt_packet_head [OF len d(1-4) assms, of E] by (simp add: d_def s1_def s2_def)
qed

lemma ts_segments_nil: "ts_segments E [] s = TsOk (0, s)"
  by (simp add: ts_segments.simps kTsSegmentFixedSize_def)

lemma table_packets:
  "length (ts_pat_packet c) = 188" "length (ts_pmt_packet c) = 188" "ts_pat_packet c ! 0 = 0x47" "ts_pmt_packet c ! 0 = 0x47"
  by (simp_all add: ts_pat_packet_def ts_pmt_packet_def ts_pat_section_def ts_pmt_section_def)

text \<open>
  C35: a reader learns the streams from the tables of \<open>MediaMuxer\<close>. From any state, and whatever the
  continuity counters, the PAT and PMT packets leave it with the PID of the program map, H.264 on PID
  0x100 and AAC on PID 0x101, and change nothing else.
\<close>

theorem ts_reader_learns_streams:
  assumes "ts_tables_inv t"
  shows "ParseTs E (fst (tm_packet_pat t) @ fst (tm_packet_pmt t)) s = TsOk (0, s\<lparr>tr_pmt_pid := 0xABC,
     tr_video_type := 0x1B, tr_video_pid := 0x100, tr_audio_type := 0x0F, tr_audio_pid := 0x101\<rparr>)"
proof -
  obtain c c' where p: "fst (tm_packet_pat t) = ts_pat_packet c" "fst (tm_packet_pmt t) = ts_pmt_packet c'"
    using tm_packet_pat_eq [OF assms] tm_packet_pmt_eq [OF assms] by simp
  have "ts_segments E (ts_pat_packet c @ ts_pmt_packet c' @ []) s = TsOk (0, s\<lparr>tr_pmt_pid := 0xABC,
     tr_video_type := 0x1B, tr_video_pid := 0x100, tr_audio_type := 0x0F, tr_audio_pid := 0x101\<rparr>)"
    by (simp add: ts_segments_step table_packets pat_segment pmt_segment ts_segments_nil del: append_Nil2)
  then show ?thesis by (simp add: p ParseTs_def kTsSegmentFixedSize_def table_packets)
qed

theorem ts_reader_learns_streams_witness:
  "\<exists>s. ParseTs \<lparr>te_junk = 7, te_clock = (\<lambda>_ _. 0)\<rparr> (fst (tm_packet_pat tm_new) @ fst (tm_packet_pmt tm_new))
      (tr_new \<lparr>te_junk = 7, te_clock = (\<lambda>_ _. 0)\<rparr>) = TsOk (0, s) \<and> tr_video_type s = 0x1B"
  using ts_reader_learns_streams [of tm_new] by (simp add: ts_tables_inv_def tm_new_def)

definition stuck_pmt :: bytes where
  \<comment> \<open>a program map whose descriptors are announced as 4095 bytes\<close>
  "stuck_pmt = [0x47, 0x4A, 0xBC, 0x10, 0x00, 0x02, 0xB0, 0x17, 0x00, 0x01, 0xC1, 0x00, 0x00, 0xE1, 0x00, 0xFF, 0xFF,
     0x02, 169] @ replicate 169 0"

text \<open>
  two packets stop the server: after a PAT that names the program map, this PMT packet keeps \<open>ParsePMT\<close> in its
  descriptor loop for ever. Its one descriptor fills the packet exactly while \<open>program_info_length\<close> announces more, and at
  the end of the packet \<open>ParseDescriptor\<close> returns 0 without taking a byte (\<open>ts_descriptors_stuck\<close>). A descriptor longer
  than the packet makes it return -1, and the loop ends.
\<close>

theorem ts_descriptor_loop_hangs: "ParseTs E (ts_pat_packet c @ stuck_pmt) s = TsHang"
proof -
  define d where "d = stuck_pmt"
  have len: "length d = 188" by (simp add: d_def stuck_pmt_def)
  have d: "d ! 0 = 0x47" "d ! 1 = 0x4A" "d ! 2 = 0xBC" "d ! 3 = 0x10 OR (0 AND 0x0F)" "d ! 15 = 0xFF" "d ! 16 = 0xFF" "d ! 18 = 169"
    by (simp_all add: d_def stuck_pmt_def)
  have pil: "bits_num d 124 12 = 0xFFF" using bits_two [of 4 4 d 15] d by simp
  have b18: "bits_num d 144 8 = 169" using bits_num_aligned [of d 18] d by simp
  have l: "bb_bytes_left (rb d 136) = 171" "bb_bytes_left (rb d 1504) = 0" "bb_bytes_left (rb d 152) = 169"
    by (simp_all add: rb_left len)
  have sk: "run_state (rd_skip 169) (rb d 152) = ((), rb d 1504)" using l by (simp add: rd_skip_def bb_skip_bytes_def Let_def rb_def)
  have "run_state ParseDescriptor (rb d 136) = (0, rb d 1504)"
    using len b18 by (simp add: ParseDescriptor_def sk)
  moreover have "bb_bits_left (rb d 1504) < 8" by (simp add: bb_bits_left_def len)
  ultimately have "ts_descriptors 0xFFF (rb d 136) = None"
    using ts_descriptors_stuck [of "rb d 1504" "0xF54"] by (subst ts_descriptors.simps) (simp add: l)
  then have "ParsePMT x (rb d 40) = None" for x
    using pmt_head_rb [OF len] pil by (simp add: ParsePMT_def split_def)
  then have "ParseTsSegment E d x = TsHang" if "tr_pmt_pid x = 0xABC" for x
    using pmt_packet_head [OF len d(1-4) that, of E] by simp
  then have "ts_segments E (ts_pat_packet c @ d @ []) s = TsHang"
    using len d(1) by (simp add: ts_segments_step table_packets pat_segment del: append_Nil2)
  then show "ParseTs E (ts_pat_packet c @ stuck_pmt) s = TsHang"
    using len by (simp add: ParseTs_def kTsSegmentFixedSize_def table_packets d_def)
qed

end
