(* ===== verification/Mp4Box.thy ===== *)
theory Mp4Box
  imports BitIO
begin

text \<open>
  The writers of ISO media boxes that \<open>mp4_muxer.cpp\<close> and \<open>dash_muxer.cpp\<close> share. A \<open>Write...Box\<close>
  function is a tree of statements on a \<open>BitStream\<close>: plain writes, writes whose value is a position, boxes
  (the macros \<open>PRE_SIZE\<close> and \<open>NEW_SIZE\<close> around a body: the size is put into the first four bytes when the
  body is written) and tables whose number of entries is corrected at the end. \<open>w_exec\<close> runs a tree with the
  operations of theory \<open>BitIO\<close>.

  \<open>w_bytes\<close> is the specification, the bytes of the tree, and \<open>w_execs_appends\<close> shows that a
  stream with room gets exactly these bytes at its end. \<open>mp4_boxes\<close> reads a sequence of boxes back.
\<close>

section \<open>Writers\<close>

datatype w_stmt =
    WOps "bw_op list"
  | WAt "nat \<Rightarrow> bw_op list" \<comment> \<open>the value written depends on \<open>bs.SizeInBytes()\<close>\<close>
  | WBox string "w_stmt list"
  | WCounted u32 "bw_op list" "nat \<Rightarrow> u32" \<comment> \<open>a number, rows, the number overwritten at the end, where \<open>bs.SizeInBytes()\<close> is known\<close>

definition wmodify :: "nat \<Rightarrow> u32 \<Rightarrow> bit_stream \<Rightarrow> bit_stream" where
  \<comment> \<open>\<open>bs.ModifyBytes(pos, 4, v)\<close>\<close>
  "wmodify pos v s = snd (bw_modify_bytes pos 4 v s)"

fun w_exec :: "w_stmt \<Rightarrow> bit_stream \<Rightarrow> bit_stream"
  and w_execs :: "w_stmt list \<Rightarrow> bit_stream \<Rightarrow> bit_stream" where
  "w_exec (WOps xs) s = bw_run xs s"
| "w_exec (WAt f) s = bw_run (f (bw_size_in_bytes s)) s"
| "w_exec (WBox tag body) s =
     (let pre_size = bw_size_in_bytes s;
          s1 = w_execs body (bw_run [WBytes 4 0, WData (bs tag)] s);
          new_size = bw_size_in_bytes s1
      in wmodify pre_size (word_of_nat (new_size - pre_size)) s1)"
| "w_exec (WCounted entry_count rows final) s =
     (let pos = bw_size_in_bytes s;
          s1 = bw_run rows (bw_run [WBytes 4 (ucast entry_count)] s)
      in wmodify pos (final (bw_size_in_bytes s1)) s1)"
| "w_execs [] s = s"
| "w_execs (x # xs) s = w_execs xs (w_exec x s)"

abbreviation full_box :: "string \<Rightarrow> u64 \<Rightarrow> w_stmt list \<Rightarrow> w_stmt" where
  \<comment> \<open>a box whose body starts with version 0 and flags\<close>
  "full_box tag flags body \<equiv> WBox tag (WOps [WBytes 1 0, WBytes 3 flags] # body)"

section \<open>What a writer appends\<close>

definition w_ready :: "bit_stream \<Rightarrow> bool" where
  "w_ready s \<longleftrightarrow> bw_clean s \<and> bw_pos s mod 8 = 0 \<and> bw_pos s \<le> bw_len s"

definition w_after :: "bit_stream \<Rightarrow> bytes \<Rightarrow> bit_stream \<Rightarrow> bool" where
  \<comment> \<open>\<open>s'\<close> is \<open>s\<close> with \<open>x\<close> appended\<close>
  "w_after s x s' \<longleftrightarrow> w_ready s' \<and> bw_data s' = bw_data s @ x \<and> bw_len s' = bw_len s \<and>
     bw_pos s' = bw_pos s + 8 * length x \<and> bw_fault s' = bw_fault s"

definition appends :: "(bit_stream \<Rightarrow> bit_stream) \<Rightarrow> (nat \<Rightarrow> bytes) \<Rightarrow> bool" where
  "appends f x \<longleftrightarrow> (\<forall>s. w_ready s \<and> bw_pos s + 8 * length (x (bw_size_in_bytes s)) \<le> bw_len s \<longrightarrow>
     w_after s (x (bw_size_in_bytes s)) (f s))"

lemma appendsD:
  "appends f x \<Longrightarrow> w_ready s \<Longrightarrow> bw_pos s + 8 * length (x (bw_size_in_bytes s)) \<le> bw_len s \<Longrightarrow>
   w_after s (x (bw_size_in_bytes s)) (f s)"
  by (simp add: appends_def)

lemma w_bits_data:
  assumes "w_ready s"
  shows "bw_bits s = concat (map byte_bits (bw_data s))"
proof -
  have "length (bw_bits s) = 8 * (bw_pos s div 8)" using assms by (auto simp: bw_bits_def w_ready_def)
  from bits_whole [OF this] obtain ys where ys: "bw_bits s = concat (map byte_bits ys)" by blast
  have "bw_data s = pack (bw_bits s)" using assms by (intro bw_data_pack) (auto simp: w_ready_def bw_clean_def)
  then show ?thesis using pack_bytes [of ys "[]"] by (simp add: ys)
qed

lemma w_data_length: "w_ready s \<Longrightarrow> length (bw_data s) = bw_size_in_bytes s \<and> 8 * bw_size_in_bytes s = bw_pos s"
  by (auto simp: w_ready_def bw_clean_def bw_data_def bw_size_in_bytes_def)

lemma bw_aligned_shift: "p mod 8 = q mod 8 \<Longrightarrow> bw_aligned p xs = bw_aligned q xs"
proof (induction xs arbitrary: p q)
  case (Cons x xs)
  have "(p + bw_op_size x) mod 8 = (q + bw_op_size x) mod 8" using Cons.prems by (metis mod_add_left_eq)
  from Cons.IH [OF this] Cons.prems show ?case by (cases x) simp_all
qed simp

lemma appends_run:
  assumes "concat (map bw_op_bits xs) = concat (map byte_bits x)" and "sum_list (map bw_op_size xs) = 8 * length x"
    and "bw_aligned 0 xs"
  shows "appends (bw_run xs) (\<lambda>_. x)"
  unfolding appends_def
proof (intro allI impI)
  fix s assume s: "w_ready s \<and> bw_pos s + 8 * length x \<le> bw_len s"
  have "bw_aligned (bw_pos s) xs" using s assms(3) bw_aligned_shift [of "bw_pos s" 0] by (simp add: w_ready_def)
  then have r: "bw_clean (bw_run xs s)" "bw_bits (bw_run xs s) = bw_bits s @ concat (map byte_bits x)"
    "bw_len (bw_run xs s) = bw_len s" "bw_pos (bw_run xs s) = bw_pos s + 8 * length x" "bw_fault (bw_run xs s) = bw_fault s"
    using bw_run_bits [of s xs] s assms(1,2) by (auto simp: w_ready_def)
  have rd: "w_ready (bw_run xs s)" using r s by (simp add: w_ready_def)
  then have "bw_data (bw_run xs s) = pack (bw_bits (bw_run xs s))" by (intro bw_data_pack) (auto simp: w_ready_def bw_clean_def)
  also have "\<dots> = bw_data s @ x"
    using pack_bytes [of "bw_data s @ x" "[]"] s by (simp add: r(2) w_bits_data)
  finally show "w_after s x (bw_run xs s)" using rd r by (simp add: w_after_def)
qed

fun op_bytes :: "bw_op \<Rightarrow> bytes option" where
  "op_bytes (WBits n v) = None"
| "op_bytes (WBytes n v) = Some (bw_val_bytes n v)"
| "op_bytes (WData d) = Some d"

lemma appends_bytes:
  assumes "map op_bytes xs = map Some ys"
  shows "appends (bw_run xs) (\<lambda>_. concat ys)"
proof -
  have "concat (map bw_op_bits xs) = concat (map byte_bits (concat ys)) \<and>
      sum_list (map bw_op_size xs) = 8 * length (concat ys) \<and> (p mod 8 = 0 \<longrightarrow> bw_aligned p xs)" for p :: nat
    using assms
  proof (induction xs arbitrary: ys p)
    case (Cons x xs)
    then obtain y zs where ys: "ys = y # zs" "op_bytes x = Some y" "map op_bytes xs = map Some zs" by (cases ys) auto
    from Cons.IH [OF ys(3)] ys(2) show ?case by (cases x) (auto simp: ys(1))
  qed simp
  then show ?thesis using appends_run [of xs "concat ys"] by auto
qed

lemma appends_id: "appends (\<lambda>s. s) (\<lambda>_. [])"
  by (simp add: appends_def w_after_def)

lemma appends_comp:
  assumes "appends f x" and "appends g y"
  shows "appends (\<lambda>s. g (f s)) (\<lambda>k. x k @ y (k + length (x k)))"
  unfolding appends_def
proof (intro allI impI)
  fix s assume s: "w_ready s \<and> bw_pos s + 8 * length (x (bw_size_in_bytes s) @ y (bw_size_in_bytes s + length (x (bw_size_in_bytes s)))) \<le> bw_len s"
  let ?k = "bw_size_in_bytes s"
  have 1: "w_after s (x ?k) (f s)" using assms(1) s by (auto simp: appends_def)
  then have "bw_size_in_bytes (f s) = ?k + length (x ?k)" by (simp add: w_after_def bw_size_in_bytes_def)
  then have "w_after (f s) (y (?k + length (x ?k))) (g (f s))"
    using assms(2) 1 s by (auto simp: appends_def w_after_def)
  then show "w_after s (x ?k @ y (?k + length (x ?k))) (g (f s))" using 1 by (simp add: w_after_def)
qed

lemma appends_here:
  assumes "\<And>k. appends (f k) (x k)"
  shows "appends (\<lambda>s. f (bw_size_in_bytes s) s) (\<lambda>k. x k k)"
  using assms by (simp add: appends_def)

lemma be_mod: "be n (v mod 256 ^ n) = be n v"
  using be_be_val [of "be n v"] by (simp add: be_simps)

lemma w_modify:
  assumes "w_ready s" and "pos + 4 \<le> bw_size_in_bytes s"
  shows "w_ready (wmodify pos v s)" and "bw_data (wmodify pos v s) = take pos (bw_data s) @ be 4 (unat v) @ drop (pos + 4) (bw_data s)"
    and "bw_len (wmodify pos v s) = bw_len s" and "bw_pos (wmodify pos v s) = bw_pos s" and "bw_fault (wmodify pos v s) = bw_fault s"
proof -
  define b where "b = bw_val_bytes 4 v"
  have len: "length b = 4" by (simp add: b_def)
  have p: "8 * bw_size_in_bytes s = bw_pos s" "bw_len s = 8 * length (bw_buf s)" "bw_pos s \<le> bw_len s"
    using w_data_length [OF assms(1)] assms(1) by (auto simp: w_ready_def bw_clean_def)
  have eq: "wmodify pos v s = s\<lparr>bw_buf := take pos (bw_buf s) @ b @ drop (pos + 4) (bw_buf s)\<rparr>"
    using assms(2) p by (simp add: wmodify_def bw_modify_bytes_def bw_put_def b_def bw_size_in_bytes_def)
  have lb: "length (take pos (bw_buf s) @ b @ drop (pos + 4) (bw_buf s)) = length (bw_buf s)" using assms(2) p len by simp
  have bb: "b = be 4 (unat v)" by (simp add: b_def be_word)
  have same: "bit_at (take pos (bw_buf s) @ b @ drop (pos + 4) (bw_buf s)) i = bit_at (bw_buf s) i" if "bw_pos s \<le> i" "i < 8 * length (bw_buf s)" for i
  proof -
    have "pos + 4 \<le> i div 8" using that assms(2) p by linarith
    then have "\<not> i div 8 < pos" "\<not> i div 8 - pos < 4" by simp_all
    then show ?thesis using len assms(2) p by (simp add: bit_at_def nth_append)
  qed
  show "w_ready (wmodify pos v s)" using assms(1) lb same by (auto simp: eq w_ready_def bw_clean_def)
  show "bw_data (wmodify pos v s) = take pos (bw_data s) @ be 4 (unat v) @ drop (pos + 4) (bw_data s)"
    using assms(2) p len by (simp add: eq bw_data_def bw_size_in_bytes_def bb [symmetric] drop_take min_def)
  show "bw_len (wmodify pos v s) = bw_len s" and "bw_pos (wmodify pos v s) = bw_pos s" and "bw_fault (wmodify pos v s) = bw_fault s"
    by (simp_all add: eq)
qed

definition box_bytes :: "string \<Rightarrow> bytes \<Rightarrow> bytes" where
  \<comment> \<open>a box of ISO/IEC 14496-12: its size in four bytes, its type, its body\<close>
  "box_bytes tag d = be 4 (8 + length d) @ bs tag @ d"

lemma length_box_bytes: "length tag = 4 \<Longrightarrow> length (box_bytes tag d) = 8 + length d"
  by (simp add: box_bytes_def)

lemma appends_patched:
  assumes g: "appends g x" and "\<And>k. x k = be 4 u @ y k"
  shows "appends (\<lambda>s. wmodify (bw_size_in_bytes s) (v (bw_size_in_bytes s) (bw_size_in_bytes (g s))) (g s))
     (\<lambda>k. be 4 (unat (v k (k + length (x k)))) @ y k)"
  unfolding appends_def
proof (intro allI impI)
  fix s
  let ?k = "bw_size_in_bytes s" and ?w = "v (bw_size_in_bytes s) (bw_size_in_bytes (g s))"
  assume s: "w_ready s \<and> bw_pos s + 8 * length (be 4 (unat (v ?k (?k + length (x ?k)))) @ y ?k) \<le> bw_len s"
  then have a: "w_after s (x ?k) (g s)" using g assms(2) by (simp add: appends_def)
  have k: "length (bw_data s) = ?k" "?k + 4 \<le> bw_size_in_bytes (g s)" "bw_size_in_bytes (g s) = ?k + length (x ?k)"
    using w_data_length [of s] s a assms(2) by (auto simp: w_after_def bw_size_in_bytes_def)
  have r1: "w_ready (g s)" using a by (simp add: w_after_def)
  note m = w_modify [OF r1 k(2), of ?w]
  have d: "take ?k (bw_data (g s)) @ be 4 (unat ?w) @ drop (?k + 4) (bw_data (g s)) = bw_data s @ be 4 (unat ?w) @ y ?k"
    using a k(1) assms(2) by (simp add: w_after_def)
  show "w_after s (be 4 (unat (v ?k (?k + length (x ?k)))) @ y ?k) (wmodify ?k ?w (g s))"
    using a m(1,3-5) m(2) [unfolded d] assms(2) k(3) by (simp add: w_after_def)
qed

section \<open>The bytes of a tree of statements\<close>

definition ops_ok :: "bw_op list \<Rightarrow> bool" where
  \<comment> \<open>bit fields come in whole bytes\<close>
  "ops_ok xs \<longleftrightarrow> bw_aligned 0 xs \<and> sum_list (map bw_op_size xs) mod 8 = 0"

fun w_bytes :: "nat \<Rightarrow> w_stmt \<Rightarrow> bytes"
  and w_list_bytes :: "nat \<Rightarrow> w_stmt list \<Rightarrow> bytes" where
  "w_bytes k (WOps xs) = ops_bytes xs"
| "w_bytes k (WAt f) = ops_bytes (f k)"
| "w_bytes k (WBox tag body) = box_bytes tag (w_list_bytes (k + 8) body)"
| "w_bytes k (WCounted c rows final) = be 4 (unat (final (k + 4 + length (ops_bytes rows)))) @ ops_bytes rows"
| "w_list_bytes k [] = []"
| "w_list_bytes k (x # xs) = w_bytes k x @ w_list_bytes (k + length (w_bytes k x)) xs"

fun w_ok :: "w_stmt \<Rightarrow> bool" where
  "w_ok (WOps xs) \<longleftrightarrow> ops_ok xs"
| "w_ok (WAt f) \<longleftrightarrow> (\<forall>k. ops_ok (f k))"
| "w_ok (WBox tag body) \<longleftrightarrow> length tag = 4 \<and> list_all w_ok body"
| "w_ok (WCounted c rows final) \<longleftrightarrow> ops_ok rows"

lemma w_bits_length: "length (concat (map bw_op_bits xs)) = sum_list (map bw_op_size xs)"
proof (induction xs)
  case (Cons x xs)
  have "length (bw_op_bits x) = bw_op_size x" by (cases x) (simp_all add: val_bits_def mult.commute)
  then show ?case using Cons by simp
qed simp

lemma ops_bits:
  assumes "ops_ok xs"
  shows "concat (map bw_op_bits xs) = concat (map byte_bits (ops_bytes xs))" and "sum_list (map bw_op_size xs) = 8 * length (ops_bytes xs)"
proof -
  have "length (concat (map bw_op_bits xs)) = 8 * (sum_list (map bw_op_size xs) div 8)"
    using assms by (auto simp: w_bits_length ops_ok_def)
  from bits_whole [OF this] obtain ys where
    ys: "concat (map bw_op_bits xs) = concat (map byte_bits ys)" "length ys = sum_list (map bw_op_size xs) div 8" by blast
  have "ops_bytes xs = ys" using pack_bytes [of ys "[]"] by (simp add: ops_bytes_def ys(1))
  then show "concat (map bw_op_bits xs) = concat (map byte_bits (ops_bytes xs))"
    and "sum_list (map bw_op_size xs) = 8 * length (ops_bytes xs)"
    using ys assms by (auto simp: ops_ok_def)
qed

lemma appends_ops: "ops_ok xs \<Longrightarrow> appends (bw_run xs) (\<lambda>_. ops_bytes xs)"
  by (intro appends_run ops_bits) (simp_all add: ops_ok_def)

fun byte_op :: "bw_op \<Rightarrow> bool" where
  "byte_op (WBits n v) = False"
| "byte_op _ = True"

lemma ops_ok_bytes: "list_all byte_op xs \<Longrightarrow> ops_ok xs"
proof -
  assume a: "list_all byte_op xs"
  have "p mod 8 = 0 \<longrightarrow> bw_aligned p xs \<and> sum_list (map bw_op_size xs) mod 8 = 0" for p :: nat
    using a
  proof (induction xs arbitrary: p)
    case (Cons x xs)
    then have x: "byte_op x" "list_all byte_op xs" by simp_all
    have "bw_op_size x mod 8 = 0" using x(1) by (cases x) simp_all
    then show ?case using Cons.IH [OF x(2), of "p + bw_op_size x"] x(1) by (cases x) auto
  qed simp
  from this [of 0] show ?thesis by (simp add: ops_ok_def)
qed

lemma w_ops_bytes [simp]:
  "ops_bytes [] = []"
  "ops_bytes (WBytes n v # xs) = bw_val_bytes n v @ ops_bytes xs"
  "ops_bytes (WData d # xs) = d @ ops_bytes xs"
  using pack_bytes [of "bw_val_bytes n v" "concat (map bw_op_bits xs)"] pack_bytes [of d "concat (map bw_op_bits xs)"]
  by (simp_all add: ops_bytes_def)

lemma length_ops_bytes: "ops_ok xs \<Longrightarrow> length (ops_bytes xs) = sum_list (map bw_op_size xs) div 8"
  by (simp add: ops_bits(2))

fun w_size :: "w_stmt \<Rightarrow> nat" where
  "w_size (WOps xs) = sum_list (map bw_op_size xs) div 8"
| "w_size (WAt f) = 0"
| "w_size (WBox tag body) = 8 + sum_list (map w_size body)"
| "w_size (WCounted c rows final) = 4 + sum_list (map bw_op_size rows) div 8"

fun w_plain :: "w_stmt \<Rightarrow> bool" where
  "w_plain (WAt f) = False"
| "w_plain (WBox tag body) = list_all w_plain body"
| "w_plain _ = True"

lemma w_list_size_aux:
  assumes "\<And>x k. x \<in> set xs \<Longrightarrow> length (w_bytes k x) = w_size x"
  shows "length (w_list_bytes k xs) = sum_list (map w_size xs)"
  using assms by (induction xs arbitrary: k) simp_all

lemma length_w_bytes: "w_ok x \<Longrightarrow> w_plain x \<Longrightarrow> length (w_bytes k x) = w_size x"
  by (induction x arbitrary: k) (simp_all add: length_ops_bytes length_box_bytes list_all_iff w_list_size_aux)

lemma length_w_list:
  "list_all w_ok xs \<Longrightarrow> list_all w_plain xs \<Longrightarrow> length (w_list_bytes k xs) = sum_list (map w_size xs)"
  by (intro w_list_size_aux length_w_bytes) (simp_all add: list_all_iff)

lemma w_list_append: "w_list_bytes k (xs @ ys) = w_list_bytes k xs @ w_list_bytes (k + length (w_list_bytes k xs)) ys"
  by (induction xs arbitrary: k) (simp_all add: add.assoc)

lemma w_list_appends:
  assumes "\<And>x. x \<in> set xs \<Longrightarrow> appends (w_exec x) (\<lambda>k. w_bytes k x)"
  shows "appends (w_execs xs) (\<lambda>k. w_list_bytes k xs)"
  using assms
proof (induction xs)
  case (Cons x xs)
  have "appends (w_exec x) (\<lambda>k. w_bytes k x)" "appends (w_execs xs) (\<lambda>k. w_list_bytes k xs)" using Cons by simp_all
  from appends_comp [OF this] show ?case by simp
qed (simp add: appends_def w_after_def)

lemma w_exec_appends: "w_ok x \<Longrightarrow> appends (w_exec x) (\<lambda>k. w_bytes k x)"
proof (induction x)
  case (WOps xs)
  then show ?case using appends_ops [of xs] by simp
next
  case (WAt f)
  then show ?case using appends_here [of "\<lambda>k. bw_run (f k)" "\<lambda>k _. ops_bytes (f k)"] by (simp add: appends_ops)
next
  case (WBox tag body)
  define h where "h = be 4 0 @ bs tag"
  have h8: "length h = 8" using WBox.prems by (simp add: h_def)
  have "appends (bw_run [WBytes 4 0, WData (bs tag)]) (\<lambda>_. h)"
    using appends_ops [of "[WBytes 4 0, WData (bs tag)]"] WBox.prems by (simp add: ops_ok_def be_word h_def)
  from appends_comp [OF this w_list_appends [of body]]
  have "appends (\<lambda>s. w_execs body (bw_run [WBytes 4 0, WData (bs tag)] s)) (\<lambda>k. h @ w_list_bytes (k + 8) body)"
    using WBox h8 by (simp add: list_all_iff)
  from appends_patched [OF this, of 0 "\<lambda>k. bs tag @ w_list_bytes (k + 8) body" "\<lambda>p q. word_of_nat (q - p)"]
  have "appends (\<lambda>s. w_exec (WBox tag body) s) (\<lambda>k. be 4 (unat (word_of_nat (8 + length (w_list_bytes (k + 8) body)) :: u32)) @ bs tag @ w_list_bytes (k + 8) body)"
    using h8 by (simp add: h_def Let_def)
  moreover have "be 4 (unat (8 + word_of_nat n :: u32)) = be 4 (8 + n)" for n
    using be_mod [of 4 "8 + n"] unat_of_nat [of "8 + n", where ?'a = 32] by simp
  ultimately show ?case by (simp add: box_bytes_def)
next
  case (WCounted c rows final)
  have "appends (bw_run [WBytes 4 (ucast c)]) (\<lambda>_. be 4 (unat (ucast c :: u64)))"
    using appends_ops [of "[WBytes 4 (ucast c)]"] by (simp add: ops_ok_def be_word)
  from appends_comp [OF this appends_ops [of rows]] WCounted
  have "appends (\<lambda>s. bw_run rows (bw_run [WBytes 4 (ucast c)] s)) (\<lambda>_. be 4 (unat (ucast c :: u64)) @ ops_bytes rows)"
    by simp
  from appends_patched [OF this, of _ _ "\<lambda>_. final"] show ?case by (simp add: Let_def add.assoc)
qed

theorem w_execs_appends: "list_all w_ok xs \<Longrightarrow> appends (w_execs xs) (\<lambda>k. w_list_bytes k xs)"
  by (intro w_list_appends w_exec_appends) (simp add: list_all_iff)

section \<open>Reading boxes\<close>

function mp4_boxes :: "bytes \<Rightarrow> (bytes \<times> bytes) list option" where
  \<comment> \<open>a sequence of boxes as a reader takes it apart: type and body of each\<close>
  "mp4_boxes d =
     (if d = [] then Some []
      else let n = be_val (take 4 d)
        in if length d < 8 \<or> n < 8 \<or> length d < n then None
        else map_option (Cons (take 4 (drop 4 d), take (n - 8) (drop 8 d))) (mp4_boxes (drop n d)))"
  by auto
termination by (relation "measure length") auto

declare mp4_boxes.simps [simp del]

fun mp4_find :: "bytes list \<Rightarrow> bytes \<Rightarrow> bytes option" where
  \<comment> \<open>the body of the first box at a path of types\<close>
  "mp4_find [] d = Some d"
| "mp4_find (tag # tags) d =
     (case mp4_boxes d of
        None \<Rightarrow> None
      | Some l \<Rightarrow> (case map_of l tag of None \<Rightarrow> None | Some x \<Rightarrow> mp4_find tags x))"

lemma mp4_boxes_Nil [simp]: "mp4_boxes [] = Some []"
  by (simp add: mp4_boxes.simps)

lemma mp4_boxes_box:
  assumes "length tag = 4" and "8 + length d < 2 ^ 32"
  shows "mp4_boxes (box_bytes tag d @ r) = map_option (Cons (bs tag, d)) (mp4_boxes r)"
proof -
  have "be_val (take 4 (box_bytes tag d @ r)) = 8 + length d"
    using assms(2) by (simp add: box_bytes_def be_val_be)
  moreover have "box_bytes tag d @ r \<noteq> []" using length_box_bytes [OF assms(1), of d] by auto
  ultimately show ?thesis using assms(1) length_box_bytes [OF assms(1)]
    by (subst mp4_boxes.simps, simp only: if_False) (simp add: Let_def box_bytes_def)
qed

fun w_parts :: "nat \<Rightarrow> w_stmt list \<Rightarrow> (bytes \<times> bytes) list" where
  "w_parts k (WBox tag body # xs) = (bs tag, w_list_bytes (k + 8) body) # w_parts (k + length (w_bytes k (WBox tag body))) xs"
| "w_parts k _ = []"

fun is_box :: "w_stmt \<Rightarrow> bool" where
  "is_box (WBox tag body) \<longleftrightarrow> length tag = 4"
| "is_box _ \<longleftrightarrow> False"

lemma mp4_boxes_parts:
  "list_all is_box xs \<Longrightarrow> length (w_list_bytes k xs) < 2 ^ 32 \<Longrightarrow> mp4_boxes (w_list_bytes k xs) = Some (w_parts k xs)"
proof (induction xs arbitrary: k)
  case (Cons x xs)
  then obtain tag body where x: "x = WBox tag body" "length tag = 4" by (cases x) auto
  define d where "d = w_list_bytes (k + 8) body"
  have "8 + length d < 2 ^ 32" and l: "length (w_list_bytes (k + length (w_bytes k x)) xs) < 2 ^ 32"
    using Cons.prems(2) x by (simp_all add: d_def length_box_bytes)
  from mp4_boxes_box [OF x(2) this(1)] Cons.IH [OF _ l] Cons.prems(1)
  show ?case by (simp add: x(1) d_def)
qed simp

end
