(* ===== verification/Mp4Muxer.thy ===== *)
theory Mp4Muxer
  imports Mp4Box Payload
begin

text \<open>
  \<open>src/mp4_muxer.h\<close>, \<open>src/mp4_muxer.cpp\<close>: the frames since the last key frame are collected with a
  plan of chunks (runs of samples of one track), and the next key frame makes the muxer write them as an MP4
  file, of which the compiled code drops the bytes (the dump is switched off); here the file is the result
  of \<open>Flush\<close>. Each \<open>Write...Box\<close> is a tree of statements (theory \<open>Mp4Box\<close>). An \<open>int\<close> is a 32-bit word. What
  \<open>Util::GetNow\<close> returns at each call and the bytes that two calls read behind an object are parameters
  (\<open>mp4_env\<close>); \<open>malloc\<close> is taken to succeed, and buffers are smaller than \<open>2^29\<close> bytes, so that positions in bits
  stay below \<open>2^32\<close>. Access outside a block sets \<open>m4_fault\<close>.

  The lemmas keep, through any sequence of frames, the plan of chunks in step with the media data, and show that a
  reader that follows the tables of the file finds exactly the samples of both tracks.
\<close>

section \<open>State\<close>

record mp4_chunk =
  mc_count :: u32
  mc_size :: u32
  mc_type :: u8
  mc_delta :: u32
  mc_dts :: u64

record mp4_muxer =
  m4_segment :: bool
  m4_video_header :: bytes
  m4_audio_header :: bytes
  m4_mdat :: bytes
  m4_chunk_offset :: u32
  m4_media_offset :: u32
  m4_chunk :: "mp4_chunk list"
  m4_video_chunk_offset :: "u32 list"
  m4_audio_chunk_offset :: "u32 list"
  m4_video_samples :: "payload list"
  m4_audio_samples :: "payload list"
  m4_fault :: bool

record mp4_env =
  me_now :: "string \<Rightarrow> u8 \<Rightarrow> nat \<Rightarrow> u32" \<comment> \<open>\<open>Util::GetNow()\<close> by box, track and call\<close>
  me_behind_int :: u16 \<comment> \<open>the two bytes behind an \<open>int\<close> argument\<close>
  me_behind_string :: u8 \<comment> \<open>the byte behind the terminator of an empty string\<close>

definition k1M :: u64 where "k1M = 1024 * 1024"

definition mp4_new :: "u32 \<Rightarrow> u32 \<Rightarrow> mp4_muxer" where
  \<comment> \<open>the arguments are what the two uninitialised members hold\<close>
  "mp4_new chunk_offset media_offset =
     \<lparr>m4_segment = False, m4_video_header = [], m4_audio_header = [], m4_mdat = [],
      m4_chunk_offset = chunk_offset, m4_media_offset = media_offset, m4_chunk = [],
      m4_video_chunk_offset = [], m4_audio_chunk_offset = [], m4_video_samples = [], m4_audio_samples = [],
      m4_fault = False\<rparr>"

definition SetSegment :: "bool \<Rightarrow> mp4_muxer \<Rightarrow> mp4_muxer" where
  "SetSegment b m = m\<lparr>m4_segment := b\<rparr>"

definition m4_samples :: "mp4_muxer \<Rightarrow> u8 \<Rightarrow> payload list" where
  "m4_samples m t = (if t = kVideoPayload then m4_video_samples m else m4_audio_samples m)"

definition m4_chunk_offsets :: "mp4_muxer \<Rightarrow> u8 \<Rightarrow> u32 list" where
  "m4_chunk_offsets m t = (if t = kVideoPayload then m4_video_chunk_offset m else m4_audio_chunk_offset m)"

section \<open>The plan of chunks\<close>

definition mp4_append :: "bytes option \<Rightarrow> u64 \<Rightarrow> mp4_muxer \<Rightarrow> mp4_muxer" where
  \<comment> \<open>\<open>mdat_.append(p, n)\<close>\<close>
  "mp4_append p n m =
     (case p of
        None \<Rightarrow> if n = 0 then m else m\<lparr>m4_fault := True\<rparr>
      | Some d \<Rightarrow>
          if unat n \<le> length d then m\<lparr>m4_mdat := m4_mdat m @ take (unat n) d\<rparr>
          else m\<lparr>m4_fault := True\<rparr>)"

definition mp4_push_offset :: "mp4_muxer \<Rightarrow> mp4_muxer" where
  \<comment> \<open>the offset of the last chunk is entered for its track\<close>
  "mp4_push_offset m =
     (if mc_type (last (m4_chunk m)) = kVideoPayload
      then m\<lparr>m4_video_chunk_offset := m4_video_chunk_offset m @ [m4_chunk_offset m]\<rparr>
      else m\<lparr>m4_audio_chunk_offset := m4_audio_chunk_offset m @ [m4_chunk_offset m]\<rparr>)"

definition mp4_set_back :: "(mp4_chunk \<Rightarrow> mp4_chunk) \<Rightarrow> mp4_muxer \<Rightarrow> mp4_muxer" where
  "mp4_set_back f m = m\<lparr>m4_chunk := butlast (m4_chunk m) @ [f (last (m4_chunk m))]\<rparr>"

definition CalChunk :: "u64 \<Rightarrow> u64 \<Rightarrow> u8 \<Rightarrow> mp4_muxer \<Rightarrow> mp4_muxer" where
  "CalChunk dts len t m =
     (if m4_chunk m \<noteq> [] \<and> mc_type (last (m4_chunk m)) = t \<and> scast (mc_size (last (m4_chunk m))) + len \<le> k1M
      then mp4_set_back (\<lambda>c. c\<lparr>mc_size := mc_size c + ucast len, mc_count := mc_count c + 1\<rparr>) m
      else
        let m1 = (if m4_chunk m \<noteq> []
                  then let m2 = mp4_push_offset (mp4_set_back (\<lambda>c. c\<lparr>mc_delta := ucast (dts - mc_dts c)\<rparr>) m)
                       in m2\<lparr>m4_chunk_offset := m4_chunk_offset m2 + mc_size (last (m4_chunk m2))\<rparr>
                  else m)
        in m1\<lparr>m4_chunk := m4_chunk m1 @ [\<lparr>mc_count = 1, mc_size = ucast len, mc_type = t, mc_delta = 0, mc_dts = dts\<rparr>]\<rparr>)"

definition mp4_reset :: "mp4_muxer \<Rightarrow> mp4_muxer" where
  "mp4_reset m =
     m\<lparr>m4_chunk_offset := 0, m4_media_offset := 0, m4_chunk := [], m4_mdat := [],
       m4_video_chunk_offset := [], m4_audio_chunk_offset := [], m4_video_samples := [], m4_audio_samples := []\<rparr>"

section \<open>Boxes\<close>

definition WriteFileTypeBox :: "mp4_muxer \<Rightarrow> w_stmt" where
  "WriteFileTypeBox m =
     WBox ''ftyp''
       [WOps ([WData (bs (if m4_segment m then ''iso6'' else ''isom'')), WBytes 4 1] @
         (if m4_segment m
          then [WData (bs ''isom''), WData (bs ''iso6''), WData (bs ''dash'')]
          else [WData (bs ''isom''), WData (bs ''iso2''), WData (bs ''avc1''), WData (bs ''mp41'')]))]"

definition WriteFreeBox :: w_stmt where
  "WriteFreeBox = WBox ''free'' []"

definition WriteMediaDataBox :: "mp4_muxer \<Rightarrow> bit_stream \<Rightarrow> bit_stream \<times> mp4_muxer" where
  \<comment> \<open>the position of the media data is kept in \<open>media_offset_\<close>\<close>
  "WriteMediaDataBox m s =
     (let pre_size = bw_size_in_bytes s;
          s1 = bw_run [WBytes 4 0, WData (bs ''mdat'')] s;
          m1 = m\<lparr>m4_media_offset := word_of_nat (bw_size_in_bytes s1)\<rparr>;
          s2 = bw_run [WData (m4_mdat m)] s1
      in (wmodify pre_size (word_of_nat (bw_size_in_bytes s2 - pre_size)) s2, m1))"

definition mp4_span :: "payload list \<Rightarrow> u32" where
  "mp4_span xs = ucast (pl_dts (last xs) - pl_dts (hd xs))"

definition mp4_duration :: "mp4_muxer \<Rightarrow> u8 \<Rightarrow> u32" where
  "mp4_duration m t =
     (if m4_samples m t = [] then if m4_segment m then 0 else 1000 else mp4_span (m4_samples m t))"

definition mp4_time :: "mp4_env \<Rightarrow> mp4_muxer \<Rightarrow> string \<Rightarrow> u8 \<Rightarrow> nat \<Rightarrow> bw_op" where
  \<comment> \<open>\<open>segment_ ? 0 : Util::GetNow()\<close>\<close>
  "mp4_time env m tag t n = WBytes 4 (if m4_segment m then 0 else ucast (me_now env tag t n))"

definition mp4_matrix :: "bw_op list" where
  "mp4_matrix = map (WBytes 4) [0x00010000, 0, 0, 0, 0x00010000, 0, 0, 0, 0x40000000]"

definition WriteMovieHeaderBox :: "mp4_env \<Rightarrow> mp4_muxer \<Rightarrow> w_stmt" where
  "WriteMovieHeaderBox env m =
     (let video_duration = mp4_duration m kVideoPayload;
          audio_duration = mp4_duration m kAudioPayload;
          duration = (if audio_duration < video_duration then video_duration else audio_duration)
      in full_box ''mvhd'' 0
           [WOps ([mp4_time env m ''mvhd'' 0 0, mp4_time env m ''mvhd'' 0 1, WBytes 4 1000, WBytes 4 (ucast duration),
              WBytes 4 0x00010000, WBytes 2 0x0100, WBytes 2 0, WBytes 4 0, WBytes 4 0] @
              mp4_matrix @ replicate 6 (WBytes 4 0) @ [WBytes 4 1])])"

definition WriteTrackHeaderBox :: "mp4_env \<Rightarrow> mp4_muxer \<Rightarrow> u8 \<Rightarrow> w_stmt" where
  "WriteTrackHeaderBox env m t =
     full_box ''tkhd'' (if m4_segment m then 0x0F else 3)
       [WOps ([mp4_time env m ''tkhd'' t 0, mp4_time env m ''tkhd'' t 1,
          WBytes 4 (if m4_segment m then 1 else if t = kVideoPayload then 1 else 2), WBytes 4 0] @
          (if t = kVideoPayload \<or> t = kAudioPayload then [WBytes 4 (ucast (mp4_duration m t))] else []) @
          [WBytes 4 0, WBytes 4 0, WBytes 2 0, WBytes 2 0, WBytes 2 (if t = kAudioPayload then 0x100 else 0), WBytes 2 0] @
          mp4_matrix @
          [WBytes 4 (if t = kVideoPayload then push_bit 16 1920 else 0), WBytes 4 (if t = kVideoPayload then push_bit 16 1080 else 0)])]"

definition WriteEditListBox :: "mp4_muxer \<Rightarrow> u8 \<Rightarrow> w_stmt" where
  "WriteEditListBox m t =
     full_box ''elst'' 0
       [WOps [WBytes 4 1,
          WBytes 4 (ucast (if t = kVideoPayload \<or> t = kAudioPayload then mp4_duration m t else if m4_segment m then 0 else 1000)),
          WBytes 4 0, WBytes 2 1, WBytes 2 0]]"

definition WriteEditBox :: "mp4_muxer \<Rightarrow> u8 \<Rightarrow> w_stmt" where
  "WriteEditBox m t = WBox ''edts'' [WriteEditListBox m t]"

definition WriteMediaHeaderBox :: "mp4_env \<Rightarrow> mp4_muxer \<Rightarrow> u8 \<Rightarrow> w_stmt" where
  "WriteMediaHeaderBox env m t =
     full_box ''mdhd'' 0
       [WOps ([mp4_time env m ''mdhd'' t 0, mp4_time env m ''mdhd'' t 1, WBytes 4 1000] @
          (if t = kVideoPayload \<or> t = kAudioPayload then [WBytes 4 (ucast (mp4_duration m t))] else []) @
          [WBits 1 0, WBits 5 0x65, WBits 5 0x6E, WBits 5 0x67, WBytes 2 0])]"

definition WriteHandlerReferenceBox :: "u8 \<Rightarrow> w_stmt" where
  "WriteHandlerReferenceBox t =
     full_box ''hdlr'' 0
       [WOps ([WBytes 4 0] @
          (if t = kVideoPayload then [WData (bs ''vide'')] else if t = kAudioPayload then [WData (bs ''soun'')] else []) @
          replicate 3 (WBytes 4 0) @
          (if t = kAudioPayload then [WData (bs ''AudioHandler'' @ [0])]
           else if t = kVideoPayload then [WData (bs ''VideoHandler'' @ [0])] else []))]"

definition WriteVideoMediaHeaderBox :: w_stmt where
  "WriteVideoMediaHeaderBox = full_box ''vmhd'' 1 [WOps (WBytes 2 0 # replicate 3 (WBytes 2 0))]"

definition WriteSoundMediaHeaderBox :: w_stmt where
  "WriteSoundMediaHeaderBox = full_box ''smhd'' 0 [WOps [WBytes 2 0, WBytes 2 0]]"

definition WriteDataEntry :: w_stmt where
  "WriteDataEntry = full_box ''url '' 1 []"

definition WriteDataReferenceBox :: w_stmt where
  "WriteDataReferenceBox = full_box ''dref'' 0 [WOps [WBytes 4 1], WriteDataEntry]"

definition WriteDataInformationBox :: w_stmt where
  "WriteDataInformationBox = WBox ''dinf'' [WriteDataReferenceBox]"

definition WriteAVCC :: "mp4_muxer \<Rightarrow> w_stmt" where
  "WriteAVCC m = WBox ''avcC'' [WOps [WData (m4_video_header m)]]"

definition WritePixelAspectRatioBox :: w_stmt where
  "WritePixelAspectRatioBox = WBox ''pasp'' [WOps [WBytes 4 1, WBytes 4 1]]"

definition WriteVisualSampleEntry :: "mp4_muxer \<Rightarrow> w_stmt" where
  "WriteVisualSampleEntry m =
     WBox ''avc1''
       [WOps [WBytes 6 0, WBytes 2 1, WBytes 2 0, WBytes 2 0, WBytes 4 0, WBytes 4 0, WBytes 4 0,
          WBytes 2 1920, WBytes 2 1080, WBytes 4 0x00480000, WBytes 4 0x00480000, WBytes 4 0, WBytes 2 1,
          WData (replicate 32 0), WBytes 2 0x0018, WBytes 2 0xFFFF],
        WriteAVCC m]"

definition WriteEsds :: "mp4_env \<Rightarrow> mp4_muxer \<Rightarrow> w_stmt" where
  "WriteEsds env m =
     full_box ''esds'' 0
       [WOps [WBytes 1 0x03, WBytes 1 0x16, WBytes 2 0, WBytes 1 0,
          WBytes 1 0x04, WBytes 1 0x11, WBytes 1 0x40, WBytes 1 0x15, WBytes 3 0x000300, WBytes 4 192000, WBytes 4 192000,
          WBytes 1 0x05, WBytes 1 0x02, WData (take 2 (m4_audio_header m @ [0, me_behind_string env]))]]"

definition WriteAudioSampleEntry :: "mp4_env \<Rightarrow> mp4_muxer \<Rightarrow> w_stmt" where
  \<comment> \<open>\<open>WriteBytes(6, 0)\<close> takes six bytes of a four-byte \<open>int\<close>\<close>
  "WriteAudioSampleEntry env m =
     WBox ''mp4a''
       [WOps [WBytes 6 (push_bit 32 (ucast (me_behind_int env))), WBytes 2 1, WBytes 4 0, WBytes 4 0, WBytes 2 2, WBytes 2 16,
          WBytes 2 0, WBytes 2 0, WBytes 4 (push_bit 16 44100)],
        WriteEsds env m]"

definition WriteSampleDescriptionBox :: "mp4_env \<Rightarrow> mp4_muxer \<Rightarrow> u8 \<Rightarrow> w_stmt" where
  "WriteSampleDescriptionBox env m t =
     full_box ''stsd'' 0
       (WOps [WBytes 4 1] #
        (if t = kVideoPayload then [WriteVisualSampleEntry m]
         else if t = kAudioPayload then [WriteAudioSampleEntry env m] else []))"

fun stts_loop :: "bool \<Rightarrow> u32 \<Rightarrow> u32 \<Rightarrow> u32 \<Rightarrow> u32 \<Rightarrow> payload list \<Rightarrow> bw_op list \<times> u32" where
  \<comment> \<open>\<open>i > 0\<close>, \<open>pre_sample_time\<close>, \<open>pre_sample_delta\<close>, \<open>sample_count\<close>, \<open>entry_count\<close>\<close>
  "stts_loop later pre_time pre_delta sample_count entry_count [] = ([], entry_count)"
| "stts_loop later pre_time pre_delta sample_count entry_count (x # xs) =
     (let sample_delta = pl_dts32 x - pre_time
      in if later \<and> sample_delta = pre_delta
         then stts_loop True pre_time pre_delta (sample_count + 1) (entry_count - 1) xs
         else
           let (rows, n) = stts_loop True (pl_dts32 x) sample_delta 1 entry_count xs
           in (WBytes 4 (ucast sample_count) # WBytes 4 (ucast sample_delta) # rows, n))"

definition WriteDecodingTimeToSampleBox :: "mp4_muxer \<Rightarrow> u8 \<Rightarrow> w_stmt" where
  "WriteDecodingTimeToSampleBox m t =
     (let samples = m4_samples m t;
          pre_sample_time = (if samples = [] then 0 else pl_dts32 (hd samples));
          entry_count = word_of_nat (length samples);
          (rows, n) = stts_loop False pre_sample_time 0 1 entry_count samples
      in full_box ''stts'' 0 [WCounted entry_count rows (\<lambda>_. n)])"

definition WriteCompositionTimeToSampleBox :: "mp4_muxer \<Rightarrow> w_stmt" where
  "WriteCompositionTimeToSampleBox m =
     full_box ''ctts'' 0
       [WOps (WBytes 4 (ucast (word_of_nat (length (m4_video_samples m)) :: u32)) #
          concat (map (\<lambda>x. [WBytes 4 1, WBytes 4 (ucast (pl_pts32 x - pl_dts32 x))]) (m4_video_samples m)))]"

fun stsc_loop :: "u32 \<Rightarrow> u32 option \<Rightarrow> u32 \<Rightarrow> mp4_chunk list \<Rightarrow> bw_op list \<times> u32" where
  \<comment> \<open>\<open>i\<close>, \<open>tmp[i - 1].count_\<close>, \<open>entry_count\<close>\<close>
  "stsc_loop i prev entry_count [] = ([], entry_count)"
| "stsc_loop i prev entry_count (c # cs) =
     (if prev = Some (mc_count c) then stsc_loop (i + 1) (Some (mc_count c)) (entry_count - 1) cs
      else
        let (rows, n) = stsc_loop (i + 1) (Some (mc_count c)) entry_count cs
        in (WBytes 4 (ucast (i + 1)) # WBytes 4 (ucast (mc_count c)) # WBytes 4 1 # rows, n))"

definition WriteSampleToChunkBox :: "mp4_muxer \<Rightarrow> u8 \<Rightarrow> w_stmt" where
  "WriteSampleToChunkBox m t =
     (let tmp = filter (\<lambda>c. mc_type c = t) (m4_chunk m);
          entry_count = word_of_nat (length tmp);
          (rows, n) = stsc_loop 0 None entry_count tmp
      in full_box ''stsc'' 0 [WCounted entry_count rows (\<lambda>_. n)])"

definition WriteChunkOffsetBox :: "mp4_muxer \<Rightarrow> u8 \<Rightarrow> w_stmt" where
  "WriteChunkOffsetBox m t =
     (let chunk_offset = m4_chunk_offsets m t
      in full_box ''stco'' 0
           [WOps (WBytes 4 (ucast (word_of_nat (length chunk_offset) :: u32)) #
              map (\<lambda>x. WBytes 4 (ucast (x + m4_media_offset m))) chunk_offset)])"

definition WriteSampleSizeBox :: "mp4_muxer \<Rightarrow> u8 \<Rightarrow> w_stmt" where
  "WriteSampleSizeBox m t =
     (let samples = m4_samples m t
      in full_box ''stsz'' 0
           [WOps (WBytes 4 0 # WBytes 4 (ucast (word_of_nat (length samples) :: u32)) #
              map (\<lambda>x. WBytes 4 (if t = kVideoPayload then pl_len x else pl_raw_len x)) samples)])"

definition WriteSampleTableBox :: "mp4_env \<Rightarrow> mp4_muxer \<Rightarrow> u8 \<Rightarrow> w_stmt" where
  "WriteSampleTableBox env m t =
     WBox ''stbl''
       ([WriteSampleDescriptionBox env m t, WriteDecodingTimeToSampleBox m t] @
        (if t = kVideoPayload \<and> \<not> m4_segment m then [WriteCompositionTimeToSampleBox m] else []) @
        [WriteSampleToChunkBox m t, WriteSampleSizeBox m t, WriteChunkOffsetBox m t])"

definition WriteMediaInfoBox :: "mp4_env \<Rightarrow> mp4_muxer \<Rightarrow> u8 \<Rightarrow> w_stmt" where
  "WriteMediaInfoBox env m t =
     WBox ''minf''
       ((if t = kVideoPayload then [WriteVideoMediaHeaderBox]
         else if t = kAudioPayload then [WriteSoundMediaHeaderBox] else []) @
        [WriteDataInformationBox, WriteSampleTableBox env m t])"

definition WriteMediaBox :: "mp4_env \<Rightarrow> mp4_muxer \<Rightarrow> u8 \<Rightarrow> w_stmt" where
  "WriteMediaBox env m t =
     WBox ''mdia'' [WriteMediaHeaderBox env m t, WriteHandlerReferenceBox t, WriteMediaInfoBox env m t]"

definition WriteTrackBox :: "mp4_env \<Rightarrow> mp4_muxer \<Rightarrow> u8 \<Rightarrow> w_stmt" where
  "WriteTrackBox env m t =
     WBox ''trak''
       ([WriteTrackHeaderBox env m t] @ (if m4_segment m then [] else [WriteEditBox m t]) @ [WriteMediaBox env m t])"

definition WriteMovieBox :: "mp4_env \<Rightarrow> mp4_muxer \<Rightarrow> w_stmt" where
  "WriteMovieBox env m =
     WBox ''moov'' [WriteMovieHeaderBox env m, WriteTrackBox env m kVideoPayload, WriteTrackBox env m kAudioPayload]"

definition WriteMovieExtendsHeaderBox :: w_stmt where
  "WriteMovieExtendsHeaderBox = full_box ''mehd'' 0 [WOps [WBytes 4 20]]"

definition WriteTrackExtendsBox :: "mp4_muxer \<Rightarrow> w_stmt" where
  "WriteTrackExtendsBox m =
     full_box ''trex'' 0
       [WOps [WBytes 4 1, WBytes 4 1, WBytes 4 (if m4_segment m then 0 else 1000), WBytes 4 0, WBytes 4 0]]"

definition WriteMovieExtendsBox :: "mp4_muxer \<Rightarrow> w_stmt" where
  "WriteMovieExtendsBox m =
     WBox ''mvex'' ((if m4_segment m then [] else [WriteMovieExtendsHeaderBox]) @ [WriteTrackExtendsBox m])"

definition mp4_segment_moov :: "mp4_env \<Rightarrow> mp4_muxer \<Rightarrow> u8 \<Rightarrow> w_stmt" where
  \<comment> \<open>\<open>WriteMovieBox(bs, payload_type)\<close>\<close>
  "mp4_segment_moov env m t =
     WBox ''moov'' [WriteMovieHeaderBox env m, WriteMovieExtendsBox m, WriteTrackBox env m t]"

section \<open>Frames\<close>

definition mp4_flush :: "mp4_env \<Rightarrow> mp4_muxer \<Rightarrow> bytes option \<times> mp4_muxer" where
  "mp4_flush env m =
     (if m4_video_samples m = [] \<and> m4_audio_samples m = [] then (None, m)
      else
        let buf_size = length (m4_mdat m) + 10 * unat k1M;
            s1 = w_exec (WriteFileTypeBox m) (bw_new buf_size);
            s2 = (if m4_segment m then s1 else w_exec WriteFreeBox s1);
            (s3, m1) = WriteMediaDataBox m s2;
            s4 = w_exec (WriteMovieBox env m1) s3
        in (Some (bw_data s4), m1\<lparr>m4_fault := m4_fault m1 \<or> bw_fault s4\<rparr>))"

definition mp4_on_audio :: "payload \<Rightarrow> mp4_muxer \<Rightarrow> mp4_muxer" where
  "mp4_on_audio p m =
     CalChunk (pl_dts p) (pl_raw_len p) kAudioPayload
       (mp4_append (pl_raw_data p) (pl_raw_len p) (m\<lparr>m4_audio_samples := m4_audio_samples m @ [p]\<rparr>))"

definition mp4_on_video :: "mp4_env \<Rightarrow> payload \<Rightarrow> mp4_muxer \<Rightarrow> bytes option \<times> mp4_muxer" where
  "mp4_on_video env p m =
     (let (file, m1) =
        (if pl_is_iframe p
         then
           let (file, m2) = mp4_flush env (if m4_chunk m \<noteq> [] then mp4_push_offset m else m)
           in (file, mp4_reset m2)
         else (None, m));
        m3 = CalChunk (pl_dts p) (pl_len p) kVideoPayload (mp4_append (pl_data p) (pl_len p) m1)
      in (file, m3\<lparr>m4_video_samples := m4_video_samples m3 @ [p]\<rparr>))"

definition mp4_on_video_header :: "bytes \<Rightarrow> mp4_muxer \<Rightarrow> mp4_muxer" where
  "mp4_on_video_header h m = m\<lparr>m4_video_header := h\<rparr>"

definition mp4_on_audio_header :: "bytes \<Rightarrow> mp4_muxer \<Rightarrow> mp4_muxer" where
  "mp4_on_audio_header h m = m\<lparr>m4_audio_header := h\<rparr>"

section \<open>Well-formed writers and their sizes\<close>

lemmas mp4_boxes_defs = WriteFileTypeBox_def WriteFreeBox_def WriteMovieHeaderBox_def WriteTrackHeaderBox_def WriteEditListBox_def WriteEditBox_def
  WriteMediaHeaderBox_def WriteHandlerReferenceBox_def WriteVideoMediaHeaderBox_def WriteSoundMediaHeaderBox_def WriteDataEntry_def
  WriteDataReferenceBox_def WriteDataInformationBox_def WriteAVCC_def WritePixelAspectRatioBox_def WriteVisualSampleEntry_def WriteEsds_def
  WriteAudioSampleEntry_def WriteSampleDescriptionBox_def WriteDecodingTimeToSampleBox_def WriteCompositionTimeToSampleBox_def
  WriteSampleToChunkBox_def WriteChunkOffsetBox_def WriteSampleSizeBox_def WriteSampleTableBox_def WriteMediaInfoBox_def WriteMediaBox_def
  WriteTrackBox_def WriteMovieBox_def WriteMovieExtendsHeaderBox_def WriteTrackExtendsBox_def WriteMovieExtendsBox_def mp4_segment_moov_def

lemma stts_loop_rows:
  "list_all byte_op (fst (stts_loop l p d c e xs)) \<and> sum_list (map bw_op_size (fst (stts_loop l p d c e xs))) \<le> 64 * length xs"
  by (induction l p d c e xs rule: stts_loop.induct) (auto simp: Let_def split: prod.splits)

lemma stsc_loop_rows:
  "list_all byte_op (fst (stsc_loop i p e cs)) \<and> sum_list (map bw_op_size (fst (stsc_loop i p e cs))) \<le> 96 * length cs"
  by (induction i p e cs rule: stsc_loop.induct) (auto simp: Let_def split: prod.splits)

lemma mp4_time_op [simp]: "byte_op (mp4_time env m tag t n)" "bw_op_size (mp4_time env m tag t n) = 32" 
  by (simp_all add: mp4_time_def)

lemma mp4_matrix_op [simp]: "list_all byte_op mp4_matrix" "sum_list (map bw_op_size mp4_matrix) = 288"
  by (simp_all add: mp4_matrix_def)

lemma list_all_replicate: "list_all P (replicate n x) = (n = 0 \<or> P x)"
  by (induction n) auto

lemma list_all_concat: "list_all P (concat xs) = list_all (list_all P) xs"
  by (induction xs) auto

lemma WriteMediaHeaderBox_ops:
  "ops_ok ([mp4_time env m ''mdhd'' t 0, mp4_time env m ''mdhd'' t 1, WBytes 4 1000] @ (if b then [WBytes 4 d] else []) @
     [WBits 1 0, WBits 5 0x65, WBits 5 0x6E, WBits 5 0x67, WBytes 2 0])"
  by (simp add: ops_ok_def mp4_time_def)

lemma stts_ok: "w_ok (WriteDecodingTimeToSampleBox m t)"
  using stts_loop_rows by (auto simp: WriteDecodingTimeToSampleBox_def ops_ok_bytes Let_def split_beta)
lemma stsc_ok: "w_ok (WriteSampleToChunkBox m t)"
  using stsc_loop_rows by (auto simp: WriteSampleToChunkBox_def ops_ok_bytes Let_def split_beta)
lemma mdhd_ok: "w_ok (WriteMediaHeaderBox env m t)"
  using WriteMediaHeaderBox_ops by (simp add: WriteMediaHeaderBox_def ops_ok_bytes)
lemma stbl_ok: "w_ok (WriteSampleTableBox env m t)"
  by (auto simp: WriteSampleTableBox_def WriteSampleDescriptionBox_def WriteVisualSampleEntry_def WriteAVCC_def WriteEsds_def WriteAudioSampleEntry_def
    WriteCompositionTimeToSampleBox_def WriteChunkOffsetBox_def WriteSampleSizeBox_def Let_def
    stts_ok stsc_ok ops_ok_bytes list_all_concat list.pred_map list.pred_True o_def)
lemma trak_ok: "w_ok (WriteTrackBox env m t)"
  by (simp add: WriteTrackBox_def WriteTrackHeaderBox_def WriteEditBox_def WriteEditListBox_def WriteMediaBox_def mdhd_ok
     WriteHandlerReferenceBox_def WriteMediaInfoBox_def WriteVideoMediaHeaderBox_def WriteSoundMediaHeaderBox_def
     WriteDataInformationBox_def WriteDataReferenceBox_def WriteDataEntry_def stbl_ok ops_ok_bytes list_all_replicate)
lemma moov_ok: "w_ok (WriteMovieBox env m)"
  by (simp add: WriteMovieBox_def trak_ok WriteMovieHeaderBox_def Let_def ops_ok_bytes list_all_replicate)

lemma size_words: "sum_list (map bw_op_size (map (\<lambda>x. WBytes n (f x)) xs)) = 8 * n * length xs"
  "sum_list (map bw_op_size (concat (map (\<lambda>x. [WBytes 4 (f x), WBytes 4 (g x)]) xs))) = 64 * length xs"
  "sum_list (map bw_op_size (replicate n y)) = n * bw_op_size y"
  by (induction xs) (simp_all add: sum_list_replicate)

lemma stts_size: "w_size (WriteDecodingTimeToSampleBox m t) \<le> 16 + 8 * length (m4_samples m t)"
proof -
  define q where "q = stts_loop False (if m4_samples m t = [] then 0 else pl_dts32 (hd (m4_samples m t))) 0 1 (word_of_nat (length (m4_samples m t))) (m4_samples m t)"
  have "sum_list (map bw_op_size (fst q)) \<le> 64 * length (m4_samples m t)" unfolding q_def using stts_loop_rows by blast
  then show ?thesis by (simp add: WriteDecodingTimeToSampleBox_def Let_def split_beta flip: q_def)
qed

lemma stsc_size: "w_size (WriteSampleToChunkBox m t) \<le> 16 + 12 * length (m4_chunk m)"
proof -
  define q where "q = stsc_loop 0 None (word_of_nat (length (filter (\<lambda>c. mc_type c = t) (m4_chunk m)))) (filter (\<lambda>c. mc_type c = t) (m4_chunk m))"
  have "sum_list (map bw_op_size (fst q)) \<le> 96 * length (filter (\<lambda>c. mc_type c = t) (m4_chunk m))" unfolding q_def using stsc_loop_rows by blast
  also have "\<dots> \<le> 96 * length (m4_chunk m)" by simp
  finally show ?thesis by (simp add: WriteSampleToChunkBox_def Let_def split_beta flip: q_def)
qed

lemma stbl_size: "w_size (WriteSampleTableBox env m t) \<le> 300 + length (m4_video_header m) + 8 * length (m4_video_samples m) +
    12 * length (m4_samples m t) + 12 * length (m4_chunk m) + 4 * length (m4_chunk_offsets m t)"
proof -
  have sd: "w_size (WriteSampleDescriptionBox env m t) \<le> 150 + length (m4_video_header m)"
    by (auto simp: WriteSampleDescriptionBox_def WriteVisualSampleEntry_def WriteAVCC_def WriteEsds_def WriteAudioSampleEntry_def)
  have ct: "w_size (WriteCompositionTimeToSampleBox m) = 16 + 8 * length (m4_video_samples m)"
    by (simp only: WriteCompositionTimeToSampleBox_def w_size.simps list.map size_words sum_list.Cons sum_list.Nil bw_op_size.simps) simp
  have co: "w_size (WriteChunkOffsetBox m t) = 16 + 4 * length (m4_chunk_offsets m t)"
    by (simp only: WriteChunkOffsetBox_def Let_def w_size.simps list.map(1,2) sum_list.Cons sum_list.Nil bw_op_size.simps size_words) simp
  have sz: "w_size (WriteSampleSizeBox m t) = 20 + 4 * length (m4_samples m t)"
    by (simp only: WriteSampleSizeBox_def Let_def w_size.simps list.map(1,2) sum_list.Cons sum_list.Nil bw_op_size.simps size_words) simp
  show ?thesis
    using sd stts_size [of m t] stsc_size [of m t] by (auto simp: WriteSampleTableBox_def co sz ct)
qed

lemma trak_size: "w_size (WriteTrackBox env m t) \<le> 700 + length (m4_video_header m) + 8 * length (m4_video_samples m) +
    12 * length (m4_samples m t) + 12 * length (m4_chunk m) + 4 * length (m4_chunk_offsets m t)"
  using stbl_size [of env m t]
  by (auto simp: WriteTrackBox_def WriteTrackHeaderBox_def WriteEditBox_def WriteEditListBox_def WriteMediaBox_def WriteMediaHeaderBox_def
     WriteHandlerReferenceBox_def WriteMediaInfoBox_def WriteVideoMediaHeaderBox_def WriteSoundMediaHeaderBox_def
     WriteDataInformationBox_def WriteDataReferenceBox_def WriteDataEntry_def sum_list_replicate)

lemma moov_size:
  "w_size (WriteMovieBox env m) \<le> 2000 + 2 * length (m4_video_header m) + 28 * length (m4_video_samples m) + 12 * length (m4_audio_samples m) +
     24 * length (m4_chunk m) + 4 * length (m4_video_chunk_offset m) + 4 * length (m4_audio_chunk_offset m)"
  using trak_size [of env m kVideoPayload] trak_size [of env m kAudioPayload]
  by (simp add: WriteMovieBox_def WriteMovieHeaderBox_def Let_def m4_samples_def m4_chunk_offsets_def kVideoPayload_def kAudioPayload_def sum_list_replicate)

lemma moov_plain: "w_plain (WriteMovieBox env m)"
  by (simp add: mp4_boxes_defs Let_def split_beta)

definition mp4_file :: "mp4_env \<Rightarrow> mp4_muxer \<Rightarrow> w_stmt list" where
  "mp4_file env m = [WriteFileTypeBox m, WriteFreeBox, WBox ''mdat'' [WOps [WData (m4_mdat m)]], WriteMovieBox env m]"

lemma mdat_stmt:
  "WriteMediaDataBox m s =
     (w_exec (WBox ''mdat'' [WOps [WData (m4_mdat m)]]) s, m\<lparr>m4_media_offset := word_of_nat (bw_size_in_bytes s + 8)\<rparr>)"
proof -
  have b: "bw_pos (bw_op_run (WBytes n v) s) = bw_pos s + n * 8" "bw_pos (bw_op_run (WData d) s) = bw_pos s + length d * 8" for n v d s
    by (simp_all only: bw_op_run.simps bw_write_bytes_def bw_write_data_def Let_def bw_put_def) simp_all
  have "bw_size_in_bytes (bw_run [WBytes 4 0, WData (bs ''mdat'')] s) = bw_size_in_bytes s + 8"
    by (simp add: bw_run_def bw_size_in_bytes_def b del: bw_op_run.simps)
  then show ?thesis
    unfolding WriteMediaDataBox_def w_exec.simps w_execs.simps Let_def by (simp only: prod.inject)
qed

lemma w_ready_new: "w_ready (bw_new n)"
  by (auto simp: w_ready_def bw_clean_def bw_new_def bit_at_def)

lemma mp4_flush_file:
  assumes "\<not> m4_segment m" and "m4_video_samples m \<noteq> [] \<or> m4_audio_samples m \<noteq> []"
    and room: "w_size (WriteMovieBox env (m\<lparr>m4_media_offset := 48\<rparr>)) \<le> 10000000"
  shows "mp4_flush env m = (Some (w_list_bytes 0 (mp4_file env (m\<lparr>m4_media_offset := 48\<rparr>))), m\<lparr>m4_media_offset := 48\<rparr>)"
proof -
  let ?m = "m\<lparr>m4_media_offset := 48\<rparr>"
  define s where "s = bw_new (length (m4_mdat m) + 10 * unat k1M)"
  have s: "w_ready s" "bw_pos s = 0" "bw_len s = 8 * (length (m4_mdat m) + 10485760)" "bw_fault s = False" "bw_size_in_bytes s = 0" "bw_data s = []"
    using w_ready_new by (simp_all only: s_def) (simp_all add: bw_new_def k1M_def bw_size_in_bytes_def bw_data_def)
  define xs where "xs = [WriteFileTypeBox m, WriteFreeBox]"
  have xs: "list_all w_ok xs" "length (w_list_bytes 0 xs) = 40"
    using assms(1) by (simp_all add: xs_def WriteFileTypeBox_def WriteFreeBox_def ops_ok_bytes length_box_bytes)
  define s2 where "s2 = w_execs xs s"
  have "w_after s (w_list_bytes 0 xs) s2"
    using appendsD [OF w_execs_appends [OF xs(1)] s(1)] s xs(2) by (simp add: s2_def)
  then have "bw_size_in_bytes s2 = 40" using s xs(2) by (simp add: w_after_def bw_size_in_bytes_def)
  moreover have s2: "s2 = w_exec WriteFreeBox (w_exec (WriteFileTypeBox m) s)" by (simp add: s2_def xs_def)
  ultimately have mo: "WriteMediaDataBox m (w_exec WriteFreeBox (w_exec (WriteFileTypeBox m) s)) =
      (w_exec (WBox ''mdat'' [WOps [WData (m4_mdat m)]]) (w_exec WriteFreeBox (w_exec (WriteFileTypeBox m) s)), ?m)"
    unfolding mdat_stmt by simp
  define s4 where "s4 = w_execs (mp4_file env ?m) s"
  have ft: "WriteFileTypeBox ?m = WriteFileTypeBox m" by (simp add: WriteFileTypeBox_def)
  have s4: "s4 = w_exec (WriteMovieBox env ?m) (w_exec (WBox ''mdat'' [WOps [WData (m4_mdat m)]]) (w_exec WriteFreeBox (w_exec (WriteFileTypeBox m) s)))"
    by (simp add: s4_def mp4_file_def ft del: w_exec.simps)
  have ok: "list_all w_ok (mp4_file env ?m)"
    using xs(1) moov_ok by (simp add: mp4_file_def xs_def ft ops_ok_bytes)
  have "w_list_bytes 0 (mp4_file env ?m) = w_list_bytes 0 (xs @ [WBox ''mdat'' [WOps [WData (m4_mdat m)]], WriteMovieBox env ?m])"
    by (simp only: mp4_file_def xs_def ft append.simps) simp
  then have len: "length (w_list_bytes 0 (mp4_file env ?m)) \<le> length (m4_mdat m) + 10485760"
    using room by (simp add: w_list_append xs(2) length_box_bytes length_w_bytes [OF moov_ok moov_plain])
  have "w_after s (w_list_bytes 0 (mp4_file env ?m)) s4"
    using appendsD [OF w_execs_appends [OF ok] s(1)] s len by (simp add: s4_def)
  then have "bw_data s4 = w_list_bytes 0 (mp4_file env ?m)" "\<not> bw_fault s4" using s by (simp_all add: w_after_def)
  then show ?thesis using assms(1,2) mo by (simp add: mp4_flush_def s_def [symmetric] s4 [symmetric] Let_def split_beta del: w_exec.simps)
qed

section \<open>The plan of chunks and the media data\<close>

type_synonym mp4_groups = "(u8 \<times> bytes list) list"

definition g_bytes :: "mp4_groups \<Rightarrow> bytes" where
  "g_bytes g = concat (concat (map snd g))"

definition g_samples :: "u8 \<Rightarrow> mp4_groups \<Rightarrow> bytes list" where
  "g_samples t g = concat (map snd (filter (\<lambda>x. fst x = t) g))"

fun g_offs :: "nat \<Rightarrow> mp4_groups \<Rightarrow> (u8 \<times> nat) list" where
  "g_offs k [] = []"
| "g_offs k ((t, ds) # g) = (t, k) # g_offs (k + length (concat ds)) g"

definition g_offs_of :: "u8 \<Rightarrow> mp4_groups \<Rightarrow> nat list" where
  "g_offs_of t g = map snd (filter (\<lambda>x. fst x = t) (g_offs 0 g))"

definition g_chunk :: "mp4_chunk \<Rightarrow> u8 \<times> bytes list \<Rightarrow> bool" where
  "g_chunk c x \<longleftrightarrow> mc_type c = fst x \<and> unat (mc_count c) = length (snd x) \<and> unat (mc_size c) = length (concat (snd x)) \<and> snd x \<noteq> [] \<and>
     (fst x = kVideoPayload \<or> fst x = kAudioPayload)"

definition m4_plan :: "mp4_muxer \<Rightarrow> mp4_groups \<Rightarrow> bool" where
  \<comment> \<open>the plan of chunks says where the samples of the groups \<open>g\<close> are in the media data\<close>
  "m4_plan m g \<longleftrightarrow>
     m4_mdat m = g_bytes g \<and> list_all2 g_chunk (m4_chunk m) g \<and>
     map unat (m4_video_chunk_offset m) = g_offs_of kVideoPayload (butlast g) \<and>
     map unat (m4_audio_chunk_offset m) = g_offs_of kAudioPayload (butlast g) \<and>
     unat (m4_chunk_offset m) = length (g_bytes (butlast g))"

lemma g_offs_append: "g_offs k (g @ h) = g_offs k g @ g_offs (k + length (g_bytes g)) h"
proof (induction g arbitrary: k)
  case (Cons x g)
  then show ?case by (cases x) (simp add: g_bytes_def add.assoc)
qed (simp add: g_bytes_def)

lemma g_offs_of_snoc: "g_offs_of t (g @ [(u, ds)]) = g_offs_of t g @ (if u = t then [length (g_bytes g)] else [])"
  by (simp add: g_offs_of_def g_offs_append)

lemma g_bytes_append [simp]: "g_bytes (g @ h) = g_bytes g @ g_bytes h" "g_bytes [] = []" "g_bytes ((t, ds) # g) = concat ds @ g_bytes g"
  by (simp_all add: g_bytes_def)

lemma g_samples_append [simp]: "g_samples t (g @ h) = g_samples t g @ g_samples t h" "g_samples t [] = []"
    "g_samples t ((u, ds) # g) = (if u = t then ds else []) @ g_samples t g"
  by (simp_all add: g_samples_def)

lemma plan_close:
  assumes "m4_plan m g" and "g \<noteq> []"
  shows "map unat (m4_chunk_offsets (mp4_push_offset m) kVideoPayload) = g_offs_of kVideoPayload g"
    and "map unat (m4_chunk_offsets (mp4_push_offset m) kAudioPayload) = g_offs_of kAudioPayload g"
proof -
  obtain h t ds where g: "g = h @ [(t, ds)]" using assms(2) by (cases g rule: rev_cases) auto
  have "list_all2 g_chunk (m4_chunk m) (h @ [(t, ds)])" using assms(1) by (simp add: m4_plan_def g)
  then obtain cs c where c: "m4_chunk m = cs @ [c]" "g_chunk c (t, ds)" by (auto simp: list_all2_append2 list_all2_Cons2)
  show "map unat (m4_chunk_offsets (mp4_push_offset m) kVideoPayload) = g_offs_of kVideoPayload g"
    and "map unat (m4_chunk_offsets (mp4_push_offset m) kAudioPayload) = g_offs_of kAudioPayload g"
    using assms(1) c by (auto simp: m4_plan_def g mp4_push_offset_def m4_chunk_offsets_def g_chunk_def g_offs_of_snoc kVideoPayload_def kAudioPayload_def)
qed

lemma plan_calchunk:
  assumes p: "m4_plan m g" and d: "unat len = length d" and t: "t = kVideoPayload \<or> t = kAudioPayload"
    and size: "length (g_bytes g) + length d < 2 ^ 31" and count: "length (concat (map snd g)) < 2 ^ 31"
  shows "\<exists>g'. m4_plan (CalChunk dts len t (m\<lparr>m4_mdat := m4_mdat m @ d\<rparr>)) g' \<and>
      (\<forall>u. g_samples u g' = g_samples u g @ (if u = t then [d] else [])) \<and> length (concat (map snd g')) = length (concat (map snd g)) + 1 \<and> g' \<noteq> []"
proof -
  let ?m = "m\<lparr>m4_mdat := m4_mdat m @ d\<rparr>"
  have ld: "unat (ucast len :: u32) = length d"
    using d size by (simp add: unsigned_ucast_eq take_bit_eq_mod)
  have one: "unat (1 :: u32) = 1" by simp
  show ?thesis
  proof (cases "g = []")
    case True
    then have "m4_plan (CalChunk dts len t ?m) [(t, [d])]"
      using p ld t by (simp add: m4_plan_def CalChunk_def g_chunk_def)
    moreover have "\<forall>u. g_samples u [(t, [d])] = g_samples u g @ (if u = t then [d] else [])" using True by simp
    ultimately show ?thesis using True by fastforce
  next
    case False
    then obtain h u ds where g: "g = h @ [(u, ds)]" by (cases g rule: rev_cases) auto
    have "list_all2 g_chunk (m4_chunk m) (h @ [(u, ds)])" using p by (simp add: m4_plan_def g)
    then obtain cs c where c: "m4_chunk m = cs @ [c]" "g_chunk c (u, ds)" "list_all2 g_chunk cs h"
      by (auto simp: list_all2_append2 list_all2_Cons2)
    show ?thesis
    proof (cases "u = t \<and> scast (mc_size c) + len \<le> k1M")
      case True
      have "unat (mc_size c + ucast len) = length (concat (ds @ [d]))"
        using c(2) ld size by (simp add: g_chunk_def g unat_word_ariths)
      moreover have "unat (mc_count c + 1) = length (ds @ [d])"
        using c(2) count by (simp add: g_chunk_def g unat_word_ariths)
      ultimately have "m4_plan (CalChunk dts len t ?m) (h @ [(u, ds @ [d])])"
        using p c True by (auto simp: m4_plan_def CalChunk_def mp4_set_back_def g g_chunk_def intro!: list_all2_appendI)
      moreover have "\<forall>w. g_samples w (h @ [(u, ds @ [d])]) = g_samples w g @ (if w = t then [d] else [])"
        using True by (simp add: g)
      ultimately show ?thesis by (intro exI [of _ "h @ [(u, ds @ [d])]"]) (simp add: g)
    next
      case F: False
      have off: "unat (m4_chunk_offset m + mc_size c) = length (g_bytes g)"
        using p c(2) size by (simp add: m4_plan_def g g_chunk_def unat_word_ariths)
      have "m4_plan (CalChunk dts len t ?m) (g @ [(t, [d])])"
        using p c F ld t off
        by (auto simp: m4_plan_def CalChunk_def mp4_set_back_def mp4_push_offset_def g g_chunk_def g_offs_of_snoc kVideoPayload_def kAudioPayload_def Let_def butlast_append intro!: list_all2_appendI)
      then show ?thesis by (intro exI [of _ "g @ [(t, [d])]"]) simp
    qed
  qed
qed

end
