(* ===== verification/Mp4File.thy ===== *)
theory Mp4File
  imports Mp4Muxer
begin

text \<open>
  The MP4 files of theory \<open>Mp4Muxer\<close>, read. The reader \<open>mp4_read\<close> knows the file format only: it finds the
  tables of every track by the types of the boxes on the way, and follows them. The main result is that it finds
  every sample of the two tracks; the table of decoding times, which it does not use, is wrong.
\<close>

section \<open>A reader of the file\<close>

fun be_words :: "bytes \<Rightarrow> nat list" where
  "be_words (a # b # c # d # r) = be_val [a, b, c, d] # be_words r"
| "be_words _ = []"

fun stsc_entries :: "nat list \<Rightarrow> (nat \<times> nat) list" where
  "stsc_entries (first # n # desc # r) = (first, n) # stsc_entries r"
| "stsc_entries _ = []"

fun stsc_counts :: "nat \<Rightarrow> nat \<Rightarrow> nat \<Rightarrow> (nat \<times> nat) list \<Rightarrow> nat list" where
  \<comment> \<open>samples in each of \<open>n\<close> chunks from chunk \<open>i\<close> on\<close>
  "stsc_counts cur i 0 es = []"
| "stsc_counts cur i (Suc n) es =
     (case es of
        (first, c) # r \<Rightarrow>
          if first = i then c # stsc_counts c (Suc i) n r else cur # stsc_counts cur (Suc i) n es
      | [] \<Rightarrow> cur # stsc_counts cur (Suc i) n [])"

fun cut_chunk :: "bytes \<Rightarrow> nat \<Rightarrow> nat list \<Rightarrow> bytes list" where
  "cut_chunk file off [] = []"
| "cut_chunk file off (z # zs) = take z (drop off file) # cut_chunk file (off + z) zs"

fun cut_chunks :: "bytes \<Rightarrow> (nat \<times> nat) list \<Rightarrow> nat list \<Rightarrow> bytes list" where
  "cut_chunks file [] sizes = []"
| "cut_chunks file ((off, n) # cs) sizes = cut_chunk file off (take n sizes) @ cut_chunks file cs (drop n sizes)"

definition mp4_table :: "string \<Rightarrow> bytes \<Rightarrow> nat list option" where
  "mp4_table tag trak = map_option be_words (mp4_find [bs ''mdia'', bs ''minf'', bs ''stbl'', bs tag] trak)"

definition mp4_track_samples :: "bytes \<Rightarrow> bytes \<Rightarrow> bytes list option" where
  \<comment> \<open>\<open>stsz\<close>: flags, 0, count, sizes; \<open>stco\<close>: flags, count, offsets; \<open>stsc\<close>: flags, count, entries\<close>
  "mp4_track_samples file trak =
     (case (mp4_table ''stsz'' trak, mp4_table ''stco'' trak, mp4_table ''stsc'' trak) of
        (Some (_ # _ # nz # sizes), Some (_ # no # offs), Some (_ # ne # entries)) \<Rightarrow>
          if length sizes = nz \<and> length offs = no \<and> length (stsc_entries entries) = ne
          then Some (cut_chunks file (zip offs (stsc_counts 0 1 no (stsc_entries entries))) sizes)
          else None
      | _ \<Rightarrow> None)"

definition mp4_tracks :: "bytes \<Rightarrow> bytes list option" where
  "mp4_tracks file =
     (case mp4_find [bs ''moov''] file of
        None \<Rightarrow> None
      | Some moov \<Rightarrow> map_option (\<lambda>l. map snd (filter (\<lambda>x. fst x = bs ''trak'') l)) (mp4_boxes moov))"

definition mp4_read :: "bytes \<Rightarrow> bytes list list option" where
  \<comment> \<open>the samples of every track\<close>
  "mp4_read file =
     (case mp4_tracks file of
        None \<Rightarrow> None
      | Some ts \<Rightarrow> those (map (mp4_track_samples file) ts))"

lemma cut_chunk_exact:
  "cut_chunk (pre @ concat ds @ post) (length pre) (map length ds) = ds"
proof (induction ds arbitrary: pre)
  case (Cons d ds)
  from Cons.IH [of "pre @ d"] show ?case by simp
qed simp

lemma cut_chunks_exact:
  assumes "file = pre @ g_bytes g @ post"
  shows "cut_chunks file (zip (map snd (filter (\<lambda>x. fst x = t) (g_offs (length pre) g))) (map (length \<circ> snd) (filter (\<lambda>x. fst x = t) g)))
      (map length (g_samples t g)) = g_samples t g"
  using assms
proof (induction g arbitrary: pre)
  case (Cons x g)
  obtain u ds where x: "x = (u, ds)" by (cases x)
  have f: "file = (pre @ concat ds) @ g_bytes g @ post" using Cons.prems by (simp add: x)
  note ih = Cons.IH [OF f]
  have c: "cut_chunk file (length pre) (map length ds) = ds" using cut_chunk_exact [of pre ds "g_bytes g @ post"] Cons.prems by (simp add: x)
  show ?case using ih c by (simp add: x)
qed simp

lemma be_words_be: "be_words (be 4 v @ r) = v mod 2 ^ 32 # be_words r"
proof -
  have "length (be 4 v) = Suc (Suc (Suc (Suc 0)))" by simp
  then obtain a b c d where "be 4 v = [a, b, c, d]" by (auto simp: length_Suc_conv simp del: length_be)
  moreover have "be_val (be 4 v) = v mod 2 ^ 32" by (simp add: be_val_be)
  ultimately show ?thesis by simp
qed

abbreviation stsc_rows :: "u32 \<Rightarrow> u32 option \<Rightarrow> u32 \<Rightarrow> mp4_chunk list \<Rightarrow> (nat \<times> nat) list" where
  "stsc_rows i prev e cs \<equiv> stsc_entries (be_words (ops_bytes (fst (stsc_loop i prev e cs))))"

lemma word32_bytes: "unat (ucast (x :: u32) :: u64) mod 4294967296 = unat x"
proof -
  have "unat x < 2 ^ 32" using unsigned_less [of x] by simp
  then show ?thesis by (simp add: unsigned_ucast_eq take_bit_eq_mod)
qed

lemma stsc_rows_Cons:
  "stsc_rows i prev e (c # cs) =
     (if prev = Some (mc_count c) then stsc_rows (i + 1) (Some (mc_count c)) (e - 1) cs
      else (unat (i + 1), unat (mc_count c)) # stsc_rows (i + 1) (Some (mc_count c)) e cs)"
  by (simp add: Let_def split_beta be_word be_words_be word32_bytes)

lemma stsc_rows_later:
  "unat i + length cs < 2 ^ 32 \<Longrightarrow> list_all (\<lambda>x. unat i < fst x) (stsc_rows i prev e cs)"
proof (induction cs arbitrary: i prev e)
  case (Cons c cs)
  have i: "unat (i + 1) = unat i + 1" using Cons.prems by (simp add: unat_word_ariths)
  have "list_all (\<lambda>x. unat (i + 1) < fst x) (stsc_rows (i + 1) p e' cs)" for p e'
    using Cons.prems by (intro Cons.IH) (simp add: i)
  then have "list_all (\<lambda>x. unat i < fst x) (stsc_rows (i + 1) p e' cs)" for p e'
    by (rule list.pred_mono_strong) (simp add: i)
  then show ?case unfolding stsc_rows_Cons by (simp add: i)
qed simp

lemma stsc_counts_skip:
  "list_all (\<lambda>x. i < fst x) es \<Longrightarrow> stsc_counts cur i (Suc n) es = cur # stsc_counts cur (Suc i) n es"
  by (cases es) auto

lemma stsc_rows_counts:
  "\<lbrakk>unat i + length cs < 2 ^ 32; \<And>w. prev = Some w \<Longrightarrow> cur = unat w\<rbrakk> \<Longrightarrow>
   stsc_counts cur (Suc (unat i)) (length cs) (stsc_rows i prev e cs) = map (unat \<circ> mc_count) cs"
proof (induction cs arbitrary: i prev e cur)
  case (Cons c cs)
  have i: "unat (i + 1) = Suc (unat i)" using Cons.prems(1) by (simp add: unat_word_ariths)
  have b: "unat (i + 1) + length cs < 2 ^ 32" using Cons.prems(1) by (simp add: i)
  have ih: "stsc_counts (unat (mc_count c)) (Suc (unat (i + 1))) (length cs) (stsc_rows (i + 1) (Some (mc_count c)) e' cs) = map (unat \<circ> mc_count) cs" for e'
    using b by (intro Cons.IH) auto
  show ?case
  proof (cases "prev = Some (mc_count c)")
    case True
    then have "cur = unat (mc_count c)" using Cons.prems(2) by simp
    then show ?thesis using True ih stsc_counts_skip [OF stsc_rows_later [OF b, unfolded i]] unfolding stsc_rows_Cons by (simp add: i)
  next
    case False
    then show ?thesis unfolding stsc_rows_Cons using ih by (simp add: i)
  qed
qed simp

lemma stsc_entry_count:
  "snd (stsc_loop i prev e cs) = e + word_of_nat (length (stsc_rows i prev e cs)) - word_of_nat (length cs)"
proof (induction cs arbitrary: i prev e)
  case (Cons c cs)
  show ?case
  proof (cases "prev = Some (mc_count c)")
    case True
    then show ?thesis using Cons.IH [of "i + 1" "Some (mc_count c)" "e - 1"] unfolding stsc_rows_Cons by simp
  next
    case False
    then show ?thesis using Cons.IH [of "i + 1" "Some (mc_count c)" e] unfolding stsc_rows_Cons by (simp add: Let_def split_beta)
  qed
qed simp

lemma stsc_rows_length: "length (stsc_rows i prev e cs) \<le> length cs"
proof (induction cs arbitrary: i prev e)
  case (Cons c cs)
  then show ?case unfolding stsc_rows_Cons by (auto intro: le_SucI)
qed simp

lemma be_words_list: "be_words (ops_bytes (map (\<lambda>x. WBytes 4 (f x)) xs)) = map (\<lambda>x. unat (f x) mod 2 ^ 32) xs"
  by (induction xs) (simp_all add: be_word be_words_be)

lemma be_words_flags: "be_words (bw_val_bytes (Suc 0) (0 :: u64) @ bw_val_bytes 3 (0 :: u64) @ r) = 0 # be_words r"
proof -
  have "bw_val_bytes (Suc 0) (0 :: u64) @ bw_val_bytes 3 (0 :: u64) = be 4 0" by code_simp
  then have "bw_val_bytes (Suc 0) (0 :: u64) @ bw_val_bytes 3 (0 :: u64) @ r = be 4 0 @ r" by (simp only: append_assoc [symmetric])
  then show ?thesis by (simp only: be_words_be) simp
qed

fun w_tag :: "w_stmt \<Rightarrow> string" where
  "w_tag (WBox tag body) = tag"
| "w_tag _ = []"

fun w_inner :: "w_stmt \<Rightarrow> w_stmt list" where
  "w_inner (WBox tag body) = body"
| "w_inner _ = []"

fun w_body :: "string \<Rightarrow> w_stmt list \<Rightarrow> w_stmt list" where
  \<comment> \<open>the body of the first box of a type\<close>
  "w_body tag [] = []"
| "w_body tag (x # xs) = (if w_tag x = tag then w_inner x else w_body tag xs)"

lemma of_char_u8_inj: "(of_char c :: u8) = of_char d \<longleftrightarrow> c = d"
proof
  assume a: "(of_char c :: u8) = of_char d"
  have "unat (of_char x :: u8) = of_char x" for x :: char
    by (simp add: of_nat_of_char [symmetric, where ?'a = "8 word"] unat_of_nat of_char_mod_256 del: of_nat_of_char)
  then have "(of_char c :: nat) = of_char d" using a by metis
  then show "c = d" by simp
qed simp

lemma bs_inj [simp]: "bs s = bs t \<longleftrightarrow> s = t"
  unfolding bs_def by (rule inj_map_eq_map) (simp add: inj_def of_char_u8_inj)

lemma w_parts_body:
  "list_all is_box xs \<Longrightarrow> tag \<in> w_tag ` set xs \<Longrightarrow>
   \<exists>k'. map_of (w_parts k xs) (bs tag) = Some (w_list_bytes k' (w_body tag xs)) \<and>
        length (w_list_bytes k' (w_body tag xs)) \<le> length (w_list_bytes k xs)"
proof (induction xs arbitrary: k)
  case (Cons x xs)
  then obtain t body where x: "x = WBox t body" by (cases x) auto
  show ?case
  proof (cases "t = tag")
    case True
    then show ?thesis using Cons.prems by (intro exI [of _ "k + 8"]) (simp add: x length_box_bytes)
  next
    case False
    then show ?thesis using Cons.IH [of "k + length (w_bytes k x)"] Cons.prems by (auto simp: x) 
  qed
qed simp

lemma mp4_find_body:
  assumes "list_all is_box xs" and "tag \<in> w_tag ` set xs" and "w_body tag xs = ys" and "length (w_list_bytes k xs) < 2 ^ 32"
  obtains k' where "mp4_find (bs tag # tags) (w_list_bytes k xs) = mp4_find tags (w_list_bytes k' ys)"
    and "length (w_list_bytes k' ys) < 2 ^ 32"
  using w_parts_body [OF assms(1,2), of k] mp4_boxes_parts [OF assms(1,4)] assms(3,4) by fastforce

lemma mp4_tags [simp]:
  "is_box (WriteTrackHeaderBox env m t)" "w_tag (WriteTrackHeaderBox env m t) = ''tkhd''"
  "is_box (WriteEditBox m t)" "w_tag (WriteEditBox m t) = ''edts''"
  "is_box (WriteMediaBox env m t)" "w_tag (WriteMediaBox env m t) = ''mdia''"
  "is_box (WriteMediaHeaderBox env m t)" "w_tag (WriteMediaHeaderBox env m t) = ''mdhd''"
  "is_box (WriteHandlerReferenceBox t)" "w_tag (WriteHandlerReferenceBox t) = ''hdlr''"
  "is_box (WriteMediaInfoBox env m t)" "w_tag (WriteMediaInfoBox env m t) = ''minf''"
  "is_box WriteVideoMediaHeaderBox" "w_tag WriteVideoMediaHeaderBox = ''vmhd''"
  "is_box WriteSoundMediaHeaderBox" "w_tag WriteSoundMediaHeaderBox = ''smhd''"
  "is_box WriteDataInformationBox" "w_tag WriteDataInformationBox = ''dinf''"
  "is_box (WriteSampleTableBox env m t)" "w_tag (WriteSampleTableBox env m t) = ''stbl''"
  "is_box (WriteSampleDescriptionBox env m t)" "w_tag (WriteSampleDescriptionBox env m t) = ''stsd''"
  "is_box (WriteDecodingTimeToSampleBox m t)" "w_tag (WriteDecodingTimeToSampleBox m t) = ''stts''"
  "is_box (WriteCompositionTimeToSampleBox m)" "w_tag (WriteCompositionTimeToSampleBox m) = ''ctts''"
  "is_box (WriteSampleToChunkBox m t)" "w_tag (WriteSampleToChunkBox m t) = ''stsc''"
  "is_box (WriteSampleSizeBox m t)" "w_tag (WriteSampleSizeBox m t) = ''stsz''"
  "is_box (WriteChunkOffsetBox m t)" "w_tag (WriteChunkOffsetBox m t) = ''stco''"
  "is_box (WriteTrackBox env m t)" "w_tag (WriteTrackBox env m t) = ''trak''"
  "is_box (WriteMovieHeaderBox env m)" "w_tag (WriteMovieHeaderBox env m) = ''mvhd''"
  "is_box (WriteMovieBox env m)" "w_tag (WriteMovieBox env m) = ''moov''"
  "is_box (WriteFileTypeBox m)" "w_tag (WriteFileTypeBox m) = ''ftyp''"
  "is_box WriteFreeBox" "w_tag WriteFreeBox = ''free''"
  by (simp_all add: mp4_boxes_defs Let_def split_beta)

lemma mp4_inner:
  "w_inner (WriteTrackBox env m t) =
     [WriteTrackHeaderBox env m t] @ (if m4_segment m then [] else [WriteEditBox m t]) @ [WriteMediaBox env m t]"
  "w_inner (WriteMediaBox env m t) = [WriteMediaHeaderBox env m t, WriteHandlerReferenceBox t, WriteMediaInfoBox env m t]"
  "w_inner (WriteMediaInfoBox env m t) =
     (if t = kVideoPayload then [WriteVideoMediaHeaderBox] else if t = kAudioPayload then [WriteSoundMediaHeaderBox] else []) @
     [WriteDataInformationBox, WriteSampleTableBox env m t]"
  "w_inner (WriteSampleTableBox env m t) =
     [WriteSampleDescriptionBox env m t, WriteDecodingTimeToSampleBox m t] @
     (if t = kVideoPayload \<and> \<not> m4_segment m then [WriteCompositionTimeToSampleBox m] else []) @
     [WriteSampleToChunkBox m t, WriteSampleSizeBox m t, WriteChunkOffsetBox m t]"
  by (simp_all add: WriteTrackBox_def WriteMediaBox_def WriteMediaInfoBox_def WriteSampleTableBox_def)

definition w_at :: "string \<Rightarrow> mp4_env \<Rightarrow> mp4_muxer \<Rightarrow> u8 \<Rightarrow> w_stmt list" where
  "w_at tag env m t = w_body tag [WriteSampleToChunkBox m t, WriteSampleSizeBox m t, WriteChunkOffsetBox m t]"

lemma table_body:
  assumes "length (w_list_bytes k (w_inner (WriteTrackBox env m t))) < 2 ^ 32"
    and "tag \<in> {''stsz'', ''stco'', ''stsc''}"
  shows "\<exists>k'. mp4_table tag (w_list_bytes k (w_inner (WriteTrackBox env m t))) = Some (be_words (w_list_bytes k' (w_at tag env m t)))"
proof -
  define x0 x1 x2 x3 where "x0 = w_inner (WriteTrackBox env m t)" and "x1 = w_inner (WriteMediaBox env m t)"
    and "x2 = w_inner (WriteMediaInfoBox env m t)" and "x3 = w_inner (WriteSampleTableBox env m t)"
  note x = x0_def x1_def x2_def x3_def mp4_inner
  have i: "list_all is_box x0" "''mdia'' \<in> w_tag ` set x0" "list_all is_box x1" "''minf'' \<in> w_tag ` set x1"
    "list_all is_box x2" "''stbl'' \<in> w_tag ` set x2" "list_all is_box x3" "tag \<in> w_tag ` set x3"
    using assms(2) by (auto simp: x)
  have b: "w_body ''mdia'' x0 = x1" "w_body ''minf'' x1 = x2" "w_body ''stbl'' x2 = x3" "w_body tag x3 = w_at tag env m t"
    using assms(2) by (auto simp: x w_at_def)
  obtain k1 where 1: "mp4_find [bs ''mdia'', bs ''minf'', bs ''stbl'', bs tag] (w_list_bytes k x0) = mp4_find [bs ''minf'', bs ''stbl'', bs tag] (w_list_bytes k1 x1)"
    "length (w_list_bytes k1 x1) < 2 ^ 32"
    by (rule mp4_find_body [OF i(1,2) b(1) assms(1) [folded x0_def]]) (rule that)
  obtain k2 where 2: "mp4_find [bs ''minf'', bs ''stbl'', bs tag] (w_list_bytes k1 x1) = mp4_find [bs ''stbl'', bs tag] (w_list_bytes k2 x2)"
    "length (w_list_bytes k2 x2) < 2 ^ 32"
    by (rule mp4_find_body [OF i(3,4) b(2) 1(2)]) (rule that)
  obtain k3 where 3: "mp4_find [bs ''stbl'', bs tag] (w_list_bytes k2 x2) = mp4_find [bs tag] (w_list_bytes k3 x3)"
    "length (w_list_bytes k3 x3) < 2 ^ 32"
    by (rule mp4_find_body [OF i(5,6) b(3) 2(2)]) (rule that)
  obtain k4 where 4: "mp4_find [bs tag] (w_list_bytes k3 x3) = mp4_find [] (w_list_bytes k4 (w_at tag env m t))"
    by (rule mp4_find_body [OF i(7,8) b(4) 3(2)]) (rule that)
  have "mp4_find [bs ''mdia'', bs ''minf'', bs ''stbl'', bs tag] (w_list_bytes k x0) = Some (w_list_bytes k4 (w_at tag env m t))"
    unfolding 1(1) 2(1) 3(1) 4(1) by (simp only: mp4_find.simps)
  then show ?thesis unfolding mp4_table_def x0_def [symmetric] by auto
qed

section \<open>The tables of a track\<close>

definition mp4_source :: "u8 \<Rightarrow> payload \<Rightarrow> bytes option" where
  "mp4_source t p = (if t = kVideoPayload then pl_data p else pl_raw_data p)"

definition mp4_len :: "u8 \<Rightarrow> payload \<Rightarrow> u64" where
  "mp4_len t p = (if t = kVideoPayload then pl_len p else pl_raw_len p)"

definition mp4_data :: "u8 \<Rightarrow> payload \<Rightarrow> bytes" where
  \<comment> \<open>the bytes of a sample\<close>
  "mp4_data t p = take (unat (mp4_len t p)) (case mp4_source t p of None \<Rightarrow> [] | Some d \<Rightarrow> d)"

definition mp4_whole :: "u8 \<Rightarrow> payload \<Rightarrow> bool" where
  \<comment> \<open>the block of the payload has the bytes\<close>
  "mp4_whole t p \<longleftrightarrow> (case mp4_source t p of None \<Rightarrow> False | Some d \<Rightarrow> unat (mp4_len t p) \<le> length d)"

lemma mp4_data_length: "mp4_whole t p \<Longrightarrow> length (mp4_data t p) = unat (mp4_len t p)"
  by (auto simp: mp4_whole_def mp4_data_def split: option.splits)

lemma be_words_zero: "be_words (0 # be 3 0 @ r) = 0 # be_words r"
proof -
  have "(0 :: u8) # be 3 0 = be 4 0" by code_simp
  then have "(0 :: u8) # be 3 0 @ r = be 4 0 @ r" by (metis append_Cons)
  then show ?thesis by (simp only: be_words_be) simp
qed

lemma stsz_words:
  assumes "list_all (mp4_whole t) (m4_samples m t)" and "list_all (\<lambda>p. length (mp4_data t p) < 2 ^ 32) (m4_samples m t)"
    and "length (m4_samples m t) < 2 ^ 32"
  shows "be_words (w_list_bytes k (w_at ''stsz'' env m t)) =
    0 # 0 # length (m4_samples m t) # map (\<lambda>p. length (mp4_data t p)) (m4_samples m t)"
proof -
  have "map (\<lambda>x. unat (mp4_len t x) mod 2 ^ 32) (m4_samples m t) = map (\<lambda>p. length (mp4_data t p)) (m4_samples m t)"
    using assms(1,2) by (auto simp: list_all_iff mp4_data_length)
  moreover have "unat (word_of_nat (length (m4_samples m t)) :: u32) = length (m4_samples m t)"
    using assms(3) by (simp add: unat_of_nat)
  ultimately show ?thesis
    by (simp add: w_at_def WriteSampleSizeBox_def Let_def be_words_zero be_words_be be_word be_words_list word32_bytes
        flip: mp4_len_def)
qed

lemma stco_words:
  assumes "length (m4_chunk_offsets m t) < 2 ^ 32"
  shows "be_words (w_list_bytes k (w_at ''stco'' env m t)) =
    0 # length (m4_chunk_offsets m t) # map (\<lambda>x. unat (x + m4_media_offset m)) (m4_chunk_offsets m t)"
proof -
  have "unat (word_of_nat (length (m4_chunk_offsets m t)) :: u32) = length (m4_chunk_offsets m t)"
    using assms by (simp add: unat_of_nat)
  then show ?thesis
    by (simp add: w_at_def WriteChunkOffsetBox_def Let_def be_words_zero be_words_be be_word be_words_list word32_bytes)
qed

lemma stsc_words:
  assumes "length (m4_chunk m) < 2 ^ 32" and "cs = filter (\<lambda>c. mc_type c = t) (m4_chunk m)"
  shows "\<exists>ws. be_words (w_list_bytes k (w_at ''stsc'' env m t)) = 0 # length (stsc_entries ws) # ws \<and>
    stsc_counts 0 1 (length cs) (stsc_entries ws) = map (unat \<circ> mc_count) cs"
proof -
  have c: "length cs < 2 ^ 32" unfolding assms(2) by (rule le_less_trans [OF length_filter_le assms(1)])
  define es where "es = stsc_rows 0 None (word_of_nat (length cs)) cs"
  have n: "snd (stsc_loop 0 None (word_of_nat (length cs)) cs) = word_of_nat (length es)"
    using stsc_entry_count [of 0 None "word_of_nat (length cs)" cs] by (simp add: es_def)
  have le: "length es < 2 ^ 32" using stsc_rows_length [of 0 None "word_of_nat (length cs)" cs] c by (simp add: es_def)
  then have l: "unat (word_of_nat (length es) :: u32) = length es" by (simp add: unat_of_nat)
  have k: "stsc_counts 0 1 (length cs) es = map (unat \<circ> mc_count) cs"
    using stsc_rows_counts [of 0 cs None 0 "word_of_nat (length cs)"] c by (simp add: es_def)
  show ?thesis
    by (rule exI [of _ "be_words (ops_bytes (fst (stsc_loop 0 None (word_of_nat (length cs)) cs)))"])
      (use k l n le in \<open>simp add: w_at_def WriteSampleToChunkBox_def Let_def split_beta be_words_zero be_words_be be_word assms(2) [symmetric] flip: es_def\<close>)
qed

lemma g_offs_shift: "g_offs (j + k) g = map (\<lambda>(t, n). (t, n + k)) (g_offs j g)"
proof (induction g arbitrary: j)
  case (Cons x g)
  obtain t ds where x: "x = (t, ds)" by (cases x)
  have "j + k + length (concat ds) = j + length (concat ds) + k" by simp
  then show ?case using Cons.IH [of "j + length (concat ds)"] by (simp only: x g_offs.simps list.map split_conv)
qed simp

lemma g_counts:
  "list_all2 g_chunk cs g \<Longrightarrow> map (unat \<circ> mc_count) (filter (\<lambda>c. mc_type c = t) cs) = map (length \<circ> snd) (filter (\<lambda>x. fst x = t) g)"
  by (induction cs g rule: list_all2_induct) (auto simp: g_chunk_def)

lemma g_offs_length: "length (filter (\<lambda>x. fst x = t) (g_offs k g)) = length (filter (\<lambda>x. fst x = t) g)"
proof (induction g arbitrary: k)
  case (Cons x g)
  then show ?case by (cases x) simp
qed simp

lemma track_samples:
  assumes chunks: "list_all2 g_chunk (m4_chunk m) g" "length (m4_chunk m) < 2 ^ 31"
    and offs: "map unat (m4_chunk_offsets m t) = g_offs_of t g"
    and media: "unat (m4_media_offset m) = length pre" "length pre + length (g_bytes g) < 2 ^ 31"
    and samples: "map (mp4_data t) (m4_samples m t) = g_samples t g" "list_all (mp4_whole t) (m4_samples m t)" "length (m4_samples m t) < 2 ^ 32"
    and fl: "file = pre @ g_bytes g @ post"
    and len: "length (w_list_bytes k (w_inner (WriteTrackBox env m t))) < 2 ^ 32"
  shows "mp4_track_samples file (w_list_bytes k (w_inner (WriteTrackBox env m t))) = Some (g_samples t g)"
proof -
  define cs where "cs = filter (\<lambda>c. mc_type c = t) (m4_chunk m)"
  have counts: "map (unat \<circ> mc_count) cs = map (length \<circ> snd) (filter (\<lambda>x. fst x = t) g)"
    unfolding cs_def by (rule g_counts [OF chunks(1)])
  have no: "length (m4_chunk_offsets m t) = length cs"
    using arg_cong [OF offs, of length] arg_cong [OF counts, of length] by (simp add: g_offs_of_def g_offs_length)
  have "length cs < 2 ^ 31" unfolding cs_def by (rule le_less_trans [OF length_filter_le chunks(2)])
  have off_le: "n \<le> length (g_bytes g)" if "n \<in> set (g_offs_of t g)" for n
  proof -
    have "n \<in> snd ` set (g_offs k h) \<Longrightarrow> n \<le> k + length (g_bytes h)" for k n h
    proof (induction h arbitrary: k)
      case (Cons x h)
      then show ?case by (cases x) force
    qed simp
    from this [of n 0 g] show ?thesis using that by (auto simp: g_offs_of_def)
  qed
  have "unat (x + m4_media_offset m) = unat x + length pre" if "x \<in> set (m4_chunk_offsets m t)" for x
  proof -
    have "unat x \<in> set (g_offs_of t g)" using that by (simp flip: offs)
    then have "unat x + unat (m4_media_offset m) < 2 ^ 32" using off_le media by force
    then show ?thesis by (simp add: unat_word_ariths media(1))
  qed
  then have "map (\<lambda>x. unat (x + m4_media_offset m)) (m4_chunk_offsets m t) = map (\<lambda>n. n + length pre) (g_offs_of t g)"
    unfolding offs [symmetric] by simp
  also have "\<dots> = map snd (filter (\<lambda>x. fst x = t) (g_offs (length pre) g))"
    using g_offs_shift [of 0 "length pre" g] by (simp add: g_offs_of_def filter_map comp_def split_beta)
  finally have os: "map (\<lambda>x. unat (x + m4_media_offset m)) (m4_chunk_offsets m t) = map snd (filter (\<lambda>x. fst x = t) (g_offs (length pre) g))" .
  have sl: "map (\<lambda>p. length (mp4_data t p)) (m4_samples m t) = map length (g_samples t g)"
    by (simp flip: samples(1))
  have "length (mp4_data t p) < 2 ^ 32" if "p \<in> set (m4_samples m t)" for p
  proof -
    have "mp4_data t p \<in> set (g_samples t g)" using that by (simp flip: samples(1))
    then have "mp4_data t p \<in> set (concat (map snd g))" by (force simp: g_samples_def)
    then have "length (mp4_data t p) \<in> set (map length (concat (map snd g)))" unfolding set_map by (rule imageI)
    then have "length (mp4_data t p) \<le> length (g_bytes g)"
      unfolding g_bytes_def length_concat by (intro member_le_sum_list) auto
    then show ?thesis using media(2) by simp
  qed
  then have small: "list_all (\<lambda>p. length (mp4_data t p) < 2 ^ 32) (m4_samples m t)" by (simp add: list_all_iff)
  obtain k1 where t1: "mp4_table ''stsz'' (w_list_bytes k (w_inner (WriteTrackBox env m t))) = Some (be_words (w_list_bytes k1 (w_at ''stsz'' env m t)))"
    using table_body [OF len, of "''stsz''"] by auto
  obtain k2 where t2: "mp4_table ''stco'' (w_list_bytes k (w_inner (WriteTrackBox env m t))) = Some (be_words (w_list_bytes k2 (w_at ''stco'' env m t)))"
    using table_body [OF len, of "''stco''"] by auto
  obtain k3 where t3: "mp4_table ''stsc'' (w_list_bytes k (w_inner (WriteTrackBox env m t))) = Some (be_words (w_list_bytes k3 (w_at ''stsc'' env m t)))"
    using table_body [OF len, of "''stsc''"] by auto
  obtain ws where ws: "be_words (w_list_bytes k3 (w_at ''stsc'' env m t)) = 0 # length (stsc_entries ws) # ws"
    "stsc_counts 0 1 (length cs) (stsc_entries ws) = map (length \<circ> snd) (filter (\<lambda>x. fst x = t) g)"
    using stsc_words [of m cs t k3 env] chunks(2) counts by (auto simp: cs_def)
  have "cut_chunks file (zip (map snd (filter (\<lambda>x. fst x = t) (g_offs (length pre) g))) (map (length \<circ> snd) (filter (\<lambda>x. fst x = t) g)))
      (map length (g_samples t g)) = g_samples t g"
    by (rule cut_chunks_exact [OF fl])
  moreover have "length (g_samples t g) = length (m4_samples m t)" using arg_cong [OF samples(1), of length] by simp
  moreover have "length (filter (\<lambda>x. fst x = t) (g_offs (length pre) g)) = length cs"
    using arg_cong [OF counts, of length] by (simp add: g_offs_length)
  ultimately show ?thesis
    using \<open>length cs < 2 ^ 31\<close> ws(2)
    by (simp add: mp4_track_samples_def t1 t2 t3 ws(1) stsz_words [OF samples(2) small samples(3)] stco_words no os sl)
qed

section \<open>Sequences of frames\<close>

datatype mp4_event = M4Audio payload | M4Video payload | M4VideoHeader bytes | M4AudioHeader bytes

fun mp4_step :: "mp4_env \<Rightarrow> mp4_event \<Rightarrow> mp4_muxer \<Rightarrow> bytes option \<times> mp4_muxer" where
  "mp4_step env (M4Audio p) m = (None, mp4_on_audio p m)"
| "mp4_step env (M4Video p) m = mp4_on_video env p m"
| "mp4_step env (M4VideoHeader h) m = (None, mp4_on_video_header h m)"
| "mp4_step env (M4AudioHeader h) m = (None, mp4_on_audio_header h m)"

definition mp4_run :: "mp4_env \<Rightarrow> mp4_event list \<Rightarrow> mp4_muxer \<Rightarrow> mp4_muxer" where
  "mp4_run env es m = fold (\<lambda>e m. snd (mp4_step env e m)) es m"

fun mp4_videos :: "mp4_event list \<Rightarrow> payload list" where
  "mp4_videos [] = []"
| "mp4_videos (M4Video p # es) = p # mp4_videos es"
| "mp4_videos (_ # es) = mp4_videos es"

fun mp4_audios :: "mp4_event list \<Rightarrow> payload list" where
  "mp4_audios [] = []"
| "mp4_audios (M4Audio p # es) = p # mp4_audios es"
| "mp4_audios (_ # es) = mp4_audios es"

fun mp4_quiet :: "mp4_event \<Rightarrow> bool" where
  \<comment> \<open>no key frame, and payloads whose blocks have their bytes\<close>
  "mp4_quiet (M4Video p) \<longleftrightarrow> \<not> pl_is_iframe p \<and> mp4_whole kVideoPayload p"
| "mp4_quiet (M4Audio p) \<longleftrightarrow> mp4_whole kAudioPayload p"
| "mp4_quiet _ \<longleftrightarrow> True"

definition mp4_bytes :: "payload list \<Rightarrow> payload list \<Rightarrow> nat" where
  "mp4_bytes vs as = sum_list (map (length \<circ> mp4_data kVideoPayload) vs) + sum_list (map (length \<circ> mp4_data kAudioPayload) as)"

definition mp4_inv :: "mp4_muxer \<Rightarrow> payload list \<Rightarrow> payload list \<Rightarrow> mp4_groups \<Rightarrow> bool" where
  "mp4_inv m vs as g \<longleftrightarrow>
     m4_plan m g \<and> g \<noteq> [] \<and> \<not> m4_fault m \<and> \<not> m4_segment m \<and> m4_video_samples m = vs \<and> m4_audio_samples m = as \<and>
     g_samples kVideoPayload g = map (mp4_data kVideoPayload) vs \<and> g_samples kAudioPayload g = map (mp4_data kAudioPayload) as \<and>
     length (g_bytes g) = mp4_bytes vs as \<and> length (concat (map snd g)) = length vs + length as"

lemma CalChunk_fields [simp]:
  "m4_video_samples (CalChunk dts len t m) = m4_video_samples m" "m4_audio_samples (CalChunk dts len t m) = m4_audio_samples m"
  "m4_segment (CalChunk dts len t m) = m4_segment m" "m4_fault (CalChunk dts len t m) = m4_fault m" "m4_mdat (CalChunk dts len t m) = m4_mdat m"
  by (simp_all add: CalChunk_def mp4_set_back_def mp4_push_offset_def Let_def)

lemma CalChunk_samples:
  "CalChunk dts len t (m\<lparr>m4_audio_samples := as, m4_mdat := d\<rparr>) = (CalChunk dts len t (m\<lparr>m4_mdat := d\<rparr>))\<lparr>m4_audio_samples := as\<rparr>"
  by (simp add: CalChunk_def mp4_set_back_def mp4_push_offset_def Let_def)

lemma m4_plan_samples [simp]:
  "m4_plan (m\<lparr>m4_video_samples := vs\<rparr>) g = m4_plan m g" "m4_plan (m\<lparr>m4_audio_samples := as\<rparr>) g = m4_plan m g"
  "m4_plan (m\<lparr>m4_video_header := h\<rparr>) g = m4_plan m g" "m4_plan (m\<lparr>m4_audio_header := h\<rparr>) g = m4_plan m g"
  by (simp_all add: m4_plan_def)

lemma mp4_append_whole:
  assumes "mp4_whole t p"
  shows "mp4_append (mp4_source t p) (mp4_len t p) m = m\<lparr>m4_mdat := m4_mdat m @ mp4_data t p\<rparr>"
  using assms by (auto simp: mp4_whole_def mp4_append_def mp4_data_def split: option.splits)

lemma mp4_frame_inv:
  assumes i: "m4_plan m g" "\<not> m4_fault m" and w: "mp4_whole t p" and t: "t = kVideoPayload \<or> t = kAudioPayload"
    and size: "length (g_bytes g) + length (mp4_data t p) < 2 ^ 31" "length (concat (map snd g)) < 2 ^ 31"
  defines "m' \<equiv> CalChunk (pl_dts p) (mp4_len t p) t (mp4_append (mp4_source t p) (mp4_len t p) m)"
  shows "\<exists>g'. m4_plan m' g' \<and> g' \<noteq> [] \<and> \<not> m4_fault m' \<and>
    (\<forall>u. g_samples u g' = g_samples u g @ (if u = t then [mp4_data t p] else [])) \<and>
    length (g_bytes g') = length (g_bytes g) + length (mp4_data t p) \<and>
    length (concat (map snd g')) = length (concat (map snd g)) + 1"
proof -
  have e: "m' = CalChunk (pl_dts p) (mp4_len t p) t (m\<lparr>m4_mdat := m4_mdat m @ mp4_data t p\<rparr>)"
    by (simp add: m'_def mp4_append_whole [OF w])
  from plan_calchunk [OF i(1) mp4_data_length [OF w, symmetric] t size, of "pl_dts p"]
  obtain g' where g': "m4_plan m' g'" "\<forall>u. g_samples u g' = g_samples u g @ (if u = t then [mp4_data t p] else [])"
    "length (concat (map snd g')) = length (concat (map snd g)) + 1" "g' \<noteq> []"
    by (auto simp: e)
  have "m4_mdat m' = m4_mdat m @ mp4_data t p" "\<not> m4_fault m'" using i by (simp_all add: e)
  moreover have "m4_mdat m' = g_bytes g'" "m4_mdat m = g_bytes g" using g'(1) i(1) by (simp_all add: m4_plan_def)
  ultimately have "length (g_bytes g') = length (g_bytes g) + length (mp4_data t p)" by simp
  then show ?thesis using g' \<open>\<not> m4_fault m'\<close> by blast
qed

lemma kinds: "kVideoPayload \<noteq> kAudioPayload" "kAudioPayload \<noteq> kVideoPayload"
  by (simp_all add: kVideoPayload_def kAudioPayload_def)

lemma mp4_step_inv:
  assumes "mp4_inv m vs as g" and "mp4_quiet e"
    and "mp4_bytes (vs @ mp4_videos [e]) (as @ mp4_audios [e]) < 2 ^ 31" and "length vs + length as < 2 ^ 31"
  shows "\<exists>g'. mp4_inv (snd (mp4_step env e m)) (vs @ mp4_videos [e]) (as @ mp4_audios [e]) g'"
proof (cases e)
  case (M4Audio p)
  let ?m = "m\<lparr>m4_audio_samples := as @ [p]\<rparr>"
  have "m4_plan ?m g" "\<not> m4_fault ?m" using assms(1) by (simp_all add: mp4_inv_def)
  moreover have "length (g_bytes g) + length (mp4_data kAudioPayload p) < 2 ^ 31" "length (concat (map snd g)) < 2 ^ 31"
    using assms M4Audio by (simp_all add: mp4_inv_def mp4_bytes_def)
  ultimately obtain g' where g': "m4_plan (mp4_on_audio p m) g'" "g' \<noteq> []" "\<not> m4_fault (mp4_on_audio p m)"
    "\<forall>u. g_samples u g' = g_samples u g @ (if u = kAudioPayload then [mp4_data kAudioPayload p] else [])"
    "length (g_bytes g') = length (g_bytes g) + length (mp4_data kAudioPayload p)"
    "length (concat (map snd g')) = length (concat (map snd g)) + 1"
    using mp4_frame_inv [of ?m g kAudioPayload p] assms M4Audio
    by (auto simp: mp4_on_audio_def mp4_source_def mp4_len_def kinds mp4_inv_def)
  moreover have "m4_video_samples (mp4_on_audio p m) = vs" "m4_audio_samples (mp4_on_audio p m) = as @ [p]" "\<not> m4_segment (mp4_on_audio p m)"
    using assms(1) by (auto simp: mp4_on_audio_def mp4_inv_def mp4_append_def split: option.splits)
  ultimately show ?thesis
    using assms(1) M4Audio by (intro exI [of _ g']) (simp add: mp4_inv_def mp4_bytes_def kinds)
next
  case (M4Video p)
  let ?m' = "CalChunk (pl_dts p) (pl_len p) kVideoPayload (mp4_append (pl_data p) (pl_len p) m)"
  have f: "\<not> pl_is_iframe p" "mp4_whole kVideoPayload p" using assms(2) M4Video by simp_all
  have s: "snd (mp4_step env e m) = ?m'\<lparr>m4_video_samples := m4_video_samples ?m' @ [p]\<rparr>"
    using f M4Video by (simp add: mp4_on_video_def)
  have "m4_plan m g" "\<not> m4_fault m" using assms(1) by (simp_all add: mp4_inv_def)
  moreover have "length (g_bytes g) + length (mp4_data kVideoPayload p) < 2 ^ 31" "length (concat (map snd g)) < 2 ^ 31"
    using assms M4Video by (simp_all add: mp4_inv_def mp4_bytes_def)
  ultimately obtain g' where g': "m4_plan ?m' g'" "g' \<noteq> []" "\<not> m4_fault ?m'"
    "\<forall>u. g_samples u g' = g_samples u g @ (if u = kVideoPayload then [mp4_data kVideoPayload p] else [])"
    "length (g_bytes g') = length (g_bytes g) + length (mp4_data kVideoPayload p)"
    "length (concat (map snd g')) = length (concat (map snd g)) + 1"
    using mp4_frame_inv [of m g kVideoPayload p] f by (auto simp: mp4_source_def mp4_len_def)
  moreover have "m4_video_samples ?m' = vs" "m4_audio_samples ?m' = as" "\<not> m4_segment ?m'"
    using assms(1) by (auto simp: mp4_inv_def mp4_append_def split: option.splits)
  ultimately show ?thesis
    using assms(1) unfolding s by (intro exI [of _ g']) (simp add: mp4_inv_def mp4_bytes_def kinds M4Video)
next
  case (M4VideoHeader h)
  then show ?thesis using assms(1) by (intro exI [of _ g]) (simp add: mp4_inv_def mp4_on_video_header_def)
next
  case (M4AudioHeader h)
  then show ?thesis using assms(1) by (intro exI [of _ g]) (simp add: mp4_inv_def mp4_on_audio_header_def)
qed

lemma mp4_file_split:
  assumes "\<not> m4_segment m"
  obtains pre k where "length pre = 48" and "w_list_bytes 0 (mp4_file env m) = pre @ m4_mdat m @ w_bytes k (WriteMovieBox env m)"
proof
  let ?p = "w_list_bytes 0 [WriteFileTypeBox m, WriteFreeBox]"
  show "length (?p @ be 4 (8 + length (m4_mdat m)) @ bs ''mdat'') = 48"
    using assms by (simp add: WriteFileTypeBox_def WriteFreeBox_def length_box_bytes)
  show "w_list_bytes 0 (mp4_file env m) = (?p @ be 4 (8 + length (m4_mdat m)) @ bs ''mdat'') @ m4_mdat m @
      w_bytes (length (w_list_bytes 0 [WriteFileTypeBox m, WriteFreeBox, WBox ''mdat'' [WOps [WData (m4_mdat m)]]])) (WriteMovieBox env m)"
    by (simp add: mp4_file_def box_bytes_def add.assoc)
qed

lemma mp4_file_tracks:
  assumes "length (w_list_bytes 0 (mp4_file env m)) < 2 ^ 32" and "\<not> m4_segment m"
  obtains k1 k2 where "mp4_tracks (w_list_bytes 0 (mp4_file env m)) =
      Some [w_list_bytes k1 (w_inner (WriteTrackBox env m kVideoPayload)), w_list_bytes k2 (w_inner (WriteTrackBox env m kAudioPayload))]"
    and "length (w_list_bytes k1 (w_inner (WriteTrackBox env m kVideoPayload))) < 2 ^ 32"
    and "length (w_list_bytes k2 (w_inner (WriteTrackBox env m kAudioPayload))) < 2 ^ 32"
proof -
  define ys where "ys = [WriteMovieHeaderBox env m, WriteTrackBox env m kVideoPayload, WriteTrackBox env m kAudioPayload]"
  have i: "list_all is_box (mp4_file env m)" "''moov'' \<in> w_tag ` set (mp4_file env m)" "w_body ''moov'' (mp4_file env m) = ys"
    by (simp_all add: mp4_file_def ys_def) (simp add: WriteMovieBox_def)
  obtain k where k: "mp4_find [bs ''moov''] (w_list_bytes 0 (mp4_file env m)) = mp4_find [] (w_list_bytes k ys)" "length (w_list_bytes k ys) < 2 ^ 32"
    by (rule mp4_find_body [OF i assms(1)]) (rule that)
  have b: "mp4_boxes (w_list_bytes k ys) = Some (w_parts k ys)"
    by (rule mp4_boxes_parts) (use k in \<open>simp_all add: ys_def\<close>)
  obtain h v a where ha: "WriteMovieHeaderBox env m = WBox ''mvhd'' h" "WriteTrackBox env m kVideoPayload = WBox ''trak'' v" "WriteTrackBox env m kAudioPayload = WBox ''trak'' a"
    by (simp add: WriteMovieHeaderBox_def WriteTrackBox_def Let_def)
  obtain k1 k2 where p: "w_parts k ys = [(bs ''mvhd'', w_list_bytes (k + 8) h), (bs ''trak'', w_list_bytes k1 v), (bs ''trak'', w_list_bytes k2 a)]"
    and l: "length (w_list_bytes k1 v) < 2 ^ 32" "length (w_list_bytes k2 a) < 2 ^ 32"
    using k(2) by (simp add: ys_def ha length_box_bytes)
  show ?thesis
    by (rule that [of k1 k2]) (use b p l k(1) in \<open>simp_all add: mp4_tracks_def ha del: mp4_find.simps(2)\<close>)
qed

lemma g_count_bound: "list_all2 g_chunk cs g \<Longrightarrow> length cs \<le> length (concat (map snd g))"
proof (induction cs g rule: list_all2_induct)
  case (Cons c cs x g)
  then have "snd x \<noteq> []" by (simp add: g_chunk_def)
  then show ?case using Cons by (cases "snd x") simp_all
qed simp

lemma mp4_flush_read:
  assumes i: "mp4_inv m vs as g" "list_all (mp4_whole kVideoPayload) vs" "list_all (mp4_whole kAudioPayload) as"
    and size: "mp4_bytes vs as < 2 ^ 28" "length vs + length as \<le> 100000" "length (m4_video_header m) \<le> 1000000"
    and ne: "vs \<noteq> []"
  shows "\<exists>file m'. mp4_flush env (mp4_push_offset m) = (Some file, m') \<and> \<not> m4_fault m' \<and>
     mp4_read file = Some [map (mp4_data kVideoPayload) vs, map (mp4_data kAudioPayload) as]"
proof -
  have p: "m4_plan m g" "g \<noteq> []" "\<not> m4_fault m" "\<not> m4_segment m" "m4_video_samples m = vs" "m4_audio_samples m = as"
    "g_samples kVideoPayload g = map (mp4_data kVideoPayload) vs" "g_samples kAudioPayload g = map (mp4_data kAudioPayload) as"
    "length (g_bytes g) = mp4_bytes vs as"
    using i(1) by (simp_all add: mp4_inv_def)
  define M where "M = (mp4_push_offset m)\<lparr>m4_media_offset := 48\<rparr>"
  have M: "m4_chunk M = m4_chunk m" "m4_mdat M = m4_mdat m" "m4_video_samples M = vs" "m4_audio_samples M = as" "\<not> m4_segment M"
    "\<not> m4_fault M" "m4_media_offset M = 48" "m4_video_header M = m4_video_header m"
    using p by (simp_all add: M_def mp4_push_offset_def)
  have chunks: "list_all2 g_chunk (m4_chunk M) g" "m4_mdat M = g_bytes g" using p(1) M by (simp_all add: m4_plan_def)
  have nc: "length (m4_chunk m) \<le> 100000"
    using g_count_bound [OF chunks(1)] i(1) size(2) M(1) by (simp add: mp4_inv_def)
  have offs: "map unat (m4_chunk_offsets M kVideoPayload) = g_offs_of kVideoPayload g" "map unat (m4_chunk_offsets M kAudioPayload) = g_offs_of kAudioPayload g"
    using plan_close [OF p(1,2)] by (simp_all add: M_def m4_chunk_offsets_def kinds)
  have no: "length (m4_chunk_offsets M t) \<le> length (m4_chunk m)" if "t = kVideoPayload \<or> t = kAudioPayload" for t
  proof -
    have "length (m4_chunk_offsets M t) = length (g_offs_of t g)" using that offs by (metis length_map)
    also have "\<dots> \<le> length g" by (simp add: g_offs_of_def g_offs_length)
    also have "\<dots> = length (m4_chunk m)" using chunks M by (simp add: list_all2_lengthD)
    finally show ?thesis .
  qed
  have moov: "w_size (WriteMovieBox env M) \<le> 10000000"
    using moov_size [of env M] M size nc no [of kVideoPayload] no [of kAudioPayload] by (simp add: m4_chunk_offsets_def kinds)
  have fs: "mp4_flush env (mp4_push_offset m) = (Some (w_list_bytes 0 (mp4_file env M)), M)"
    unfolding M_def by (rule mp4_flush_file) (use M moov ne in \<open>simp_all add: M_def\<close>)
  define fl where "fl = w_list_bytes 0 (mp4_file env M)"
  obtain pre k where pk: "length pre = 48" "fl = pre @ g_bytes g @ w_bytes k (WriteMovieBox env M)"
    using mp4_file_split [OF M(5), of env] chunks(2) unfolding fl_def by metis
  have len: "length fl < 2 ^ 32" 
    using pk p(9) size(1) moov by (simp add: length_w_bytes [OF moov_ok moov_plain])
  obtain k1 k2 where tr: "mp4_tracks fl = Some [w_list_bytes k1 (w_inner (WriteTrackBox env M kVideoPayload)), w_list_bytes k2 (w_inner (WriteTrackBox env M kAudioPayload))]"
    "length (w_list_bytes k1 (w_inner (WriteTrackBox env M kVideoPayload))) < 2 ^ 32"
    "length (w_list_bytes k2 (w_inner (WriteTrackBox env M kAudioPayload))) < 2 ^ 32"
    by (rule mp4_file_tracks [OF len [unfolded fl_def] M(5), folded fl_def]) (rule that)
  have c: "length (m4_chunk M) < 2 ^ 31" "unat (m4_media_offset M) = length pre" "length pre + length (g_bytes g) < 2 ^ 31"
    using M size nc p(9) pk(1) by simp_all
  have v: "mp4_track_samples fl (w_list_bytes k1 (w_inner (WriteTrackBox env M kVideoPayload))) = Some (g_samples kVideoPayload g)"
    by (rule track_samples [OF chunks(1) c(1) offs(1) c(2,3) _ _ _ pk(2) tr(2)])
      (use M p i size in \<open>simp_all add: m4_samples_def\<close>)
  have a: "mp4_track_samples fl (w_list_bytes k2 (w_inner (WriteTrackBox env M kAudioPayload))) = Some (g_samples kAudioPayload g)"
    by (rule track_samples [OF chunks(1) c(1) offs(2) c(2,3) _ _ _ pk(2) tr(3)])
      (use M p i size in \<open>simp_all add: m4_samples_def kinds\<close>)
  have "mp4_read fl = Some [map (mp4_data kVideoPayload) vs, map (mp4_data kAudioPayload) as]"
    by (simp add: mp4_read_def tr(1) v a p)
  then show ?thesis using fs M(6) by (auto simp: fl_def)
qed

lemma mp4_videos_append: "mp4_videos (es @ fs) = mp4_videos es @ mp4_videos fs"
  by (induction es rule: mp4_videos.induct) simp_all

lemma mp4_audios_append: "mp4_audios (es @ fs) = mp4_audios es @ mp4_audios fs"
  by (induction es rule: mp4_audios.induct) simp_all

lemma mp4_bytes_append: "mp4_bytes (vs @ vs') (as @ as') = mp4_bytes vs as + mp4_bytes vs' as'"
  by (simp add: mp4_bytes_def)

lemma mp4_run_inv:
  assumes "mp4_inv m vs as g" and "list_all mp4_quiet es"
    and "mp4_bytes (vs @ mp4_videos es) (as @ mp4_audios es) < 2 ^ 31" and "length (vs @ mp4_videos es) + length (as @ mp4_audios es) < 2 ^ 31"
  shows "\<exists>g'. mp4_inv (mp4_run env es m) (vs @ mp4_videos es) (as @ mp4_audios es) g'"
  using assms
proof (induction es arbitrary: m vs as g)
  case (Cons e es)
  have c: "mp4_videos (e # es) = mp4_videos [e] @ mp4_videos es" "mp4_audios (e # es) = mp4_audios [e] @ mp4_audios es"
    using mp4_videos_append [of "[e]" es] mp4_audios_append [of "[e]" es] by simp_all
  have s: "mp4_bytes (vs @ mp4_videos [e]) (as @ mp4_audios [e]) < 2 ^ 31" "length vs + length as < 2 ^ 31"
    using Cons.prems(3,4) by (simp_all add: c mp4_bytes_append)
  obtain g1 where "mp4_inv (snd (mp4_step env e m)) (vs @ mp4_videos [e]) (as @ mp4_audios [e]) g1"
    using mp4_step_inv [OF Cons.prems(1) _ s] Cons.prems(2) by auto
  from Cons.IH [OF this] Cons.prems(2-4) show ?case
    by (simp add: c mp4_run_def)
qed (auto simp: mp4_run_def)

lemma mp4_quiet_whole:
  "list_all mp4_quiet es \<Longrightarrow> list_all (mp4_whole kVideoPayload) (mp4_videos es) \<and> list_all (mp4_whole kAudioPayload) (mp4_audios es)"
proof (induction es)
  case (Cons e es)
  then show ?case by (cases e) simp_all
qed simp

lemma mp4_key_inv:
  assumes "pl_is_iframe k" and "mp4_whole kVideoPayload k" and "\<not> m4_segment m" and "length (mp4_data kVideoPayload k) < 2 ^ 31"
    and f: "\<not> m4_fault (snd (mp4_on_video env k m))"
  shows "\<exists>g. mp4_inv (snd (mp4_on_video env k m)) [k] [] g"
proof -
  define m2 where "m2 = mp4_reset (snd (mp4_flush env (if m4_chunk m \<noteq> [] then mp4_push_offset m else m)))"
  let ?m' = "CalChunk (pl_dts k) (pl_len k) kVideoPayload (mp4_append (pl_data k) (pl_len k) m2)"
  have s: "snd (mp4_on_video env k m) = ?m'\<lparr>m4_video_samples := m4_video_samples ?m' @ [k]\<rparr>"
    using assms(1) by (simp add: mp4_on_video_def m2_def split_beta Let_def)
  have "m4_segment m2 = m4_segment m"
    by (simp add: m2_def mp4_reset_def mp4_flush_def mp4_push_offset_def WriteMediaDataBox_def Let_def split_beta)
  then have r: "m4_plan m2 []" "\<not> m4_segment m2" "m4_video_samples m2 = []" "m4_audio_samples m2 = []"
    using assms(3) by (simp_all add: m2_def mp4_reset_def m4_plan_def g_offs_of_def)
  have "mp4_append (pl_data k) (pl_len k) m2 = m2\<lparr>m4_mdat := m4_mdat m2 @ mp4_data kVideoPayload k\<rparr>"
    using mp4_append_whole [OF assms(2), of m2] by (simp add: mp4_source_def mp4_len_def)
  then have "\<not> m4_fault m2" using f unfolding s by simp
  then obtain g' where g': "m4_plan ?m' g'" "g' \<noteq> []" "\<not> m4_fault ?m'"
    "\<forall>u. g_samples u g' = g_samples u [] @ (if u = kVideoPayload then [mp4_data kVideoPayload k] else [])"
    "length (g_bytes g') = length (g_bytes []) + length (mp4_data kVideoPayload k)"
    "length (concat (map snd g')) = length (concat (map snd ([] :: mp4_groups))) + 1"
    using mp4_frame_inv [of m2 "[]" kVideoPayload k] r assms(2,4) by (auto simp: mp4_source_def mp4_len_def)
  moreover have "m4_video_samples ?m' = []" "m4_audio_samples ?m' = []" "\<not> m4_segment ?m'"
    using r by (auto simp: mp4_append_def split: option.splits)
  ultimately show ?thesis unfolding s by (intro exI [of _ g']) (simp add: mp4_inv_def mp4_bytes_def kinds)
qed

lemma mp4_headers_run: "m4_video_header (snd (mp4_step env e m)) = (case e of M4VideoHeader h \<Rightarrow> h | _ \<Rightarrow> m4_video_header m)"
  by (auto simp: mp4_on_audio_def mp4_on_video_def mp4_on_video_header_def mp4_on_audio_header_def mp4_append_def CalChunk_def mp4_set_back_def
    mp4_push_offset_def Let_def mp4_flush_def mp4_reset_def WriteMediaDataBox_def split_beta split: mp4_event.split option.split)

text \<open>
  C8: the MP4 file that a key frame makes the muxer write holds every sample since the key frame before: whatever state that one
  found, and whatever frames and headers come in between (up to 256 MB and 100000 frames), a reader that finds the sample
  tables by their box types and follows them (sizes of \<open>stsz\<close>, offsets of \<open>stco\<close>, run lengths of \<open>stsc\<close>)
  gets exactly the video samples and the audio samples, each whole and in order, and nothing is written outside a block.
\<close>

theorem mp4_file_holds_samples:
  assumes "pl_is_iframe k0" and "pl_is_iframe k1" and "list_all (mp4_whole kVideoPayload) [k0, k1]"
    and "\<not> m4_segment m0" and "\<not> m4_fault (snd (mp4_on_video env k0 m0))" and "list_all mp4_quiet es"
    and "mp4_bytes (k0 # mp4_videos es) (mp4_audios es) < 2 ^ 28"
    and "length (k0 # mp4_videos es) + length (mp4_audios es) \<le> 100000"
    and "m = mp4_run env es (snd (mp4_on_video env k0 m0))" and "length (m4_video_header m) \<le> 1000000"
  shows "\<exists>mp4 m'. mp4_on_video env k1 m = (Some mp4, m') \<and> \<not> m4_fault m' \<and>
    mp4_read mp4 = Some [map (mp4_data kVideoPayload) (k0 # mp4_videos es), map (mp4_data kAudioPayload) (mp4_audios es)]"
proof -
  have "length (mp4_data kVideoPayload k0) < 2 ^ 31" using assms(7) by (simp add: mp4_bytes_def)
  with mp4_key_inv [of k0 m0 env] assms obtain g0 where "mp4_inv (snd (mp4_on_video env k0 m0)) [k0] [] g0" by auto
  from mp4_run_inv [OF this assms(6), of env] assms obtain g where g: "mp4_inv m (k0 # mp4_videos es) (mp4_audios es) g" by auto
  obtain mp4 m2 where f: "mp4_flush env (mp4_push_offset m) = (Some mp4, m2)" "\<not> m4_fault m2"
    "mp4_read mp4 = Some [map (mp4_data kVideoPayload) (k0 # mp4_videos es), map (mp4_data kAudioPayload) (mp4_audios es)]"
    using mp4_flush_read [OF g _ _ assms(7,8,10), of env] mp4_quiet_whole [OF assms(6)] assms(3) by auto
  have "m4_chunk m \<noteq> []" using g by (auto simp: mp4_inv_def m4_plan_def)
  moreover have "\<not> m4_fault (mp4_append (pl_data k1) (pl_len k1) (mp4_reset m2))"
    using mp4_append_whole [of kVideoPayload k1 "mp4_reset m2"] assms(3) f(2) by (simp add: mp4_source_def mp4_len_def mp4_reset_def)
  ultimately show ?thesis using f assms(2) by (simp add: mp4_on_video_def Let_def)
qed

definition mp4_env0 :: mp4_env where
  "mp4_env0 = \<lparr>me_now = (\<lambda>_ _ _. 0), me_behind_int = 0xBEEF, me_behind_string = 7\<rparr>"

definition mp4_key :: payload where
  "mp4_key = pl_set_iframe (pl_set_video (pl_new 40 0 [0, 0, 0, 2, 0x65, 1] 6))"

definition mp4_sound0 :: payload where
  "mp4_sound0 = pl_set_audio (pl_new 10 10 [0xAF, 1, 5, 6, 7] 5)"

lemma mp4_file_holds_samples_witness:
  "\<exists>mp4 m'. mp4_on_video mp4_env0 mp4_key (mp4_run mp4_env0 [M4Audio mp4_sound0] (snd (mp4_on_video mp4_env0 mp4_key (mp4_new 99 99)))) = (Some mp4, m') \<and>
     \<not> m4_fault m' \<and> mp4_read mp4 = Some [[[0, 0, 0, 2, 0x65, 1]], [[5, 6, 7]]]"
  using mp4_file_holds_samples [of mp4_key mp4_key "mp4_new 99 99" mp4_env0 "[M4Audio mp4_sound0]", OF _ _ _ _ _ _ _ _ refl]
  by (simp add: mp4_key_def mp4_sound0_def pl_defs mp4_whole_def mp4_source_def mp4_len_def mp4_data_def pl_raw_data_def pl_raw_len_def
    mp4_new_def mp4_on_video_def mp4_flush_def mp4_reset_def mp4_append_def CalChunk_def mp4_bytes_def mp4_run_def mp4_on_audio_def
    mp4_push_offset_def mp4_set_back_def k1M_def Let_def)

text \<open>
  the decoding times an MP4 file gives are wrong, since \<open>WriteDecodingTimeToSampleBox\<close> neither advances \<open>pre_sample_time\<close> inside
  a run of equal distances nor writes the last run: for three samples at an equal distance the table covers two, for four
  the third distance comes out doubled.
\<close>

theorem mp4_decoding_times_wrong:
  assumes "distance \<noteq> 0"
    and "map pl_dts32 [p0, p1, p2, p3] = [t, t + distance, t + 2 * distance, t + 3 * distance]"
    and "m4_samples m u = [p0, p1, p2]" and "m4_samples m' u = [p0, p1, p2, p3]"
  shows "be_words (w_bytes k (WriteDecodingTimeToSampleBox m u)) = [32, be_val (bs ''stts''), 0, 2, 1, 0, 1, unat distance] \<and>
    be_words (w_bytes k (WriteDecodingTimeToSampleBox m' u)) = [40, be_val (bs ''stts''), 0, 3, 1, 0, 1, unat distance, 2, unat (2 * distance)]"
proof -
  have b: "be_words (be 4 v) = [v mod 2 ^ 32]" for v using be_words_be [of v "[]"] by simp
  have tag: "be_words (bs ''stts'' @ r) = be_val (bs ''stts'') # be_words r" for r by (simp add: bs_def)
  show ?thesis
    using assms by (simp add: WriteDecodingTimeToSampleBox_def box_bytes_def Let_def be_word be_words_be be_words_zero word32_bytes b tag)
qed

lemma mp4_decoding_times_wrong_witness:
  "be_words (w_bytes 0 (WriteDecodingTimeToSampleBox ((mp4_new 0 0)\<lparr>m4_audio_samples :=
      [pl_new 0 0 [] 0, pl_new 40 40 [] 0, pl_new 80 80 [] 0]\<rparr>) kAudioPayload)) = [32, be_val (bs ''stts''), 0, 2, 1, 0, 1, 40]"
  using mp4_decoding_times_wrong [of 40 "pl_new 0 0 [] 0" "pl_new 40 40 [] 0" "pl_new 80 80 [] 0" "pl_new 120 120 [] 0" 0
    "(mp4_new 0 0)\<lparr>m4_audio_samples := [pl_new 0 0 [] 0, pl_new 40 40 [] 0, pl_new 80 80 [] 0]\<rparr>" kAudioPayload
    "(mp4_new 0 0)\<lparr>m4_audio_samples := [pl_new 0 0 [] 0, pl_new 40 40 [] 0, pl_new 80 80 [] 0, pl_new 120 120 [] 0]\<rparr>" 0]
  by (simp add: pl_defs m4_samples_def)

end
