(* ===== verification/DashMuxer.thy ===== *)
theory DashMuxer
  imports Mp4File StdMap
begin

text \<open>
  \<open>src/dash_muxer.h\<close>, \<open>src/dash_muxer.cpp\<close>: at a key frame, when the frames since the last cut span five seconds, the
  frames of each track but the last become a media segment (\<open>.m4s\<close>), the initialisation files and the
  manifest (MPD) are renewed, and the last frame of each track starts the next segment. The \<open>video_\<close> and \<open>audio_\<close> members
  are two records \<open>dash_track\<close>. Reading outside a block and writing behind the buffer of a segment set \<open>d_fault\<close>;
  \<open>malloc\<close> is taken to succeed. What \<open>Util::GetNowUTCStr\<close> returns is a parameter. The dump files, which
  the compiled code does not open, are left out.
\<close>

section \<open>State\<close>

record mpd_info =
  mi_start_time :: u32
  mi_duration :: u32 \<comment> \<open>an \<open>int\<close>\<close>

record dash_track =
  dt_samples :: "payload list"
  dt_mdat :: bytes
  dt_sequence :: u32
  dt_m4s :: "(u64, bytes) smap"
  dt_mpd_info :: "(u64, mpd_info) smap"
  dt_init_mp4 :: bytes

record dash_muxer =
  d_video_header :: bytes
  d_audio_header :: bytes
  d_moof_offset :: u32
  d_start_time :: bytes \<comment> \<open>\<open>availability_start_time_utc_str_\<close>\<close>
  d_video :: dash_track
  d_audio :: dash_track
  d_mpd :: bytes
  d_fault :: bool

record dash_env =
  de_mp4 :: mp4_env
  de_offsets :: "u32 \<times> u32" \<comment> \<open>the uninitialised members of a new \<open>Mp4Muxer\<close>\<close>
  de_now :: bytes \<comment> \<open>\<open>Util::GetNowUTCStr()\<close>\<close>

definition DASH_CACHE :: nat where "DASH_CACHE = 3"
definition DASH_FRAGMENT_DURATION :: int where "DASH_FRAGMENT_DURATION = 5000"

definition dash_track_new :: dash_track where
  "dash_track_new = \<lparr>dt_samples = [], dt_mdat = [], dt_sequence = 0, dt_m4s = [], dt_mpd_info = [], dt_init_mp4 = []\<rparr>"

definition dash_new :: "u32 \<Rightarrow> bytes \<Rightarrow> dash_muxer" where
  \<comment> \<open>the first argument is what \<open>moof_offset_\<close> holds uninitialised, the second the time of the start\<close>
  "dash_new moof now =
     \<lparr>d_video_header = [], d_audio_header = [], d_moof_offset = moof, d_start_time = now,
      d_video = dash_track_new, d_audio = dash_track_new, d_mpd = [], d_fault = False\<rparr>"

definition d_track :: "u8 \<Rightarrow> dash_muxer \<Rightarrow> dash_track" where
  "d_track t d = (if t = kVideoPayload then d_video d else d_audio d)"

definition d_update :: "u8 \<Rightarrow> (dash_track \<Rightarrow> dash_track) \<Rightarrow> dash_muxer \<Rightarrow> dash_muxer" where
  "d_update t f d = (if t = kVideoPayload then d\<lparr>d_video := f (d_video d)\<rparr> else d\<lparr>d_audio := f (d_audio d)\<rparr>)"

section \<open>Boxes of a segment\<close>

definition WriteSegmentTypeBox :: w_stmt where
  "WriteSegmentTypeBox = WBox ''styp'' [WOps [WData (bs ''msms''), WBytes 4 512, WData (bs ''msdh''), WData (bs ''msix'')]]"

definition dash_left_size :: "u8 \<Rightarrow> dash_track \<Rightarrow> u64" where
  "dash_left_size t x = (if t = kAudioPayload then pl_raw_len (last (dt_samples x)) else 0)"

definition WriteSegmentIndexBox :: "u8 \<Rightarrow> dash_track \<Rightarrow> w_stmt" where
  "WriteSegmentIndexBox t x =
     (let referenced_size = word_of_nat (length (dt_mdat x)) :: u32
      in full_box ''sidx'' 0
           [WOps [WBytes 4 1, WBytes 4 1000, WBytes 4 (ucast (pl_pts32 (hd (dt_samples x)))), WBytes 4 0, WBytes 2 0, WBytes 2 1,
              WBits 1 0, WBits 31 (ucast referenced_size - dash_left_size t x), WBytes 4 0, WBits 1 1, WBits 3 1, WBits 28 0]])"

definition WriteMovieFragmentHeaderBox :: "dash_track \<Rightarrow> w_stmt" where
  "WriteMovieFragmentHeaderBox x = full_box ''mfhd'' 0 [WOps [WBytes 4 (ucast (dt_sequence x))]]"

definition WriteTrackFragmentHeaderBox :: w_stmt where
  \<comment> \<open>of the optional fields \<open>0x020000\<close> selects none\<close>
  "WriteTrackFragmentHeaderBox = full_box ''tfhd'' 0x020000 [WOps [WBytes 4 1]]"

definition WriteTrackFragmentDecodeTimeBox :: "dash_track \<Rightarrow> w_stmt" where
  "WriteTrackFragmentDecodeTimeBox x = full_box ''tfdt'' 0 [WOps [WBytes 4 (ucast (pl_dts32 (hd (dt_samples x))))]]"

fun trun_rows :: "u8 \<Rightarrow> payload list \<Rightarrow> bw_op list" where
  \<comment> \<open>duration, size and composition offset of every sample but the last\<close>
  "trun_rows t (a # b # xs) =
     WBytes 4 (ucast (ucast (pl_dts b - pl_dts a) :: u32)) #
     WBytes 4 (ucast (ucast (if t = kVideoPayload then pl_len a else pl_raw_len a) :: u32)) #
     WBytes 4 (ucast (ucast (pl_pts a - pl_dts a) :: u32)) # trun_rows t (b # xs)"
| "trun_rows t _ = []"

definition WriteTrackFragmentRunBox :: "u32 \<Rightarrow> u8 \<Rightarrow> dash_track \<Rightarrow> w_stmt" where
  "WriteTrackFragmentRunBox moof_offset t x =
     (let tr_flags = 0x000001 OR 0x000004 OR 0x000100 OR 0x000200 OR 0x000800 :: u64;
          sample_count = word_of_nat (length (dt_samples x) - 1) :: u32
      in full_box ''trun'' tr_flags
           [WOps [WBytes 4 (ucast sample_count)],
            WCounted 0 (WBytes 4 0 # trun_rows t (dt_samples x)) (\<lambda>size_in_bytes. word_of_nat size_in_bytes + 8 - moof_offset)])"

definition WriteTrackFragmentBox :: "u32 \<Rightarrow> u8 \<Rightarrow> dash_track \<Rightarrow> w_stmt" where
  "WriteTrackFragmentBox moof_offset t x =
     WBox ''traf'' [WriteTrackFragmentHeaderBox, WriteTrackFragmentDecodeTimeBox x, WriteTrackFragmentRunBox moof_offset t x]"

definition WriteMovieFragmentBox :: "u8 \<Rightarrow> dash_muxer \<Rightarrow> bit_stream \<Rightarrow> bit_stream \<times> dash_muxer" where
  \<comment> \<open>the position of the box is kept in \<open>moof_offset_\<close>\<close>
  "WriteMovieFragmentBox t d s =
     (let d1 = d\<lparr>d_moof_offset := word_of_nat (bw_size_in_bytes s)\<rparr>;
          x = d_track t d1
      in (w_exec (WBox ''moof'' [WriteMovieFragmentHeaderBox x, WriteTrackFragmentBox (d_moof_offset d1) t x]) s, d1))"

definition dash_mdat_box :: "u8 \<Rightarrow> dash_track \<Rightarrow> bit_stream \<Rightarrow> bit_stream" where
  \<comment> \<open>\<open>WriteMediaDataBox\<close>; a size below zero is a huge one\<close>
  "dash_mdat_box t x s =
     (let left_size = unat (dash_left_size t x)
      in if left_size \<le> length (dt_mdat x)
         then w_exec (WBox ''mdat'' [WOps [WData (take (length (dt_mdat x) - left_size) (dt_mdat x))]]) s
         else s\<lparr>bw_fault := True\<rparr>)"

section \<open>Segments\<close>

fun dash_evict :: "(u64, bytes) smap \<Rightarrow> (u64, bytes) smap" where
  \<comment> \<open>\<open>while (m4s.size() > DASH_CACHE * 2) m4s.erase(m4s.begin())\<close>\<close>
  "dash_evict [] = []"
| "dash_evict (x # m) = (if DASH_CACHE * 2 < length (x # m) then dash_evict m else x # m)"

definition dash_write_segment :: "u8 \<Rightarrow> dash_muxer \<Rightarrow> bytes \<times> dash_muxer" where
  "dash_write_segment t d =
     (let buf_size = length (dt_mdat (d_track t d)) + 1024 * 128;
          s1 = w_exec WriteSegmentTypeBox (bw_new buf_size);
          s2 = w_exec (WriteSegmentIndexBox t (d_track t d)) s1;
          (s3, d1) = WriteMovieFragmentBox t d s2;
          s4 = dash_mdat_box t (d_track t d1) s3
      in (bw_data s4, d1\<lparr>d_fault := d_fault d1 \<or> bw_fault s4\<rparr>))"

definition dash_add_segment :: "bytes \<Rightarrow> dash_track \<Rightarrow> dash_track" where
  "dash_add_segment m4s x =
     (let time = pl_dts32 (hd (dt_samples x));
          duration = ucast (pl_dts (last (dt_samples x)) - pl_dts (hd (dt_samples x)))
      in x\<lparr>dt_m4s := sm_put (ucast time) m4s (dt_m4s x),
           dt_mpd_info := sm_put (ucast (dt_sequence x)) \<lparr>mi_start_time = time, mi_duration = duration\<rparr> (dt_mpd_info x),
           dt_sequence := dt_sequence x + 1\<rparr>)"

definition dash_flush_track :: "u8 \<Rightarrow> dash_muxer \<Rightarrow> dash_muxer" where
  "dash_flush_track t d =
     (if 1 < length (dt_samples (d_track t d))
      then
        let d1 = d_update t (\<lambda>x. x\<lparr>dt_m4s := dash_evict (dt_m4s x)\<rparr>) d;
            (m4s, d2) = dash_write_segment t d1
        in d_update t (dash_add_segment m4s) d2
      else d)"

definition dash_flush :: "dash_muxer \<Rightarrow> bool \<times> dash_muxer" where
  "dash_flush d =
     (let samples = dt_samples (d_video d);
          fragment_duration = ucast (pl_dts (last samples) - pl_dts (hd samples)) :: u32
      in if sint fragment_duration < DASH_FRAGMENT_DURATION then (False, d)
         else (True, dash_flush_track kAudioPayload (dash_flush_track kVideoPayload d)))"

definition dash_reset :: "dash_muxer \<Rightarrow> dash_muxer" where
  "dash_reset d =
     (let v = d_video d;
          v1 = v\<lparr>dt_mdat := []\<rparr>;
          v2 = (if dt_samples v1 = [] then v1 else v1\<lparr>dt_samples := [last (dt_samples v1)]\<rparr>);
          a = d_audio d;
          keep = pl_raw_len (last (dt_samples a));
          a1 = (if dt_samples a = [] then a
                else a\<lparr>dt_samples := [last (dt_samples a)],
                       dt_mdat := (if unat keep \<le> length (dt_mdat a) then drop (length (dt_mdat a) - unat keep) (dt_mdat a) else [])\<rparr>)
      in d\<lparr>d_video := v2, d_audio := a1\<rparr>)"

section \<open>Initialisation files and the manifest\<close>

definition dash_init_mp4 :: "dash_env \<Rightarrow> u8 \<Rightarrow> dash_muxer \<Rightarrow> bit_stream" where
  "dash_init_mp4 env t d =
     (let m = SetSegment True (mp4_new (fst (de_offsets env)) (snd (de_offsets env)));
          m1 = (if t = kVideoPayload then mp4_on_video_header (d_video_header d) m else mp4_on_audio_header (d_audio_header d) m)
      in w_execs [WriteFileTypeBox m1, mp4_segment_moov (de_mp4 env) m1 t] (bw_new (1024 * 256)))"

definition dash_update_init :: "dash_env \<Rightarrow> u8 \<Rightarrow> dash_muxer \<Rightarrow> dash_muxer" where
  "dash_update_init env t d =
     (if 1 < length (dt_samples (d_track t d))
      then let s = dash_init_mp4 env t d
        in (d_update t (\<lambda>x. x\<lparr>dt_init_mp4 := bw_data s\<rparr>) d)\<lparr>d_fault := d_fault d \<or> bw_fault s\<rparr>
      else d)"

definition UpdateInitMp4 :: "dash_env \<Rightarrow> dash_muxer \<Rightarrow> dash_muxer" where
  "UpdateInitMp4 env d = dash_update_init env kAudioPayload (dash_update_init env kVideoPayload d)"

definition mpd_lines :: "string list \<Rightarrow> bytes" where
  "mpd_lines ls = concat (map (\<lambda>l. bs l @ [10]) ls)"

definition mpd_video_header :: bytes where
  \<open>mpd_video_header =
     mpd_lines
       [''    <AdaptationSet'',
        ''        id="video_origin"'',
        ''        segmentAlignment="true"'',
        ''        maxWidth="1920"'',
        ''        maxHeight="1080"'',
        ''        maxFrameRate="30">'',
        ''      <Representation'',
        ''          id="video"'',
        ''          mimeType="video/mp4"'',
        ''          codecs="avc1.4d0028"'',
        ''          width="1920"'',
        ''          height="1080"'',
        ''          frameRate="30"'',
        ''          startWithSAP="1"'',
        ''          bandwidth="2000000">'',
        ''        <SegmentTemplate'',
        ''            timescale="1000"'',
        ''            media="$RepresentationID$_$Time$.m4s"'',
        ''            initialization="$RepresentationID$_init.mp4">'',
        ''          <SegmentTimeline>'']\<close>

definition mpd_video_tailer :: bytes where
  \<open>mpd_video_tailer =
     mpd_lines
       [''          </SegmentTimeline>'',
        ''        </SegmentTemplate>'',
        ''      </Representation>'',
        ''    </AdaptationSet>'']\<close>

definition mpd_audio_header :: bytes where
  \<open>mpd_audio_header =
     mpd_lines
       [''    <AdaptationSet'',
        ''        id="audio_origin"'',
        ''        segmentAlignment="true">'',
        ''      <AudioChannelConfiguration'',
        ''          schemeIdUri="urn:mpeg:dash:23003:3:audio_channel_configuration:2011"'',
        ''          value="1"/>'',
        ''      <Representation'',
        ''          id="audio"'',
        ''          mimeType="audio/mp4"'',
        ''          codecs="mp4a.40.2"'',
        ''          audioSamplingRate="44100"'',
        ''          startWithSAP="1"'',
        ''          bandwidth="160000">'',
        ''        <SegmentTemplate'',
        ''            timescale="1000"'',
        ''            media="$RepresentationID$_$Time$.m4s"'',
        ''            initialization="$RepresentationID$_init.mp4">'',
        ''          <SegmentTimeline>'']\<close>

definition mpd_audio_tailer :: bytes where
  \<open>mpd_audio_tailer =
     mpd_lines
       [''          </SegmentTimeline>'',
        ''        </SegmentTemplate>'',
        ''      </Representation>'',
        ''    </AdaptationSet>'',
        ''  </Period>''] @ bs ''</MPD>''\<close>

definition mpd_header :: "bytes \<Rightarrow> bytes \<Rightarrow> bytes" where
  \<comment> \<open>the three durations are constants: 5000 / 1000.0, 10000 / 1000.0 and 30000 / 1000.0\<close>
  \<open>mpd_header available publish =
     mpd_lines
       [''<?xml version="1.0"?>'',
        ''<MPD'',
        ''    type="dynamic"'',
        ''    xmlns="urn:mpeg:dash:schema:mpd:2011"''] @ bs ''    availabilityStartTime="'' @ available @
     mpd_lines
       [''"''] @ bs ''    publishTime="'' @ publish @
     mpd_lines
       [''"'',
        ''    minimumUpdatePeriod="PT5.0S"'',
        ''    minBufferTime="PT10.0S"'',
        ''    timeShiftBufferDepth="PT30S"'',
        ''    profiles="urn:hbbtv:dash:profile:isoff-live:2012,urn:mpeg:dash:profile:isoff-live:2011"'',
        ''    xmlns:xsi="http://www.w3.org/2011/XMLSchema-instance"'',
        ''    xsi:schemaLocation="urn:mpeg:DASH:schema:MPD:2011 DASH-MPD.xsd">'',
        ''  <Period start="PT0S" id="dash">'']\<close>

definition dec_int :: "u32 \<Rightarrow> bytes" where
  \<comment> \<open>\<open>%d\<close>\<close>
  "dec_int n = (if sint n < 0 then bs ''-'' @ dec (nat (- sint n)) else dec (nat (sint n)))"

definition mpd_entry :: "dash_track \<Rightarrow> nat \<Rightarrow> mpd_info" where
  \<comment> \<open>\<open>mpd_info_[sequence_ - i]\<close>; the key of a segment that was written is there\<close>
  "mpd_entry x i =
     (case sm_find (ucast (dt_sequence x - word_of_nat i)) (dt_mpd_info x) of
        Some e \<Rightarrow> e
      | None \<Rightarrow> \<lparr>mi_start_time = 0, mi_duration = 0\<rparr>)"

definition mpd_timeline :: "dash_track \<Rightarrow> bytes" where
  \<open>mpd_timeline x =
     concat (map (\<lambda>i. bs ''             <S t="'' @ dec (unat (mi_start_time (mpd_entry x i))) @ bs ''" d="'' @
       dec_int (mi_duration (mpd_entry x i)) @ bs ''"/>'' @ [10]) (rev [1..<Suc DASH_CACHE]))\<close>

definition UpdateMpd :: "dash_env \<Rightarrow> dash_muxer \<Rightarrow> dash_muxer" where
  "UpdateMpd env d =
     (if unat (dt_sequence (d_video d)) < DASH_CACHE \<or> unat (dt_sequence (d_audio d)) < DASH_CACHE then d
      else d\<lparr>d_mpd := mpd_header (d_start_time d) (de_now env) @
               mpd_video_header @ mpd_timeline (d_video d) @ mpd_video_tailer @
               mpd_audio_header @ mpd_timeline (d_audio d) @ mpd_audio_tailer\<rparr>)"

section \<open>Frames and requests\<close>

definition dash_append :: "u8 \<Rightarrow> bytes option \<Rightarrow> u64 \<Rightarrow> dash_muxer \<Rightarrow> dash_muxer" where
  \<comment> \<open>\<open>mdat_.append(p, n)\<close>\<close>
  "dash_append t p n d =
     (case p of
        None \<Rightarrow> if n = 0 then d else d\<lparr>d_fault := True\<rparr>
      | Some b \<Rightarrow>
          if unat n \<le> length b then d_update t (\<lambda>x. x\<lparr>dt_mdat := dt_mdat x @ take (unat n) b\<rparr>) d
          else d\<lparr>d_fault := True\<rparr>)"

definition dash_push :: "u8 \<Rightarrow> payload \<Rightarrow> dash_muxer \<Rightarrow> dash_muxer" where
  "dash_push t p d = d_update t (\<lambda>x. x\<lparr>dt_samples := dt_samples x @ [p]\<rparr>) d"

definition dash_on_audio :: "payload \<Rightarrow> dash_muxer \<Rightarrow> dash_muxer" where
  "dash_on_audio p d = dash_append kAudioPayload (pl_raw_data p) (pl_raw_len p) (dash_push kAudioPayload p d)"

definition dash_on_video :: "dash_env \<Rightarrow> payload \<Rightarrow> dash_muxer \<Rightarrow> dash_muxer" where
  "dash_on_video env p d =
     (let d1 = dash_push kVideoPayload p d;
          d2 = (if pl_is_iframe p
                then
                  let (flushed, e) = dash_flush d1
                  in if flushed then dash_reset (UpdateMpd env (UpdateInitMp4 env e)) else e
                else d1)
      in dash_append kVideoPayload (pl_data p) (pl_len p) d2)"

definition dash_on_video_header :: "bytes \<Rightarrow> dash_muxer \<Rightarrow> dash_muxer" where
  "dash_on_video_header h d = d\<lparr>d_video_header := h\<rparr>"

definition dash_on_audio_header :: "bytes \<Rightarrow> dash_muxer \<Rightarrow> dash_muxer" where
  "dash_on_audio_header h d = d\<lparr>d_audio_header := h\<rparr>"

definition GetMpd :: "dash_muxer \<Rightarrow> bytes" where
  "GetMpd d = d_mpd d"

definition GetM4s :: "u8 \<Rightarrow> u64 \<Rightarrow> dash_muxer \<Rightarrow> bytes option" where
  \<comment> \<open>\<open>None\<close>: \<open>iter->second\<close> with \<open>iter == end()\<close>\<close>
  "GetM4s t segment_num d =
     (let m4s = dt_m4s (d_track t d)
      in case sm_find segment_num m4s of
           None \<Rightarrow> if m4s \<noteq> [] then Some [] else None
         | Some x \<Rightarrow> Some x)"

definition GetInitMp4 :: "u8 \<Rightarrow> dash_muxer \<Rightarrow> bytes" where
  "GetInitMp4 t d =
     (if t = kVideoPayload then dt_init_mp4 (d_video d)
      else if t = kAudioPayload then dt_init_mp4 (d_audio d) else [])"

datatype dash_event = DAudio payload | DVideo payload | DVideoHeader bytes | DAudioHeader bytes

fun dash_step :: "dash_env \<Rightarrow> dash_event \<Rightarrow> dash_muxer \<Rightarrow> dash_muxer" where
  "dash_step env (DAudio p) d = dash_on_audio p d"
| "dash_step env (DVideo p) d = dash_on_video env p d"
| "dash_step env (DVideoHeader h) d = dash_on_video_header h d"
| "dash_step env (DAudioHeader h) d = dash_on_audio_header h d"

end
