(* ===== verification/DashFile.thy ===== *)
theory DashFile
  imports DashMuxer
begin

text \<open>
  The media segments of theory \<open>DashMuxer\<close>, read. The reader \<open>dash_read\<close> knows the file format only. Three
  results: the segments that the manifest announces carry every frame of both tracks, with the right duration; the
  newest seven entries of the manifest can be fetched and have no gap; a long interval between key frames overflows
  the buffer the segment is built in.
\<close>

section \<open>A reader of segments\<close>

fun box_pos :: "bytes \<Rightarrow> (bytes \<times> bytes) list \<Rightarrow> nat" where
  "box_pos tag [] = 0"
| "box_pos tag ((t, d) # l) = (if t = tag then 0 else 8 + length d + box_pos tag l)"

fun trun_entries :: "nat list \<Rightarrow> (nat \<times> nat) list" where
  \<comment> \<open>duration and size\<close>
  "trun_entries (d # z # c # r) = (d, z) # trun_entries r"
| "trun_entries _ = []"

definition dash_read :: "bytes \<Rightarrow> (bytes \<times> nat) list option" where
  \<comment> \<open>the samples of a segment with their durations: \<open>trun\<close> gives sizes and an offset from the start of \<open>moof\<close>\<close>
  "dash_read m4s =
     (case (mp4_boxes m4s, map_option be_words (mp4_find [bs ''moof'', bs ''traf'', bs ''trun''] m4s)) of
        (Some l, Some (_ # n # off # _ # rows)) \<Rightarrow>
          if length (trun_entries rows) = n
          then Some (zip (cut_chunk m4s (box_pos (bs ''moof'') l + off) (map snd (trun_entries rows))) (map fst (trun_entries rows)))
          else None
      | _ \<Rightarrow> None)"

definition dash_duration :: "payload \<Rightarrow> payload \<Rightarrow> nat" where
  "dash_duration p q = unat (ucast (pl_dts q - pl_dts p) :: u32)"

fun dash_timed :: "u8 \<Rightarrow> payload list \<Rightarrow> (bytes \<times> nat) list" where
  \<comment> \<open>every sample but the last, with its distance to the next\<close>
  "dash_timed t (a # b # xs) = (mp4_data t a, dash_duration a b) # dash_timed t (b # xs)"
| "dash_timed t _ = []"

lemma trun_rows_entries:
  assumes "list_all (mp4_whole t) xs" and "list_all (\<lambda>p. length (mp4_data t p) < 2 ^ 32) xs"
  shows "trun_entries (be_words (ops_bytes (trun_rows t xs))) = map (\<lambda>(d, n). (n, length d)) (dash_timed t xs)"
    and "list_all byte_op (trun_rows t xs)" and "length (ops_bytes (trun_rows t xs)) = 12 * (length xs - 1)"
    and "sum_list (map bw_op_size (trun_rows t xs)) = 96 * (length xs - 1)"
proof -
  have "trun_entries (be_words (ops_bytes (trun_rows t xs))) = map (\<lambda>(d, n). (n, length d)) (dash_timed t xs) \<and>
    list_all byte_op (trun_rows t xs) \<and> length (ops_bytes (trun_rows t xs)) = 12 * (length xs - 1) \<and>
    sum_list (map bw_op_size (trun_rows t xs)) = 96 * (length xs - 1)"
    using assms
  proof (induction t xs rule: trun_rows.induct)
    case (1 t a b xs)
    define z where "z = (ucast (if t = kVideoPayload then pl_len a else pl_raw_len a) :: u32)"
    have "unat z = length (mp4_data t a)"
      using 1(2,3) by (simp add: z_def mp4_len_def [symmetric] mp4_data_length unsigned_ucast_eq take_bit_eq_mod)
    then show ?case using 1 unfolding trun_rows.simps z_def [symmetric]
      by (simp add: be_word be_words_be word32_bytes dash_duration_def)
  qed simp_all
  then show "trun_entries (be_words (ops_bytes (trun_rows t xs))) = map (\<lambda>(d, n). (n, length d)) (dash_timed t xs)"
    and "list_all byte_op (trun_rows t xs)" and "length (ops_bytes (trun_rows t xs)) = 12 * (length xs - 1)"
    and "sum_list (map bw_op_size (trun_rows t xs)) = 96 * (length xs - 1)" by simp_all
qed

lemma dash_timed_parts:
  "map fst (dash_timed t xs) = map (mp4_data t) (butlast xs)" "length (dash_timed t xs) = length xs - 1"
  by (induction t xs rule: dash_timed.induct) simp_all

definition dash_moof :: "u32 \<Rightarrow> u8 \<Rightarrow> dash_track \<Rightarrow> w_stmt" where
  "dash_moof off t x = WBox ''moof'' [WriteMovieFragmentHeaderBox x, WriteTrackFragmentBox off t x]"

definition trun_body :: "u8 \<Rightarrow> payload list \<Rightarrow> bytes" where
  "trun_body t xs = be 4 0xB05 @ be 4 (length xs - 1) @ be 4 (96 + 12 * (length xs - 1)) @ be 4 0 @ ops_bytes (trun_rows t xs)"

lemma dash_moof_bytes:
  assumes "list_all (mp4_whole t) (dt_samples x)" and "list_all (\<lambda>p. length (mp4_data t p) < 2 ^ 32) (dt_samples x)"
    and "length (dt_samples x) \<le> 10000"
  obtains a b c where "w_bytes 68 (dash_moof 68 t x) =
    box_bytes ''moof'' (box_bytes ''mfhd'' a @ box_bytes ''traf'' (box_bytes ''tfhd'' b @ box_bytes ''tfdt'' c @ box_bytes ''trun'' (trun_body t (dt_samples x))))"
    and "length a = 8" and "length b = 8" and "length c = 8"
proof -
  define n where "n = length (dt_samples x) - Suc 0"
  have n: "n < 10000" using assms(3) by (simp add: n_def)
  have fl: "bw_val_bytes (Suc 0) (0 :: u64) @ bw_val_bytes 3 (0x000001 OR 0x000004 OR 0x000100 OR 0x000200 OR 0x000800 :: u64) = be 4 0xB05"
    by code_simp
  have off: "unat (word_of_nat (156 + 12 * n) + 8 - 68 :: u32) = 96 + 12 * n"
  proof -
    have "word_of_nat (156 + 12 * n) + 8 - 68 = (word_of_nat (96 + 12 * n) :: u32)" by simp
    then show ?thesis using n by (simp only: unat_of_nat) simp
  qed
  have cnt: "unat (ucast (word_of_nat n :: u32) :: u64) = n" using n by (simp add: unsigned_ucast_eq take_bit_eq_mod unat_of_nat)
  have rows: "length (ops_bytes (trun_rows t (dt_samples x))) = 12 * n" using trun_rows_entries(3) [OF assms(1,2)] by (simp add: n_def)
  show ?thesis
  proof (rule that)
    show "w_bytes 68 (dash_moof 68 t x) =
      box_bytes ''moof'' (box_bytes ''mfhd'' (w_list_bytes 0 (w_inner (WriteMovieFragmentHeaderBox x))) @
        box_bytes ''traf'' (box_bytes ''tfhd'' (w_list_bytes 0 (w_inner WriteTrackFragmentHeaderBox)) @
          box_bytes ''tfdt'' (w_list_bytes 0 (w_inner (WriteTrackFragmentDecodeTimeBox x))) @ box_bytes ''trun'' (trun_body t (dt_samples x))))"
      using fl [unfolded be_word] off cnt rows
      by (simp add: dash_moof_def WriteTrackFragmentBox_def WriteTrackFragmentRunBox_def WriteMovieFragmentHeaderBox_def
        WriteTrackFragmentHeaderBox_def WriteTrackFragmentDecodeTimeBox_def trun_body_def Let_def length_box_bytes n_def [symmetric] be_word)
  qed (simp_all add: WriteMovieFragmentHeaderBox_def WriteTrackFragmentHeaderBox_def WriteTrackFragmentDecodeTimeBox_def)
qed

lemma dash_fixed_boxes:
  "w_ok WriteSegmentTypeBox" "w_ok (WriteSegmentIndexBox t x)" "is_box WriteSegmentTypeBox" "is_box (WriteSegmentIndexBox t x)"
  "w_tag WriteSegmentTypeBox = ''styp''" "w_tag (WriteSegmentIndexBox t x) = ''sidx''"
  "length (w_bytes k WriteSegmentTypeBox) = 24" "length (w_bytes k (WriteSegmentIndexBox t x)) = 44"
proof -
  show "w_ok WriteSegmentTypeBox" "is_box WriteSegmentTypeBox" "w_tag WriteSegmentTypeBox = ''styp''" "length (w_bytes k WriteSegmentTypeBox) = 24"
    by (simp_all add: WriteSegmentTypeBox_def ops_ok_bytes length_box_bytes)
  show o: "w_ok (WriteSegmentIndexBox t x)" and "is_box (WriteSegmentIndexBox t x)" "w_tag (WriteSegmentIndexBox t x) = ''sidx''"
    by (simp_all add: WriteSegmentIndexBox_def Let_def ops_ok_def)
  have "w_plain (WriteSegmentIndexBox t x)" by (simp add: WriteSegmentIndexBox_def Let_def)
  from length_w_bytes [OF o this] show "length (w_bytes k (WriteSegmentIndexBox t x)) = 44"
    by (simp add: WriteSegmentIndexBox_def Let_def)
qed

lemma dash_moof_ok: "list_all byte_op (trun_rows t (dt_samples x)) \<Longrightarrow> w_ok (dash_moof off t x)"
  by (simp add: dash_moof_def WriteTrackFragmentBox_def WriteTrackFragmentRunBox_def WriteMovieFragmentHeaderBox_def
        WriteTrackFragmentHeaderBox_def WriteTrackFragmentDecodeTimeBox_def Let_def ops_ok_bytes)

definition dash_sized :: "u8 \<Rightarrow> dash_track \<Rightarrow> bool" where
  \<comment> \<open>the bounds that keep a segment in its buffer\<close>
  "dash_sized t x \<longleftrightarrow> length (dt_samples x) \<le> 10000 \<and> length (concat (map (mp4_data t) (dt_samples x))) < 2 ^ 28"

lemma dash_sized_small: "dash_sized t x \<Longrightarrow> list_all (\<lambda>p. length (mp4_data t p) < 2 ^ 32) (dt_samples x)"
  unfolding list_all_iff
proof
  fix p assume s: "dash_sized t x" "p \<in> set (dt_samples x)"
  then have "length (mp4_data t p) \<le> length (concat (map (mp4_data t) (dt_samples x)))"
    unfolding length_concat by (intro member_le_sum_list) auto
  then show "length (mp4_data t p) < 2 ^ 32" using s by (simp add: dash_sized_def)
qed

definition dash_file :: "u8 \<Rightarrow> dash_track \<Rightarrow> w_stmt list" where
  "dash_file t x = [WriteSegmentTypeBox, WriteSegmentIndexBox t x, dash_moof 68 t x,
     WBox ''mdat'' [WOps [WData (take (length (dt_mdat x) - unat (dash_left_size t x)) (dt_mdat x))]]]"

lemma d_track_moof [simp]: "d_track t (d\<lparr>d_moof_offset := k\<rparr>) = d_track t d"
  by (simp add: d_track_def)

lemma dash_write_segment:
  assumes x: "x = d_track t d" and w: "list_all (mp4_whole t) (dt_samples x)" and z: "dash_sized t x"
    and left: "unat (dash_left_size t x) \<le> length (dt_mdat x)"
  shows "dash_write_segment t d = (w_list_bytes 0 (dash_file t x), d\<lparr>d_moof_offset := 68\<rparr>)"
proof -
  note small = dash_sized_small [OF z]
  note rows = trun_rows_entries [OF w small]
  define s where "s = bw_new (length (dt_mdat x) + 1024 * 128)"
  have s: "w_ready s" "bw_pos s = 0" "bw_len s = 8 * (length (dt_mdat x) + 131072)" "bw_fault s = False" "bw_size_in_bytes s = 0" "bw_data s = []"
    using w_ready_new by (simp_all only: s_def) (simp_all add: bw_new_def bw_size_in_bytes_def bw_data_def)
  define xs where "xs = [WriteSegmentTypeBox, WriteSegmentIndexBox t x]"
  have xs: "list_all w_ok xs" "length (w_list_bytes 0 xs) = 68" by (simp_all add: xs_def dash_fixed_boxes)
  define s2 where "s2 = w_execs xs s"
  have "w_after s (w_list_bytes 0 xs) s2"
    using appendsD [OF w_execs_appends [OF xs(1)] s(1)] s xs(2) by (simp add: s2_def)
  then have k: "bw_size_in_bytes s2 = 68" using s xs(2) by (simp add: w_after_def bw_size_in_bytes_def)
  have s2: "s2 = w_exec (WriteSegmentIndexBox t x) (w_exec WriteSegmentTypeBox s)" by (simp add: s2_def xs_def)
  have mo: "WriteMovieFragmentBox t d s2 = (w_exec (dash_moof 68 t x) s2, d\<lparr>d_moof_offset := 68\<rparr>)"
    by (simp add: WriteMovieFragmentBox_def k dash_moof_def x Let_def del: w_exec.simps)
  define s4 where "s4 = w_execs (dash_file t x) s"
  have s4: "s4 = dash_mdat_box t x (w_exec (dash_moof 68 t x) s2)"
    using left by (simp add: s4_def dash_file_def s2 dash_mdat_box_def Let_def del: w_exec.simps)
  have ok: "list_all w_ok (dash_file t x)"
    using dash_moof_ok [OF rows(2)] by (simp add: dash_file_def dash_fixed_boxes ops_ok_bytes)
  obtain a b c where m: "w_bytes 68 (dash_moof 68 t x) =
      box_bytes ''moof'' (box_bytes ''mfhd'' a @ box_bytes ''traf'' (box_bytes ''tfhd'' b @ box_bytes ''tfdt'' c @ box_bytes ''trun'' (trun_body t (dt_samples x))))"
    "length a = 8" "length b = 8" "length c = 8"
    using dash_moof_bytes [OF w small] z by (auto simp: dash_sized_def)
  have "length (dt_samples x) \<le> 10000" using z by (simp add: dash_sized_def)
  then have "length (dt_samples x) - Suc 0 \<le> 10000" by linarith
  moreover have "length (dt_mdat x) - unat (dash_left_size t x) \<le> length (dt_mdat x)" by simp
  ultimately have "12 * (length (dt_samples x) - Suc 0) + (length (dt_mdat x) - unat (dash_left_size t x)) \<le> 120000 + length (dt_mdat x)"
    by linarith
  then have "length (w_list_bytes 0 (dash_file t x)) \<le> length (dt_mdat x) + 131072"
    using rows(3) m by (simp add: dash_file_def dash_fixed_boxes length_box_bytes trun_body_def)
  then have "w_after s (w_list_bytes 0 (dash_file t x)) s4"
    using appendsD [OF w_execs_appends [OF ok] s(1)] s by (simp add: s4_def)
  then have "bw_data s4 = w_list_bytes 0 (dash_file t x)" "\<not> bw_fault s4" using s by (simp_all add: w_after_def)
  then show ?thesis
    unfolding dash_write_segment_def Let_def x [symmetric] s_def [symmetric] s2 [symmetric] mo prod.case d_track_moof s4 [symmetric]
    by simp
qed

lemma mp4_find_first:
  assumes "mp4_boxes d = Some l" and "map_of l (bs tag) = Some b"
  shows "mp4_find (bs tag # tags) d = mp4_find tags b"
  using assms by simp

lemma dash_file_read:
  assumes w: "list_all (mp4_whole t) (dt_samples x)" and z: "dash_sized t x" and two: "1 < length (dt_samples x)"
    and mdat: "take (length (dt_mdat x) - unat (dash_left_size t x)) (dt_mdat x) = concat (map (mp4_data t) (butlast (dt_samples x)))"
  shows "dash_read (w_list_bytes 0 (dash_file t x)) = Some (dash_timed t (dt_samples x))"
proof -
  note small = dash_sized_small [OF z]
  note rows = trun_rows_entries [OF w small]
  obtain a b c where m: "w_bytes 68 (dash_moof 68 t x) =
      box_bytes ''moof'' (box_bytes ''mfhd'' a @ box_bytes ''traf'' (box_bytes ''tfhd'' b @ box_bytes ''tfdt'' c @ box_bytes ''trun'' (trun_body t (dt_samples x))))"
    "length a = 8" "length b = 8" "length c = 8"
    using dash_moof_bytes [OF w small] z by (auto simp: dash_sized_def)
  define D where "D = concat (map (mp4_data t) (butlast (dt_samples x)))"
  define R where "R = trun_body t (dt_samples x)"
  define n where "n = length (dt_samples x) - 1"
  have "length (dt_samples x) \<le> 10000" using z by (simp add: dash_sized_def)
  then have n: "n < 10000" using two unfolding n_def by linarith
  have R: "length R = 16 + 12 * n" using rows(3) by (simp add: R_def trun_body_def n_def)
  have D: "length D < 2 ^ 28"
  proof -
    have "D = take (length D) (concat (map (mp4_data t) (butlast (dt_samples x) @ [last (dt_samples x)])))" by (simp add: D_def)
    moreover have "butlast (dt_samples x) @ [last (dt_samples x)] = dt_samples x" using two by (intro append_butlast_last_id) auto
    ultimately have "length D \<le> length (concat (map (mp4_data t) (dt_samples x)))" by (metis length_take min.cobounded1)
    then show ?thesis using z by (simp add: dash_sized_def)
  qed
  define T where "T = box_bytes ''tfhd'' b @ box_bytes ''tfdt'' c @ box_bytes ''trun'' R"
  define M where "M = box_bytes ''mfhd'' a @ box_bytes ''traf'' T"
  have lT: "length T = 56 + 12 * n" and lM: "length M = 80 + 12 * n"
    using m(2-4) R by (simp_all add: T_def M_def length_box_bytes)
  obtain p where p: "w_bytes 0 WriteSegmentTypeBox = box_bytes ''styp'' p" "length p = 16"
    using dash_fixed_boxes(7) [of 0] by (simp add: WriteSegmentTypeBox_def length_box_bytes)
  obtain q where q: "w_bytes 24 (WriteSegmentIndexBox t x) = box_bytes ''sidx'' q" "length q = 36"
    using dash_fixed_boxes(8) [of 24 t x] by (simp add: WriteSegmentIndexBox_def Let_def length_box_bytes)
  define seg where "seg = w_list_bytes 0 (dash_file t x)"
  have seg: "seg = box_bytes ''styp'' p @ box_bytes ''sidx'' q @ box_bytes ''moof'' M @ box_bytes ''mdat'' D"
    using m(1) q(1) by (simp add: seg_def dash_file_def p(1) q(1) p(2) q(2) length_box_bytes mdat M_def T_def R_def D_def)
  have md: "mp4_boxes (box_bytes ''mdat'' D) = Some [(bs ''mdat'', D)]"
    using mp4_boxes_box [of "''mdat''" D "[]"] D by simp
  have l: "mp4_boxes seg = Some [(bs ''styp'', p), (bs ''sidx'', q), (bs ''moof'', M), (bs ''mdat'', D)]"
    using p(2) q(2) lM n by (simp add: seg mp4_boxes_box md)
  have lm: "mp4_boxes M = Some [(bs ''mfhd'', a), (bs ''traf'', T)]"
    using m(2) lT n mp4_boxes_box [of "''traf''" T "[]"] by (simp add: M_def mp4_boxes_box)
  have lt: "mp4_boxes T = Some [(bs ''tfhd'', b), (bs ''tfdt'', c), (bs ''trun'', R)]"
    using m(3,4) R n mp4_boxes_box [of "''trun''" R "[]"] by (simp add: T_def mp4_boxes_box)
  have f: "mp4_find [bs ''moof'', bs ''traf'', bs ''trun''] seg = Some R"
    by (simp add: l lm lt)
  have words: "be_words R = 0xB05 # n # (96 + 12 * n) # 0 # be_words (ops_bytes (trun_rows t (dt_samples x)))"
    using n by (simp add: R_def trun_body_def be_words_be n_def [symmetric] n_def [simplified, symmetric])
  have cut: "cut_chunk seg (164 + 12 * n) (map length (map (mp4_data t) (butlast (dt_samples x)))) = map (mp4_data t) (butlast (dt_samples x))"
  proof -
    define pre where "pre = box_bytes ''styp'' p @ box_bytes ''sidx'' q @ box_bytes ''moof'' M @ be 4 (8 + length D) @ bs ''mdat''"
    have "seg = pre @ concat (map (mp4_data t) (butlast (dt_samples x))) @ []" by (simp add: seg pre_def box_bytes_def D_def)
    moreover have "length pre = 164 + 12 * n" using p(2) q(2) lM by (simp add: pre_def length_box_bytes)
    ultimately show ?thesis using cut_chunk_exact [of pre "map (mp4_data t) (butlast (dt_samples x))" "[]"] by simp
  qed
  have sz: "map snd (trun_entries (be_words (ops_bytes (trun_rows t (dt_samples x))))) = map length (map (mp4_data t) (butlast (dt_samples x)))"
    unfolding rows(1) dash_timed_parts(1) [symmetric] by (simp add: comp_def split_beta)
  have du: "map fst (trun_entries (be_words (ops_bytes (trun_rows t (dt_samples x))))) = map snd (dash_timed t (dt_samples x))"
    unfolding rows(1) by (simp add: comp_def split_beta)
  have ln: "length (trun_entries (be_words (ops_bytes (trun_rows t (dt_samples x))))) = n"
    unfolding rows(1) by (simp add: dash_timed_parts(2) n_def)
  have zf: "zip (map (mp4_data t) (butlast (dt_samples x))) (map snd (dash_timed t (dt_samples x))) = dash_timed t (dt_samples x)"
    by (simp only: dash_timed_parts(1) [symmetric] zip_map_fst_snd)
  have pos: "box_pos (bs ''moof'') [(bs ''styp'', p), (bs ''sidx'', q), (bs ''moof'', M), (bs ''mdat'', D)] + (96 + 12 * n) = 164 + 12 * n"
    using p(2) q(2) by simp
  then show ?thesis
    unfolding dash_read_def seg_def [symmetric] l f option.map(2) words prod.case option.case list.case ln if_True refl
    by (simp only: pos sz du cut zf simp_thms if_True)
qed

definition dash_added :: "u8 \<Rightarrow> dash_track \<Rightarrow> dash_track" where
  \<comment> \<open>a track after a cut\<close>
  "dash_added t x =
     (if 1 < length (dt_samples x)
      then dash_add_segment (w_list_bytes 0 (dash_file t x)) (x\<lparr>dt_m4s := dash_evict (dt_m4s x)\<rparr>)
      else x)"

definition dash_ready :: "u8 \<Rightarrow> dash_track \<Rightarrow> bool" where
  "dash_ready t x \<longleftrightarrow> list_all (mp4_whole t) (dt_samples x) \<and> dash_sized t x \<and> unat (dash_left_size t x) \<le> length (dt_mdat x) \<and>
     take (length (dt_mdat x) - unat (dash_left_size t x)) (dt_mdat x) = concat (map (mp4_data t) (butlast (dt_samples x)))"

lemma d_update_simps [simp]:
  "d_track t (d_update t f d) = f (d_track t d)"
  "d_update t f (d_update t g d) = d_update t (\<lambda>x. f (g x)) d"
  "d_video (d_update kVideoPayload f d) = f (d_video d)" "d_audio (d_update kVideoPayload f d) = d_audio d"
  "d_audio (d_update kAudioPayload f d) = f (d_audio d)" "d_video (d_update kAudioPayload f d) = d_video d"
  "d_fault (d_update t f d) = d_fault d" "d_video_header (d_update t f d) = d_video_header d" "d_audio_header (d_update t f d) = d_audio_header d"
  "d_mpd (d_update t f d) = d_mpd d" "d_start_time (d_update t f d) = d_start_time d"
  "(d_update t f d)\<lparr>d_moof_offset := k\<rparr> = d_update t f (d\<lparr>d_moof_offset := k\<rparr>)"
  by (simp_all add: d_update_def d_track_def kinds)

lemma d_track_video [simp]: "d_track kVideoPayload d = d_video d" and d_track_audio [simp]: "d_track kAudioPayload d = d_audio d"
  by (simp_all add: d_track_def kinds)

lemma dash_file_m4s [simp]: "dash_file t (x\<lparr>dt_m4s := m\<rparr>) = dash_file t x"
  by (simp add: dash_file_def WriteSegmentIndexBox_def dash_left_size_def dash_moof_def WriteMovieFragmentHeaderBox_def
    WriteTrackFragmentBox_def WriteTrackFragmentRunBox_def WriteTrackFragmentDecodeTimeBox_def)

lemma dash_left_m4s [simp]: "dash_left_size t (x\<lparr>dt_m4s := m\<rparr>) = dash_left_size t x"
  by (simp add: dash_left_size_def)

lemma dash_flush_track:
  assumes "1 < length (dt_samples (d_track t d)) \<longrightarrow> dash_ready t (d_track t d)"
  shows "\<exists>k. dash_flush_track t d = d_update t (dash_added t) (d\<lparr>d_moof_offset := k\<rparr>)"
proof (cases "1 < length (dt_samples (d_track t d))")
  case True
  let ?d = "d_update t (\<lambda>x. x\<lparr>dt_m4s := dash_evict (dt_m4s x)\<rparr>) d"
  let ?x = "(d_track t d)\<lparr>dt_m4s := dash_evict (dt_m4s (d_track t d))\<rparr>"
  have "dash_write_segment t ?d = (w_list_bytes 0 (dash_file t ?x), ?d\<lparr>d_moof_offset := 68\<rparr>)"
    by (rule dash_write_segment) (use assms True in \<open>simp_all add: dash_ready_def dash_sized_def dash_left_m4s\<close>)
  then have "dash_flush_track t d = d_update t (dash_add_segment (w_list_bytes 0 (dash_file t (d_track t d))))
      (d_update t (\<lambda>x. x\<lparr>dt_m4s := dash_evict (dt_m4s x)\<rparr>) (d\<lparr>d_moof_offset := 68\<rparr>))"
    using True by (simp add: dash_flush_track_def Let_def)
  also have "\<dots> = d_update t (dash_added t) (d\<lparr>d_moof_offset := 68\<rparr>)"
    using True by (simp add: d_update_def dash_added_def d_track_def split: if_splits)
  finally show ?thesis by blast
next
  case False
  then have "dash_flush_track t d = d_update t (dash_added t) (d\<lparr>d_moof_offset := d_moof_offset d\<rparr>)"
    by (simp add: dash_flush_track_def d_update_def dash_added_def d_track_def split: if_splits)
  then show ?thesis by blast
qed

definition dash_inv :: "dash_muxer \<Rightarrow> bool" where
  "dash_inv d \<longleftrightarrow> \<not> d_fault d \<and>
     dt_mdat (d_video d) = concat (map (mp4_data kVideoPayload) (dt_samples (d_video d))) \<and> list_all (mp4_whole kVideoPayload) (dt_samples (d_video d)) \<and>
     dt_mdat (d_audio d) = concat (map (mp4_data kAudioPayload) (dt_samples (d_audio d))) \<and> list_all (mp4_whole kAudioPayload) (dt_samples (d_audio d))"

definition dash_room :: "dash_event \<Rightarrow> dash_muxer \<Rightarrow> bool" where
  \<comment> \<open>the payload has its bytes, and at a video frame no more than the buffers hold has come since the last cut\<close>
  "dash_room e d \<longleftrightarrow>
     (case e of
        DAudio p \<Rightarrow> mp4_whole kAudioPayload p
      | DVideo p \<Rightarrow> mp4_whole kVideoPayload p \<and> dash_sized kVideoPayload (d_video (dash_push kVideoPayload p d)) \<and>
          dash_sized kAudioPayload (d_audio d) \<and> length (d_video_header d) \<le> 100000
      | _ \<Rightarrow> True)"

lemma ready_video:
  assumes "dash_inv d" and "dash_room (DVideo p) d"
  shows "dash_ready kVideoPayload (d_video (dash_push kVideoPayload p d))"
  using assms by (simp add: dash_inv_def dash_room_def dash_ready_def dash_push_def dash_left_size_def kinds)

lemma ready_audio:
  assumes "dash_inv d" and "dash_sized kAudioPayload (d_audio d)"
    and two: "dt_samples (d_audio d) \<noteq> []"
  shows "dash_ready kAudioPayload (d_audio d)"
proof -
  define xs where "xs = dt_samples (d_audio d)"
  have x: "xs = butlast xs @ [last xs]" using two by (simp add: xs_def)
  then have w: "mp4_whole kAudioPayload (last xs)" using assms(1) unfolding dash_inv_def xs_def [symmetric] by (metis list_all_append list.pred_inject(2))
  have l: "unat (dash_left_size kAudioPayload (d_audio d)) = length (mp4_data kAudioPayload (last xs))"
    using mp4_data_length [OF w] by (simp add: dash_left_size_def xs_def mp4_len_def kinds)
  have m: "dt_mdat (d_audio d) = concat (map (mp4_data kAudioPayload) (butlast xs)) @ mp4_data kAudioPayload (last xs)"
  proof -
    have "dt_mdat (d_audio d) = concat (map (mp4_data kAudioPayload) xs)" using assms(1) by (simp add: dash_inv_def xs_def)
    also have "\<dots> = concat (map (mp4_data kAudioPayload) (butlast xs @ [last xs]))" using x by simp
    finally show ?thesis by simp
  qed
  have "list_all (mp4_whole kAudioPayload) xs" using assms(1) by (simp add: dash_inv_def xs_def)
  then show ?thesis using assms(2) unfolding dash_ready_def xs_def [symmetric] l m by simp
qed

lemma dash_init_fine:
  assumes "t = kVideoPayload \<or> t = kAudioPayload" and "length (d_video_header d) \<le> 100000"
  shows "\<not> bw_fault (dash_init_mp4 env t d)"
proof -
  define m where "m = (if t = kVideoPayload then mp4_on_video_header (d_video_header d) (SetSegment True (mp4_new (fst (de_offsets env)) (snd (de_offsets env))))
     else mp4_on_audio_header (d_audio_header d) (SetSegment True (mp4_new (fst (de_offsets env)) (snd (de_offsets env)))))"
  define xs where "xs = [WriteFileTypeBox m, mp4_segment_moov (de_mp4 env) m t]"
  have m: "m4_segment m" "m4_video_samples m = []" "m4_audio_samples m = []" "m4_chunk m = []" "m4_video_chunk_offset m = []" "m4_audio_chunk_offset m = []"
    "length (m4_video_header m) \<le> 100000"
    using assms(2) by (auto simp: m_def mp4_on_video_header_def mp4_on_audio_header_def SetSegment_def mp4_new_def)
  have ok: "list_all w_ok xs"
    by (simp add: xs_def mp4_segment_moov_def WriteFileTypeBox_def trak_ok WriteMovieHeaderBox_def WriteMovieExtendsBox_def WriteMovieExtendsHeaderBox_def
      WriteTrackExtendsBox_def Let_def ops_ok_bytes list_all_replicate)
  have plain: "list_all w_plain xs" by (simp add: xs_def mp4_boxes_defs Let_def split_beta)
  have "w_size (mp4_segment_moov (de_mp4 env) m t) \<le> 1000 + 100000"
    using trak_size [of "de_mp4 env" m t] m
    by (simp add: mp4_segment_moov_def WriteMovieHeaderBox_def WriteMovieExtendsBox_def WriteTrackExtendsBox_def Let_def m4_samples_def
      m4_chunk_offsets_def sum_list_replicate split: if_splits)
  then have len: "length (w_list_bytes 0 xs) \<le> 262144"
    using m(1) by (simp add: length_w_list [OF ok plain]) (simp add: xs_def WriteFileTypeBox_def)
  define s where "s = bw_new 262144"
  have s: "w_ready s" "bw_pos s = 0" "bw_len s = 8 * 262144" "bw_fault s = False" "bw_size_in_bytes s = 0"
    using w_ready_new by (simp_all only: s_def) (simp_all add: bw_new_def bw_size_in_bytes_def)
  have "w_after s (w_list_bytes 0 xs) (w_execs xs s)"
    using appendsD [OF w_execs_appends [OF ok] s(1)] s len by simp
  then have "\<not> bw_fault (w_execs xs s)" using s by (simp add: w_after_def)
  moreover have "dash_init_mp4 env t d = w_execs xs s"
    unfolding dash_init_mp4_def Let_def m_def [symmetric] xs_def s_def by simp
  ultimately show ?thesis by simp
qed

fun dash_new_frames :: "u8 \<Rightarrow> dash_event \<Rightarrow> payload list" where
  "dash_new_frames t (DVideo p) = (if t = kVideoPayload then [p] else [])"
| "dash_new_frames t (DAudio p) = (if t = kVideoPayload then [] else [p])"
| "dash_new_frames t _ = []"

definition dash_kept :: "u8 \<Rightarrow> payload list \<Rightarrow> dash_track \<Rightarrow> dash_track \<Rightarrow> bool" where
  \<comment> \<open>the track \<open>x\<close> got new samples\<close>
  "dash_kept t new x x' \<longleftrightarrow> dt_samples x' = dt_samples x @ new \<and> dt_sequence x' = dt_sequence x \<and> dt_m4s x' = dt_m4s x \<and>
     dt_mpd_info x' = dt_mpd_info x"

definition dash_cut :: "u8 \<Rightarrow> payload list \<Rightarrow> dash_track \<Rightarrow> dash_track \<Rightarrow> bool" where
  \<comment> \<open>the samples and the new ones, but for the last, became a segment\<close>
  "dash_cut t new x x' \<longleftrightarrow>
     (\<exists>y. dt_samples y = dt_samples x @ new \<and> dt_sequence y = dt_sequence x \<and> dt_m4s y = dt_m4s x \<and> dt_mpd_info y = dt_mpd_info x \<and>
        1 < length (dt_samples y) \<and> dash_ready t y \<and> dt_samples x' = [last (dt_samples y)] \<and>
        dt_sequence x' = dt_sequence (dash_added t y) \<and> dt_m4s x' = dt_m4s (dash_added t y) \<and> dt_mpd_info x' = dt_mpd_info (dash_added t y))"

lemma dash_append_whole:
  assumes "mp4_whole t p"
  shows "dash_append t (mp4_source t p) (mp4_len t p) d = d_update t (\<lambda>x. x\<lparr>dt_mdat := dt_mdat x @ mp4_data t p\<rparr>) d"
  using assms by (auto simp: mp4_whole_def dash_append_def mp4_data_def split: option.splits)

lemma dash_added_fields [simp]: "dt_samples (dash_added t x) = dt_samples x" "dt_mdat (dash_added t x) = dt_mdat x"
  by (simp_all add: dash_added_def dash_add_segment_def Let_def)

lemma dash_update_init_tracks:
  assumes "t = kVideoPayload \<or> t = kAudioPayload" and "length (d_video_header d) \<le> 100000"
  shows "\<exists>f. dash_update_init env t d = d_update t (\<lambda>x. x\<lparr>dt_init_mp4 := f (dt_init_mp4 x)\<rparr>) d"
proof (cases "1 < length (dt_samples (d_track t d))")
  case True
  then have "dash_update_init env t d = d_update t (\<lambda>x. x\<lparr>dt_init_mp4 := bw_data (dash_init_mp4 env t d)\<rparr>) d"
    using dash_init_fine [OF assms, of env] by (simp add: dash_update_init_def Let_def d_update_def)
  then show ?thesis by (intro exI [of _ "\<lambda>_. bw_data (dash_init_mp4 env t d)"])
next
  case False
  then have "dash_update_init env t d = d_update t (\<lambda>x. x\<lparr>dt_init_mp4 := dt_init_mp4 x\<rparr>) d"
    by (simp add: dash_update_init_def d_update_def)
  then show ?thesis by (intro exI [of _ "\<lambda>x. x"])
qed

lemma dash_flush_cut:
  assumes v: "dash_ready kVideoPayload (d_video d)" and a: "dt_samples (d_audio d) \<noteq> [] \<longrightarrow> dash_ready kAudioPayload (d_audio d)"
    and h: "length (d_video_header d) \<le> 100000" and f: "dash_flush d = (True, e)" and ne: "dt_samples (d_video d) \<noteq> []" and nf: "\<not> d_fault d"
  shows "1 < length (dt_samples (d_video d))" 
    and "\<exists>f g mpd k. UpdateMpd env (UpdateInitMp4 env e) =
      (d_update kAudioPayload (\<lambda>x. (dash_added kAudioPayload x)\<lparr>dt_init_mp4 := f (dt_init_mp4 x)\<rparr>)
        (d_update kVideoPayload (\<lambda>x. (dash_added kVideoPayload x)\<lparr>dt_init_mp4 := g (dt_init_mp4 x)\<rparr>) d))\<lparr>d_moof_offset := k, d_mpd := mpd\<rparr>"
proof -
  show "1 < length (dt_samples (d_video d))"
  proof (rule ccontr)
    assume "\<not> 1 < length (dt_samples (d_video d))"
    then obtain p where "dt_samples (d_video d) = [p]" using ne by (cases "dt_samples (d_video d)") auto
    then show False using f by (simp add: dash_flush_def Let_def DASH_FRAGMENT_DURATION_def)
  qed
  have e: "e = dash_flush_track kAudioPayload (dash_flush_track kVideoPayload d)"
    using f by (simp add: dash_flush_def Let_def split: if_splits)
  obtain k where k: "dash_flush_track kVideoPayload d = d_update kVideoPayload (dash_added kVideoPayload) (d\<lparr>d_moof_offset := k\<rparr>)"
    using dash_flush_track [of kVideoPayload d] v by auto
  define D where "D = d_update kVideoPayload (dash_added kVideoPayload) (d\<lparr>d_moof_offset := k\<rparr>)"
  have "d_audio D = d_audio d" by (simp add: D_def)
  then have "1 < length (dt_samples (d_track kAudioPayload D)) \<longrightarrow> dash_ready kAudioPayload (d_track kAudioPayload D)" using a by auto
  from dash_flush_track [OF this] obtain j where "dash_flush_track kAudioPayload D = d_update kAudioPayload (dash_added kAudioPayload) (D\<lparr>d_moof_offset := j\<rparr>)"
    by blast
  then have j: "e = d_update kAudioPayload (dash_added kAudioPayload) (d_update kVideoPayload (dash_added kVideoPayload) (d\<lparr>d_moof_offset := j\<rparr>))"
    by (simp add: e k flip: D_def) (simp add: D_def)
  have h1: "length (d_video_header e) \<le> 100000" using h by (simp add: j)
  obtain g where g: "dash_update_init env kVideoPayload e = d_update kVideoPayload (\<lambda>x. x\<lparr>dt_init_mp4 := g (dt_init_mp4 x)\<rparr>) e"
    using dash_update_init_tracks [OF _ h1] by blast
  have h2: "length (d_video_header (dash_update_init env kVideoPayload e)) \<le> 100000" using h1 by (simp add: g)
  obtain f' where f': "UpdateInitMp4 env e = d_update kAudioPayload (\<lambda>x. x\<lparr>dt_init_mp4 := f' (dt_init_mp4 x)\<rparr>) (dash_update_init env kVideoPayload e)"
    using dash_update_init_tracks [OF _ h2] unfolding UpdateInitMp4_def by blast
  have i: "dt_init_mp4 (dash_added t x) = dt_init_mp4 x" for t x by (simp add: dash_added_def dash_add_segment_def Let_def)
  have "\<exists>mpd. UpdateMpd env D = D\<lparr>d_mpd := mpd\<rparr>" for D
    by (cases D) (auto simp: UpdateMpd_def)
  then obtain mpd where m: "UpdateMpd env (UpdateInitMp4 env e) = (UpdateInitMp4 env e)\<lparr>d_mpd := mpd\<rparr>" by blast
  have "UpdateMpd env (UpdateInitMp4 env e) =
      (d_update kAudioPayload (\<lambda>x. (dash_added kAudioPayload x)\<lparr>dt_init_mp4 := f' (dt_init_mp4 x)\<rparr>)
        (d_update kVideoPayload (\<lambda>x. (dash_added kVideoPayload x)\<lparr>dt_init_mp4 := g (dt_init_mp4 x)\<rparr>) d))\<lparr>d_moof_offset := j, d_mpd := mpd\<rparr>"
    unfolding m unfolding f' g unfolding j by (simp add: d_update_def i kinds)
  then show "\<exists>f g mpd k. UpdateMpd env (UpdateInitMp4 env e) =
      (d_update kAudioPayload (\<lambda>x. (dash_added kAudioPayload x)\<lparr>dt_init_mp4 := f (dt_init_mp4 x)\<rparr>)
        (d_update kVideoPayload (\<lambda>x. (dash_added kVideoPayload x)\<lparr>dt_init_mp4 := g (dt_init_mp4 x)\<rparr>) d))\<lparr>d_moof_offset := k, d_mpd := mpd\<rparr>"
    by blast
qed

definition dash_moved :: "u8 \<Rightarrow> payload list \<Rightarrow> dash_track \<Rightarrow> dash_track \<Rightarrow> bool" where
  "dash_moved t new x x' \<longleftrightarrow> dash_kept t new x x' \<or> dash_cut t new x x'"

lemma dash_drop_kept:
  assumes "xs \<noteq> []" and "mp4_whole kAudioPayload (last xs)" and "m = concat (map (mp4_data kAudioPayload) xs)"
  shows "unat (pl_raw_len (last xs)) \<le> length m" and "drop (length m - unat (pl_raw_len (last xs))) m = mp4_data kAudioPayload (last xs)"
proof -
  have l: "unat (pl_raw_len (last xs)) = length (mp4_data kAudioPayload (last xs))"
    using mp4_data_length [OF assms(2)] by (simp add: mp4_len_def kinds)
  have "m = concat (map (mp4_data kAudioPayload) (butlast xs @ [last xs]))" using assms(1,3) by simp
  then have "m = concat (map (mp4_data kAudioPayload) (butlast xs)) @ mp4_data kAudioPayload (last xs)" by simp
  then show "unat (pl_raw_len (last xs)) \<le> length m" and "drop (length m - unat (pl_raw_len (last xs))) m = mp4_data kAudioPayload (last xs)"
    unfolding l by simp_all
qed

lemma dash_video_step:
  assumes i: "dash_inv d" and r: "dash_room (DVideo p) d"
  shows "dash_inv (dash_on_video env p d)" and "dash_moved kVideoPayload [p] (d_video d) (d_video (dash_on_video env p d))"
    and "dash_moved kAudioPayload [] (d_audio d) (d_audio (dash_on_video env p d))"
proof -
  have w: "mp4_whole kVideoPayload p" and h: "length (d_video_header d) \<le> 100000" and za: "dash_sized kAudioPayload (d_audio d)"
    using r by (simp_all add: dash_room_def)
  have ap: "dash_append kVideoPayload (pl_data p) (pl_len p) D = d_update kVideoPayload (\<lambda>x. x\<lparr>dt_mdat := dt_mdat x @ mp4_data kVideoPayload p\<rparr>) D" for D
    using dash_append_whole [OF w] by (simp add: mp4_source_def mp4_len_def)
  define D where "D = dash_push kVideoPayload p d"
  have D: "d_audio D = d_audio d" "dt_samples (d_video D) = dt_samples (d_video d) @ [p]" "dt_mdat (d_video D) = dt_mdat (d_video d)"
    "dt_sequence (d_video D) = dt_sequence (d_video d)" "dt_m4s (d_video D) = dt_m4s (d_video d)" "dt_mpd_info (d_video D) = dt_mpd_info (d_video d)"
    "d_fault D = d_fault d" "d_video_header D = d_video_header d"
    by (simp_all add: D_def dash_push_def)
  note inv = i [unfolded dash_inv_def]
  have "dash_inv (dash_on_video env p d) \<and> dash_moved kVideoPayload [p] (d_video d) (d_video (dash_on_video env p d)) \<and>
    dash_moved kAudioPayload [] (d_audio d) (d_audio (dash_on_video env p d))"
  proof (cases "pl_is_iframe p \<and> fst (dash_flush D)")
    case False
    have "snd (dash_flush D) = D" if "\<not> fst (dash_flush D)" using that by (auto simp: dash_flush_def Let_def split: if_splits)
    then have e: "dash_on_video env p d = dash_append kVideoPayload (pl_data p) (pl_len p) D"
      using False by (auto simp: dash_on_video_def D_def [symmetric] Let_def split_beta)
    show ?thesis unfolding e ap using D inv w by (simp add: dash_inv_def dash_moved_def dash_kept_def)
  next
    case True
    then obtain E where E: "dash_flush D = (True, E)" by (cases "dash_flush D") auto
    have rv: "dash_ready kVideoPayload (d_video D)" unfolding D_def by (rule ready_video [OF i r])
    have ra: "dt_samples (d_audio D) \<noteq> [] \<longrightarrow> dash_ready kAudioPayload (d_audio D)" using ready_audio [OF i za] D by simp
    have ne: "dt_samples (d_video D) \<noteq> []" using D by simp
    have nf: "\<not> d_fault D" using inv D by simp
    have hD: "length (d_video_header D) \<le> 100000" using h D by simp
    note c = dash_flush_cut(1) [OF rv ra hD E ne nf] dash_flush_cut(2) [OF rv ra hD E ne nf, of env]
    have two: "1 < length (dt_samples (d_video D))" by (rule c(1))
    obtain f g mpd k where u: "UpdateMpd env (UpdateInitMp4 env E) =
      (d_update kAudioPayload (\<lambda>x. (dash_added kAudioPayload x)\<lparr>dt_init_mp4 := f (dt_init_mp4 x)\<rparr>)
        (d_update kVideoPayload (\<lambda>x. (dash_added kVideoPayload x)\<lparr>dt_init_mp4 := g (dt_init_mp4 x)\<rparr>) D))\<lparr>d_moof_offset := k, d_mpd := mpd\<rparr>"
      using c(2) by auto
    define U where "U = UpdateMpd env (UpdateInitMp4 env E)"
    have V: "d_video U = (dash_added kVideoPayload (d_video D))\<lparr>dt_init_mp4 := g (dt_init_mp4 (d_video D))\<rparr>"
      and A: "d_audio U = (dash_added kAudioPayload (d_audio d))\<lparr>dt_init_mp4 := f (dt_init_mp4 (d_audio d))\<rparr>" and F: "\<not> d_fault U"
      using nf D by (simp_all add: U_def u d_update_def kinds)
    have e: "dash_on_video env p d = dash_append kVideoPayload (pl_data p) (pl_len p) (dash_reset U)"
      using True E by (simp add: dash_on_video_def D_def [symmetric] U_def Let_def)
    define N where "N = d_update kVideoPayload (\<lambda>x. x\<lparr>dt_mdat := dt_mdat x @ mp4_data kVideoPayload p\<rparr>) (dash_reset U)"
    have NV: "d_video N = (d_video U)\<lparr>dt_mdat := mp4_data kVideoPayload p, dt_samples := [p]\<rparr>"
      using D by (simp add: N_def dash_reset_def Let_def V)
    have "dash_cut kVideoPayload [p] (d_video d) (d_video N)"
      unfolding dash_cut_def by (rule exI [of _ "d_video D"]) (use D two rv in \<open>simp add: NV V\<close>)
    moreover have NA: "dash_moved kAudioPayload [] (d_audio d) (d_audio N) \<and> dt_mdat (d_audio N) = concat (map (mp4_data kAudioPayload) (dt_samples (d_audio N)))
       \<and> list_all (mp4_whole kAudioPayload) (dt_samples (d_audio N))"
    proof (cases "dt_samples (d_audio d) = []")
      case True
      then have "dt_samples (d_audio N) = []" "dt_mdat (d_audio N) = []" "dt_sequence (d_audio N) = dt_sequence (d_audio d)"
        "dt_m4s (d_audio N) = dt_m4s (d_audio d)" "dt_mpd_info (d_audio N) = dt_mpd_info (d_audio d)"
        using inv by (simp_all add: N_def dash_reset_def Let_def A dash_added_def)
      then show ?thesis using True by (simp add: dash_moved_def dash_kept_def)
    next
      case False
      have wl: "mp4_whole kAudioPayload (last (dt_samples (d_audio d)))" using inv False by (metis last_in_set list_all_iff)
      note k = dash_drop_kept [OF False wl, of "dt_mdat (d_audio d)"]
      have na: "d_audio N = (d_audio U)\<lparr>dt_samples := [last (dt_samples (d_audio d))], dt_mdat := mp4_data kAudioPayload (last (dt_samples (d_audio d)))\<rparr>"
        using False k inv by (simp add: N_def dash_reset_def Let_def A)
      show ?thesis
      proof (cases "1 < length (dt_samples (d_audio d))")
        case True
        have "dash_cut kAudioPayload [] (d_audio d) (d_audio N)"
          unfolding dash_cut_def by (rule exI [of _ "d_audio d"]) (use True ra D False in \<open>simp add: na A\<close>)
        then show ?thesis using wl by (simp add: dash_moved_def na)
      next
        case F: False
        then have "dt_samples (d_audio d) = [last (dt_samples (d_audio d))]" using False by (cases "dt_samples (d_audio d)") auto
        then have "dash_kept kAudioPayload [] (d_audio d) (d_audio N)" using F by (simp add: dash_kept_def na A dash_added_def)
        then show ?thesis using wl by (simp add: dash_moved_def na)
      qed
    qed
    moreover have "\<not> d_fault N" using F by (simp add: N_def dash_reset_def Let_def)
    ultimately show ?thesis unfolding e ap N_def [symmetric] using w by (simp add: dash_inv_def dash_moved_def NV)
  qed
  then show "dash_inv (dash_on_video env p d)" and "dash_moved kVideoPayload [p] (d_video d) (d_video (dash_on_video env p d))"
    and "dash_moved kAudioPayload [] (d_audio d) (d_audio (dash_on_video env p d))" by simp_all
qed

lemma dash_step_moved:
  assumes i: "dash_inv d" and r: "dash_room e d" and t: "t = kVideoPayload \<or> t = kAudioPayload"
  shows "dash_inv (dash_step env e d) \<and> dash_moved t (dash_new_frames t e) (d_track t d) (d_track t (dash_step env e d))"
proof (cases e)
  case (DVideo p)
  then show ?thesis using dash_video_step [OF i, of p env] r t by (auto simp: kinds)
next
  case (DAudio p)
  have w: "mp4_whole kAudioPayload p" using r DAudio by (simp add: dash_room_def)
  have e: "dash_on_audio p d = d_update kAudioPayload (\<lambda>x. x\<lparr>dt_mdat := dt_mdat x @ mp4_data kAudioPayload p\<rparr>) (dash_push kAudioPayload p d)"
    using dash_append_whole [OF w, of "dash_push kAudioPayload p d"] by (simp add: dash_on_audio_def mp4_source_def mp4_len_def kinds)
  show ?thesis using DAudio i w t by (auto simp: e dash_push_def dash_inv_def dash_moved_def dash_kept_def kinds)
next
  case (DVideoHeader h)
  then show ?thesis using i t by (auto simp: dash_on_video_header_def dash_inv_def dash_moved_def dash_kept_def d_track_def)
next
  case (DAudioHeader h)
  then show ?thesis using i t by (auto simp: dash_on_audio_header_def dash_inv_def dash_moved_def dash_kept_def d_track_def)
qed

definition dash_run :: "dash_env \<Rightarrow> dash_event list \<Rightarrow> dash_muxer \<Rightarrow> dash_muxer" where
  "dash_run env es d = fold (dash_step env) es d"

fun dash_fits :: "dash_env \<Rightarrow> dash_event list \<Rightarrow> dash_muxer \<Rightarrow> bool" where
  "dash_fits env [] d \<longleftrightarrow> True"
| "dash_fits env (e # es) d \<longleftrightarrow> dash_room e d \<and> dash_fits env es (dash_step env e d)"

definition dash_newest :: "u8 \<Rightarrow> dash_muxer \<Rightarrow> bytes option" where
  \<comment> \<open>the segment at the start time of the newest manifest entry\<close>
  "dash_newest t d = GetM4s t (ucast (mi_start_time (mpd_entry (d_track t d) 1))) d"

fun dash_segments :: "dash_env \<Rightarrow> u8 \<Rightarrow> dash_event list \<Rightarrow> dash_muxer \<Rightarrow> bytes option list" where
  \<comment> \<open>what a client gets that asks for each segment of a track when it is cut\<close>
  "dash_segments env t [] d = []"
| "dash_segments env t (e # es) d =
     (let d1 = dash_step env e d
      in (if dt_sequence (d_track t d1) = dt_sequence (d_track t d) then [] else [dash_newest t d1]) @ dash_segments env t es d1)"

definition dash_frames :: "u8 \<Rightarrow> dash_event list \<Rightarrow> payload list" where
  "dash_frames t es = concat (map (dash_new_frames t) es)"

lemma dash_timed_append: "xs \<noteq> [] \<Longrightarrow> dash_timed t xs @ dash_timed t (last xs # ys) = dash_timed t (xs @ ys)"
proof (induction t xs rule: dash_timed.induct)
  case (1 t a b xs)
  then show ?case by simp
qed simp_all

lemma dash_cut_segment:
  assumes "dash_cut t new (d_track t d) (d_track t d')" and t: "t = kVideoPayload \<or> t = kAudioPayload"
  shows "dt_sequence (d_track t d') = dt_sequence (d_track t d) + 1"
    and "\<exists>seg. dash_newest t d' = Some seg \<and> dash_read seg = Some (dash_timed t (dt_samples (d_track t d) @ new)) \<and>
      dt_m4s (d_track t d') = sm_put (ucast (pl_dts32 (hd (dt_samples (d_track t d) @ new)))) seg (dash_evict (dt_m4s (d_track t d)))"
    and "dt_samples (d_track t d') = [last (dt_samples (d_track t d) @ new)]" and "1 < length (dt_samples (d_track t d) @ new)"
    and "dt_mpd_info (d_track t d') = sm_put (ucast (dt_sequence (d_track t d)))
      \<lparr>mi_start_time = pl_dts32 (hd (dt_samples (d_track t d) @ new)),
       mi_duration = ucast (pl_dts (last (dt_samples (d_track t d) @ new)) - pl_dts (hd (dt_samples (d_track t d) @ new)))\<rparr> (dt_mpd_info (d_track t d))"
proof -
  obtain y where y: "dt_samples y = dt_samples (d_track t d) @ new" "dt_sequence y = dt_sequence (d_track t d)" "dt_m4s y = dt_m4s (d_track t d)"
    "dt_mpd_info y = dt_mpd_info (d_track t d)" "1 < length (dt_samples y)" "dash_ready t y" "dt_samples (d_track t d') = [last (dt_samples y)]"
    "dt_sequence (d_track t d') = dt_sequence (dash_added t y)" "dt_m4s (d_track t d') = dt_m4s (dash_added t y)"
    "dt_mpd_info (d_track t d') = dt_mpd_info (dash_added t y)"
    using assms(1) unfolding dash_cut_def by auto
  define seg where "seg = w_list_bytes 0 (dash_file t y)"
  have a: "dash_added t y = dash_add_segment seg (y\<lparr>dt_m4s := dash_evict (dt_m4s y)\<rparr>)"
    using y(5) by (simp add: dash_added_def seg_def)
  show s: "dt_sequence (d_track t d') = dt_sequence (d_track t d) + 1"
    using y by (simp add: a dash_add_segment_def Let_def)
  have m: "dt_m4s (d_track t d') = sm_put (ucast (pl_dts32 (hd (dt_samples (d_track t d) @ new)))) seg (dash_evict (dt_m4s (d_track t d)))"
    using y by (simp add: a dash_add_segment_def Let_def)
  show i: "dt_mpd_info (d_track t d') = sm_put (ucast (dt_sequence (d_track t d)))
      \<lparr>mi_start_time = pl_dts32 (hd (dt_samples (d_track t d) @ new)),
       mi_duration = ucast (pl_dts (last (dt_samples (d_track t d) @ new)) - pl_dts (hd (dt_samples (d_track t d) @ new)))\<rparr> (dt_mpd_info (d_track t d))"
    using y by (simp add: a dash_add_segment_def Let_def)
  have "dash_newest t d' = Some seg"
    by (simp add: dash_newest_def GetM4s_def mpd_entry_def s i m sm_simps)
  moreover have "dash_read seg = Some (dash_timed t (dt_samples (d_track t d) @ new))"
    unfolding seg_def y(1) [symmetric] by (rule dash_file_read) (use y in \<open>simp_all add: dash_ready_def\<close>)
  ultimately show "\<exists>seg. dash_newest t d' = Some seg \<and> dash_read seg = Some (dash_timed t (dt_samples (d_track t d) @ new)) \<and>
      dt_m4s (d_track t d') = sm_put (ucast (pl_dts32 (hd (dt_samples (d_track t d) @ new)))) seg (dash_evict (dt_m4s (d_track t d)))"
    using m by blast
  show "dt_samples (d_track t d') = [last (dt_samples (d_track t d) @ new)]" and "1 < length (dt_samples (d_track t d) @ new)"
    using y by simp_all
qed

definition dash_due :: "payload list \<Rightarrow> dash_event \<Rightarrow> bool" where
  \<comment> \<open>a key frame, five seconds behind the first waiting video frame\<close>
  "dash_due v e =
     (case e of
        DVideo p \<Rightarrow> pl_is_iframe p \<and> 5000 \<le> sint (ucast (pl_dts p - pl_dts (hd (v @ [p]))) :: u32)
      | _ \<Rightarrow> False)"

fun dash_groups :: "u8 \<Rightarrow> payload list \<Rightarrow> payload list \<Rightarrow> dash_event list \<Rightarrow> payload list list \<times> payload list" where
  \<comment> \<open>where a track is to be cut: \<open>v\<close> are the video frames since the last cut, \<open>w\<close> the frames of the track;
    each group ends with the frame that starts the next one\<close>
  "dash_groups t v w [] = ([], w)"
| "dash_groups t v w (e # es) =
     (let v1 = v @ dash_new_frames kVideoPayload e; w1 = w @ dash_new_frames t e
      in if dash_due v e
         then
           (let (groups, waiting) = dash_groups t (drop (length v1 - 1) v1) (drop (length w1 - 1) w1) es
            in (if 1 < length w1 then w1 # groups else groups, waiting))
         else dash_groups t v1 w1 es)"

lemma drop_to_last: "drop (length xs - Suc 0) xs = (if xs = [] then [] else [last xs])"
  by (cases xs rule: rev_cases) simp_all

lemma dash_append_samples [simp]: "dt_samples (d_track t (dash_append k q n d)) = dt_samples (d_track t d)"
  by (simp add: dash_append_def d_update_def d_track_def split: option.split)

lemma dash_update_init_samples [simp]: "dt_samples (d_track t (dash_update_init env k d)) = dt_samples (d_track t d)"
  by (simp add: dash_update_init_def d_update_def d_track_def Let_def)

lemma UpdateInitMp4_samples [simp]: "dt_samples (d_track t (UpdateInitMp4 env d)) = dt_samples (d_track t d)"
  by (simp add: UpdateInitMp4_def)

lemma UpdateMpd_track [simp]: "d_track t (UpdateMpd env d) = d_track t d"
  by (simp add: UpdateMpd_def d_track_def)

lemma dash_flush_track_samples [simp]: "dt_samples (d_track t (dash_flush_track k d)) = dt_samples (d_track t d)"
  by (simp add: dash_flush_track_def dash_write_segment_def WriteMovieFragmentBox_def dash_add_segment_def Let_def split_beta d_update_def d_track_def)

lemma dash_reset_samples: "dt_samples (d_track t (dash_reset d)) = drop (length (dt_samples (d_track t d)) - 1) (dt_samples (d_track t d))"
  by (simp add: dash_reset_def Let_def d_track_def drop_to_last)

lemma dash_push_samples: "dt_samples (d_track t (dash_push k p d)) = dt_samples (d_track t d) @ (if (t = kVideoPayload) = (k = kVideoPayload) then [p] else [])"
  by (simp add: dash_push_def d_track_def d_update_def)

lemma dash_step_samples:
  assumes t: "t = kVideoPayload \<or> t = kAudioPayload"
  shows "dt_samples (d_track t (dash_step env e d)) =
    (let w = dt_samples (d_track t d) @ dash_new_frames t e in if dash_due (dt_samples (d_video d)) e then drop (length w - 1) w else w)"
proof (cases e)
  case (DVideo p)
  define d1 where "d1 = dash_push kVideoPayload p d"
  have v: "dt_samples (d_video d1) = dt_samples (d_video d) @ [p]" by (simp add: d1_def dash_push_def)
  have w: "dt_samples (d_track t d1) = dt_samples (d_track t d) @ dash_new_frames t e"
    using t DVideo by (auto simp: d1_def dash_push_samples kinds)
  have f: "pl_is_iframe p \<Longrightarrow> fst (dash_flush d1) \<longleftrightarrow> dash_due (dt_samples (d_video d)) e"
    by (simp add: dash_flush_def dash_due_def v DVideo Let_def DASH_FRAGMENT_DURATION_def not_less)
  have g: "dt_samples (d_track t (snd (dash_flush d1))) = dt_samples (d_track t d1)"
    by (simp add: dash_flush_def Let_def)
  have n: "\<not> pl_is_iframe p \<Longrightarrow> \<not> dash_due (dt_samples (d_video d)) e" by (simp add: dash_due_def DVideo)
  show ?thesis
    unfolding w [symmetric] Let_def using f g n
    by (simp add: DVideo dash_on_video_def dash_reset_samples split_beta flip: d1_def)
next
  case (DAudio p)
  have "dt_samples (d_track t (dash_on_audio p d)) = dt_samples (d_track t d) @ dash_new_frames t e"
    by (simp add: DAudio dash_on_audio_def dash_push_samples kinds)
  then show ?thesis by (simp add: DAudio dash_due_def)
next
  case (DVideoHeader h)
  then show ?thesis using t by (elim disjE) (simp_all add: dash_due_def dash_on_video_header_def d_track_def)
next
  case (DAudioHeader h)
  then show ?thesis using t by (elim disjE) (simp_all add: dash_due_def dash_on_audio_header_def d_track_def)
qed

lemma dash_step_cases:
  assumes "dash_inv d" and "dash_room e d" and t: "t = kVideoPayload \<or> t = kAudioPayload"
    and w: "w = dt_samples (d_track t d) @ dash_new_frames t e"
  shows "if dash_due (dt_samples (d_video d)) e \<and> 1 < length w
    then dash_cut t (dash_new_frames t e) (d_track t d) (d_track t (dash_step env e d))
    else dash_kept t (dash_new_frames t e) (d_track t d) (d_track t (dash_step env e d))"
proof -
  define x x' where "x = d_track t d" and "x' = d_track t (dash_step env e d)"
  have s: "dt_samples x' = (if dash_due (dt_samples (d_video d)) e then drop (length w - 1) w else w)"
    using dash_step_samples [OF t, of env e d] by (simp only: w x'_def Let_def)
  have m: "dash_kept t (dash_new_frames t e) x x' \<or> dash_cut t (dash_new_frames t e) x x'"
    using dash_step_moved [OF assms(1-3), of env] by (simp only: dash_moved_def x_def x'_def)
  have k: "dash_kept t (dash_new_frames t e) x x' \<Longrightarrow> dt_samples x' = w" by (simp only: dash_kept_def w x_def)
  have c: "dash_cut t (dash_new_frames t e) x x' \<Longrightarrow> dt_samples x' = [last w] \<and> 1 < length w"
    by (auto simp only: dash_cut_def w x_def)
  show ?thesis
  proof (cases "dash_due (dt_samples (d_video d)) e \<and> 1 < length w")
    case True
    then have "length (dt_samples x') \<noteq> length w" using s by simp
    then show ?thesis using True m k by (simp flip: x_def x'_def) blast
  next
    case False
    then have "dt_samples x' = w" using s by (simp split: if_splits)
    then have "\<not> dash_cut t (dash_new_frames t e) x x'" using c by (cases w) auto
    then show ?thesis using False m by (simp only: flip: x_def x'_def) simp
  qed
qed

lemma dash_segments_groups:
  assumes "dash_inv d" and "dash_fits env es d" and t: "t = kVideoPayload \<or> t = kAudioPayload"
    and "dash_groups t (dt_samples (d_video d)) (dt_samples (d_track t d)) es = (groups, waiting)"
  shows "dash_inv (dash_run env es d) \<and>
    map (\<lambda>s. case s of None \<Rightarrow> None | Some b \<Rightarrow> dash_read b) (dash_segments env t es d) = map (\<lambda>g. Some (dash_timed t g)) groups \<and>
    dt_samples (d_track t (dash_run env es d)) = waiting \<and>
    concat (map (dash_timed t) groups) @ dash_timed t waiting = dash_timed t (dt_samples (d_track t d) @ dash_frames t es)"
  using assms(1,2,4)
proof (induction es arbitrary: d groups)
  case (Cons e es)
  define d1 where "d1 = dash_step env e d"
  define w where "w = dt_samples (d_track t d) @ dash_new_frames t e"
  have room: "dash_room e d" and f1: "dash_fits env es d1" using Cons.prems(2) by (simp_all add: d1_def)
  have i1: "dash_inv d1" using dash_step_moved [OF Cons.prems(1) room t, of env] by (simp add: d1_def)
  note v1 = dash_step_samples [OF disjI1 [OF refl], of env e d, folded d1_def]
  note w1 = dash_step_samples [OF t, of env e d, folded d1_def w_def]
  have r: "dash_run env (e # es) d = dash_run env es d1" by (simp add: dash_run_def d1_def)
  have fr: "dash_frames t (e # es) = dash_new_frames t e @ dash_frames t es" by (simp add: dash_frames_def)
  obtain g where g: "dash_groups t (dt_samples (d_video d1)) (dt_samples (d_track t d1)) es = (g, waiting)"
    "groups = (if dash_due (dt_samples (d_video d)) e \<and> 1 < length w then w # g else g)"
    using Cons.prems(3) v1 w1 by (auto simp: w_def Let_def split: prod.splits if_splits)
  note ih = Cons.IH [OF i1 f1 g(1)]
  note c = dash_step_cases [OF Cons.prems(1) room t w_def, of env, folded d1_def]
  show ?case
  proof (cases "dash_due (dt_samples (d_video d)) e \<and> 1 < length w")
    case False
    then show ?thesis using ih c g(2) by (auto simp: r fr dash_kept_def Let_def simp flip: d1_def)
  next
    case True
    then have "dash_cut t (dash_new_frames t e) (d_track t d) (d_track t d1)" using c by simp
    note c = dash_cut_segment [OF this t, folded w_def]
    obtain seg where seg: "dash_newest t d1 = Some seg" "dash_read seg = Some (dash_timed t w)" using c(2) by blast
    have "w \<noteq> []" using c(4) by auto
    then have "dash_timed t (dt_samples (d_track t d) @ dash_frames t (e # es)) = dash_timed t w @ dash_timed t (dt_samples (d_track t d1) @ dash_frames t es)"
      using dash_timed_append [of w t "dash_frames t es"] by (simp add: c(3) fr) (simp add: w_def)
    then show ?thesis using ih c(1) seg g(2) True by (simp add: r Let_def flip: d1_def)
  qed
qed (simp add: dash_run_def dash_frames_def)

lemma dash_groups_waiting:
  assumes "dash_groups kVideoPayload v v es = (groups, waiting)"
    and "list_all (\<lambda>p. pl_is_iframe p \<longrightarrow> sint (ucast (pl_dts p - pl_dts (hd v)) :: u32) < 5000) v"
  shows "list_all (\<lambda>p. pl_is_iframe p \<longrightarrow> sint (ucast (pl_dts p - pl_dts (hd waiting)) :: u32) < 5000) waiting"
  using assms
proof (induction es arbitrary: v groups)
  case (Cons e es)
  define w where "w = v @ dash_new_frames kVideoPayload e"
  show ?case
  proof (cases "dash_due v e")
    case True
    then obtain g where "dash_groups kVideoPayload (drop (length w - 1) w) (drop (length w - 1) w) es = (g, waiting)"
      using Cons.prems(1) by (auto simp: w_def Let_def split: prod.splits)
    moreover have "list_all (\<lambda>p. pl_is_iframe p \<longrightarrow> sint (ucast (pl_dts p - pl_dts (hd (drop (length w - 1) w))) :: u32) < 5000) (drop (length w - 1) w)"
      by (simp add: drop_to_last)
    ultimately show ?thesis by (rule Cons.IH)
  next
    case False
    then have "dash_groups kVideoPayload w w es = (groups, waiting)" using Cons.prems(1) by (simp add: w_def Let_def)
    moreover have "list_all (\<lambda>p. pl_is_iframe p \<longrightarrow> sint (ucast (pl_dts p - pl_dts (hd w)) :: u32) < 5000) w"
      using False Cons.prems(2) by (cases e; cases v) (auto simp: w_def dash_due_def kinds not_le)
    ultimately show ?thesis by (rule Cons.IH)
  qed
qed simp

lemma dash_new_inv: "dash_inv (dash_new moof now)"
  by (simp add: dash_inv_def dash_new_def dash_track_new_def)

text \<open>
  C9: for video and audio frames in any order, as long as the frames between two cuts fit (\<open>dash_fits\<close>: at most 10000 frames
  and 2^28 bytes of media data per track, every frame whole, headers of at most 100000 bytes), no buffer is overrun and the tracks
  are cut exactly where \<open>dash_groups\<close> says: at each key frame that is at least 5000 ms behind the first waiting
  video frame (a 32-bit signed difference, as in the code), both tracks at the same moment, a track with a single waiting
  frame not at all. A client that asks for each segment when it is cut, and reads it by the file format, gets exactly the
  frames of the group with their distances to the next frame; only the frames since the last cut still wait, among the video
  frames no key frame that is due; and segments and waiting frames together are all frames of the track, each once, in order.
\<close>

theorem dash_segments_hold_frames:
  assumes "dash_fits env es (dash_new moof now)" and "t = kVideoPayload \<or> t = kAudioPayload"
    and "d = dash_run env es (dash_new moof now)" and "dash_groups t [] [] es = (groups, waiting)"
  shows "\<not> d_fault d \<and>
    map (\<lambda>s. case s of None \<Rightarrow> None | Some b \<Rightarrow> dash_read b) (dash_segments env t es (dash_new moof now)) =
      map (\<lambda>g. Some (dash_timed t g)) groups \<and>
    dt_samples (d_track t d) = waiting \<and>
    (t = kVideoPayload \<longrightarrow> list_all (\<lambda>p. pl_is_iframe p \<longrightarrow> sint (ucast (pl_dts p - pl_dts (hd waiting)) :: u32) < 5000) waiting) \<and>
    concat (map (dash_timed t) groups) @ dash_timed t waiting = dash_timed t (dash_frames t es)"
proof -
  have e: "dt_samples (d_track t (dash_new moof now)) = []" "dt_samples (d_video (dash_new moof now)) = []"
    by (simp_all add: d_track_def dash_new_def dash_track_new_def)
  have "t = kVideoPayload \<longrightarrow> list_all (\<lambda>p. pl_is_iframe p \<longrightarrow> sint (ucast (pl_dts p - pl_dts (hd waiting)) :: u32) < 5000) waiting"
    using dash_groups_waiting [of "[]" es groups waiting] assms(4) by auto
  then show ?thesis
    using dash_segments_groups [OF dash_new_inv assms(1,2), unfolded e, OF assms(4)] unfolding assms(3) by (simp add: dash_inv_def)
qed

section \<open>The manifest\<close>

type_synonym dash_history = "(mpd_info \<times> bytes) list"

definition info_end :: "mpd_info \<Rightarrow> u32" where
  "info_end i = mi_start_time i + mi_duration i"

definition dash_times :: "payload list \<Rightarrow> bool" where
  \<comment> \<open>decoding times increase and fit in 32 bits\<close>
  "dash_times ps \<longleftrightarrow> sorted_wrt (\<lambda>p q. unat (pl_dts p) < unat (pl_dts q)) ps \<and> list_all (\<lambda>p. unat (pl_dts p) < 2 ^ 32) ps"

definition dash_past :: "dash_history \<Rightarrow> dash_track \<Rightarrow> bool" where
  \<comment> \<open>\<open>H\<close>: manifest entry and segment of every cut so far\<close>
  "dash_past H x \<longleftrightarrow>
     dt_sequence x = word_of_nat (length H) \<and>
     dt_m4s x = drop (length H - 7) (map (\<lambda>(i, b). (ucast (mi_start_time i), b)) H) \<and>
     (\<forall>j < length H. sm_find (word_of_nat j) (dt_mpd_info x) = Some (fst (H ! j))) \<and>
     (\<forall>j. Suc j < length H \<longrightarrow> info_end (fst (H ! j)) = mi_start_time (fst (H ! Suc j))) \<and>
     (H \<noteq> [] \<longrightarrow> dt_samples x \<noteq> [] \<and> info_end (fst (last H)) = pl_dts32 (hd (dt_samples x))) \<and>
     sorted_wrt (\<lambda>e f. mi_start_time (fst e) < mi_start_time (fst f)) H \<and>
     (\<forall>e \<in> set H. dt_samples x \<noteq> [] \<and> mi_start_time (fst e) < pl_dts32 (hd (dt_samples x))) \<and>
     (\<forall>e \<in> set H. snd e \<noteq> [])"

lemma dash_evict_drop: "dash_evict m = drop (length m - 6) m"
  by (induction m) (auto simp: DASH_CACHE_def drop_Cons')

lemma dash_past_kept:
  assumes "dash_kept t new x x'" and "dash_past H x"
  shows "dash_past H x'"
  using assms unfolding dash_kept_def dash_past_def by (cases "dt_samples x") auto

lemma pl_dts32_less:
  assumes "unat (pl_dts p) < unat (pl_dts q)" and "unat (pl_dts q) < 2 ^ 32"
  shows "pl_dts32 p < pl_dts32 q"
  using assms by (simp add: pl_dts32_def word_less_nat_alt unsigned_ucast_eq take_bit_eq_mod)

lemma ucast32_diff: "(ucast (x - y :: u64) :: u32) = ucast x - ucast y"
proof -
  have "uint (ucast (x - y) :: u32) = (uint x - uint y) mod 2 ^ 64 mod 2 ^ 32"
    by (simp add: unsigned_ucast_eq take_bit_eq_mod uint_word_ariths)
  also have "\<dots> = (uint x - uint y) mod 2 ^ 32" by (intro mod_mod_cancel) simp
  also have "\<dots> = (uint x mod 2 ^ 32 - uint y mod 2 ^ 32) mod 2 ^ 32" by (simp add: mod_diff_eq)
  also have "\<dots> = uint (ucast x - ucast y :: u32)"
    by (simp add: unsigned_ucast_eq take_bit_eq_mod uint_word_ariths)
  finally show ?thesis by (simp only: word_uint_eq_iff)
qed

lemma ucast_less: "(x :: u32) < y \<Longrightarrow> (ucast x :: u64) < ucast y"
proof -
  assume "x < y"
  moreover have "unat x < 2 ^ 32" "unat y < 2 ^ 32" using unsigned_less [of x] unsigned_less [of y] by simp_all
  ultimately show ?thesis by (simp add: word_less_nat_alt unsigned_ucast_eq take_bit_eq_mod)
qed

lemma dash_read_nil: "dash_read [] = None"
  by (simp add: dash_read_def mp4_boxes.simps [of "[]"])

lemma dash_past_cut:
  assumes c: "dash_cut t new (d_track t d) (d_track t d')" and t: "t = kVideoPayload \<or> t = kAudioPayload"
    and H: "dash_past H (d_track t d)" and n: "length H < 2 ^ 32 - 1" and times: "dash_times (dt_samples (d_track t d) @ new)"
  shows "\<exists>e. dash_past (H @ [e]) (d_track t d') \<and> dash_newest t d' = Some (snd e)"
proof -
  define ps where "ps = dt_samples (d_track t d) @ new"
  note q = dash_cut_segment [OF c t]
  obtain seg where seg: "dash_newest t d' = Some seg"
    "dt_m4s (d_track t d') = sm_put (ucast (pl_dts32 (hd ps))) seg (dash_evict (dt_m4s (d_track t d)))"
    using q(2) by (auto simp: ps_def)
  have ne: "seg \<noteq> []" using q(2) seg(1) by (auto simp: dash_read_nil)
  define i where "i = \<lparr>mi_start_time = pl_dts32 (hd ps), mi_duration = ucast (pl_dts (last ps) - pl_dts (hd ps))\<rparr>"
  have two: "1 < length ps" using q(4) by (simp add: ps_def)
  then obtain a b r where ps: "ps = a # b # r" by (cases ps; cases "tl ps") auto
  have hd: "dt_samples (d_track t d) \<noteq> [] \<Longrightarrow> hd ps = hd (dt_samples (d_track t d))" by (simp add: ps_def)
  note p = H [unfolded dash_past_def]
  have old: "\<forall>x \<in> set (dash_evict (dt_m4s (d_track t d))). fst x < ucast (pl_dts32 (hd ps))"
  proof
    fix x assume "x \<in> set (dash_evict (dt_m4s (d_track t d)))"
    then have "x \<in> set (map (\<lambda>(i, b). (ucast (mi_start_time i), b)) H)" using p unfolding dash_evict_drop by (metis in_set_dropD)
    then obtain e where e: "e \<in> set H" "fst x = ucast (mi_start_time (fst e))" by auto
    then have "mi_start_time (fst e) < pl_dts32 (hd ps)" using p hd by auto
    then show "fst x < ucast (pl_dts32 (hd ps))" using e by (simp add: ucast_less)
  qed
  have m4s: "dt_m4s (d_track t d') = drop (length (H @ [(i, seg)]) - 7) (map (\<lambda>(i, b). (ucast (mi_start_time i), b)) (H @ [(i, seg)]))"
  proof -
    have "length H - 7 + (length H - (length H - 7) - 6) = length H - 6" by linarith
    then have "dash_evict (dt_m4s (d_track t d)) = drop (length H - 6) (map (\<lambda>(i, b). (ucast (mi_start_time i), b)) H)"
      using p unfolding dash_evict_drop by (simp add: add.commute)
    then show ?thesis using sm_put_last [OF old, of seg] seg(2) by (simp add: i_def Suc_diff_le)
  qed
  have sq: "(ucast (word_of_nat (length H) :: u32) :: u64) = word_of_nat (length H)"
    using n by (simp add: word_unat_eq_iff unsigned_ucast_eq take_bit_eq_mod unat_of_nat)
  have info: "sm_find (word_of_nat j) (dt_mpd_info (d_track t d')) = Some (fst ((H @ [(i, seg)]) ! j))" if "j < length (H @ [(i, seg)])" for j
  proof -
    have "(word_of_nat j :: u64) = word_of_nat (length H) \<longleftrightarrow> j = length H"
      using that n by (simp add: word_unat_eq_iff unat_of_nat)
    then show ?thesis using that p q(5) by (auto simp: ps_def [symmetric] i_def sq sm_simps nth_append)
  qed
  have last: "unat (pl_dts a) < unat (pl_dts (last ps)) \<and> unat (pl_dts (last ps)) < 2 ^ 32"
  proof -
    have "last ps \<in> set (b # r)" by (simp add: ps)
    then show ?thesis using times unfolding dash_times_def ps_def [symmetric] ps by (auto simp: list_all_iff)
  qed
  have lt: "pl_dts32 (hd ps) < pl_dts32 (last ps)" using pl_dts32_less last by (simp add: ps)
  have en: "info_end i = pl_dts32 (last ps)" by (simp add: info_end_def i_def pl_dts32_def ucast32_diff)
  have ss: "dt_samples (d_track t d') = [last ps]" using q(3) by (simp add: ps_def)
  have chain: "info_end (fst ((H @ [(i, seg)]) ! j)) = mi_start_time (fst ((H @ [(i, seg)]) ! Suc j))" if "Suc j < length (H @ [(i, seg)])" for j
  proof (cases "Suc j < length H")
    case True
    then show ?thesis using p by (simp add: nth_append)
  next
    case False
    then have j: "Suc j = length H" "H \<noteq> []" using that by auto
    then have "(H @ [(i, seg)]) ! j = last H" "(H @ [(i, seg)]) ! Suc j = (i, seg)"
      by (simp_all add: nth_append last_conv_nth flip: j(1))
    then show ?thesis using p j(2) hd by (simp add: i_def)
  qed
  have "dash_past (H @ [(i, seg)]) (d_track t d')"
    unfolding dash_past_def
  proof (intro conjI)
    show "dt_sequence (d_track t d') = word_of_nat (length (H @ [(i, seg)]))" using q(1) p by simp
    show "\<forall>e \<in> set (H @ [(i, seg)]). dt_samples (d_track t d') \<noteq> [] \<and> mi_start_time (fst e) < pl_dts32 (hd (dt_samples (d_track t d')))"
      using p hd lt by (auto simp: ss i_def intro: less_trans)
    show "sorted_wrt (\<lambda>e f. mi_start_time (fst e) < mi_start_time (fst f)) (H @ [(i, seg)])"
      using p hd by (auto simp: sorted_wrt_append i_def)
    show "\<forall>e \<in> set (H @ [(i, seg)]). snd e \<noteq> []" using p ne by auto
  qed (use m4s info chain en ss in auto)
  then show ?thesis using seg(1) by (intro exI [of _ "(i, seg)"]) simp
qed

lemma dash_times_suffix: "dash_times (ps @ qs) \<Longrightarrow> dash_times qs"
  by (simp add: dash_times_def sorted_wrt_append)

lemma dash_run_past:
  assumes "dash_inv d" and "dash_fits env es d" and t: "t = kVideoPayload \<or> t = kAudioPayload"
    and "dash_past H (d_track t d)" and "dash_times (dt_samples (d_track t d) @ dash_frames t es)" and "length H + length es < 2 ^ 32 - 1"
  shows "\<exists>H'. dash_past (H @ H') (d_track t (dash_run env es d)) \<and> dash_segments env t es d = map (Some \<circ> snd) H' \<and> length H' \<le> length es"
  using assms(1,2,4-)
proof (induction es arbitrary: d H)
  case (Cons e es)
  define d1 where "d1 = dash_step env e d"
  have s: "dash_inv d1 \<and> dash_moved t (dash_new_frames t e) (d_track t d) (d_track t d1)"
    unfolding d1_def by (rule dash_step_moved) (use Cons.prems t in simp_all)
  have r: "dash_run env (e # es) d = dash_run env es d1" by (simp add: dash_run_def d1_def)
  have fr: "dash_frames t (e # es) = dash_new_frames t e @ dash_frames t es" by (simp add: dash_frames_def)
  have f1: "dash_fits env es d1" using Cons.prems(2) by (simp add: d1_def)
  from s consider "dash_kept t (dash_new_frames t e) (d_track t d) (d_track t d1)" | "dash_cut t (dash_new_frames t e) (d_track t d) (d_track t d1)"
    by (auto simp: dash_moved_def)
  then show ?case
  proof cases
    case 1
    have "dash_times (dt_samples (d_track t d1) @ dash_frames t es)" using Cons.prems(4) 1 by (simp add: fr dash_kept_def)
    from Cons.IH [OF _ f1 dash_past_kept [OF 1 Cons.prems(3)] this] s Cons.prems(5)
    obtain H' where "dash_past (H @ H') (d_track t (dash_run env es d1))" "dash_segments env t es d1 = map (Some \<circ> snd) H'" "length H' \<le> length es"
      by auto
    then show ?thesis using 1 by (intro exI [of _ H']) (simp add: r Let_def dash_kept_def flip: d1_def)
  next
    case 2
    have n: "length H < 2 ^ 32 - 1" using Cons.prems(5) by simp
    have tm: "dash_times (dt_samples (d_track t d) @ dash_new_frames t e)"
      using Cons.prems(4) unfolding fr dash_times_def by (simp add: sorted_wrt_append)
    obtain x where x: "dash_past (H @ [x]) (d_track t d1)" "dash_newest t d1 = Some (snd x)"
      using dash_past_cut [OF 2 t Cons.prems(3) n tm] by blast
    note c = dash_cut_segment [OF 2 t]
    have ne: "dt_samples (d_track t d) @ dash_new_frames t e \<noteq> []" using c(4) by auto
    have "dt_samples (d_track t d) @ dash_frames t (e # es) =
        butlast (dt_samples (d_track t d) @ dash_new_frames t e) @ (dt_samples (d_track t d1) @ dash_frames t es)"
      using append_butlast_last_id [OF ne] unfolding fr c(3) by (metis append.assoc)
    then have "dash_times (dt_samples (d_track t d1) @ dash_frames t es)" using Cons.prems(4) dash_times_suffix by metis
    from Cons.IH [OF _ f1 x(1) this] s Cons.prems(5)
    obtain H' where "dash_past ((H @ [x]) @ H') (d_track t (dash_run env es d1))" "dash_segments env t es d1 = map (Some \<circ> snd) H'" "length H' \<le> length es"
      by auto
    then show ?thesis using x(2) c(1) by (intro exI [of _ "x # H'"]) (simp add: r Let_def flip: d1_def)
  qed
qed (auto simp: dash_run_def intro!: exI [of _ "[]"])

lemma dash_past_entry:
  assumes H: "dash_past H x" and n: "length H < 2 ^ 32" and i: "1 \<le> i" "i \<le> length H"
  shows "mpd_entry x i = fst (H ! (length H - i))"
proof -
  have w: "dt_sequence x - word_of_nat i = word_of_nat (length H - i)"
    using H i(2) by (simp add: dash_past_def)
  have "(ucast (word_of_nat (length H - i) :: u32) :: u64) = word_of_nat (length H - i)"
    using n by (simp add: word_unat_eq_iff unsigned_ucast_eq take_bit_eq_mod unat_of_nat)
  moreover have "length H - i < length H" using i by linarith
  ultimately show ?thesis using H unfolding mpd_entry_def w by (simp add: dash_past_def)
qed

lemma dash_past_found:
  assumes H: "dash_past H (d_track t d)" and i: "1 \<le> i" "i \<le> 7" "i \<le> length H"
  shows "GetM4s t (ucast (mi_start_time (fst (H ! (length H - i))))) d = Some (snd (H ! (length H - i)))"
proof -
  define L :: "(u64 \<times> bytes) list" where "L = map (\<lambda>(i, b). (ucast (mi_start_time i), b)) H"
  have m: "dt_m4s (d_track t d) = drop (length H - 7) L" using H by (simp add: dash_past_def L_def)
  have "sorted_wrt (<) (map fst L)"
    using H by (auto simp: dash_past_def L_def sorted_wrt_map split_beta ucast_less elim!: sorted_wrt_mono_rel [rotated])
  then have d: "distinct (map fst L)" by (simp add: strict_sorted_iff)
  have j: "length H - i < length H" "length H - 7 \<le> length H - i" using i by linarith+
  have "length H - 7 \<le> length L" by (simp add: L_def)
  from nth_drop [OF this, of "length H - i - (length H - 7)"]
  have "drop (length H - 7) L ! (length H - i - (length H - 7)) = L ! (length H - i)" by (simp only: le_add_diff_inverse [OF j(2)])
  moreover have "length H - i - (length H - 7) < length (drop (length H - 7) L)" using j i by (simp add: L_def)
  ultimately have "L ! (length H - i) \<in> set (drop (length H - 7) L)" by (metis nth_mem)
  moreover have "L ! (length H - i) = (ucast (mi_start_time (fst (H ! (length H - i)))), snd (H ! (length H - i)))"
    using j(1) by (simp add: L_def split_beta)
  moreover have "distinct (map fst (drop (length H - 7) L))" using d by (simp add: drop_map [symmetric] distinct_drop)
  ultimately have "sm_find (ucast (mi_start_time (fst (H ! (length H - i))))) (drop (length H - 7) L) = Some (snd (H ! (length H - i)))"
    by (metis map_of_is_SomeI)
  then show ?thesis by (simp add: GetM4s_def m)
qed

lemma dash_timeline:
  assumes "dash_fits env es (dash_new moof now)" and "t = kVideoPayload \<or> t = kAudioPayload"
    and "d = dash_run env es (dash_new moof now)" and "dash_times (dash_frames t es)" and "length es < 2 ^ 32 - 1"
    and "segments = dash_segments env t es (dash_new moof now)" and "entry = mpd_entry (d_track t d)"
    and "1 \<le> i" and "i \<le> 7" and "i \<le> length segments"
  shows "segments ! (length segments - i) \<noteq> None \<and> segments ! (length segments - i) \<noteq> Some [] \<and>
    GetM4s t (ucast (mi_start_time (entry i))) d = segments ! (length segments - i) \<and>
    info_end (entry i) = (if i = 1 then pl_dts32 (hd (dt_samples (d_track t d))) else mi_start_time (entry (i - 1)))"
proof -
  have e: "d_track t (dash_new moof now) = dash_track_new" by (simp add: d_track_def dash_new_def)
  have "dash_past [] (d_track t (dash_new moof now))" by (simp add: e dash_past_def dash_track_new_def)
  moreover have "dash_times (dt_samples (d_track t (dash_new moof now)) @ dash_frames t es)" using assms(4) by (simp add: e dash_track_new_def)
  ultimately obtain H where H: "dash_past H (d_track t d)" "segments = map (Some \<circ> snd) H" "length H \<le> length es"
    using dash_run_past [OF dash_new_inv assms(1,2), of "[]"] assms(3,5,6) by auto
  have n: "i \<le> length H" "length H < 2 ^ 32" "length H - i < length H" using H assms(5,8,10) by auto
  note en = dash_past_entry [OF H(1) n(2), folded assms(7)]
  have "GetM4s t (ucast (mi_start_time (entry i))) d = segments ! (length segments - i)"
    using dash_past_found [OF H(1) assms(8,9) n(1)] n(3) by (simp add: en [OF assms(8) n(1)] H(2))
  moreover have "info_end (entry i) = (if i = 1 then pl_dts32 (hd (dt_samples (d_track t d))) else mi_start_time (entry (i - 1)))"
  proof (cases "i = 1")
    case True
    then have "H \<noteq> []" using n by auto
    then have "entry i = fst (last H)" "info_end (fst (last H)) = pl_dts32 (hd (dt_samples (d_track t d)))"
      using en [OF assms(8) n(1)] H(1) True by (simp_all add: last_conv_nth dash_past_def)
    then show ?thesis using True by simp
  next
    case False
    then have k: "1 \<le> i - 1" "i - 1 \<le> length H" "Suc (length H - i) = length H - (i - 1)" "Suc (length H - i) < length H" using assms(8) n(1) by linarith+
    have "info_end (fst (H ! (length H - i))) = mi_start_time (fst (H ! Suc (length H - i)))"
      using H(1) k(4) by (simp add: dash_past_def)
    then show ?thesis using False by (simp only: en [OF assms(8) n(1)] en [OF k(1,2)] k(3) if_False)
  qed
  moreover have "snd (H ! (length H - i)) \<noteq> []" using H(1) n(3) by (auto simp: dash_past_def)
  then have "segments ! (length segments - i) \<noteq> None" "segments ! (length segments - i) \<noteq> Some []" using H(2) n(3) by simp_all
  ultimately show ?thesis by blast
qed

text \<open>
  with increasing decoding times, each of the seven newest entries of the manifest (it prints three of them) names
  the start time of a segment that the server still has, and the entry ends where the next one starts, the newest
  one where the first frame still waiting starts.
\<close>

theorem dash_timeline_available:
  assumes "dash_fits env es (dash_new moof now)" and "t = kVideoPayload \<or> t = kAudioPayload"
    and "d = dash_run env es (dash_new moof now)" and "dash_times (dash_frames t es)" and "length es < 2 ^ 32 - 1"
    and "segments = dash_segments env t es (dash_new moof now)" and "entry = mpd_entry (d_track t d)"
    and "1 \<le> i" and "i \<le> 7" and "i \<le> length segments"
  shows "GetM4s t (ucast (mi_start_time (entry i))) d = segments ! (length segments - i) \<and>
    info_end (entry i) = (if i = 1 then pl_dts32 (hd (dt_samples (d_track t d))) else mi_start_time (entry (i - 1)))"
  using dash_timeline [OF assms] by blast

section \<open>Instances\<close>

definition dash_env0 :: dash_env where
  "dash_env0 = \<lparr>de_mp4 = mp4_env0, de_offsets = (0, 0), de_now = bs ''now''\<rparr>"

definition dash_key :: "u64 \<Rightarrow> payload" where
  "dash_key t = pl_set_iframe (pl_set_video (pl_new t t [0, 0, 0, 2, 0x65, 1] 6))"

lemma dash_example_fits: "dash_fits dash_env0 [DVideo (dash_key 0), DVideo (dash_key 5000)] (dash_new 9 (bs ''start''))"
proof -
  have 1: "dash_step dash_env0 (DVideo (dash_key 0)) (dash_new 9 (bs ''start'')) =
      (dash_new 9 (bs ''start''))\<lparr>d_video := dash_track_new\<lparr>dt_samples := [dash_key 0], dt_mdat := [0, 0, 0, 2, 0x65, 1]\<rparr>\<rparr>"
    by (simp add: dash_on_video_def dash_push_def d_update_def dash_new_def dash_flush_def dash_append_def Let_def dash_key_def pl_defs
      dash_track_new_def DASH_FRAGMENT_DURATION_def)
  show ?thesis
    unfolding dash_fits.simps 1
    by (simp add: dash_room_def dash_sized_def dash_push_def d_update_def dash_new_def dash_track_new_def mp4_whole_def mp4_data_def mp4_source_def
      mp4_len_def dash_key_def pl_defs)
qed

lemma dash_segments_hold_frames_witness:
  "map (\<lambda>s. case s of None \<Rightarrow> None | Some b \<Rightarrow> dash_read b)
     (dash_segments dash_env0 kVideoPayload [DVideo (dash_key 0), DVideo (dash_key 5000)] (dash_new 9 (bs ''start''))) =
     [Some [([0, 0, 0, 2, 0x65, 1], 5000)]]"
proof -
  have "dash_groups kVideoPayload [] [] [DVideo (dash_key 0), DVideo (dash_key 5000)] = ([[dash_key 0, dash_key 5000]], [dash_key 5000])"
    by (simp add: dash_due_def dash_key_def pl_defs Let_def)
  from dash_segments_hold_frames [OF dash_example_fits disjI1 [OF refl] refl this] show ?thesis
    by (simp add: mp4_data_def mp4_source_def mp4_len_def dash_key_def pl_defs dash_duration_def)
qed

lemma dash_cut_when_due:
  assumes "pl_is_iframe p" and "fst (dash_flush (dash_push kVideoPayload p d))" and "dt_samples (d_video d) \<noteq> []"
    and "dash_moved kVideoPayload [p] (d_video d) (d_video (dash_on_video env p d))"
  shows "dash_cut kVideoPayload [p] (d_video d) (d_video (dash_on_video env p d))"
proof -
  have "length (dt_samples (d_video (dash_reset e))) \<le> 1" for e by (simp add: dash_reset_def Let_def d_update_def)
  moreover have "dt_samples (d_video (dash_append k q n e)) = dt_samples (d_video e)" for k q n e
    by (simp add: dash_append_def d_update_def split: option.split)
  ultimately have "length (dt_samples (d_video (dash_on_video env p d))) \<le> 1"
    using assms(1,2) by (simp add: dash_on_video_def Let_def split_beta)
  then have "\<not> dash_kept kVideoPayload [p] (d_video d) (d_video (dash_on_video env p d))" using assms(3) by (auto simp: dash_kept_def)
  then show ?thesis using assms(4) by (simp add: dash_moved_def)
qed

lemma dash_example_cut:
  "1 \<le> length (dash_segments dash_env0 kVideoPayload [DVideo (dash_key 0), DVideo (dash_key 5000)] (dash_new 9 (bs ''start''))) \<and>
   dt_samples (d_video (dash_run dash_env0 [DVideo (dash_key 0), DVideo (dash_key 5000)] (dash_new 9 (bs ''start'')))) = [dash_key 5000] \<and>
   dash_times (dash_frames kVideoPayload [DVideo (dash_key 0), DVideo (dash_key 5000)])"
proof -
  define d0 where "d0 = dash_new 9 (bs ''start'')"
  define d1 where "d1 = dash_step dash_env0 (DVideo (dash_key 0)) d0"
  define d2 where "d2 = dash_step dash_env0 (DVideo (dash_key 5000)) d1"
  have f: "dash_fits dash_env0 [DVideo (dash_key 0), DVideo (dash_key 5000)] d0" using dash_example_fits by (simp add: d0_def)
  have 1: "d1 = d0\<lparr>d_video := dash_track_new\<lparr>dt_samples := [dash_key 0], dt_mdat := [0, 0, 0, 2, 0x65, 1]\<rparr>\<rparr>"
    by (simp add: d1_def d0_def dash_on_video_def dash_push_def d_update_def dash_new_def dash_flush_def dash_append_def Let_def dash_key_def pl_defs
      dash_track_new_def DASH_FRAGMENT_DURATION_def)
  have r: "dash_run dash_env0 [DVideo (dash_key 0), DVideo (dash_key 5000)] d0 = d2" by (simp add: dash_run_def d1_def d2_def)
  have new: "dt_samples (d_track kVideoPayload d0) = []" "d_track kVideoPayload d0 = dash_track_new" 
    by (simp_all add: d0_def d_track_def dash_new_def dash_track_new_def)
  have i: "dash_inv d1 \<and> dash_room (DVideo (dash_key 5000)) d1"
    using dash_step_moved [of d0 "DVideo (dash_key 0)" kVideoPayload dash_env0] dash_new_inv f by (simp add: d0_def d1_def)
  have "dash_cut kVideoPayload [dash_key 5000] (d_video d1) (d_video d2)"
    unfolding d2_def dash_step.simps
  proof (rule dash_cut_when_due)
    show "fst (dash_flush (dash_push kVideoPayload (dash_key 5000) d1))"
      by (simp add: 1 dash_flush_def dash_push_def d_update_def d0_def dash_new_def dash_track_new_def Let_def dash_key_def pl_defs DASH_FRAGMENT_DURATION_def)
  next
    show "dash_moved kVideoPayload [dash_key 5000] (d_video d1) (d_video (dash_on_video dash_env0 (dash_key 5000) d1))"
      using dash_video_step(2) i by blast
  qed (simp_all add: 1, simp add: dash_key_def pl_defs)
  then have "dash_cut kVideoPayload [dash_key 5000] (d_track kVideoPayload d1) (d_track kVideoPayload d2)" by simp
  note c = dash_cut_segment [OF this] 
  have "length (dash_segments dash_env0 kVideoPayload [DVideo (dash_key 0), DVideo (dash_key 5000)] d0) \<ge> 1"
    using c(1) by (simp add: Let_def flip: d1_def d2_def del: dash_step.simps)
  moreover have "dash_times (dash_frames kVideoPayload [DVideo (dash_key 0), DVideo (dash_key 5000)])"
    by (simp add: dash_times_def dash_frames_def dash_key_def pl_defs)
  moreover have "dt_samples (d_video d2) = [dash_key 5000]" using c(3) by (simp add: 1)
  ultimately show ?thesis by (simp only: r flip: d0_def)
qed

lemma dash_timeline_available_witness:
  "info_end (mpd_entry (d_video (dash_run dash_env0 [DVideo (dash_key 0), DVideo (dash_key 5000)] (dash_new 9 (bs ''start'')))) 1) = 5000"
proof -
  define d where "d = dash_run dash_env0 [DVideo (dash_key 0), DVideo (dash_key 5000)] (dash_new 9 (bs ''start''))"
  have "info_end (mpd_entry (d_track kVideoPayload d) 1) = (if (1 :: nat) = 1 then pl_dts32 (hd (dt_samples (d_track kVideoPayload d)))
      else mi_start_time (mpd_entry (d_track kVideoPayload d) (1 - 1)))"
    using dash_example_cut
    by (intro conjunct2 [OF dash_timeline_available [OF dash_example_fits disjI1 [OF refl] d_def _ _ refl refl]]) simp_all
  moreover have "dt_samples (d_video d) = [dash_key 5000]" using dash_example_cut by (simp only: d_def)
  ultimately have "info_end (mpd_entry (d_video d) 1) = pl_dts32 (dash_key 5000)" by simp
  then show ?thesis unfolding d_def [symmetric] by (simp add: dash_key_def pl_defs pl_dts32_def)
qed

section \<open>A segment larger than its buffer\<close>

definition w_goes :: "nat \<Rightarrow> bit_stream \<Rightarrow> bit_stream \<Rightarrow> bool" where
  \<comment> \<open>\<open>n\<close> bytes further, whatever the size of the buffer; without a fault the end is still inside\<close>
  "w_goes n s s' \<longleftrightarrow> bw_pos s mod 8 = 0 \<longrightarrow>
     bw_pos s' = bw_pos s + 8 * n \<and> length (bw_buf s') = length (bw_buf s) \<and> (bw_fault s \<longrightarrow> bw_fault s') \<and>
     (bw_pos s \<le> 8 * length (bw_buf s) \<or> bw_fault s \<longrightarrow> bw_pos s' \<le> 8 * length (bw_buf s') \<or> bw_fault s')"

lemma w_goes_comp: "w_goes m s s' \<Longrightarrow> w_goes n s' s'' \<Longrightarrow> w_goes (m + n) s s''"
  by (auto simp: w_goes_def)

lemma w_goes_refl: "w_goes 0 s s"
  by (simp add: w_goes_def)

lemma w_goes_op: "byte_op x \<Longrightarrow> w_goes (bw_op_size x div 8) s (bw_op_run x s)"
  by (cases x) (auto simp: w_goes_def bw_write_bytes_def bw_write_data_def bw_put_def Let_def)

lemma byte_op_size: "byte_op x \<Longrightarrow> bw_op_size x mod 8 = 0"
  by (cases x) simp_all

lemma w_goes_run: "list_all byte_op xs \<Longrightarrow> w_goes (sum_list (map bw_op_size xs) div 8) s (bw_run xs s)"
proof (induction xs arbitrary: s)
  case (Cons x xs)
  have "w_goes (bw_op_size x div 8 + sum_list (map bw_op_size xs) div 8) s (bw_run xs (bw_op_run x s))"
    using w_goes_comp [OF w_goes_op Cons.IH] Cons.prems by simp
  moreover have "(bw_op_size x + sum_list (map bw_op_size xs)) div 8 = bw_op_size x div 8 + sum_list (map bw_op_size xs) div 8"
    using byte_op_size [of x] Cons.prems by (intro div_plus_div_distrib_dvd_left) auto
  ultimately show ?case by (simp add: bw_run_def)
qed (simp add: bw_run_def w_goes_refl)

lemma w_goes_modify: "w_goes 0 s (wmodify p v s)"
  by (auto simp: w_goes_def wmodify_def bw_modify_bytes_def bw_put_def)

fun w_byte_only :: "w_stmt \<Rightarrow> bool" where
  "w_byte_only (WOps xs) \<longleftrightarrow> list_all byte_op xs"
| "w_byte_only (WAt f) \<longleftrightarrow> False"
| "w_byte_only (WBox tag body) \<longleftrightarrow> length tag = 4 \<and> list_all w_byte_only body"
| "w_byte_only (WCounted c rows v) \<longleftrightarrow> list_all byte_op rows"

lemma w_goes_list: "(\<And>x s. x \<in> set xs \<Longrightarrow> w_goes (w_size x) s (w_exec x s)) \<Longrightarrow> w_goes (sum_list (map w_size xs)) s (w_execs xs s)"
proof (induction xs arbitrary: s)
  case (Cons x xs)
  have "w_goes (w_size x) s (w_exec x s)" using Cons.prems by simp
  moreover have "w_goes (sum_list (map w_size xs)) (w_exec x s) (w_execs xs (w_exec x s))" using Cons by simp
  ultimately show ?case using w_goes_comp by fastforce
qed (simp add: w_goes_refl)

lemma w_goes_exec: "w_byte_only x \<Longrightarrow> w_goes (w_size x) s (w_exec x s)"
proof (induction x arbitrary: s)
  case (WBox tag body)
  define s1 where "s1 = bw_run [WBytes 4 0, WData (bs tag)] s"
  have "w_goes 8 s s1" using w_goes_run [of "[WBytes 4 0, WData (bs tag)]" s] WBox.prems by (simp add: s1_def)
  moreover have "w_goes (sum_list (map w_size body)) s1 (w_execs body s1)"
    using WBox by (intro w_goes_list) (auto simp: list_all_iff)
  ultimately show ?case using w_goes_comp [OF w_goes_comp w_goes_modify] by (simp add: Let_def s1_def)
next
  case (WCounted c rows v)
  define s1 where "s1 = bw_run [WBytes 4 (ucast c)] s"
  have "w_goes 4 s s1" using w_goes_run [of "[WBytes 4 (ucast c)]" s] by (simp add: s1_def)
  moreover have "w_goes (sum_list (map bw_op_size rows) div 8) s1 (bw_run rows s1)" using WCounted by (intro w_goes_run) simp
  ultimately show ?case using w_goes_comp [OF w_goes_comp w_goes_modify] by (simp add: Let_def s1_def)
qed (simp_all add: w_goes_run)

lemma trun_rows_size: "list_all byte_op (trun_rows t xs) \<and> sum_list (map bw_op_size (trun_rows t xs)) = 96 * (length xs - 1)"
  by (induction t xs rule: trun_rows.induct) simp_all

lemma dash_moof_only: "w_byte_only (dash_moof off t x)" "w_size (dash_moof off t x) = 88 + 12 * (length (dt_samples x) - 1)"
  using trun_rows_size [of t "dt_samples x"]
  by (simp_all add: dash_moof_def WriteTrackFragmentBox_def WriteTrackFragmentRunBox_def WriteMovieFragmentHeaderBox_def
        WriteTrackFragmentHeaderBox_def WriteTrackFragmentDecodeTimeBox_def Let_def)

lemma dash_segment_overflow:
  assumes x: "x = d_track t d" and n: "11000 \<le> length (dt_samples x)" and t: "t = kVideoPayload"
  shows "d_fault (snd (dash_write_segment t d))"
proof -
  have left: "dash_left_size t x = 0" by (simp add: dash_left_size_def t kinds)
  define s where "s = bw_new (length (dt_mdat x) + 1024 * 128)"
  have s: "w_ready s" "bw_pos s = 0" "bw_len s = 8 * (length (dt_mdat x) + 131072)" "bw_fault s = False" "bw_size_in_bytes s = 0"
    "length (bw_buf s) = length (dt_mdat x) + 131072"
    using w_ready_new by (simp_all only: s_def) (simp_all add: bw_new_def bw_size_in_bytes_def)
  define xs where "xs = [WriteSegmentTypeBox, WriteSegmentIndexBox t x]"
  have xs: "list_all w_ok xs" "length (w_list_bytes 0 xs) = 68" by (simp_all add: xs_def dash_fixed_boxes)
  define s2 where "s2 = w_execs xs s"
  have a: "w_after s (w_list_bytes 0 xs) s2"
    using appendsD [OF w_execs_appends [OF xs(1)] s(1)] s xs(2) by (simp add: s2_def)
  then have b: "bw_size_in_bytes s2 = 68" "bw_pos s2 = 544" "8 * length (bw_buf s2) = 8 * (length (dt_mdat x) + 131072)" "\<not> bw_fault s2"
    using s xs(2) by (auto simp: w_after_def bw_size_in_bytes_def w_ready_def bw_clean_def)
  have s2: "s2 = w_exec (WriteSegmentIndexBox t x) (w_exec WriteSegmentTypeBox s)" by (simp add: s2_def xs_def)
  have mo: "WriteMovieFragmentBox t d s2 = (w_exec (dash_moof 68 t x) s2, d\<lparr>d_moof_offset := 68\<rparr>)"
    by (simp add: WriteMovieFragmentBox_def b dash_moof_def x Let_def del: w_exec.simps)
  define M where "M = WBox ''mdat'' [WOps [WData (dt_mdat x)]]"
  have "w_byte_only M" by (simp add: M_def)
  note go = w_goes_comp [OF w_goes_exec w_goes_exec, OF dash_moof_only(1) this, of 68 t x s2]
  have "bw_fault (w_exec M (w_exec (dash_moof 68 t x) s2))"
    using go b n unfolding w_goes_def dash_moof_only(2)
    by (simp add: M_def del: w_exec.simps split: if_splits) linarith
  moreover have "dash_mdat_box t x = w_exec M" by (rule ext) (simp add: dash_mdat_box_def left M_def Let_def del: w_exec.simps)
  ultimately show ?thesis
    unfolding dash_write_segment_def Let_def x [symmetric] s_def [symmetric] s2 [symmetric] mo prod.case d_track_moof by simp
qed

lemma d_fault_flush_audio: "d_fault d \<Longrightarrow> d_fault (dash_flush_track kAudioPayload d)"
  by (simp add: dash_flush_track_def dash_write_segment_def WriteMovieFragmentBox_def Let_def split_beta d_update_def)

text \<open>
  C39: the buffer of a segment has 128 KB for everything but the media data, and each frame takes 12 bytes of it: a key
  frame that ends an interval of 11000 video frames or more makes the muxer write behind the heap block.
\<close>

theorem dash_long_interval_overflows:
  assumes "samples = dt_samples (d_video d) @ [p]" and "pl_is_iframe p" and "11000 \<le> length samples"
    and "5000 \<le> sint (ucast (pl_dts (last samples) - pl_dts (hd samples)) :: u32)"
  shows "d_fault (dash_on_video env p d)"
proof -
  define D where "D = dash_push kVideoPayload p d"
  have D: "dt_samples (d_video D) = samples" by (simp add: D_def dash_push_def assms(1))
  define E where "E = d_update kVideoPayload (\<lambda>x. x\<lparr>dt_m4s := dash_evict (dt_m4s x)\<rparr>) D"
  have "11000 \<le> length (dt_samples (d_track kVideoPayload E))" using assms(3) D by (simp add: E_def)
  from dash_segment_overflow [OF refl this refl] have "d_fault (dash_flush_track kVideoPayload D)"
    using assms(3) D by (simp add: dash_flush_track_def Let_def split_beta E_def)
  then have f: "d_fault (dash_flush_track kAudioPayload (dash_flush_track kVideoPayload D))" by (rule d_fault_flush_audio)
  have "dash_flush D = (True, dash_flush_track kAudioPayload (dash_flush_track kVideoPayload D))"
    using assms(4) D by (simp add: dash_flush_def Let_def DASH_FRAGMENT_DURATION_def)
  moreover have "d_fault e \<Longrightarrow> d_fault (dash_reset (UpdateMpd env (UpdateInitMp4 env e)))" for e
    by (simp add: dash_reset_def UpdateMpd_def UpdateInitMp4_def dash_update_init_def Let_def d_update_def)
  moreover have "d_fault e \<Longrightarrow> d_fault (dash_append kVideoPayload q n e)" for q n e by (simp add: dash_append_def split: option.split)
  ultimately show ?thesis using f assms(2) by (simp add: dash_on_video_def D_def [symmetric] Let_def)
qed

lemma dash_long_interval_overflows_witness:
  "d_fault (dash_on_video dash_env0 (dash_key 9000) ((dash_new 9 (bs ''start''))\<lparr>d_video := dash_track_new\<lparr>dt_samples := replicate 11000 (dash_key 0)\<rparr>\<rparr>))"
proof -
  define d where "d = (dash_new 9 (bs ''start''))\<lparr>d_video := dash_track_new\<lparr>dt_samples := replicate 11000 (dash_key 0)\<rparr>\<rparr>"
  define k where "k = replicate 11000 (dash_key 0)"
  have "k \<noteq> []" by (simp add: k_def)
  moreover have "length k = 11000" by (simp only: k_def length_replicate)
  moreover have "hd k = dash_key 0" by (simp add: k_def)
  moreover have "dt_samples (d_video d) = k" by (simp add: d_def k_def)
  ultimately show ?thesis
    unfolding d_def [symmetric]
    by (intro dash_long_interval_overflows [of "k @ [dash_key 9000]" d "dash_key 9000"]) (simp_all add: dash_key_def pl_defs)
qed

end
