(* ===== verification/HttpParse.thy ===== *)
theory HttpParse
  imports Util
begin

text \<open>
  \<open>src/http_parse.h\<close>, \<open>src/http_parse.cpp\<close>: the parser of HTTP requests, a character machine whose state lives
  from one read to the next and is never reset. The buffer of the connection is the list of its unread bytes.
  Positions are \<open>int\<close>s in the code; they are the mathematical integers here, which is the same for requests below
  2 GB. What the code only prints is left out.

  The lemmas show that the cut of a request into reads does not matter, what a well-formed request leaves in the
  members, and that no name the parser hands out for a file can leave the directory.
\<close>

section \<open>State\<close>

record http_parse =
  hp_header :: "(bytes, bytes) smap" \<comment> \<open>\<open>header_kv_\<close>\<close>
  hp_args :: "(bytes, bytes) smap"
  hp_r_pos :: int
  hp_n_pos :: int
  hp_m_pos :: int
  hp_next_pos :: int
  hp_key_value :: bool
  hp_key :: bytes
  hp_value :: bytes
  hp_file_name :: bytes
  hp_file_type :: bytes
  hp_path :: "bytes list"

definition http_new :: http_parse where
  "http_new =
     \<lparr>hp_header = [], hp_args = [], hp_r_pos = -1, hp_n_pos = -1, hp_m_pos = -1, hp_next_pos = 0, hp_key_value = False,
      hp_key = [], hp_value = [], hp_file_name = [], hp_file_type = [], hp_path = []\<rparr>"

section \<open>The request line\<close>

record http_url =
  hu_path :: "bytes list"
  hu_args :: "(bytes, bytes) smap"
  hu_tmp_path :: bytes
  hu_tmp_key :: bytes
  hu_tmp_value :: bytes
  hu_state :: nat \<comment> \<open>0 path, 1 key of an argument, 2 its value\<close>

definition http_url_char :: "nat \<Rightarrow> u8 \<Rightarrow> http_url \<Rightarrow> http_url" where
  \<comment> \<open>\<open>'/' '?' '&' '='\<close>\<close>
  "http_url_char index ch u =
     (if ch = 47 then
        if index \<noteq> 0 then u\<lparr>hu_path := hu_path u @ [hu_tmp_path u], hu_tmp_path := []\<rparr> else u
      else if ch = 63 then
        if hu_state u = 0 then u\<lparr>hu_state := 1\<rparr> else u
      else if ch = 38 then
        u\<lparr>hu_args := sm_put (hu_tmp_key u) (hu_tmp_value u) (hu_args u), hu_tmp_key := [], hu_tmp_value := [], hu_state := 1\<rparr>
      else if ch = 61 then
        if hu_state u = 1 then u\<lparr>hu_state := 2\<rparr>
        else if hu_state u = 2 then u\<lparr>hu_tmp_value := hu_tmp_value u @ [ch]\<rparr> else u
      else if hu_state u = 0 then u\<lparr>hu_tmp_path := hu_tmp_path u @ [ch]\<rparr>
      else if hu_state u = 1 then u\<lparr>hu_tmp_key := hu_tmp_key u @ [ch]\<rparr>
      else if hu_state u = 2 then u\<lparr>hu_tmp_value := hu_tmp_value u @ [ch]\<rparr> else u)"

fun http_url_loop :: "nat \<Rightarrow> bytes \<Rightarrow> http_url \<Rightarrow> http_url" where
  "http_url_loop index [] u = u"
| "http_url_loop index (ch # chs) u = http_url_loop (index + 1) chs (http_url_char index ch u)"

definition http_url_end :: "http_url \<Rightarrow> http_url" where
  "http_url_end u =
     (if hu_state u = 0 then
        if hu_tmp_path u \<noteq> [] then u\<lparr>hu_path := hu_path u @ [hu_tmp_path u]\<rparr> else u
      else u\<lparr>hu_args := sm_put (hu_tmp_key u) (hu_tmp_value u) (hu_args u)\<rparr>)"

definition http_file :: "http_parse \<Rightarrow> http_parse" where
  "http_file p =
     (if 0 < length (hp_path p)
      then
        let name = last (hp_path p)
        in case str_find name (bs ''.'') of
             None \<Rightarrow> p\<lparr>hp_file_name := name\<rparr>
           | Some dot_pos \<Rightarrow> p\<lparr>hp_file_type := drop (dot_pos + 1) name, hp_file_name := substr name 0 dot_pos\<rparr>
      else p)"

definition http_request_line :: "http_parse \<Rightarrow> http_parse option" where
  \<comment> \<open>\<open>None\<close>: \<open>kError\<close>. \<open>SepStr\<close> at one character returns\<close>
  "http_request_line p =
     (let vec = the (sep_str (hp_key p) (bs '' ''))
      in if 2 \<le> length vec then
           if vec ! 0 \<noteq> bs ''GET'' \<and> vec ! 0 \<noteq> bs ''Get'' \<and> vec ! 0 \<noteq> bs ''get'' then None
           else
             let u = http_url_end (http_url_loop 0 (vec ! 1)
                       \<lparr>hu_path = hp_path p, hu_args = hp_args p, hu_tmp_path = [], hu_tmp_key = [], hu_tmp_value = [], hu_state = 0\<rparr>)
             in Some (http_file (p\<lparr>hp_path := hu_path u, hp_args := hu_args u\<rparr>))
         else Some p)"

section \<open>\<open>Decode\<close>\<close>

definition http_line :: "http_parse \<Rightarrow> http_parse option" where
  "http_line p =
     map_option (\<lambda>q. q\<lparr>hp_key := [], hp_value := []\<rparr>)
       (if str_find (hp_key p) (bs ''GET'') \<noteq> None then http_request_line p
        else Some (p\<lparr>hp_header := sm_put (hp_key p) (hp_value p) (hp_header p)\<rparr>))"

definition http_put :: "u8 \<Rightarrow> http_parse \<Rightarrow> http_parse" where
  "http_put c p = (if hp_key_value p then p\<lparr>hp_value := hp_value p @ [c]\<rparr> else p\<lparr>hp_key := hp_key p @ [c]\<rparr>)"

datatype http_step = HttpMore http_parse | HttpStop ret_code http_parse

definition http_char :: "int \<Rightarrow> u8 \<Rightarrow> http_parse \<Rightarrow> http_step" where
  \<comment> \<open>one round of the loop: \<open>'\r' '\n' ':' ' '\<close>\<close>
  "http_char n c p =
     (if c = 13 then HttpMore (p\<lparr>hp_r_pos := n\<rparr>)
      else if c = 10 then
        if n = hp_r_pos p + 1 then
          if n = hp_n_pos p + 2 then HttpStop kSuccess p
          else (case http_line (p\<lparr>hp_key_value := False\<rparr>) of
                  None \<Rightarrow> HttpStop kError (p\<lparr>hp_key_value := False\<rparr>)
                | Some q \<Rightarrow> HttpMore (q\<lparr>hp_n_pos := n\<rparr>))
        else HttpMore (p\<lparr>hp_n_pos := n\<rparr>)
      else if c = 58 then
        let q = p\<lparr>hp_m_pos := n\<rparr>;
            r = (if hp_key_value q then q\<lparr>hp_value := hp_value q @ [c]\<rparr> else q)
        in HttpMore (r\<lparr>hp_key_value := True\<rparr>)
      else if c = 32 then
        if hp_m_pos p + 1 = n then HttpMore p else HttpMore (http_put c p)
      else HttpMore (http_put c p))"

fun http_loop :: "int \<Rightarrow> bytes \<Rightarrow> http_parse \<Rightarrow> ret_code \<times> bytes \<times> int \<times> http_parse" where
  \<comment> \<open>the loop at \<open>n\<close> with the bytes from \<open>data[i]\<close> on: code, bytes left, \<open>n\<close> at the end\<close>
  "http_loop n [] p = (kNoEnoughData, [], n, p)"
| "http_loop n (c # data) p =
     (case http_char n c p of
        HttpMore q \<Rightarrow> http_loop (n + 1) data q
      | HttpStop ret q \<Rightarrow> (ret, data, n, q))"

definition http_decode :: "bytes \<Rightarrow> http_parse \<Rightarrow> ret_code \<times> bytes \<times> http_parse" where
  \<comment> \<open>an error leaves the bytes where they are, \<open>next_pos_\<close> is kept only when more bytes are wanted\<close>
  "http_decode data p =
     (case http_loop (hp_next_pos p) data p of
        (ret, rest, n, q) \<Rightarrow>
          if ret = kNoEnoughData then (ret, rest, q\<lparr>hp_next_pos := n\<rparr>)
          else if ret = kError then (ret, data, q) else (ret, rest, q))"

definition http_header :: "bytes \<Rightarrow> http_parse \<Rightarrow> bytes option" where
  \<comment> \<open>\<open>GetHeaderKeyValue\<close>\<close>
  "http_header key p = sm_find key (hp_header p)"

definition IsFlvRequest :: "http_parse \<Rightarrow> (bytes \<times> bytes) option" where
  "IsFlvRequest p = (if hp_file_type p = bs ''flv'' \<and> length (hp_path p) = 2 then Some (hp_path p ! 0, hp_file_name p) else None)"

definition IsHlsRequest :: "http_parse \<Rightarrow> (bytes \<times> bytes) option" where
  "IsHlsRequest p = (if hp_file_type p = bs ''hls'' \<and> length (hp_path p) = 2 then Some (hp_path p ! 0, hp_file_name p) else None)"

section \<open>Reads\<close>

lemma http_line_next: "http_line (p\<lparr>hp_next_pos := x\<rparr>) = map_option (\<lambda>q. q\<lparr>hp_next_pos := x\<rparr>) (http_line p)"
  by (auto simp: http_line_def http_request_line_def http_file_def Let_def split: option.split)

lemma http_put_next: "http_put c (p\<lparr>hp_next_pos := x\<rparr>) = (http_put c p)\<lparr>hp_next_pos := x\<rparr>"
  by (simp add: http_put_def)

lemma http_char_next:
  "http_char n c (p\<lparr>hp_next_pos := x\<rparr>) =
     (case http_char n c p of HttpMore q \<Rightarrow> HttpMore (q\<lparr>hp_next_pos := x\<rparr>) | HttpStop ret q \<Rightarrow> HttpStop ret (q\<lparr>hp_next_pos := x\<rparr>))"
proof -
  have "http_line (p\<lparr>hp_next_pos := x, hp_key_value := False\<rparr>) = map_option (\<lambda>q. q\<lparr>hp_next_pos := x\<rparr>) (http_line (p\<lparr>hp_key_value := False\<rparr>))"
    by (auto simp: http_line_def http_request_line_def http_file_def Let_def split: option.split)
  then show ?thesis by (auto simp: http_char_def http_put_next Let_def split: option.split)
qed

lemma http_loop_next:
  "http_loop n data (p\<lparr>hp_next_pos := x\<rparr>) = (case http_loop n data p of (ret, rest, m, q) \<Rightarrow> (ret, rest, m, q\<lparr>hp_next_pos := x\<rparr>))"
  by (induction n data p rule: http_loop.induct) (auto simp: http_char_next split: http_step.split)

lemma http_stop_code: "http_char n c p = HttpStop ret q \<Longrightarrow> ret = kSuccess \<or> ret = kError"
  by (auto simp: http_char_def Let_def split: if_splits option.splits)

lemma http_loop_append:
  "http_loop n (a @ b) p =
     (case http_loop n a p of (ret, rest, m, q) \<Rightarrow> if ret = kNoEnoughData then http_loop m b q else (ret, rest @ b, m, q))"
proof (induction n a p rule: http_loop.induct)
  case (2 n c data p)
  then show ?case using http_stop_code [of n c p] by (auto split: http_step.split)
qed simp

lemma http_loop_more: "http_loop n a p = (kNoEnoughData, rest, m, q) \<Longrightarrow> rest = []"
  by (induction n a p rule: http_loop.induct) (auto split: http_step.splits dest: http_stop_code)

definition http_same :: "ret_code \<times> bytes \<times> http_parse \<Rightarrow> ret_code \<times> bytes \<times> http_parse \<Rightarrow> bool" where
  \<comment> \<open>the same answer; \<open>next_pos_\<close>, and the bytes that an error leaves, are not compared\<close>
  "http_same x y \<longleftrightarrow> fst x = fst y \<and> (fst x = kError \<or> fst (snd x) = fst (snd y)) \<and>
     snd (snd x) = (snd (snd y))\<lparr>hp_next_pos := hp_next_pos (snd (snd x))\<rparr>"

text \<open>
  C20: where a request is cut into two reads, inside a line, a line end or a name, does not matter: the parser gives the same code,
  leaves the same bytes behind the request and has the same names and arguments as on the request in one piece.
\<close>

theorem http_decode_segmentation:
  "http_same
     (case http_decode a p of
        (ret, rest, q) \<Rightarrow> if ret = kNoEnoughData then http_decode (rest @ b) q else (ret, rest @ b, q))
     (http_decode (a @ b) p)"
proof -
  obtain ret rest m q where a: "http_loop (hp_next_pos p) a p = (ret, rest, m, q)" by (cases "http_loop (hp_next_pos p) a p") auto
  obtain ret' rest' m' q' where b: "http_loop m b q = (ret', rest', m', q')" by (cases "http_loop m b q") auto
  show ?thesis
  proof (cases "ret = kNoEnoughData")
    case True
    then have "rest = []" using http_loop_more a by blast
    then show ?thesis using True a b by (simp add: http_decode_def http_loop_append http_loop_next http_same_def)
  next
    case False
    then show ?thesis using a by (simp add: http_decode_def http_loop_append http_same_def)
  qed
qed

lemma http_loop_rest: "http_loop n data p = (ret, rest, m, q) \<Longrightarrow> ret \<noteq> kNoEnoughData \<Longrightarrow> length rest < length data"
proof (induction n data p rule: http_loop.induct)
  case (2 n c data p)
  then show ?case by (fastforce split: http_step.splits)
qed simp

lemma http_decode_shorter: "http_decode data p = (kSuccess, rest, q) \<Longrightarrow> length rest < length data"
  by (auto simp: http_decode_def split: prod.splits if_splits dest: http_loop_rest)

section \<open>Requests\<close>

definition http_crlf :: bytes where "http_crlf = [13, 10]"

definition http_text :: "bytes \<Rightarrow> (bytes \<times> bytes) list \<Rightarrow> bytes" where
  "http_text url headers =
     bs ''GET '' @ url @ bs '' HTTP/1.1'' @ http_crlf @ concat (map (\<lambda>(k, v). k @ bs '': '' @ v @ http_crlf) headers) @ http_crlf"

definition http_ready :: "int \<Rightarrow> http_parse \<Rightarrow> bool" where
  \<comment> \<open>at the start of a line\<close>
  "http_ready n p \<longleftrightarrow> hp_key p = [] \<and> hp_value p = [] \<and> \<not> hp_key_value p \<and> hp_n_pos p = n - 1 \<and> hp_m_pos p < n"

lemma http_key_run:
  assumes "\<not> hp_key_value p" and "hp_m_pos p < n" and "set xs \<inter> {13, 10, 58} = {}" and "xs = [] \<or> hd xs \<noteq> 32 \<or> hp_m_pos p + 1 \<noteq> n"
  shows "http_loop n (xs @ rest) p = http_loop (n + int (length xs)) rest (p\<lparr>hp_key := hp_key p @ xs\<rparr>)"
  using assms
proof (induction xs arbitrary: n p)
  case (Cons c xs)
  have "http_char n c p = HttpMore (p\<lparr>hp_key := hp_key p @ [c]\<rparr>)"
    using Cons.prems by (auto simp: http_char_def http_put_def)
  then show ?case using Cons.prems Cons.IH [of "p\<lparr>hp_key := hp_key p @ [c]\<rparr>" "n + 1"] by (simp add: add.assoc)
qed simp

lemma http_value_run:
  assumes "hp_key_value p" and "hp_m_pos p < n" and "set xs \<inter> {13, 10} = {}" and "xs = [] \<or> hd xs \<noteq> 32 \<or> hp_m_pos p + 1 \<noteq> n"
    and "str_find xs (bs '': '') = None"
  shows "\<exists>m. m < n + int (length xs) \<and>
    http_loop n (xs @ rest) p = http_loop (n + int (length xs)) rest (p\<lparr>hp_value := hp_value p @ xs, hp_m_pos := m\<rparr>)"
  using assms
proof (induction xs arbitrary: n p)
  case Nil
  then show ?case by (intro exI [of _ "hp_m_pos p"]) simp
next
  case (Cons c xs)
  define q where "q = (if c = 58 then p\<lparr>hp_m_pos := n, hp_value := hp_value p @ [c]\<rparr> else p\<lparr>hp_value := hp_value p @ [c]\<rparr>)"
  have "http_char n c p = HttpMore q"
    using Cons.prems by (auto simp: http_char_def http_put_def q_def)
  moreover have "\<exists>m. m < n + 1 + int (length xs) \<and>
    http_loop (n + 1) (xs @ rest) q = http_loop (n + 1 + int (length xs)) rest (q\<lparr>hp_value := hp_value q @ xs, hp_m_pos := m\<rparr>)"
  proof (rule Cons.IH)
    show "xs = [] \<or> hd xs \<noteq> 32 \<or> hp_m_pos q + 1 \<noteq> n + 1"
      using Cons.prems by (cases xs) (auto simp: q_def bs_def split: if_splits)
    show "str_find xs (bs '': '') = None" using Cons.prems(5) by (auto split: if_splits)
  qed (use Cons.prems in \<open>auto simp: q_def\<close>)
  ultimately show ?case by (auto simp: q_def add.assoc intro: exI split: if_splits)
qed

lemma http_line_end:
  assumes "hp_n_pos p + 1 < n" and "http_line (p\<lparr>hp_r_pos := n, hp_key_value := False\<rparr>) = Some q"
  shows "http_loop n (http_crlf @ rest) p = http_loop (n + 2) rest (q\<lparr>hp_n_pos := n + 1\<rparr>)"
  using assms by (simp add: http_crlf_def http_char_def add.assoc)

lemma http_last_line:
  assumes "http_ready n p"
  shows "http_loop n (http_crlf @ rest) p = (kSuccess, rest, n + 1, p\<lparr>hp_r_pos := n\<rparr>)"
  using assms by (simp add: http_crlf_def http_char_def http_ready_def)

definition http_header_ok :: "bytes \<times> bytes \<Rightarrow> bool" where
  "http_header_ok kv \<longleftrightarrow> (case kv of (k, v) \<Rightarrow>
     k \<noteq> [] \<and> hd k \<noteq> 32 \<and> set k \<inter> {13, 10, 58} = {} \<and> str_find k (bs ''GET'') = None \<and>
     set v \<inter> {13, 10} = {} \<and> str_find v (bs '': '') = None)"

definition http_put_headers :: "(bytes \<times> bytes) list \<Rightarrow> (bytes, bytes) smap \<Rightarrow> (bytes, bytes) smap" where
  "http_put_headers kvs m = fold (\<lambda>(k, v). sm_put k v) kvs m"

lemma http_header_line:
  assumes r: "http_ready n p" and ok: "http_header_ok (k, v)"
  shows "\<exists>q n'. http_loop n (k @ bs '': '' @ v @ http_crlf @ rest) p = http_loop n' rest q \<and> http_ready n' q \<and>
    hp_header q = sm_put k v (hp_header p) \<and> hp_path q = hp_path p \<and> hp_args q = hp_args p \<and>
    hp_file_name q = hp_file_name p \<and> hp_file_type q = hp_file_type p"
proof -
  note r = r [unfolded http_ready_def] and ok = ok [unfolded http_header_ok_def prod.case]
  define n1 where "n1 = n + int (length k)"
  define p1 where "p1 = p\<lparr>hp_key := k, hp_m_pos := n1, hp_key_value := True\<rparr>"
  have "http_loop n (k @ bs '': '' @ v @ http_crlf @ rest) p = http_loop n1 (bs '': '' @ v @ http_crlf @ rest) (p\<lparr>hp_key := k\<rparr>)"
    using r ok http_key_run [of p n k] by (simp add: n1_def)
  also have "\<dots> = http_loop (n1 + 2) (v @ http_crlf @ rest) p1"
    using r by (simp add: bs_def http_char_def p1_def add.assoc)
  finally have 1: "http_loop n (k @ bs '': '' @ v @ http_crlf @ rest) p = http_loop (n1 + 2) (v @ http_crlf @ rest) p1" .
  obtain m where m: "m < n1 + 2 + int (length v)"
    "http_loop (n1 + 2) (v @ http_crlf @ rest) p1 = http_loop (n1 + 2 + int (length v)) (http_crlf @ rest) (p1\<lparr>hp_value := v, hp_m_pos := m\<rparr>)"
    using http_value_run [of p1 "n1 + 2" v "http_crlf @ rest"] r ok by (auto simp: p1_def)
  define n2 where "n2 = n1 + 2 + int (length v)"
  define p2 where "p2 = p1\<lparr>hp_value := v, hp_m_pos := m\<rparr>"
  define q where "q = p2\<lparr>hp_r_pos := n2, hp_key_value := False, hp_header := sm_put k v (hp_header p), hp_key := [], hp_value := []\<rparr>"
  have "http_line (p2\<lparr>hp_r_pos := n2, hp_key_value := False\<rparr>) = Some q"
    using ok by (simp add: http_line_def q_def p2_def p1_def)
  moreover have "hp_n_pos p2 + 1 < n2" using r by (simp add: p2_def p1_def n2_def n1_def)
  ultimately have "http_loop n2 (http_crlf @ rest) p2 = http_loop (n2 + 2) rest (q\<lparr>hp_n_pos := n2 + 1\<rparr>)" by (rule http_line_end [rotated])
  moreover have "http_ready (n2 + 2) (q\<lparr>hp_n_pos := n2 + 1\<rparr>)" using m(1) by (simp add: http_ready_def q_def p2_def n2_def)
  ultimately show ?thesis
    using 1 m(2) by (intro exI [of _ "q\<lparr>hp_n_pos := n2 + 1\<rparr>"] exI [of _ "n2 + 2"]) (simp add: p2_def n2_def q_def p1_def)
qed

lemma http_header_lines:
  assumes "http_ready n p" and "list_all http_header_ok headers"
  shows "\<exists>q n'. http_loop n (concat (map (\<lambda>(k, v). k @ bs '': '' @ v @ http_crlf) headers) @ rest) p = http_loop n' rest q \<and> http_ready n' q \<and>
    hp_header q = http_put_headers headers (hp_header p) \<and> hp_path q = hp_path p \<and> hp_args q = hp_args p \<and>
    hp_file_name q = hp_file_name p \<and> hp_file_type q = hp_file_type p"
  using assms
proof (induction headers arbitrary: n p)
  case Nil
  then show ?case by (auto simp: http_put_headers_def)
next
  case (Cons kv headers)
  obtain k v where kv: "kv = (k, v)" by (cases kv)
  define r where "r = concat (map (\<lambda>(k, v). k @ bs '': '' @ v @ http_crlf) headers) @ rest"
  obtain q n' where q: "http_loop n (k @ bs '': '' @ v @ http_crlf @ r) p = http_loop n' r q" "http_ready n' q"
    "hp_header q = sm_put k v (hp_header p)" "hp_path q = hp_path p" "hp_args q = hp_args p"
    "hp_file_name q = hp_file_name p" "hp_file_type q = hp_file_type p"
    using http_header_line [OF Cons.prems(1), of k v r] Cons.prems(2) by (auto simp: kv)
  have ok: "list_all http_header_ok headers" using Cons.prems(2) by simp
  show ?case using Cons.IH [OF q(2) ok] q by (auto simp: kv r_def http_put_headers_def)
qed

section \<open>Names and arguments\<close>

definition http_plain :: "bytes \<Rightarrow> bool" where
  \<comment> \<open>none of \<open>/ ? & = :\<close>, space, CR, LF\<close>
  "http_plain s \<longleftrightarrow> set s \<inter> {47, 63, 38, 61, 58, 32, 13, 10} = {}"

definition http_url_text :: "bytes list \<Rightarrow> (bytes \<times> bytes) list \<Rightarrow> bytes" where
  "http_url_text path args =
     bs ''/'' @ join (bs ''/'') path @ (if args = [] then [] else bs ''?'' @ join (bs ''&'') (map (\<lambda>(k, v). k @ bs ''='' @ v) args))"

lemma http_chars: "bs ''/'' = [47]" "bs ''?'' = [63]" "bs ''&'' = [38]" "bs ''='' = [61]" "bs '' '' = [32]" "bs ''.'' = [46]" "bs '': '' = [58, 32]"
  by (simp_all add: bs_def)

lemma http_url_append: "http_url_loop i (xs @ ys) u = http_url_loop (i + length xs) ys (http_url_loop i xs u)"
  by (induction i xs u rule: http_url_loop.induct) simp_all

lemma http_url_plain:
  assumes "http_plain xs"
  shows "hu_state u = 0 \<Longrightarrow> http_url_loop i xs u = u\<lparr>hu_tmp_path := hu_tmp_path u @ xs\<rparr>"
    and "hu_state u = 1 \<Longrightarrow> http_url_loop i xs u = u\<lparr>hu_tmp_key := hu_tmp_key u @ xs\<rparr>"
    and "hu_state u = 2 \<Longrightarrow> http_url_loop i xs u = u\<lparr>hu_tmp_value := hu_tmp_value u @ xs\<rparr>"
  using assms by (induction i xs u rule: http_url_loop.induct) (auto simp: http_plain_def http_url_char_def)

lemma http_url_path:
  assumes "ps \<noteq> []" and "list_all http_plain ps" and "hu_state u = 0" and "hu_tmp_path u = []"
  shows "http_url_loop (Suc i) (join [47] ps) u = u\<lparr>hu_path := hu_path u @ butlast ps, hu_tmp_path := last ps\<rparr>"
  using assms
proof (induction "[47 :: u8]" ps arbitrary: i u rule: join.induct)
  case (3 p q ps)
  then show ?case by (simp add: http_url_append http_url_plain http_url_char_def)
qed (simp_all add: http_url_plain)

lemma http_url_args:
  assumes "args \<noteq> []" and "list_all (\<lambda>(k, v). http_plain k \<and> http_plain v) args" and "hu_state u = 1" and "hu_tmp_key u = []" and "hu_tmp_value u = []"
  shows "\<exists>v. http_url_end (http_url_loop i (join [38] (map (\<lambda>(k, v). k @ [61] @ v) args)) u) = v \<and>
    hu_path v = hu_path u \<and> hu_args v = http_put_headers args (hu_args u)"
  using assms
proof (induction args arbitrary: i u)
  case (Cons kv args)
  obtain k v where kv: "kv = (k, v)" by (cases kv)
  have 1: "http_url_loop i (k @ [61] @ v) u = u\<lparr>hu_tmp_key := k, hu_state := 2, hu_tmp_value := v\<rparr>" for i
    using Cons.prems by (simp add: kv http_url_append http_url_plain http_url_char_def)
  show ?case
  proof (cases "args = []")
    case True
    then show ?thesis using 1 [of i] by (simp add: kv http_url_end_def http_put_headers_def)
  next
    case False
    then obtain a as where as: "args = a # as" by (cases args) auto
    define w where "w = u\<lparr>hu_args := sm_put k v (hu_args u), hu_tmp_key := [], hu_tmp_value := [], hu_state := 1\<rparr>"
    define t where "t = join [38] (map (\<lambda>(k, v). k @ [61] @ v) args)"
    have j: "join [38] (map (\<lambda>(k, v). k @ [61] @ v) (kv # args)) = (k @ [61] @ v) @ 38 # t"
      by (simp add: kv t_def as)
    have "http_url_loop i ((k @ [61] @ v) @ 38 # t) u =
        http_url_loop (i + length (k @ [61] @ v)) (38 # t) (u\<lparr>hu_tmp_key := k, hu_state := 2, hu_tmp_value := v\<rparr>)"
      by (simp only: http_url_append [of i "k @ [61] @ v"] 1)
    also have "\<dots> = http_url_loop (i + length (k @ [61] @ v) + 1) t w" by (simp add: http_url_char_def w_def)
    finally have "http_url_loop i (join [38] (map (\<lambda>(k, v). k @ [61] @ v) (kv # args))) u = http_url_loop (i + length (k @ [61] @ v) + 1) t w"
      unfolding j .
    then show ?thesis
      using Cons.IH [of w "i + length (k @ [61] @ v) + 1"] Cons.prems False by (simp add: w_def t_def kv http_put_headers_def)
  qed
qed simp

lemma http_url_result:
  assumes "path \<noteq> []" and "list_all http_plain path" and "last path \<noteq> []" and "list_all (\<lambda>(k, v). http_plain k \<and> http_plain v) args"
    and "hu_state u = 0" and "hu_tmp_path u = []" and "hu_tmp_key u = []" and "hu_tmp_value u = []"
  shows "\<exists>v. http_url_end (http_url_loop 0 (http_url_text path args) u) = v \<and>
    hu_path v = hu_path u @ (if args = [] then path else butlast path) \<and> hu_args v = http_put_headers args (hu_args u)"
proof -
  define w where "w = u\<lparr>hu_path := hu_path u @ butlast path, hu_tmp_path := last path\<rparr>"
  have w: "http_url_loop (Suc 0) (join [47] path @ xs) u = http_url_loop (Suc 0 + length (join [47] path)) xs w" for xs
    using http_url_path [OF assms(1,2,5,6), of 0] by (simp add: http_url_append w_def)
  have "http_url_loop 0 (http_url_text path args) u =
      http_url_loop (Suc 0) (join [47] path @ (if args = [] then [] else 63 # join [38] (map (\<lambda>(k, v). k @ [61] @ v) args))) u"
    by (simp add: http_url_text_def http_chars http_url_char_def)
  also have "\<dots> = (if args = [] then w
      else http_url_loop (Suc (Suc 0 + length (join [47] path))) (join [38] (map (\<lambda>(k, v). k @ [61] @ v) args)) (w\<lparr>hu_state := 1\<rparr>))"
    using assms(5) by (simp only: w) (simp add: http_url_char_def w_def)
  finally have l: "http_url_loop 0 (http_url_text path args) u = (if args = [] then w
      else http_url_loop (Suc (Suc 0 + length (join [47] path))) (join [38] (map (\<lambda>(k, v). k @ [61] @ v) args)) (w\<lparr>hu_state := 1\<rparr>))" .
  show ?thesis
  proof (cases "args = []")
    case True
    then show ?thesis using assms unfolding l by (simp add: http_url_end_def w_def http_put_headers_def)
  next
    case False
    then show ?thesis
      using http_url_args [OF False assms(4), of "w\<lparr>hu_state := 1\<rparr>"] assms unfolding l by (simp add: w_def)
  qed
qed

lemma http_url_text_clean: "list_all http_plain path \<Longrightarrow> list_all (\<lambda>(k, v). http_plain k \<and> http_plain v) args \<Longrightarrow>
  set (http_url_text path args) \<inter> {58, 32, 13, 10} = {}"
proof -
  have j: "set (join sep ps) \<subseteq> set sep \<union> \<Union> (set ` set ps)" for sep and ps :: "bytes list"
    by (induction sep ps rule: join.induct) auto
  assume "list_all http_plain path" "list_all (\<lambda>(k, v). http_plain k \<and> http_plain v) args"
  then show ?thesis
    using j [of "[47]" path] j [of "[38]" "map (\<lambda>(k, v). k @ [61] @ v) args"]
    by (auto simp: http_url_text_def http_chars list_all_iff http_plain_def split: if_splits; fastforce)
qed

lemma http_find_put: "sm_find k (http_put_headers kvs m) = (case map_of (rev kvs) k of None \<Rightarrow> sm_find k m | Some v \<Rightarrow> Some v)"
  by (induction kvs arbitrary: m) (auto simp: http_put_headers_def sm_simps map_add_def split: option.split)

lemma http_get_line:
  assumes "http_ready n p" and "path \<noteq> []" and "list_all http_plain path" and "last path \<noteq> []"
    and "list_all (\<lambda>(k, v). http_plain k \<and> http_plain v) args"
  shows "\<exists>q n'. http_loop n (bs ''GET '' @ http_url_text path args @ bs '' HTTP/1.1'' @ http_crlf @ rest) p = http_loop n' rest q \<and>
    http_ready n' q \<and> hp_header q = hp_header p \<and> hp_args q = http_put_headers args (hp_args p) \<and>
    (\<exists>r. hp_file_type r = hp_file_type p \<and> hp_path r = hp_path p @ (if args = [] then path else butlast path) \<and>
       hp_path q = hp_path r \<and> hp_file_name r = hp_file_name p \<and>
       hp_file_name q = hp_file_name (http_file r) \<and> hp_file_type q = hp_file_type (http_file r))"
proof -
  note r = assms(1) [unfolded http_ready_def]
  define url where "url = http_url_text path args"
  note clean = http_url_text_clean [OF assms(3,5), folded url_def]
  define key where "key = bs ''GET '' @ url @ bs '' HTTP/1.1''"
  define n1 where "n1 = n + int (length key)"
  have "http_loop n (key @ http_crlf @ rest) p = http_loop n1 (http_crlf @ rest) (p\<lparr>hp_key := key\<rparr>)"
    using r clean http_key_run [of p n key "http_crlf @ rest"] by (auto simp: n1_def key_def bs_def)
  moreover
  define P where "P = p\<lparr>hp_key := key, hp_r_pos := n1, hp_key_value := False\<rparr>"
  define u where "u = http_url_end (http_url_loop 0 url
    \<lparr>hu_path = hp_path p, hu_args = hp_args p, hu_tmp_path = [], hu_tmp_key = [], hu_tmp_value = [], hu_state = 0\<rparr>)"
  have u: "hu_path u = hp_path p @ (if args = [] then path else butlast path)" "hu_args u = http_put_headers args (hp_args p)"
    using http_url_result [OF assms(2-5)] unfolding u_def url_def by fastforce+
  define R where "R = P\<lparr>hp_path := hu_path u, hp_args := hu_args u\<rparr>"
  define Q where "Q = (http_file R)\<lparr>hp_key := [], hp_value := []\<rparr>"
  have "join [32] [bs ''GET'', url, bs ''HTTP/1.1''] = key" by (simp add: key_def bs_def)
  then have "sep_str key [32] = Some [bs ''GET'', url, bs ''HTTP/1.1'']"
    using clean sep_str_join [of "[bs ''GET'', url, bs ''HTTP/1.1'']" 32] by (simp add: bs_def)
  then have "http_request_line P = Some (http_file R)"
    by (simp add: http_request_line_def P_def http_chars Let_def R_def u_def)
  moreover have "str_find key (bs ''GET'') \<noteq> None" by (simp add: key_def bs_def)
  ultimately have "http_line P = Some Q" by (simp add: http_line_def P_def Q_def)
  then have "http_loop n1 (http_crlf @ rest) (p\<lparr>hp_key := key\<rparr>) = http_loop (n1 + 2) rest (Q\<lparr>hp_n_pos := n1 + 1\<rparr>)"
    using r by (intro http_line_end) (simp_all add: P_def n1_def key_def)
  moreover have f: "hp_m_pos (http_file R) = hp_m_pos R" "hp_key_value (http_file R) = hp_key_value R" "hp_header (http_file R) = hp_header R"
    "hp_args (http_file R) = hp_args R" "hp_path (http_file R) = hp_path R"
    by (simp_all add: http_file_def Let_def split: option.split)
  then have "http_ready (n1 + 2) (Q\<lparr>hp_n_pos := n1 + 1\<rparr>)" using r by (simp add: http_ready_def Q_def R_def P_def n1_def)
  ultimately show ?thesis
    using u f \<open>http_loop n (key @ http_crlf @ rest) p = _\<close>
    by (intro exI [of _ "Q\<lparr>hp_n_pos := n1 + 1\<rparr>"] exI [of _ "n1 + 2"] conjI exI [of _ R]) (simp_all add: key_def url_def Q_def R_def P_def)
qed

lemma http_request_served:
  assumes "path \<noteq> []" and "list_all http_plain path" and "last path \<noteq> []" and "list_all (\<lambda>(k, v). http_plain k \<and> http_plain v) args"
    and "list_all http_header_ok headers"
  shows "\<exists>p r. http_decode (http_text (http_url_text path args) headers @ rest) http_new = (kSuccess, rest, p) \<and>
    hp_path p = (if args = [] then path else butlast path) \<and> hp_args p = http_put_headers args [] \<and> hp_header p = http_put_headers headers [] \<and>
    hp_path r = hp_path p \<and> hp_file_name r = [] \<and> hp_file_type r = [] \<and>
    hp_file_name p = hp_file_name (http_file r) \<and> hp_file_type p = hp_file_type (http_file r)"
proof -
  define H where "H = concat (map (\<lambda>(k, v). k @ bs '': '' @ v @ http_crlf) headers)"
  have "http_ready 0 http_new" by (simp add: http_ready_def http_new_def)
  from http_get_line [OF this assms(1-4), of "H @ http_crlf @ rest"] obtain q n r where
    q: "http_loop 0 (http_text (http_url_text path args) headers @ rest) http_new = http_loop n (H @ http_crlf @ rest) q" "http_ready n q"
    "hp_header q = []" "hp_args q = http_put_headers args []" "hp_path q = (if args = [] then path else butlast path)"
    "hp_path r = hp_path q" "hp_file_name r = []" "hp_file_type r = []"
    "hp_file_name q = hp_file_name (http_file r)" "hp_file_type q = hp_file_type (http_file r)"
    by (force simp: http_text_def H_def http_new_def)
  from http_header_lines [OF q(2) assms(5), of "http_crlf @ rest"] obtain q2 n2 where
    q2: "http_loop n (H @ http_crlf @ rest) q = http_loop n2 (http_crlf @ rest) q2" "http_ready n2 q2"
    "hp_header q2 = http_put_headers headers (hp_header q)" "hp_path q2 = hp_path q" "hp_args q2 = hp_args q"
    "hp_file_name q2 = hp_file_name q" "hp_file_type q2 = hp_file_type q"
    by (auto simp: H_def)
  have "http_decode (http_text (http_url_text path args) headers @ rest) http_new = (kSuccess, rest, q2\<lparr>hp_r_pos := n2\<rparr>)"
    using http_last_line [OF q2(2)] by (simp add: http_decode_def q(1) q2(1) http_new_def [THEN arg_cong [where f = hp_next_pos]])
  then show ?thesis using q q2 by (intro exI [of _ "q2\<lparr>hp_r_pos := n2\<rparr>"] exI [of _ r]) simp
qed

lemma http_request_parts:
  assumes "path = dirs @ [name @ bs ''.'' @ type]" and "list_all http_plain path" and "46 \<notin> set name" and "list_all http_header_ok headers"
  shows "\<exists>p. http_decode (http_text (http_url_text path []) headers @ rest) http_new = (kSuccess, rest, p) \<and>
    hp_path p = path \<and> hp_file_name p = name \<and> hp_file_type p = type \<and> (\<forall>k. http_header k p = map_of (rev headers) k)"
proof -
  have "path \<noteq> []" "last path \<noteq> []" using assms(1) by (simp_all add: bs_def)
  from http_request_served [OF this(1) assms(2) this(2), of "[]" headers rest] assms(4) obtain p r where
    p: "http_decode (http_text (http_url_text path []) headers @ rest) http_new = (kSuccess, rest, p)"
    "hp_path p = path" "hp_header p = http_put_headers headers []" "hp_path r = path"
    "hp_file_name p = hp_file_name (http_file r)" "hp_file_type p = hp_file_type (http_file r)"
    by auto
  have "str_find (name @ 46 # type) [46] = Some (length name)" using assms(3) by (rule str_find_skip1)
  then have "hp_file_name (http_file r) = name" "hp_file_type (http_file r) = type"
    using p(4) assms(1) by (simp_all add: http_file_def Let_def http_chars substr_def)
  then show ?thesis using p by (auto simp: http_header_def http_find_put split: option.split)
qed

text \<open>
  C13: a well-formed \<open>GET\<close> request for \<open>/dirs/name.type\<close> is recognised at its end, whatever follows; the
  parser then holds exactly the parts of the path, the name and the type of the file, and for each header the value of its last line.
\<close>

theorem http_request_read:
  assumes "path = dirs @ [name @ bs ''.'' @ type]" and "list_all http_plain path" and "46 \<notin> set name" and "list_all http_header_ok headers"
  shows "\<exists>p. http_decode (http_text (http_url_text path []) headers @ rest) http_new = (kSuccess, rest, p) \<and>
    hp_path p = path \<and> hp_file_name p = name \<and> hp_file_type p = type \<and> (\<forall>k. http_header k p = map_of (rev headers) k)"
  using assms by (rule http_request_parts)

lemma http_request_read_witness:
  "\<exists>p. http_decode (http_text (http_url_text [bs ''live'', bs ''room.flv''] []) [(bs ''Host'', bs ''a:80'')]) http_new = (kSuccess, [], p) \<and>
    IsFlvRequest p = Some (bs ''live'', bs ''room'') \<and> http_header (bs ''Host'') p = Some (bs ''a:80'')"
proof -
  have "list_all http_plain ([bs ''live''] @ [bs ''room'' @ bs ''.'' @ bs ''flv''])" "46 \<notin> set (bs ''room'')"
    "list_all http_header_ok [(bs ''Host'', bs ''a:80'')]"
    by (simp_all add: http_plain_def http_header_ok_def bs_def)
  from http_request_read [OF refl this, of "[]"] show ?thesis by (auto simp: IsFlvRequest_def bs_def)
qed

text \<open>
  C31: a request with arguments loses the last part of its path: the parser keeps the part it collects until the next \<open>/\<close> or the end of the
  URL, and at the end it looks at the arguments instead. So \<open>GET /app/stream.flv?key=value\<close> is no request for a stream.
\<close>

theorem http_arguments_lose_file:
  assumes "list_all http_plain [app, file_type]" and "file_type \<noteq> []" and "args \<noteq> []"
    and "list_all (\<lambda>(k, v). http_plain k \<and> http_plain v) args" and "list_all http_header_ok headers"
  shows "\<exists>p. http_decode (http_text (http_url_text [app, file_type] args) headers @ rest) http_new = (kSuccess, rest, p) \<and>
    hp_path p = [app] \<and> IsFlvRequest p = None \<and> IsHlsRequest p = None \<and> (\<forall>k. sm_find k (hp_args p) = map_of (rev args) k)"
proof -
  from http_request_served [OF _ assms(1) _ assms(4,5), of rest] assms(2,3) obtain p where
    "http_decode (http_text (http_url_text [app, file_type] args) headers @ rest) http_new = (kSuccess, rest, p)"
    "hp_path p = [app]" "hp_args p = http_put_headers args []"
    by auto
  then show ?thesis by (auto simp: http_find_put IsFlvRequest_def IsHlsRequest_def split: option.split)
qed

lemma http_arguments_lose_file_witness:
  "\<exists>p. http_decode (http_text (http_url_text [bs ''live'', bs ''room.flv''] [(bs ''token'', bs ''1'')]) []) http_new = (kSuccess, [], p) \<and>
    IsFlvRequest p = None"
proof -
  have "list_all http_plain [bs ''live'', bs ''room.flv'']" "list_all (\<lambda>(k, v). http_plain k \<and> http_plain v) [(bs ''token'', bs ''1'')]"
    by (simp_all add: http_plain_def bs_def)
  from http_arguments_lose_file [OF this(1) _ _ this(2), of "[]" "[]"] show ?thesis by (auto simp: bs_def)
qed

section \<open>Names stay in the directory\<close>

definition http_confined :: "http_parse \<Rightarrow> bool" where
  \<comment> \<open>no \<open>/\<close> in a part of a path, no \<open>/\<close> and no \<open>.\<close> in the name of a file\<close>
  "http_confined p \<longleftrightarrow> list_all (\<lambda>s. 47 \<notin> set s) (hp_path p) \<and> 47 \<notin> set (hp_file_name p) \<and> 46 \<notin> set (hp_file_name p) \<and> 47 \<notin> set (hp_file_type p)"

lemma http_url_confined:
  assumes "47 \<notin> set (hu_tmp_path u)" and "list_all (\<lambda>s. 47 \<notin> set s) (hu_path u)"
  shows "47 \<notin> set (hu_tmp_path (http_url_loop i cs u)) \<and> list_all (\<lambda>s. 47 \<notin> set s) (hu_path (http_url_loop i cs u))"
  using assms by (induction i cs u rule: http_url_loop.induct) (auto simp: http_url_char_def split: if_splits)

lemma str_find_first: "str_find s [c] = Some d \<Longrightarrow> c \<notin> set (take d s)"
  by (induction s arbitrary: d) (auto split: if_splits)

lemma http_file_confined:
  assumes "http_confined p" and "list_all (\<lambda>s. 47 \<notin> set s) ps"
  shows "http_confined (http_file (p\<lparr>hp_path := ps, hp_args := as\<rparr>))"
proof (cases "ps = []")
  case False
  then have "47 \<notin> set (last ps)" using assms(2) by (metis last_in_set list_all_iff)
  then show ?thesis
    using assms False
    by (auto simp: http_file_def http_confined_def http_chars substr_def Let_def str_find_one dest: in_set_takeD in_set_dropD str_find_first
        split: option.split)
qed (use assms in \<open>simp add: http_file_def http_confined_def\<close>)

lemma http_confined_cong:
  "hp_path q = hp_path p \<Longrightarrow> hp_file_name q = hp_file_name p \<Longrightarrow> hp_file_type q = hp_file_type p \<Longrightarrow> http_confined q = http_confined p"
  by (simp add: http_confined_def)

lemma http_line_confined: "http_confined p \<Longrightarrow> http_line p = Some q \<Longrightarrow> http_confined q"
proof -
  assume c: "http_confined p" and q: "http_line p = Some q"
  have e: "http_confined (r\<lparr>hp_key := [], hp_value := []\<rparr>) = http_confined r" for r by (rule http_confined_cong) simp_all
  define u where "u = http_url_loop 0 (the (sep_str (hp_key p) (bs '' '')) ! 1)
    \<lparr>hu_path = hp_path p, hu_args = hp_args p, hu_tmp_path = [], hu_tmp_key = [], hu_tmp_value = [], hu_state = 0\<rparr>"
  have "47 \<notin> set (hu_tmp_path u) \<and> list_all (\<lambda>s. 47 \<notin> set s) (hu_path u)"
    unfolding u_def by (rule http_url_confined) (use c in \<open>simp_all add: http_confined_def\<close>)
  then have "list_all (\<lambda>s. 47 \<notin> set s) (hu_path (http_url_end u))" by (simp add: http_url_end_def)
  note f = http_file_confined [OF c this]
  have r: "http_confined r" if "http_request_line p = Some r" for r
    using that c f [of "hu_args (http_url_end u)"] by (auto simp: http_request_line_def u_def Let_def split: if_splits)
  have "http_confined (p\<lparr>hp_header := h\<rparr>)" for h using c by (simp add: http_confined_def)
  then show ?thesis using q r e by (auto simp: http_line_def split: if_splits)
qed

lemma http_char_confined: "http_confined p \<Longrightarrow> (case http_char n c p of HttpMore q \<Rightarrow> http_confined q | HttpStop ret q \<Rightarrow> http_confined q)"
proof -
  assume c: "http_confined p"
  have e: "http_confined (q\<lparr>hp_n_pos := n\<rparr>) = http_confined q" for q by (rule http_confined_cong) simp_all
  have k: "http_confined (p\<lparr>hp_key_value := False\<rparr>)" using c by (simp add: http_confined_def)
  show ?thesis
  proof (cases "http_line (p\<lparr>hp_key_value := False\<rparr>)")
    case None
    then show ?thesis using c k by (simp add: http_char_def http_put_def Let_def) (simp add: http_confined_def)
  next
    case (Some q)
    then show ?thesis using c k e http_line_confined [OF k Some]
      by (simp add: http_char_def http_put_def Let_def) (simp add: http_confined_def)
  qed
qed

lemma http_loop_confined: "http_confined p \<Longrightarrow> http_confined (snd (snd (snd (http_loop n data p))))"
proof (induction n data p rule: http_loop.induct)
  case (2 n c data p)
  then show ?case using http_char_confined [of p n c] by (cases "http_char n c p") auto
qed simp

lemma http_decode_confined: "http_confined p \<Longrightarrow> http_confined (snd (snd (http_decode data p)))"
proof -
  assume "http_confined p"
  then have "http_confined (snd (snd (snd (http_loop (hp_next_pos p) data p))))" by (rule http_loop_confined)
  then show ?thesis by (auto simp: http_decode_def http_confined_def split: prod.split)
qed

lemma http_new_confined: "http_confined http_new"
  by (simp add: http_confined_def http_new_def)

end
