(* ===== verification/HttpSender.thy ===== *)
theory HttpSender
  imports HttpParse
begin

text \<open>
  \<open>src/http_sender.cpp\<close>: the responses, and \<open>src/http_file_protocol.cpp\<close>: the server of HTML pages. The date and the
  contents of the files are parameters. Whatever is sent to it, the file server opens files of its own directory
  only; but as \<open>ReadFile\<close> takes the name as a C string, a NUL in the request cuts the ending \<open>.html\<close> off.
\<close>

section \<open>\<open>HttpSender\<close>\<close>

definition kStatusMap :: "(bytes, bytes) smap" where
  "kStatusMap = [(bs ''200'', bs ''OK''), (bs ''403'', bs ''Forbidden''), (bs ''404'', bs ''Not Found'')]"

definition kTypeMap :: "(bytes, bytes) smap" where
  "kTypeMap =
     [(bs ''flv'', bs ''flv-application/octet-stream''), (bs ''html'', bs ''text/html''), (bs ''js'', bs ''text/javascript''),
      (bs ''m3u8'', bs ''application/x-mpegurl''), (bs ''ts'', bs ''video/mp2t'')]"

definition sm_index :: "'k \<Rightarrow> ('k, bytes) smap \<Rightarrow> bytes" where
  \<comment> \<open>what \<open>m[k]\<close> reads: a key that is not there gets the empty string\<close>
  "sm_index k m = (case sm_find k m of None \<Rightarrow> [] | Some v \<Rightarrow> v)"

record http_sender =
  ht_status :: bytes
  ht_header :: "(bytes \<times> bytes) list"
  ht_content :: bytes

definition ht_new :: "bytes \<Rightarrow> http_sender" where
  \<comment> \<open>\<open>now\<close>: \<open>Util::GetNowStrHttpFormat()\<close>\<close>
  "ht_new now = \<lparr>ht_status = [], ht_header = [(bs ''Server'', bs ''Trs''), (bs ''Date'', now)], ht_content = []\<rparr>"

definition SetStatus :: "bytes \<Rightarrow> http_sender \<Rightarrow> http_sender" where
  "SetStatus status h = h\<lparr>ht_status := bs ''HTTP/1.1 '' @ status @ bs '' '' @ sm_index status kStatusMap\<rparr>"

definition SetHeader :: "bytes \<Rightarrow> bytes \<Rightarrow> http_sender \<Rightarrow> http_sender" where
  "SetHeader key val h = h\<lparr>ht_header := ht_header h @ [(key, val)]\<rparr>"

definition SetKeepAlive :: "http_sender \<Rightarrow> http_sender" where
  "SetKeepAlive = SetHeader (bs ''Connection'') (bs ''keep-alive'')"

definition SetClose :: "http_sender \<Rightarrow> http_sender" where
  "SetClose = SetHeader (bs ''Connection'') (bs ''close'')"

definition SetContent :: "bytes \<Rightarrow> http_sender \<Rightarrow> http_sender" where
  "SetContent content h = h\<lparr>ht_content := content\<rparr>"

definition SetContentType :: "bytes \<Rightarrow> http_sender \<Rightarrow> http_sender" where
  "SetContentType type = SetHeader (bs ''Content-Type'') (sm_index type kTypeMap)"

definition http_encode :: "http_sender \<Rightarrow> bytes" where
  "http_encode h =
     ht_status h @ http_crlf @ concat (map (\<lambda>(k, v). k @ bs '': '' @ v @ http_crlf) (ht_header h)) @
     (if ht_content h \<noteq> [] then bs ''Content-Length: '' @ dec (length (ht_content h)) @ http_crlf @ http_crlf @ ht_content h
      else http_crlf)"

section \<open>\<open>HttpFileProtocol\<close>\<close>

datatype http_effect =
    HttpSend bytes \<comment> \<open>\<open>Send\<close> of the socket\<close>
  | HttpOpen bytes \<comment> \<open>\<open>Util::ReadFile\<close>\<close>

definition http_html :: "bytes \<Rightarrow> bytes \<Rightarrow> bytes \<Rightarrow> bytes" where
  \<comment> \<open>an answer with a page\<close>
  "http_html now status content =
     http_encode (SetContent content (SetClose (SetContentType (bs ''html'') (SetStatus status (ht_new now)))))"

definition http_file_parse :: "bytes \<Rightarrow> (bytes \<Rightarrow> bytes) \<Rightarrow> bytes \<Rightarrow> http_parse \<Rightarrow> ret_code \<times> http_effect list \<times> bytes \<times> http_parse" where
  \<comment> \<open>\<open>files\<close>: what \<open>ReadFile\<close> reads from the file with that name, empty for one that is not there; it is given the name as \<open>c_str()\<close>\<close>
  "http_file_parse now files data p =
     (case http_decode data p of
        (ret, rest, q) \<Rightarrow>
          (ret,
           if ret = kSuccess then
             if hp_file_type q = bs ''html'' then
               let path = c_str (hp_file_name q @ bs ''.html'');
                   html = files path
               in HttpOpen path # [HttpSend (if html = [] then http_html now (bs ''404'') (bs ''no found'') else http_html now (bs ''200'') html)]
             else [HttpSend (http_html now (bs ''404'') (bs ''no found''))]
           else [],
           rest, q))"

function http_file_read :: "bytes \<Rightarrow> (bytes \<Rightarrow> bytes) \<Rightarrow> bytes \<Rightarrow> http_parse \<Rightarrow> ret_code \<times> http_effect list \<times> bytes \<times> http_parse" where
  \<comment> \<open>\<open>HandleRead\<close>: until no whole request is left\<close>
  "http_file_read now files data p =
     (case http_file_parse now files data p of
        (ret, out, rest, q) \<Rightarrow>
          if ret = kSuccess then
            case http_file_read now files rest q of (ret2, out2, rest2, q2) \<Rightarrow> (ret2, out @ out2, rest2, q2)
          else (ret, out, rest, q))"
  by pat_completeness auto
termination
  by (relation "measure (\<lambda>(now, files, data, p). length data)")
    (auto simp: http_file_parse_def split: prod.splits dest: http_decode_shorter)

declare http_file_read.simps [simp del]

fun http_file_conn :: "bytes \<Rightarrow> (bytes \<Rightarrow> bytes) \<Rightarrow> bytes list \<Rightarrow> bytes \<times> http_parse \<Rightarrow> http_effect list" where
  \<comment> \<open>a connection: what arrives joins what was left\<close>
  "http_file_conn now files [] c = []"
| "http_file_conn now files (d # ds) (left, p) =
     (case http_file_read now files (left @ d) p of (ret, out, rest, q) \<Rightarrow> out @ http_file_conn now files ds (rest, q))"

section \<open>The files that are opened\<close>

definition http_page :: "http_effect \<Rightarrow> bool" where
  \<comment> \<open>a file that is opened: a name without \<open>/\<close> and without \<open>.\<close>, then \<open>.html\<close>, as a C string\<close>
  "http_page e =
     (case e of
        HttpOpen path \<Rightarrow> \<exists>name. path = c_str (name @ bs ''.html'') \<and> 47 \<notin> set name \<and> 46 \<notin> set name
      | HttpSend _ \<Rightarrow> True)"

lemma http_file_read_page:
  "http_confined p \<Longrightarrow> (case http_file_read now files data p of (ret, out, rest, q) \<Rightarrow> list_all http_page out \<and> http_confined q)"
proof (induction now files data p rule: http_file_read.induct)
  case (1 now files data p)
  obtain ret out rest q where s: "http_file_parse now files data p = (ret, out, rest, q)" by (cases "http_file_parse now files data p") auto
  have q: "http_confined q" using http_decode_confined [OF 1(2), of data] s by (auto simp: http_file_parse_def split: prod.splits)
  moreover have "list_all http_page out"
    using s q by (auto simp: http_file_parse_def http_page_def http_confined_def Let_def split: prod.splits if_splits)
  moreover obtain ret2 out2 rest2 q2 where r: "http_file_read now files rest q = (ret2, out2, rest2, q2)"
    by (cases "http_file_read now files rest q") auto
  ultimately show ?case
    using 1(1) [OF s [symmetric] refl refl] s by (subst http_file_read.simps) (auto simp: r)
qed

text \<open>
  C14: whatever a client sends, in whatever pieces, every file that the page server opens is a file of its directory: the C string of a name
  without \<open>/\<close> and without \<open>.\<close>, followed by \<open>.html\<close>. So it is that page, or, when the name holds a NUL, the name in front of the NUL, still without \<open>/\<close> and \<open>.\<close>.
\<close>

theorem http_files_confined:
  "list_all http_page (http_file_conn now files reads ([], http_new))"
proof -
  have "http_confined p \<Longrightarrow> list_all http_page (http_file_conn now files reads (left, p))" for left p
  proof (induction reads arbitrary: left p)
    case (Cons d ds)
    then show ?case using http_file_read_page [OF Cons.prems, of now files "left @ d"] by (auto split: prod.splits)
  qed simp
  then show ?thesis using http_new_confined by blast
qed

text \<open>
  C34: a NUL in the name of the page opens a file without the ending: \<open>GET /name\0x.html\<close> opens the file \<open>name\<close> of the server's directory,
  and if that holds anything it is sent to the client as a page, whatever it is.
\<close>

theorem http_nul_opens_file:
  assumes "http_plain name" and "46 \<notin> set name" and "0 \<notin> set name" and "http_plain x" and "46 \<notin> set x" and "list_all http_header_ok headers"
    and "files name \<noteq> []"
  shows "{HttpOpen name, HttpSend (http_html now (bs ''200'') (files name))} \<subseteq>
    set (http_file_conn now files [http_text (http_url_text [(name @ 0 # x) @ bs ''.'' @ bs ''html''] []) headers] ([], http_new))"
proof -
  define page where "page = name @ 0 # x"
  have "list_all http_plain ([] @ [page @ bs ''.'' @ bs ''html''])" "46 \<notin> set page"
    using assms(1,2,4,5) by (auto simp: page_def http_plain_def bs_def)
  from http_request_parts [OF refl this assms(6), of "[]"] obtain p where
    p: "http_decode (http_text (http_url_text [page @ bs ''.'' @ bs ''html''] []) headers) http_new = (kSuccess, [], p)"
    "hp_file_name p = page" "hp_file_type p = bs ''html''" by auto
  have "c_str (page @ bs ''.html'') = name" using c_str_cut [OF assms(3)] by (simp add: page_def)
  then have "http_file_parse now files (http_text (http_url_text [page @ bs ''.'' @ bs ''html''] []) headers) http_new =
      (kSuccess, [HttpOpen name, HttpSend (http_html now (bs ''200'') (files name))], [], p)"
    using assms(7) by (simp add: http_file_parse_def p Let_def)
  then show ?thesis
    by (simp add: http_file_read.simps [of now files _ http_new] page_def [symmetric] split: prod.split)
qed

lemma http_nul_opens_file_witness:
  "{HttpOpen (bs ''Makefile''), HttpSend (http_html [] (bs ''200'') (bs ''all:''))} \<subseteq>
    set (http_file_conn [] (\<lambda>n. if n = bs ''Makefile'' then bs ''all:'' else [])
      [http_text (http_url_text [(bs ''Makefile'' @ 0 # []) @ bs ''.'' @ bs ''html''] []) []] ([], http_new))"
  using http_nul_opens_file [of "bs ''Makefile''" "[]" "[]" "\<lambda>n. if n = bs ''Makefile'' then bs ''all:'' else []" "[]"]
  by (simp add: http_plain_def bs_def)

end
