(* ===== verification/HttpFlv.thy ===== *)
theory HttpFlv
  imports HttpSender Publisher StreamCenter
begin

text \<open>
  \<open>src/http_flv_protocol.cpp\<close>: a player over HTTP-FLV. A connection parses its request, looks the stream up, answers, sends the
  head of an FLV file and becomes a subscriber of the publisher; each call of the publisher becomes a tag of the file. The
  publishers are a map from identities; the address of the connection is its identity as a subscriber. Bytes
  read outside a payload's block set \<open>hf_fault\<close>. The main result: what a player receives, read as an FLV file, is
  exactly what the publisher gave to this subscriber.
\<close>

section \<open>The connection\<close>

record http_flv =
  hf_id :: nat \<comment> \<open>\<open>this\<close>\<close>
  hf_publisher :: "nat option" \<comment> \<open>\<open>media_publisher_\<close>\<close>
  hf_app :: bytes
  hf_stream :: bytes
  hf_pre_tag_size :: u32
  hf_parse :: http_parse
  hf_fault :: bool

definition flv_new :: "nat \<Rightarrow> http_flv" where
  "flv_new i = \<lparr>hf_id = i, hf_publisher = None, hf_app = [], hf_stream = [], hf_pre_tag_size = 0, hf_parse = http_new, hf_fault = False\<rparr>"

section \<open>Tags\<close>

definition SendFlvHeader :: bytes where
  "SendFlvHeader = bs ''FLV'' @ [1, 0x05] @ be 4 9"

definition flv_tag_head :: "u32 \<Rightarrow> u8 \<Rightarrow> u32 \<Rightarrow> u32 \<Rightarrow> bytes" where
  \<comment> \<open>size of the tag before, type, size of the data, time and its top byte, stream 0\<close>
  "flv_tag_head pre_tag_size type data_size time =
     be 4 (unat pre_tag_size) @ [type] @ be 3 (unat data_size) @ be 3 (unat (time AND 0x00FFFFFF)) @
     [ucast (drop_bit 24 time AND 0xFF)] @ be 3 0"

definition flv_send_data :: "bytes option \<Rightarrow> u64 \<Rightarrow> bytes option" where
  \<comment> \<open>\<open>Send(GetAllData(), GetAllLen())\<close>; \<open>None\<close>: outside the block\<close>
  "flv_send_data ptr len =
     (case ptr of None \<Rightarrow> if len = 0 then Some [] else None
      | Some d \<Rightarrow> if unat len \<le> length d then Some (take (unat len) d) else None)"

definition flv_send :: "bytes \<Rightarrow> u32 \<Rightarrow> bytes option \<Rightarrow> http_flv \<Rightarrow> bytes \<times> http_flv" where
  \<comment> \<open>the head, then the data; \<open>pre_tag_size_\<close>\<close>
  "flv_send head data_size data f =
     (case data of
        None \<Rightarrow> (head, f\<lparr>hf_fault := True\<rparr>)
      | Some d \<Rightarrow> (head @ d, f\<lparr>hf_pre_tag_size := data_size + 11\<rparr>))"

definition flv_metadata :: "bytes \<Rightarrow> http_flv \<Rightarrow> bytes \<times> http_flv" where
  "flv_metadata metadata f =
     (let data_size = word_of_nat (length metadata)
      in flv_send (flv_tag_head (hf_pre_tag_size f) 18 data_size 0) data_size (Some metadata) f)"

definition flv_video :: "payload \<Rightarrow> http_flv \<Rightarrow> bytes \<times> http_flv" where
  "flv_video p f =
     (let data_size = ucast (pl_len p) + 5;
          composition_time_offset = pl_pts32 p - pl_dts32 p
      in flv_send (flv_tag_head (hf_pre_tag_size f) 9 data_size (pl_dts32 p) @ [if pl_is_iframe p then 0x17 else 0x27, 0x01] @
                   drop 1 (be 4 (unat composition_time_offset)))
           data_size (flv_send_data (pl_data p) (pl_len p)) f)"

definition flv_audio :: "payload \<Rightarrow> http_flv \<Rightarrow> bytes \<times> http_flv" where
  "flv_audio p f =
     (let data_size = ucast (pl_len p)
      in flv_send (flv_tag_head (hf_pre_tag_size f) 8 data_size (pl_dts32 p)) data_size (flv_send_data (pl_data p) (pl_len p)) f)"

definition flv_video_header :: "bytes \<Rightarrow> http_flv \<Rightarrow> bytes \<times> http_flv" where
  "flv_video_header h f =
     (let data_size = word_of_nat (length h) + 5
      in flv_send (flv_tag_head (hf_pre_tag_size f) 9 data_size 0 @ [0x17, 0x00] @ be 3 0) data_size (Some h) f)"

definition flv_audio_header :: "bytes \<Rightarrow> http_flv \<Rightarrow> bytes \<times> http_flv" where
  "flv_audio_header h f =
     (let data_size = word_of_nat (length h) + 2
      in flv_send (flv_tag_head (hf_pre_tag_size f) 8 data_size 0 @ [0xAF, 0x00]) data_size (Some h) f)"

fun flv_call :: "sent \<Rightarrow> http_flv \<Rightarrow> bytes \<times> http_flv" where
  \<comment> \<open>the calls of a publisher; \<open>SendData\<close> is not overridden\<close>
  "flv_call (SMeta d) f = flv_metadata d f"
| "flv_call (SAudioHeader h) f = flv_audio_header h f"
| "flv_call (SVideoHeader h) f = flv_video_header h f"
| "flv_call (SMedia p) f = (if pl_is_audio p then flv_audio p f else if pl_is_video p then flv_video p f else ([], f))"
| "flv_call (SData d) f = ([], f)"

fun flv_calls :: "sent list \<Rightarrow> http_flv \<Rightarrow> bytes \<times> http_flv" where
  "flv_calls [] f = ([], f)"
| "flv_calls (c # cs) f = (case flv_call c f of (out, f1) \<Rightarrow> case flv_calls cs f1 of (out2, f2) \<Rightarrow> (out @ out2, f2))"

section \<open>Requests\<close>

definition flv_not_found :: "bytes \<Rightarrow> bytes" where
  "flv_not_found now =
     http_encode (SetContent (bs ''fuck you'') (SetClose (SetContentType (bs ''html'') (SetStatus (bs ''404'') (ht_new now)))))"

definition flv_response :: "bytes \<Rightarrow> bytes" where
  "flv_response now = http_encode (SetKeepAlive (SetContentType (bs ''flv'') (SetStatus (bs ''200'') (ht_new now))))"

definition flv_parse :: "bytes \<Rightarrow> stream_center \<Rightarrow> bytes \<Rightarrow> http_flv \<Rightarrow> (nat \<Rightarrow> publisher) \<Rightarrow>
    ret_code \<times> bytes \<times> bytes \<times> http_flv \<times> (nat \<Rightarrow> publisher)" where
  \<comment> \<open>code, bytes sent, bytes left\<close>
  "flv_parse now center data f pubs =
     (case http_decode data (hf_parse f) of
        (ret, rest, q) \<Rightarrow>
          let f1 = f\<lparr>hf_parse := q\<rparr>
          in if ret = kSuccess then
               case IsFlvRequest q of
                 None \<Rightarrow> (ret, flv_not_found now, rest, f1, pubs)
               | Some (app, stream) \<Rightarrow>
                   let f2 = f1\<lparr>hf_app := app, hf_stream := stream\<rparr>
                   in if app \<noteq> [] \<and> stream \<noteq> [] then
                        let f3 = f2\<lparr>hf_publisher := sc_get app stream center\<rparr>
                        in case sc_get app stream center of
                             None \<Rightarrow> (kError, [], rest, f3, pubs)
                           | Some k \<Rightarrow>
                               let (_, calls, b) = pb_add (hf_id f) (pubs k);
                                   (out, f4) = flv_calls (map snd calls) f3
                               in (ret, flv_response now @ SendFlvHeader @ out, rest, f4, pubs(k := b))
                      else (ret, flv_not_found now, rest, f2, pubs)
             else (ret, [], rest, f1, pubs))"

function flv_read :: "bytes \<Rightarrow> stream_center \<Rightarrow> bytes \<Rightarrow> http_flv \<Rightarrow> (nat \<Rightarrow> publisher) \<Rightarrow>
    ret_code \<times> bytes \<times> bytes \<times> http_flv \<times> (nat \<Rightarrow> publisher)" where
  \<comment> \<open>\<open>HandleRead\<close>\<close>
  "flv_read now center data f pubs =
     (case flv_parse now center data f pubs of
        (ret, out, rest, f1, pubs1) \<Rightarrow>
          if ret = kSuccess then
            case flv_read now center rest f1 pubs1 of (ret2, out2, rest2, f2, pubs2) \<Rightarrow> (ret2, out @ out2, rest2, f2, pubs2)
          else (ret, out, rest, f1, pubs1))"
  by pat_completeness auto
termination
  by (relation "measure (\<lambda>(now, center, data, f, pubs). length data)")
    (auto simp: flv_parse_def Let_def split: prod.splits option.splits if_splits dest: http_decode_shorter)

declare flv_read.simps [simp del]

definition flv_close :: "http_flv \<Rightarrow> (nat \<Rightarrow> publisher) \<Rightarrow> (nat \<Rightarrow> publisher)" where
  \<comment> \<open>\<open>HandleClose\<close>\<close>
  "flv_close f pubs = (case hf_publisher f of None \<Rightarrow> pubs | Some k \<Rightarrow> pubs(k := pb_remove (hf_id f) (pubs k)))"

section \<open>A reader of FLV files\<close>

function flv_tags :: "nat \<Rightarrow> bytes \<Rightarrow> (nat \<times> nat \<times> bytes) list option" where
  \<comment> \<open>type, time and data of the tags; each is preceded by the size of the one before\<close>
  "flv_tags prev s =
     (if s = [] then Some []
      else
        let size = be_val (take 3 (drop 5 s));
            time = unat (s ! 11) * 2 ^ 24 + be_val (take 3 (drop 8 s))
        in if length s < 15 + size \<or> be_val (take 4 s) \<noteq> prev then None
           else map_option ((#) (unat (s ! 4), time, take size (drop 15 s))) (flv_tags (size + 11) (drop (15 + size) s)))"
  by pat_completeness auto
termination by (relation "measure (\<lambda>(prev, s). length s)") auto

declare flv_tags.simps [simp del]

definition flv_file :: "bytes \<Rightarrow> (nat \<times> nat \<times> bytes) list option" where
  "flv_file s = (if take 9 s = bs ''FLV'' @ [1, 5, 0, 0, 0, 9] then flv_tags 0 (drop 9 s) else None)"

fun flv_means :: "sent \<Rightarrow> (nat \<times> nat \<times> bytes) list" where
  \<comment> \<open>the tag that a call stands for\<close>
  "flv_means (SMeta d) = [(18, 0, d)]"
| "flv_means (SAudioHeader h) = [(8, 0, [0xAF, 0] @ h)]"
| "flv_means (SVideoHeader h) = [(9, 0, [0x17, 0, 0, 0, 0] @ h)]"
| "flv_means (SMedia p) =
     (if pl_is_audio p then [(8, unat (pl_dts32 p), the (pl_data p))]
      else if pl_is_video p then
        [(9, unat (pl_dts32 p), [if pl_is_iframe p then 0x17 else 0x27, 1] @ be 3 (unat (pl_pts32 p - pl_dts32 p)) @ the (pl_data p))]
      else [])"
| "flv_means (SData d) = []"

fun flv_fits :: "sent \<Rightarrow> bool" where
  \<comment> \<open>the size of a tag has 24 bits; a frame is its whole block\<close>
  "flv_fits (SMeta d) \<longleftrightarrow> length d < 2 ^ 24"
| "flv_fits (SAudioHeader h) \<longleftrightarrow> length h < 2 ^ 24 - 2"
| "flv_fits (SVideoHeader h) \<longleftrightarrow> length h < 2 ^ 24 - 5"
| "flv_fits (SMedia p) \<longleftrightarrow> (\<exists>d. pl_data p = Some d \<and> unat (pl_len p) = length d \<and> length d < 2 ^ 24 - 5)"
| "flv_fits (SData d) \<longleftrightarrow> True"

lemma flv_time: "unat (ucast (drop_bit 24 t AND 0xFF) :: u8) * 2 ^ 24 + be_val (be 3 (unat (t AND 0x00FFFFFF))) = unat (t :: u32)"
proof -
  have "unat (t AND 0x00FFFFFF) = unat t mod 2 ^ 24"
  proof -
    have "t AND 0x00FFFFFF = take_bit 24 t" by (simp add: take_bit_eq_mask mask_eq_exp_minus_1)
    moreover have "unat (take_bit 24 t) = take_bit 24 (unat t)" by (rule unsigned_take_bit_eq)
    moreover have "take_bit 24 (unat t) = unat t mod 2 ^ 24" by (rule take_bit_eq_mod)
    ultimately show ?thesis by simp
  qed
  moreover have "unat (ucast (drop_bit 24 t AND 0xFF) :: u8) = unat t div 2 ^ 24"
  proof -
    have "drop_bit 24 t AND 0xFF = take_bit 8 (drop_bit 24 t)" by (simp add: take_bit_eq_mask mask_eq_exp_minus_1)
    moreover have "unat (drop_bit 24 t) = unat t div 2 ^ 24" using unat_drop_bit_eq [of 24 t] drop_bit_eq_div [of 24 "unat t"] by (rule trans)
    moreover have "unat (take_bit 8 (drop_bit 24 t)) = take_bit 8 (unat (drop_bit 24 t))" by (rule unsigned_take_bit_eq)
    moreover have "unat t div 2 ^ 24 < 256" 
    proof -
      have "(unsigned t :: nat) < 2 ^ LENGTH(32)" by (rule unsigned_less)
      then show ?thesis by (simp add: less_mult_imp_div_less)
    qed
    ultimately show ?thesis by (simp add: unsigned_ucast_eq take_bit_eq_mod)
  qed
  moreover have "be_val (be 3 (unat t mod 2 ^ 24)) = unat t mod 2 ^ 24" by (simp add: be_val_be)
  ultimately show ?thesis by (simp add: div_mult_mod_eq)
qed

lemma flv_tags_tag:
  assumes "length d < 2 ^ 24" and "unat n = length d"
  shows "flv_tags (unat prev) (flv_tag_head prev type n t @ d @ rest) =
    map_option ((#) (unat type, unat t, d)) (flv_tags (length d + 11) rest)"
proof -
  define s where "s = flv_tag_head prev type n t @ d @ rest"
  have "length (flv_tag_head prev type n t) = 15" by (simp add: flv_tag_head_def)
  then have s: "drop 15 s = d @ rest" "length s = 15 + length d + length rest" "drop (15 + length d) s = rest"
    by (simp_all add: s_def)
  have h: "take 4 s = be 4 (unat prev)" "s ! 4 = type" "take 3 (drop 5 s) = be 3 (unat n)" "take 3 (drop 8 s) = be 3 (unat (t AND 0x00FFFFFF))"
    "s ! 11 = ucast (drop_bit 24 t AND 0xFF)"
    by (simp_all add: s_def flv_tag_head_def nth_append)
  have "be_val (be 4 (unat prev)) = unat prev" by (rule be_val_be_unat) simp
  moreover have "be_val (be 3 (unat n)) = length d" using assms by (simp add: be_val_be)
  ultimately show ?thesis unfolding s_def [symmetric]
    using flv_time [of t] s by (subst flv_tags.simps) (auto simp: h Let_def)
qed

lemma append_one: "(@) [x] = (#) x"
  by (rule ext) simp

lemma append_none: "map_option ((@) []) x = x"
  by (cases x) simp_all

lemma flv_call_read:
  assumes "flv_fits c"
  shows "\<exists>out g. flv_call c f = (out, g) \<and> (hf_fault g \<longleftrightarrow> hf_fault f) \<and> hf_id g = hf_id f \<and>
    (\<forall>rest. flv_tags (unat (hf_pre_tag_size f)) (out @ rest) = map_option ((@) (flv_means c)) (flv_tags (unat (hf_pre_tag_size g)) rest))"
proof -
  have send: "\<exists>out g. flv_send (flv_tag_head (hf_pre_tag_size f) type n t @ h) n (Some d) f = (out, g) \<and> (hf_fault g \<longleftrightarrow> hf_fault f) \<and> hf_id g = hf_id f \<and>
    (\<forall>rest. flv_tags (unat (hf_pre_tag_size f)) (out @ rest) =
       map_option ((#) (unat type, unat t, h @ d)) (flv_tags (unat (hf_pre_tag_size g)) rest))"
    if "unat n = length (h @ d)" "length (h @ d) < 2 ^ 24" for type n t h d
  proof -
    have "unat (n + 11) = length (h @ d) + 11" using that by (simp add: unat_word_ariths)
    then show ?thesis using flv_tags_tag [OF that(2,1), of "hf_pre_tag_size f" type t] by (simp add: flv_send_def)
  qed
  have len: "unat (word_of_nat k + of_nat j :: u32) = k + j" if "k + j < 2 ^ 24" for k j
    using that by (simp add: unat_of_nat flip: of_nat_add)
  have cast: "unat (ucast n :: u32) = unat (n :: u64)" if "unat n < 2 ^ 24" for n
    using that by (simp add: unsigned_ucast_eq take_bit_eq_mod)
  show ?thesis
  proof (cases c)
    case (SMeta d)
    then show ?thesis using assms send [of "word_of_nat (length d)" "[]" d 18 0] len [of "length d" 0] by (simp add: flv_metadata_def append_one Let_def)
  next
    case (SAudioHeader h)
    then show ?thesis using assms send [of "word_of_nat (length h) + 2" "[0xAF, 0]" h 8 0] len [of "length h" 2]
      by (simp add: flv_audio_header_def append_one Let_def)
  next
    case (SVideoHeader h)
    have "be 3 0 = [0, 0, 0 :: u8]" by (simp add: numeral_3_eq_3)
    then show ?thesis using SVideoHeader assms send [of "word_of_nat (length h) + 5" "[0x17, 0] @ be 3 0" h 9 0] len [of "length h" 5]
      by (simp add: flv_video_header_def append_one Let_def)
  next
    case (SMedia p)
    then obtain d where d: "pl_data p = Some d" "unat (pl_len p) = length d" "length d < 2 ^ 24 - 5" using assms by auto
    have t: "drop (Suc 0) (be 4 v) = be 3 v" for v using drop_be [of 1 3 v] by simp
    have n: "unat (ucast (pl_len p) :: u32) = length d" using cast [of "pl_len p"] d by simp
    then have n5: "unat (ucast (pl_len p) + 5 :: u32) = length d + 5" using d(3) by (simp add: unat_word_ariths)
    define h where "h = [if pl_is_iframe p then 0x17 else 0x27, 1 :: u8] @ be 3 (unat (pl_pts32 p - pl_dts32 p))"
    have 1: "flv_call (SMedia p) f = (if pl_is_audio p then
          flv_send (flv_tag_head (hf_pre_tag_size f) 8 (ucast (pl_len p)) (pl_dts32 p)) (ucast (pl_len p)) (Some d) f
        else if pl_is_video p then
          flv_send (flv_tag_head (hf_pre_tag_size f) 9 (ucast (pl_len p) + 5) (pl_dts32 p) @ h) (ucast (pl_len p) + 5) (Some d) f
        else ([], f))"
      using d by (simp add: flv_audio_def flv_video_def flv_send_data_def Let_def h_def t)
    have 2: "flv_means (SMedia p) = (if pl_is_audio p then [(8, unat (pl_dts32 p), d)]
        else if pl_is_video p then [(9, unat (pl_dts32 p), h @ d)] else [])"
      using d by (simp add: h_def)
    show ?thesis
      unfolding SMedia 1 2
      using send [of "ucast (pl_len p)" "[]" d 8 "pl_dts32 p"] send [of "ucast (pl_len p) + 5" h d 9 "pl_dts32 p"] n n5 d(3)
      by (simp add: append_one append_none h_def)
  qed (simp add: append_none)
qed

lemma flv_calls_read:
  assumes "list_all flv_fits cs"
  shows "\<exists>out g. flv_calls cs f = (out, g) \<and> (hf_fault g \<longleftrightarrow> hf_fault f) \<and>
    (\<forall>rest. flv_tags (unat (hf_pre_tag_size f)) (out @ rest) = map_option ((@) (concat (map flv_means cs))) (flv_tags (unat (hf_pre_tag_size g)) rest))"
  using assms
proof (induction cs arbitrary: f)
  case Nil
  then show ?case by (simp add: option.map_ident)
next
  case (Cons c cs)
  obtain out1 g where g: "flv_call c f = (out1, g)" "hf_fault g \<longleftrightarrow> hf_fault f"
    "\<And>rest. flv_tags (unat (hf_pre_tag_size f)) (out1 @ rest) = map_option ((@) (flv_means c)) (flv_tags (unat (hf_pre_tag_size g)) rest)"
    using flv_call_read [of c f] Cons.prems by auto
  obtain out2 k where k: "flv_calls cs g = (out2, k)" "hf_fault k \<longleftrightarrow> hf_fault g"
    "\<And>rest. flv_tags (unat (hf_pre_tag_size g)) (out2 @ rest) = map_option ((@) (concat (map flv_means cs))) (flv_tags (unat (hf_pre_tag_size k)) rest)"
    using Cons.IH [of g] Cons.prems by auto
  show ?case using g k by (simp add: option.map_comp comp_def)
qed

lemma flv_calls_append: "flv_calls (a @ b) f = (case flv_calls a f of (out, g) \<Rightarrow> case flv_calls b g of (out2, k) \<Rightarrow> (out @ out2, k))"
  by (induction a arbitrary: f) (auto split: prod.split)

section \<open>A player\<close>

definition flv_request :: "bytes \<Rightarrow> bytes \<Rightarrow> (bytes \<times> bytes) list \<Rightarrow> bytes" where
  "flv_request app stream headers = http_text (http_url_text [app, stream @ bs ''.flv''] []) headers"

lemma flv_calls_keep: "hf_parse (snd (flv_calls cs f)) = hf_parse f \<and> hf_id (snd (flv_calls cs f)) = hf_id f"
proof (induction cs arbitrary: f)
  case (Cons c cs)
  have s: "hf_parse (snd (flv_send h n d f)) = hf_parse f \<and> hf_id (snd (flv_send h n d f)) = hf_id f" for h n d
    by (simp add: flv_send_def split: option.split)
  have "hf_parse (snd (flv_call c f)) = hf_parse f \<and> hf_id (snd (flv_call c f)) = hf_id f"
    by (cases c) (simp_all add: s flv_metadata_def flv_audio_header_def flv_video_header_def flv_audio_def flv_video_def Let_def)
  then show ?case using Cons [of "snd (flv_call c f)"] by (auto split: prod.splits)
qed simp

lemma flv_request_read:
  assumes "list_all http_plain [app, stream]" and "46 \<notin> set stream" and "app \<noteq> []" and "stream \<noteq> []" and "list_all http_header_ok headers"
    and "sc_get app stream center = Some k"
  shows "\<exists>q. flv_read now center (flv_request app stream headers) (flv_new i) pubs =
    (case flv_calls (map snd (fst (snd (pb_add i (pubs k))))) ((flv_new i)\<lparr>hf_publisher := Some k, hf_app := app, hf_stream := stream, hf_parse := q\<rparr>) of
       (out, f) \<Rightarrow> (kNoEnoughData, flv_response now @ SendFlvHeader @ out, [], f, pubs(k := snd (snd (pb_add i (pubs k))))))"
proof -
  define path where "path = [app, stream @ bs ''.flv'']"
  have "list_all http_plain path" "path \<noteq> []" "last path \<noteq> []" using assms(1) by (auto simp: path_def http_plain_def bs_def)
  from http_request_served [OF this(2,1,3), of "[]" headers "[]"] assms(5) obtain q r where
    q: "http_decode (flv_request app stream headers) http_new = (kSuccess, [], q)" "hp_path q = path" "hp_path r = path"
      "hp_file_name q = hp_file_name (http_file r)" "hp_file_type q = hp_file_type (http_file r)"
    by (auto simp: flv_request_def path_def)
  have "str_find (stream @ 46 # bs ''flv'') [46] = Some (length stream)" using assms(2) by (rule str_find_skip1)
  then have "hp_file_name q = stream" "hp_file_type q = bs ''flv''"
    using q(3) unfolding q(4,5) by (simp_all add: http_file_def path_def Let_def bs_def substr_def)
  then have flv: "IsFlvRequest q = Some (app, stream)" using q(2) by (simp add: IsFlvRequest_def path_def)
  define F where "F = (flv_new i)\<lparr>hf_publisher := Some k, hf_app := app, hf_stream := stream, hf_parse := q\<rparr>"
  obtain out f where c: "flv_calls (map snd (fst (snd (pb_add i (pubs k))))) F = (out, f)"
    by (cases "flv_calls (map snd (fst (snd (pb_add i (pubs k))))) F")
  define pubs1 where "pubs1 = pubs(k := snd (snd (pb_add i (pubs k))))"
  have 1: "flv_parse now center (flv_request app stream headers) (flv_new i) pubs = (kSuccess, flv_response now @ SendFlvHeader @ out, [], f, pubs1)"
    using c assms(3,4,6) by (simp add: flv_parse_def flv_new_def q(1) flv F_def pubs1_def Let_def split_beta)
  have "http_decode [] (hf_parse f) = (kNoEnoughData, [], hf_parse f)" by (simp add: http_decode_def)
  then have "flv_parse now center [] f pubs1 = (kNoEnoughData, [], [], f, pubs1)" by (simp add: flv_parse_def)
  then have "flv_read now center [] f pubs1 = (kNoEnoughData, [], [], f, pubs1)" by (subst flv_read.simps) simp
  then have "flv_read now center (flv_request app stream headers) (flv_new i) pubs =
      (kNoEnoughData, flv_response now @ SendFlvHeader @ out, [], f, pubs1)"
    using 1 by (subst flv_read.simps) simp
  then show ?thesis using c by (intro exI [of _ q]) (simp add: F_def pubs1_def)
qed

lemma flv_magic: "SendFlvHeader = bs ''FLV'' @ [1, 5, 0, 0, 0, 9]" "length (SendFlvHeader) = 9"
  by (code_simp, simp add: SendFlvHeader_def)

text \<open>
  C4: a player asks for a stream that is published, in a well-formed request with any headers, and from then on anything happens at the
  publisher: frames, headers, other players, the clock. What the player receives is one response, followed by an FLV file whose
  tags are, in order, exactly the calls the publisher made for this player, from the start (metadata, headers and fast start) on:
  types, times, data and back pointers are right. It assumes that a frame is its whole block and fits a tag.
\<close>

theorem http_flv_player_gets_stream:
  assumes "list_all http_plain [app, stream]" and "46 \<notin> set stream" and "app \<noteq> []" and "stream \<noteq> []" and "list_all http_header_ok headers"
    and "sc_get app stream center = Some k" and "i \<notin> set (pb_subs (pubs k))"
    and "flv_read now center (flv_request app stream headers) (flv_new i) pubs = (ret, out, rest, f, pubs1)"
    and "later = calls_to i (fst (pb_run srt mem show_ms es (pubs1 k)))" and "flv_calls later f = (out2, f2)"
    and "calls = snd (pb_on_new_subscriber (pubs k)) @ later" and "list_all flv_fits calls"
  shows "ret = kNoEnoughData \<and> rest = [] \<and> \<not> hf_fault f2 \<and>
    (\<exists>body. out @ out2 = flv_response now @ body \<and> flv_file body = Some (concat (map flv_means calls)))"
proof -
  define start where "start = snd (pb_on_new_subscriber (pubs k))"
  have "map snd (fst (snd (pb_add i (pubs k)))) = start"
    using assms(7) by (auto simp: pb_add_def start_def comp_def split: prod.split)
  with flv_request_read [OF assms(1-6), of now i pubs] obtain q where
    q: "flv_read now center (flv_request app stream headers) (flv_new i) pubs =
      (case flv_calls start ((flv_new i)\<lparr>hf_publisher := Some k, hf_app := app, hf_stream := stream, hf_parse := q\<rparr>) of
       (out, f) \<Rightarrow> (kNoEnoughData, flv_response now @ SendFlvHeader @ out, [], f, pubs(k := snd (snd (pb_add i (pubs k))))))"
    by auto
  define F where "F = (flv_new i)\<lparr>hf_publisher := Some k, hf_app := app, hf_stream := stream, hf_parse := q\<rparr>"
  obtain o1 where o1: "flv_calls start F = (o1, f)" "out = flv_response now @ SendFlvHeader @ o1" "ret = kNoEnoughData" "rest = []"
    using q assms(8) by (auto simp: F_def split: prod.splits)
  have all: "flv_calls calls F = (o1 @ out2, f2)" using o1(1) assms(10) by (simp add: assms(11) start_def [symmetric] flv_calls_append)
  have F: "hf_pre_tag_size F = 0" "\<not> hf_fault F" by (simp_all add: F_def flv_new_def)
  obtain g where g: "flv_calls calls F = (o1 @ out2, g)" "hf_fault g \<longleftrightarrow> hf_fault F"
    "\<forall>rest. flv_tags (unat (hf_pre_tag_size F)) ((o1 @ out2) @ rest) =
       map_option ((@) (concat (map flv_means calls))) (flv_tags (unat (hf_pre_tag_size g)) rest)"
    using flv_calls_read [OF assms(12), of F] all by auto
  have r: "\<not> hf_fault f2" using g(1,2) all F(2) by simp
  have t: "flv_tags 0 (o1 @ out2) = map_option ((@) (concat (map flv_means calls))) (flv_tags (unat (hf_pre_tag_size g)) [])"
    using spec [OF g(3), of "[]"] F(1) by simp
  have "flv_tags n [] = Some []" for n by (subst flv_tags.simps) simp
  then have "flv_file (SendFlvHeader @ o1 @ out2) = Some (concat (map flv_means calls))"
    unfolding flv_file_def using t by (simp add: flv_magic)
  then show ?thesis using o1 r by (intro conjI exI [of _ "SendFlvHeader @ o1 @ out2"]) simp_all
qed

lemma http_flv_player_gets_stream_witness:
  "flv_file (drop (length (flv_response (bs ''now''))) (fst (snd (flv_read (bs ''now'') [(bs ''a'', [(bs ''s'', 3)])] (flv_request (bs ''a'') (bs ''s'') [])
     (flv_new 7) (\<lambda>_. pb_new\<lparr>pb_mm := mm_on_metadata (bs ''m'') mm_new\<rparr>))))) = Some [(18, 0, bs ''m'')]"
proof -
  define b where "b = pb_new\<lparr>pb_mm := mm_on_metadata (bs ''m'') mm_new\<rparr>"
  define pubs :: "nat \<Rightarrow> publisher" where "pubs = (\<lambda>_. b)"
  obtain ret out rest f pubs1 where r: "flv_read (bs ''now'') [(bs ''a'', [(bs ''s'', 3)])] (flv_request (bs ''a'') (bs ''s'') []) (flv_new 7) pubs =
    (ret, out, rest, f, pubs1)" by (cases "flv_read (bs ''now'') [(bs ''a'', [(bs ''s'', 3)])] (flv_request (bs ''a'') (bs ''s'') []) (flv_new 7) pubs") auto
  have c: "snd (pb_on_new_subscriber b) = [SMeta (bs ''m'')]"
    by (simp add: b_def pb_new_def pb_on_new_subscriber_def mm_on_metadata_def mm_has_metadata_def mm_new_def mm_has_audio_header_def tm_new_def bs_def Let_def)
  have "list_all http_plain [bs ''a'', bs ''s'']" "46 \<notin> set (bs ''s'')" "bs ''a'' \<noteq> []" "bs ''s'' \<noteq> []" "list_all http_header_ok []"
    "sc_get (bs ''a'') (bs ''s'') [(bs ''a'', [(bs ''s'', 3)])] = Some 3" "7 \<notin> set (pb_subs (pubs 3))"
    by (simp_all add: http_plain_def bs_def sc_get_def pubs_def b_def pb_new_def)
  from http_flv_player_gets_stream [OF this r, of "[]" "\<lambda>_. False" "\<lambda>_. 0" "\<lambda>_. []" "[]" "[]" f "[SMeta (bs ''m'')]"]
  have "\<exists>body. out = flv_response (bs ''now'') @ body \<and> flv_file body = Some [(18, 0, bs ''m'')]"
    by (simp add: pubs_def c bs_def)
  then show ?thesis using r by (auto simp: pubs_def b_def)
qed

end
