(* ===== verification/HttpScan.thy ===== *)
theory HttpScan
  imports HttpSender
begin

text \<open>
  The scan of a request in \<open>src/http_hls_protocol.cpp\<close> and \<open>src/http_dash_protocol.cpp\<close>, which have the same loop but for the
  methods they accept. The local maps \<open>header\<close> and \<open>value\<close>, which nothing reads, and what is only printed are left out.
  The lemma \<open>hn_request\<close>: a well-formed request for \<open>/app/stream/name.type\<close> yields these four names.
\<close>

section \<open>The scan of a request\<close>

record http_scan =
  hn_r_pos :: int
  hn_n_pos :: int
  hn_m_pos :: int
  hn_key_value :: bool
  hn_key :: bytes
  hn_app :: bytes
  hn_stream :: bytes
  hn_name :: bytes \<comment> \<open>\<open>ts_\<close>, \<open>segment_\<close>\<close>
  hn_type :: bytes

definition hn_new :: http_scan where
  "hn_new = \<lparr>hn_r_pos = -1, hn_n_pos = -1, hn_m_pos = -1, hn_key_value = False, hn_key = [], hn_app = [], hn_stream = [],
     hn_name = [], hn_type = []\<rparr>"

fun hn_names :: "nat \<Rightarrow> nat \<Rightarrow> nat \<Rightarrow> bytes \<Rightarrow> http_scan \<Rightarrow> http_scan" where
  \<comment> \<open>the request line; spaces, slashes and dots so far\<close>
  "hn_names s_count x_count d_count [] s = s"
| "hn_names s_count x_count d_count (ch # key) s =
     (if ch = 32 then hn_names (s_count + 1) x_count d_count key s
      else if ch = 47 then hn_names s_count (x_count + 1) d_count key s
      else if ch = 46 then hn_names s_count x_count (d_count + 1) key s
      else hn_names s_count x_count d_count key
        (if x_count = 1 then s\<lparr>hn_app := hn_app s @ [ch]\<rparr>
         else if x_count = 2 then s\<lparr>hn_stream := hn_stream s @ [ch]\<rparr>
         else if x_count = 3 \<and> s_count < 2 then
           if d_count = 1 then s\<lparr>hn_type := hn_type s @ [ch]\<rparr> else s\<lparr>hn_name := hn_name s @ [ch]\<rparr>
         else s))"

definition hn_line :: "(bytes \<Rightarrow> bool) \<Rightarrow> http_scan \<Rightarrow> http_scan" where
  "hn_line is_request s = (if is_request (hn_key s) then hn_names 0 0 0 (hn_key s) s else s)\<lparr>hn_key := []\<rparr>"

definition hn_put :: "u8 \<Rightarrow> http_scan \<Rightarrow> http_scan" where
  "hn_put c s = (if hn_key_value s then s else s\<lparr>hn_key := hn_key s @ [c]\<rparr>)"

definition hn_char :: "(bytes \<Rightarrow> bool) \<Rightarrow> int \<Rightarrow> u8 \<Rightarrow> http_scan \<Rightarrow> http_scan option" where
  \<comment> \<open>\<open>None\<close>: the end of the request\<close>
  "hn_char is_request i c s =
     (if c = 13 then Some (s\<lparr>hn_r_pos := i\<rparr>)
      else if c = 10 then
        if i = hn_r_pos s + 1 then
          if i = hn_n_pos s + 2 then None
          else Some ((hn_line is_request (s\<lparr>hn_key_value := False\<rparr>))\<lparr>hn_n_pos := i\<rparr>)
        else Some (s\<lparr>hn_n_pos := i\<rparr>)
      else if c = 58 then Some (s\<lparr>hn_m_pos := i, hn_key_value := True\<rparr>)
      else if c = 32 then
        if hn_m_pos s + 1 = i then Some s else Some (hn_put c s)
      else Some (hn_put c s))"

fun hn_loop :: "(bytes \<Rightarrow> bool) \<Rightarrow> int \<Rightarrow> bytes \<Rightarrow> http_scan \<Rightarrow> http_scan option" where
  \<comment> \<open>the names at the end of the first request; \<open>None\<close>: the bytes end before\<close>
  "hn_loop is_request i [] s = None"
| "hn_loop is_request i (c # data) s =
     (case hn_char is_request i c s of None \<Rightarrow> Some s | Some t \<Rightarrow> hn_loop is_request (i + 1) data t)"

definition http_lines :: "bytes list \<Rightarrow> bytes" where
  "http_lines ls = concat (map (\<lambda>l. l @ http_crlf) ls) @ http_crlf"

section \<open>A well-formed request\<close>

definition hn_ready :: "int \<Rightarrow> http_scan \<Rightarrow> bool" where
  "hn_ready n s \<longleftrightarrow> hn_key s = [] \<and> \<not> hn_key_value s \<and> hn_n_pos s = n - 1 \<and> hn_m_pos s < n"

definition hn_header_ok :: "(bytes \<Rightarrow> bool) \<Rightarrow> bytes \<times> bytes \<Rightarrow> bool" where
  "hn_header_ok is_request kv \<longleftrightarrow> (case kv of (k, v) \<Rightarrow>
     k \<noteq> [] \<and> hd k \<noteq> 32 \<and> set k \<inter> {13, 10, 58} = {} \<and> \<not> is_request k \<and> set v \<inter> {13, 10} = {})"

definition hn_plain :: "bytes \<Rightarrow> bool" where
  \<comment> \<open>none of space, \<open>/ . :\<close>, CR, LF\<close>
  "hn_plain s \<longleftrightarrow> set s \<inter> {32, 47, 46, 58, 13, 10} = {}"

definition hn_url :: "bytes \<Rightarrow> bytes \<Rightarrow> bytes \<Rightarrow> bytes \<Rightarrow> bytes" where
  "hn_url app stream name type = bs ''/'' @ app @ bs ''/'' @ stream @ bs ''/'' @ name @ bs ''.'' @ type"

lemma hn_key_run:
  assumes "\<not> hn_key_value s" and "hn_m_pos s < n" and "set xs \<inter> {13, 10, 58} = {}" and "xs = [] \<or> hd xs \<noteq> 32 \<or> hn_m_pos s + 1 \<noteq> n"
  shows "hn_loop r n (xs @ rest) s = hn_loop r (n + int (length xs)) rest (s\<lparr>hn_key := hn_key s @ xs\<rparr>)"
  using assms
proof (induction xs arbitrary: n s)
  case (Cons c xs)
  have "hn_char r n c s = Some (s\<lparr>hn_key := hn_key s @ [c]\<rparr>)"
    using Cons.prems by (auto simp: hn_char_def hn_put_def)
  then show ?case using Cons.prems Cons.IH [of "s\<lparr>hn_key := hn_key s @ [c]\<rparr>" "n + 1"] by (simp add: add.assoc)
qed simp

lemma hn_value_run:
  assumes "hn_key_value s" and "hn_m_pos s < n" and "set xs \<inter> {13, 10} = {}"
  shows "\<exists>m. m < n + int (length xs) \<and> hn_loop r n (xs @ rest) s = hn_loop r (n + int (length xs)) rest (s\<lparr>hn_m_pos := m\<rparr>)"
  using assms
proof (induction xs arbitrary: n s)
  case Nil
  then show ?case by (intro exI [of _ "hn_m_pos s"]) simp
next
  case (Cons c xs)
  define t where "t = (if c = 58 then s\<lparr>hn_m_pos := n\<rparr> else s)"
  have "hn_char r n c s = Some t"
    using Cons.prems by (auto simp: hn_char_def hn_put_def t_def)
  moreover have "hn_key_value t" "hn_m_pos t < n + 1" using Cons.prems by (simp_all add: t_def)
  then obtain m where "m < n + 1 + int (length xs)"
    "hn_loop r (n + 1) (xs @ rest) t = hn_loop r (n + 1 + int (length xs)) rest (t\<lparr>hn_m_pos := m\<rparr>)"
    using Cons.IH [of t "n + 1"] Cons.prems by auto
  moreover have "t\<lparr>hn_m_pos := m\<rparr> = s\<lparr>hn_m_pos := m\<rparr>" by (simp add: t_def)
  ultimately show ?case by (intro exI [of _ m]) (simp add: add.assoc)
qed

lemma hn_line_end:
  assumes "hn_n_pos s + 1 < n"
  shows "hn_loop r n (http_crlf @ rest) s = hn_loop r (n + 2) rest ((hn_line r (s\<lparr>hn_r_pos := n, hn_key_value := False\<rparr>))\<lparr>hn_n_pos := n + 1\<rparr>)"
  using assms by (simp add: http_crlf_def hn_char_def add.assoc)

lemma hn_header_lines:
  assumes "hn_ready n s" and "list_all (hn_header_ok r) headers"
  shows "\<exists>t. hn_loop r n (concat (map (\<lambda>(k, v). k @ bs '': '' @ v @ http_crlf) headers) @ http_crlf) s = Some t \<and>
    hn_app t = hn_app s \<and> hn_stream t = hn_stream s \<and> hn_name t = hn_name s \<and> hn_type t = hn_type s"
  using assms
proof (induction headers arbitrary: n s)
  case Nil
  then show ?case by (simp add: http_crlf_def hn_char_def hn_ready_def)
next
  case (Cons kv headers)
  obtain k v where kv: "kv = (k, v)" by (cases kv)
  note r = Cons.prems(1) [unfolded hn_ready_def]
  have ok: "hn_header_ok r (k, v)" "list_all (hn_header_ok r) headers" using Cons.prems(2) by (simp_all add: kv)
  note k = ok(1) [unfolded hn_header_ok_def prod.case]
  define rest where "rest = concat (map (\<lambda>(k, v). k @ bs '': '' @ v @ http_crlf) headers) @ http_crlf"
  define n1 where "n1 = n + int (length k)"
  define s1 where "s1 = s\<lparr>hn_key := k, hn_m_pos := n1, hn_key_value := True\<rparr>"
  have "hn_loop r n (k @ bs '': '' @ v @ http_crlf @ rest) s = hn_loop r n1 (bs '': '' @ v @ http_crlf @ rest) (s\<lparr>hn_key := k\<rparr>)"
    using r k hn_key_run [of s n k] by (simp add: n1_def)
  also have "\<dots> = hn_loop r (n1 + 2) (v @ http_crlf @ rest) s1"
    using r by (simp add: bs_def hn_char_def s1_def add.assoc)
  finally have 1: "hn_loop r n (k @ bs '': '' @ v @ http_crlf @ rest) s = hn_loop r (n1 + 2) (v @ http_crlf @ rest) s1" .
  define n2 where "n2 = n1 + 2 + int (length v)"
  obtain m where m: "m < n2" "hn_loop r (n1 + 2) (v @ http_crlf @ rest) s1 = hn_loop r n2 (http_crlf @ rest) (s1\<lparr>hn_m_pos := m\<rparr>)"
    using hn_value_run [of s1 "n1 + 2" v r "http_crlf @ rest"] k by (auto simp: s1_def n2_def)
  define t where "t = (hn_line r (s1\<lparr>hn_m_pos := m, hn_r_pos := n2, hn_key_value := False\<rparr>))\<lparr>hn_n_pos := n2 + 1\<rparr>"
  have t: "t = s\<lparr>hn_key := [], hn_m_pos := m, hn_key_value := False, hn_r_pos := n2, hn_n_pos := n2 + 1\<rparr>"
    using k by (simp add: t_def hn_line_def s1_def)
  have "hn_loop r n2 (http_crlf @ rest) (s1\<lparr>hn_m_pos := m\<rparr>) = hn_loop r (n2 + 2) rest t"
    using r hn_line_end [of "s1\<lparr>hn_m_pos := m\<rparr>" n2 r rest] by (simp add: t_def s1_def n2_def n1_def)
  moreover have "hn_ready (n2 + 2) t" using m(1) by (simp add: t hn_ready_def)
  ultimately show ?case using Cons.IH [of "n2 + 2" t] ok(2) 1 m(2) by (simp add: kv rest_def t)
qed

lemma hn_names_run:
  assumes "set xs \<inter> {32, 47, 46} = {}"
  shows "hn_names s 1 d (xs @ ys) t = hn_names s 1 d ys (t\<lparr>hn_app := hn_app t @ xs\<rparr>)"
    and "hn_names s 2 d (xs @ ys) t = hn_names s 2 d ys (t\<lparr>hn_stream := hn_stream t @ xs\<rparr>)"
    and "hn_names 1 3 0 (xs @ ys) t = hn_names 1 3 0 ys (t\<lparr>hn_name := hn_name t @ xs\<rparr>)"
    and "hn_names 1 3 1 (xs @ ys) t = hn_names 1 3 1 ys (t\<lparr>hn_type := hn_type t @ xs\<rparr>)"
  using assms by (induction xs arbitrary: t) auto

lemma hn_names_skip: "hn_names 0 0 0 (bs ''GET'' @ ys) t = hn_names 0 0 0 ys t" "hn_names 2 3 1 (bs ''HTTP/1.1'') t = t"
  by (simp_all add: bs_def)

lemma hn_names_url:
  assumes "hn_plain app" and "hn_plain stream" and "hn_plain name" and "hn_plain type"
  shows "hn_names 0 0 0 (bs ''GET '' @ hn_url app stream name type @ bs '' HTTP/1.1'') t =
    t\<lparr>hn_app := hn_app t @ app, hn_stream := hn_stream t @ stream, hn_name := hn_name t @ name, hn_type := hn_type t @ type\<rparr>"
proof -
  have sep: "hn_names a b c (32 # xs) t = hn_names (a + 1) b c xs t" "hn_names a b c (47 # xs) t = hn_names a (b + 1) c xs t"
    "hn_names a b c (46 # xs) t = hn_names a b (c + 1) xs t" for a b c xs t by simp_all
  have e: "bs ''GET '' @ hn_url app stream name type @ bs '' HTTP/1.1'' =
    bs ''GET'' @ 32 # 47 # app @ 47 # stream @ 47 # name @ 46 # type @ 32 # bs ''HTTP/1.1''"
    by (simp add: hn_url_def bs_def)
  have clean: "set app \<inter> {32, 47, 46} = {}" "set stream \<inter> {32, 47, 46} = {}" "set name \<inter> {32, 47, 46} = {}" "set type \<inter> {32, 47, 46} = {}"
    using assms by (auto simp: hn_plain_def)
  have n: "(0 :: nat) + 1 = 1" "(1 :: nat) + 1 = 2" "(2 :: nat) + 1 = 3" by simp_all
  show ?thesis
    unfolding e hn_names_skip(1) sep n hn_names_run(1) [OF clean(1)] hn_names_run(2) [OF clean(2)] hn_names_run(3) [OF clean(3)]
      hn_names_run(4) [OF clean(4)] hn_names_skip(2)
    by simp
qed

lemma hn_request:
  assumes "hn_plain app" and "hn_plain stream" and "hn_plain name" and "hn_plain type" and "list_all (hn_header_ok r) headers"
    and r: "\<And>t. r (bs ''GET '' @ t)"
  shows "\<exists>t. hn_loop r 0 (http_text (hn_url app stream name type) headers) hn_new = Some t \<and>
    hn_app t = app \<and> hn_stream t = stream \<and> hn_name t = name \<and> hn_type t = type"
proof -
  define key where "key = bs ''GET '' @ hn_url app stream name type @ bs '' HTTP/1.1''"
  define n where "n = int (length key)"
  define rest where "rest = concat (map (\<lambda>(k, v). k @ bs '': '' @ v @ http_crlf) headers) @ http_crlf"
  have "http_text (hn_url app stream name type) headers = key @ http_crlf @ rest" by (simp add: http_text_def key_def rest_def)
  moreover have "set key \<inter> {13, 10, 58} = {}" "hd key \<noteq> 32" using assms(1-4) by (auto simp: key_def hn_url_def hn_plain_def bs_def)
  then have "hn_loop r 0 (key @ http_crlf @ rest) hn_new = hn_loop r n (http_crlf @ rest) (hn_new\<lparr>hn_key := key\<rparr>)"
    using hn_key_run [of hn_new 0 key r "http_crlf @ rest"] by (simp add: hn_new_def n_def)
  moreover
  define t where "t = (hn_line r (hn_new\<lparr>hn_key := key, hn_r_pos := n, hn_key_value := False\<rparr>))\<lparr>hn_n_pos := n + 1\<rparr>"
  have "hn_loop r n (http_crlf @ rest) (hn_new\<lparr>hn_key := key\<rparr>) = hn_loop r (n + 2) rest t"
    using hn_line_end [of "hn_new\<lparr>hn_key := key\<rparr>" n r rest] by (simp add: hn_new_def n_def key_def t_def)
  moreover have k: "r key" using r by (simp add: key_def)
  note u = hn_names_url [OF assms(1-4), folded key_def]
  have t: "t = hn_new\<lparr>hn_key := [], hn_r_pos := n, hn_n_pos := n + 1, hn_app := app, hn_stream := stream, hn_name := name, hn_type := type\<rparr>"
    using k by (simp add: t_def hn_line_def u) (simp add: hn_new_def)
  then have "hn_ready (n + 2) t" by (simp add: hn_ready_def hn_new_def n_def)
  ultimately show ?thesis using hn_header_lines [of "n + 2" t r headers] assms(5) by (simp add: rest_def t hn_new_def)
qed

end
