(* ===== verification/HttpHls.thy ===== *)
theory HttpHls
  imports HttpScan Publisher StreamCenter
begin

text \<open>
  \<open>src/http_hls_protocol.cpp\<close>: the server of HLS playlists and transport-stream segments. It takes all bytes of a read, scans
  them for one request (theory \<open>HttpScan\<close>) and answers it; a request that is not complete in one read is lost. The publishers are a
  map from identities. The result composes the server with the muxer: every segment that a playlist names is served.
\<close>

section \<open>Playlists and their segments\<close>

definition hls_get :: "bytes \<Rightarrow> bool" where
  "hls_get key \<longleftrightarrow> str_find key (bs ''GET'') \<noteq> None"

definition hls_ok :: "bytes \<Rightarrow> bytes" where
  "hls_ok body =
     http_lines [bs ''HTTP/1.1 200 OK'', bs ''Server: tms'', bs ''Content-Type: application/x-mpegurl'', bs ''Connection: keep-alive'',
       bs ''Content-Length:'' @ dec (length body)] @ body"

definition hls_not_found :: bytes where
  "hls_not_found = http_lines [bs ''HTTP/1.1 404 Not Found'', bs ''Server: tms'', bs ''Connection: close'']"

definition hls_parse :: "u64 \<Rightarrow> stream_center \<Rightarrow> (nat \<Rightarrow> publisher) \<Rightarrow> bytes \<Rightarrow> ret_code \<times> bytes" where
  \<comment> \<open>\<open>Parse\<close>; \<open>junk\<close>: what \<open>Str2Num\<close> returns, uninitialised, for a name of spaces. A request of another type, or without
     the names, has no answer\<close>
  "hls_parse junk center pubs data =
     (case hn_loop hls_get 0 data hn_new of
        None \<Rightarrow> (kNoEnoughData, [])
      | Some s \<Rightarrow>
          if hn_app s \<noteq> [] \<and> hn_stream s \<noteq> [] then
            case sc_get (hn_app s) (hn_stream s) center of
              None \<Rightarrow> (kClose, hls_not_found)
            | Some k \<Rightarrow>
                if hn_type s = bs ''ts'' then
                  let ts = mm_get_ts (case str2num 64 (hn_name s) of None \<Rightarrow> junk | Some n \<Rightarrow> word_of_nat n) (pb_mm (pubs k))
                  in if ts \<noteq> [] then (kSuccess, hls_ok ts) else (kClose, hls_not_found)
                else if hn_type s = bs ''m3u8'' then
                  let m3u8 = mm_m3u8 (pb_mm (pubs k))
                  in if m3u8 \<noteq> [] then (kSuccess, hls_ok m3u8) else (kClose, hls_not_found)
                else (kSuccess, [])
          else (kSuccess, []))"

definition hls_read :: "u64 \<Rightarrow> stream_center \<Rightarrow> (nat \<Rightarrow> publisher) \<Rightarrow> bytes \<Rightarrow> ret_code \<times> bytes" where
  \<comment> \<open>\<open>HandleRead\<close>: after one round the buffer is empty, and \<open>Parse\<close> of nothing ends the loop\<close>
  "hls_read junk center pubs data =
     (case hls_parse junk center pubs data of
        (ret, out) \<Rightarrow>
          if ret = kSuccess then (case hls_parse junk center pubs [] of (ret2, out2) \<Rightarrow> (ret2, out @ out2)) else (ret, out))"

section \<open>Segments are not empty\<close>

definition mm_filled :: "media_muxer \<Rightarrow> bool" where
  "mm_filled m \<longleftrightarrow> (\<forall>e \<in> set (mm_ts_queue m). tmd_data (snd e) \<noteq> [])"

lemma tm_packet_pat_ne: "fst (tm_packet_pat t) \<noteq> []"
proof -
  have "ts_close_section (ts_pat_ops c) \<noteq> []" for c
    using ts_close_section_ok [OF ts_pat_ops_ok] by (simp add: ts_pat_packet_def)
  then show ?thesis by (auto simp: tm_packet_pat_def Let_def split_def)
qed

lemma mm_packet_filled: "mm_filled m \<Longrightarrow> mm_filled (snd (mm_packet_ts mem p m))"
proof -
  assume f: "mm_filled m"
  have o: "mm_filled (mm_open_ts p m) \<and> sm_find (mm_ts_seq m) (mm_ts_queue (mm_open_ts p m)) \<noteq> None"
  proof (cases "sm_find (mm_ts_seq m) (mm_ts_queue m)")
    case None
    then show ?thesis using f tm_packet_pat_ne [of "mm_ts m"] sm_put_set
      by (fastforce simp: mm_open_ts_def mm_filled_def sm_simps Let_def split_def)
  qed (use f in \<open>simp add: mm_open_ts_def\<close>)
  then obtain x where x: "sm_find (mm_ts_seq m) (mm_ts_queue (mm_open_ts p m)) = Some x" by auto
  then have "tmd_data x \<noteq> []" using o by (auto simp: mm_filled_def dest!: map_of_SomeD)
  then show ?thesis using o x sm_put_set
    by (fastforce simp: mm_packet_ts_def mm_filled_def mm_open_ts_fields Let_def split_def)
qed

lemma mm_update_filled:
  assumes "mm_inv show_ms m" and "unat (mm_ts_seq m) < 2 ^ 32" and "mm_filled m"
  shows "mm_ts_queue (mm_update_m3u8 show_ms m) = mm_ts_queue m"
proof (cases "3 \<le> length (mm_ts_queue m)")
  case True
  then obtain lo where lo: "map fst (mm_ts_queue m) = seg_keys lo (mm_ts_seq m)" "lo \<le> unat (mm_ts_seq m)"
    using assms(1) by (auto simp: mm_inv_def segs_ok_def split: if_splits)
  show ?thesis by (rule mm_update_m3u8_ok [OF lo True assms(2), of show_ms]) simp
qed (simp add: mm_update_m3u8_def)

lemma mm_step_filled:
  assumes "mm_inv show_ms m" and "unat (mm_ts_seq m) < 2 ^ 32" and "mm_filled m"
  shows "mm_filled (mm_step mem show_ms e m)"
proof -
  have c: "mm_ts_queue m2 = mm_ts_queue m1 \<or> mm_ts_queue m2 = tl (mm_ts_queue m1) \<Longrightarrow> mm_filled m1 \<Longrightarrow> mm_filled m2" for m1 m2
    unfolding mm_filled_def by (cases "mm_ts_queue m1") auto
  have "mm_ts_queue (mm_key_frame show_ms m) = mm_ts_queue m"
    using mm_update_filled [OF assms] by (simp add: mm_key_frame_def Let_def)
  then have k: "mm_filled (mm_key_frame show_ms m)" using c assms(3) by blast
  show ?thesis
  proof (cases e)
    case (MmAudio p)
    define m1 where "m1 = m\<lparr>mm_audio_queue := sm_insert (mm_audio_frame_id m) p (mm_audio_queue m)\<rparr>"
    have "mm_ts_queue m1 = mm_ts_queue m" by (simp add: m1_def)
    then have "mm_filled (snd (mm_packet_ts mem p m1))" using c [of m1 m] assms(3) mm_packet_filled by blast
    moreover have "mm_ts_queue (snd (mm_on_audio mem p m)) = mm_ts_queue (snd (mm_packet_ts mem p m1))"
      by (simp add: mm_on_audio_def m1_def [symmetric] Let_def split_def)
    ultimately have "mm_filled (snd (mm_on_audio mem p m))" using c by blast
    then show ?thesis using MmAudio by simp
  next
    case (MmVideo p)
    define m0 where "m0 = (if pl_is_iframe p then mm_key_frame show_ms m else m)"
    define m1 where "m1 = m0\<lparr>mm_video_queue := sm_insert (mm_video_frame_id m0) p (mm_video_queue m0)\<rparr>"
    have "mm_filled m0" using k assms(3) by (simp add: m0_def)
    moreover have "mm_ts_queue m1 = mm_ts_queue m0" by (simp add: m1_def)
    ultimately have "mm_filled (snd (mm_packet_ts mem p m1))" using c [of m1 m0] mm_packet_filled by blast
    moreover have "mm_ts_queue (snd (mm_on_video mem show_ms p m)) = mm_ts_queue (snd (mm_packet_ts mem p m1)) \<or>
        mm_ts_queue (snd (mm_on_video mem show_ms p m)) = tl (mm_ts_queue (snd (mm_packet_ts mem p m1)))"
      unfolding mm_on_video_def Let_def m0_def [symmetric] m1_def [symmetric] by (simp add: split_def)
    ultimately have "mm_filled (snd (mm_on_video mem show_ms p m))" using c by blast
    then show ?thesis using MmVideo by simp
  qed (use assms(3) in \<open>auto simp: mm_on_metadata_def mm_on_video_header_def mm_on_audio_header_def mm_every_second_def mm_filled_def Let_def\<close>)
qed

lemma mm_run_filled: "length es < 2 ^ 32 \<Longrightarrow> mm_filled (fold (mm_step mem show_ms) es mm_new)"
proof (induction es rule: rev_induct)
  case (snoc e es)
  then show ?case using mm_run_inv [of es show_ms mem] mm_step_filled [of show_ms "fold (mm_step mem show_ms) es mm_new"] by simp
qed (simp add: mm_filled_def mm_new_def)

section \<open>Playing\<close>

definition hls_request :: "bytes \<Rightarrow> bytes \<Rightarrow> bytes \<Rightarrow> bytes \<Rightarrow> (bytes \<times> bytes) list \<Rightarrow> bytes" where
  "hls_request app stream name type headers = http_text (hn_url app stream name type) headers"

lemma dec_hn_plain: "hn_plain (dec n)"
proof -
  have "\<not> is_digit c" if "c \<in> {32, 47, 46, 58, 13, 10}" for c using that by (auto simp: is_digit_def)
  then show ?thesis using dec_digits [of n] by (auto simp: hn_plain_def list_all_iff)
qed

lemma hls_answer:
  assumes "hn_plain app" and "hn_plain stream" and "app \<noteq> []" and "stream \<noteq> []" and "list_all (hn_header_ok hls_get) headers"
    and "sc_get app stream center = Some k" and "hn_plain name"
  shows "hls_read junk center pubs (hls_request app stream name (bs ''m3u8'') headers) =
      (if mm_m3u8 (pb_mm (pubs k)) = [] then (kClose, hls_not_found) else (kNoEnoughData, hls_ok (mm_m3u8 (pb_mm (pubs k)))))"
    and "n < 2 ^ 64 \<Longrightarrow> hls_read junk center pubs (hls_request app stream (dec n) (bs ''ts'') headers) =
      (if mm_get_ts (word_of_nat n) (pb_mm (pubs k)) = [] then (kClose, hls_not_found)
       else (kNoEnoughData, hls_ok (mm_get_ts (word_of_nat n) (pb_mm (pubs k)))))"
proof -
  have g: "hls_get (bs ''GET '' @ t)" for t by (simp add: hls_get_def bs_def)
  have empty: "hls_parse junk center pubs [] = (kNoEnoughData, [])" by (simp add: hls_parse_def)
  obtain s where s: "hn_loop hls_get 0 (hls_request app stream name (bs ''m3u8'') headers) hn_new = Some s"
    "hn_app s = app" "hn_stream s = stream" "hn_name s = name" "hn_type s = bs ''m3u8''"
    using hn_request [OF assms(1,2,7) _ assms(5) g, of "bs ''m3u8''"] by (auto simp: hls_request_def hn_plain_def bs_def)
  have "bs ''m3u8'' \<noteq> bs ''ts''" by (simp add: bs_def)
  then show "hls_read junk center pubs (hls_request app stream name (bs ''m3u8'') headers) =
      (if mm_m3u8 (pb_mm (pubs k)) = [] then (kClose, hls_not_found) else (kNoEnoughData, hls_ok (mm_m3u8 (pb_mm (pubs k)))))"
    using s assms(3,4,6) empty by (simp add: hls_read_def hls_parse_def Let_def)
  assume n: "n < 2 ^ 64"
  obtain t where t: "hn_loop hls_get 0 (hls_request app stream (dec n) (bs ''ts'') headers) hn_new = Some t"
    "hn_app t = app" "hn_stream t = stream" "hn_name t = dec n" "hn_type t = bs ''ts''"
    using hn_request [OF assms(1,2) dec_hn_plain _ assms(5) g, of "bs ''ts''" n] by (auto simp: hls_request_def hn_plain_def bs_def)
  show "hls_read junk center pubs (hls_request app stream (dec n) (bs ''ts'') headers) =
      (if mm_get_ts (word_of_nat n) (pb_mm (pubs k)) = [] then (kClose, hls_not_found)
       else (kNoEnoughData, hls_ok (mm_get_ts (word_of_nat n) (pb_mm (pubs k)))))"
    using t assms(3,4,6) empty str2num_dec [OF n] by (simp add: hls_read_def hls_parse_def Let_def)
qed

text \<open>
  C5: after any events at the muxer of a published stream, a player that asks for the playlist gets 404 or a playlist of three
  segments \<open>n - 2\<close>, \<open>n - 1\<close>, \<open>n\<close>, and when it then asks for the files the playlist names it gets exactly the bytes of these
  segments, which are not empty; the connection stays open. It may send any headers.
\<close>

theorem hls_playlist_playable:
  assumes "hn_plain app" and "hn_plain stream" and "app \<noteq> []" and "stream \<noteq> []" and "list_all (hn_header_ok hls_get) headers"
    and "sc_get app stream center = Some k" and "hn_plain name"
    and "length es < 2 ^ 32" and "m = pb_mm (pubs k)" and "m = fold (mm_step mem show_ms) es mm_new"
    and "get = (\<lambda>name type. hls_read junk center pubs (hls_request app stream name (bs type) headers))"
  shows "get name ''m3u8'' = (kClose, hls_not_found) \<or>
    (\<exists>n target a b c. get name ''m3u8'' = (kNoEnoughData, hls_ok (m3u8_text show_ms target n (tmd_duration a) (tmd_duration b) (tmd_duration c))) \<and>
       get (dec (unat (n - 2))) ''ts'' = (kNoEnoughData, hls_ok (tmd_data a)) \<and>
       get (dec (unat (n - 1))) ''ts'' = (kNoEnoughData, hls_ok (tmd_data b)) \<and>
       get (dec (unat n)) ''ts'' = (kNoEnoughData, hls_ok (tmd_data c)) \<and>
       tmd_data a \<noteq> [] \<and> tmd_data b \<noteq> [] \<and> tmd_data c \<noteq> [] \<and> {(ucast (n - 2), a), (ucast (n - 1), b), (ucast n, c)} \<subseteq> set (mm_ts_queue m))"
proof (cases "mm_m3u8 m = []")
  case True
  then show ?thesis using hls_answer(1) [OF assms(1-7), of junk pubs] by (simp add: assms(9,11))
next
  case False
  have "mm_filled m" using mm_run_filled [OF assms(8)] by (simp add: assms(10))
  then have filled: "tmd_data x \<noteq> []" if "sm_find j (mm_ts_queue m) = Some x" for j x
    using that by (auto simp: mm_filled_def dest!: map_of_SomeD)
  have "m3u8_ok show_ms m" using mm_run_inv [OF assms(8), of show_ms mem] False by (simp add: assms(10) mm_inv_def)
  then obtain n target a b c where n: "mm_m3u8 m = m3u8_text show_ms target n (tmd_duration a) (tmd_duration b) (tmd_duration c)"
    "sm_find (ucast (n - 2)) (mm_ts_queue m) = Some a" "sm_find (ucast (n - 1)) (mm_ts_queue m) = Some b" "sm_find (ucast n) (mm_ts_queue m) = Some c"
    unfolding m3u8_ok_def by blast
  have ts: "get (dec (unat j)) ''ts'' = (kNoEnoughData, hls_ok (tmd_data x))" if "sm_find (ucast j) (mm_ts_queue m) = Some x" for j :: u32 and x
  proof -
    have "unat j < 2 ^ 64" using unsigned_less [of j] by (rule order_less_trans) simp
    moreover have "(word_of_nat (unat j) :: u64) = ucast j" by simp
    ultimately show ?thesis
      using hls_answer(2) [OF assms(1-7), of "unat j" junk pubs] filled [OF that] that
      unfolding assms(11) by (simp add: mm_get_ts_def flip: assms(9))
  qed
  have "get name ''m3u8'' = (kNoEnoughData, hls_ok (mm_m3u8 m))" using hls_answer(1) [OF assms(1-7), of junk pubs] False by (simp add: assms(9,11))
  then show ?thesis
    using n ts [OF n(2)] ts [OF n(3)] ts [OF n(4)] filled [OF n(2)] filled [OF n(3)] filled [OF n(4)]
    by (intro disjI2 exI [of _ n] exI [of _ target] exI [of _ a] exI [of _ b] exI [of _ c]) (auto dest!: map_of_SomeD)
qed

lemma hls_playlist_playable_witness:
  "let b = pb_new\<lparr>pb_mm := fold (mm_step (\<lambda>_. 0) (\<lambda>_. [])) [MmMeta [1], MmSecond 7] mm_new\<rparr>;
       get = (\<lambda>name type. hls_read 0 [(bs ''live'', [(bs ''room'', 3)])] (\<lambda>_. b) (hls_request (bs ''live'') (bs ''room'') name (bs type) [(bs ''Host'', bs ''a:80'')]))
   in get (bs ''x'') ''m3u8'' = (kClose, hls_not_found) \<or> (\<exists>n (c :: ts_media). get (dec (unat (n :: u32))) ''ts'' = (kNoEnoughData, hls_ok (tmd_data c)))"
proof -
  define b where "b = pb_new\<lparr>pb_mm := fold (mm_step (\<lambda>_. 0) (\<lambda>_. [])) [MmMeta [1], MmSecond 7] mm_new\<rparr>"
  define pubs :: "nat \<Rightarrow> publisher" where "pubs = (\<lambda>_. b)"
  have h: "hn_plain (bs ''live'')" "hn_plain (bs ''room'')" "bs ''live'' \<noteq> []" "bs ''room'' \<noteq> []"
    "list_all (hn_header_ok hls_get) [(bs ''Host'', bs ''a:80'')]" "sc_get (bs ''live'') (bs ''room'') [(bs ''live'', [(bs ''room'', 3)])] = Some 3"
    "hn_plain (bs ''x'')"
    by (simp_all add: hn_plain_def hn_header_ok_def hls_get_def sc_get_def bs_def)
  have f: "pb_mm (pubs 3) = fold (mm_step (\<lambda>_. 0) (\<lambda>_. [])) [MmMeta [1], MmSecond 7] mm_new" by (simp add: pubs_def b_def)
  have l: "length [MmMeta [1], MmSecond 7] < 2 ^ 32" by simp
  from hls_playlist_playable [where pubs = pubs and k = 3 and junk = 0 and es = "[MmMeta [1], MmSecond 7]" and mem = "\<lambda>_. 0" and show_ms = "\<lambda>_. []",
        OF h l refl f refl]
  show ?thesis
    unfolding Let_def b_def [symmetric] pubs_def by (elim disjE exE conjE) ((rule disjI1, assumption) | (rule disjI2, intro exI, assumption))+
qed

end
