(* ===== verification/HttpDash.thy ===== *)
theory HttpDash
  imports HttpScan StreamCenter DashFile
begin

text \<open>
  \<open>src/http_dash_protocol.cpp\<close>: the server of DASH manifests, initialisation files and media segments. It takes all bytes of a
  read, scans them for one request (theory \<open>HttpScan\<close>) and answers it. The DASH muxers of the publishers are a map
  from identities; what \<open>LMSG\<close> prints is a parameter. The results compose the server with the muxer: every segment a manifest names
  is served, byte for byte; a request before the first segment reads outside the map.
\<close>

section \<open>Manifests and their segments\<close>

definition dash_get :: "bytes \<Rightarrow> bool" where
  "dash_get key \<longleftrightarrow> str_find key (bs ''GET'') \<noteq> None \<or> str_find key (bs ''HEAD'') \<noteq> None"

definition SendHttpRes :: "bytes \<Rightarrow> bytes" where
  \<comment> \<open>it is called for 404 and plain text only\<close>
  "SendHttpRes content =
     http_lines [bs ''HTTP/1.1 404 Not Found'', bs ''Server: tms'', bs ''Access-Control-Allow-Origin: *'', bs ''Connection: close'',
       bs ''Content-Type: text/plain'', bs ''Content-Length:'' @ dec (length content)] @ content"

definition dash_ok :: "bytes \<Rightarrow> bytes \<Rightarrow> bytes" where
  "dash_ok type body =
     http_lines [bs ''HTTP/1.1 200 OK'', bs ''Server: tms'', bs ''Access-Control-Allow-Origin: *'', bs ''Content-Type: '' @ type,
       bs ''Connection: keep-alive'', bs ''Content-Length:'' @ dec (length body)] @ body"

definition str_has :: "bytes \<Rightarrow> bytes \<Rightarrow> bool" where
  "str_has s pat \<longleftrightarrow> str_find s pat \<noteq> None"

definition dash_where :: "bytes \<Rightarrow> http_scan \<Rightarrow> bytes" where
  "dash_where lmsg s = lmsg @ bs ''app_:'' @ hn_app s @ bs '',stream_:'' @ hn_stream s"

definition dash_m4s :: "u64 \<Rightarrow> (nat \<Rightarrow> bytes) \<Rightarrow> dash_muxer \<Rightarrow> http_scan \<Rightarrow> (ret_code \<times> bytes) option" where
  \<comment> \<open>a segment; \<open>None\<close>: \<open>GetM4s\<close> reads what is not there\<close>
  "dash_m4s junk lmsg d s =
     (let tmp = the (sep_str (hn_name s) (bs ''_''))
      in if length tmp \<noteq> 2 \<or> \<not> str_has (tmp ! 0) (bs ''audio'') \<and> \<not> str_has (tmp ! 0) (bs ''video'')
         then Some (kSuccess, SendHttpRes (dash_where (lmsg 81) s @ bs '' invalid m4s url'' @ [10]))
         else
           let payload_type = (if str_has (tmp ! 0) (bs ''video'') then kVideoPayload else kAudioPayload);
               seg_num = (case str2num 64 (tmp ! 1) of None \<Rightarrow> junk | Some n \<Rightarrow> word_of_nat n)
           in map_option (\<lambda>m4s.
                if m4s \<noteq> [] then (kSuccess, dash_ok (bs ''text/plain'') m4s)
                else (kSuccess, SendHttpRes (dash_where (lmsg 113) s @ bs '',segment_:'' @ hn_name s @ bs '' no found'' @ [10])))
                (GetM4s payload_type seg_num d))"

definition dash_mp4 :: "(nat \<Rightarrow> bytes) \<Rightarrow> dash_muxer \<Rightarrow> http_scan \<Rightarrow> ret_code \<times> bytes" where
  "dash_mp4 lmsg d s =
     (if \<not> str_has (hn_name s) (bs ''audio'') \<and> \<not> str_has (hn_name s) (bs ''video'')
      then (kSuccess, SendHttpRes (dash_where (lmsg 124) s @ bs '' invalid mp4 url'' @ [10]))
      else
        let init_mp4 = GetInitMp4 (if str_has (hn_name s) (bs ''video'') then kVideoPayload else kAudioPayload) d
        in if init_mp4 \<noteq> [] then (kSuccess, dash_ok (bs ''video/mp4'') init_mp4)
           else (kSuccess, SendHttpRes (dash_where (lmsg 154) s @ bs '' init mp4 file empty'' @ [10])))"

definition dash_mpd :: "(nat \<Rightarrow> bytes) \<Rightarrow> dash_muxer \<Rightarrow> http_scan \<Rightarrow> (ret_code \<times> bytes) option" where
  \<comment> \<open>the manifest; \<open>None\<close>: \<open>Replace\<close> does not return\<close>
  "dash_mpd lmsg d s =
     (if GetMpd d \<noteq> [] then
        map_option (\<lambda>mpd. (kSuccess, dash_ok (bs ''text/xml'') mpd))
          (str_replace (GetMpd d) (bs ''${app}/${stream}'') (hn_app s @ bs ''/'' @ hn_stream s))
      else Some (kSuccess, SendHttpRes (dash_where (lmsg 181) s @ bs '' mpd file empty'' @ [10])))"

definition dash_parse :: "u64 \<Rightarrow> (nat \<Rightarrow> bytes) \<Rightarrow> stream_center \<Rightarrow> (nat \<Rightarrow> dash_muxer) \<Rightarrow> bytes \<Rightarrow> (ret_code \<times> bytes) option" where
  \<comment> \<open>\<open>Parse\<close>; \<open>lmsg\<close>: the prefix that \<open>LMSG\<close> prints at a line of the source\<close>
  "dash_parse junk lmsg center dash data =
     (case hn_loop dash_get 0 data hn_new of
        None \<Rightarrow> Some (kNoEnoughData, [])
      | Some s \<Rightarrow>
          if hn_app s \<noteq> [] \<and> hn_stream s \<noteq> [] then
            case sc_get (hn_app s) (hn_stream s) center of
              None \<Rightarrow> Some (kSuccess, SendHttpRes (lmsg 190 @ bs ''can'' @ [39] @ bs ''t find media source, app_:'' @ hn_app s @ bs '',stream_:'' @ hn_stream s @ [10]))
            | Some k \<Rightarrow>
                if hn_type s = bs ''m4s'' then dash_m4s junk lmsg (dash k) s
                else if hn_type s = bs ''mp4'' then Some (dash_mp4 lmsg (dash k) s)
                else if hn_type s = bs ''mpd'' then dash_mpd lmsg (dash k) s
                else Some (kSuccess, [])
          else Some (kSuccess, []))"

definition dash_serve :: "u64 \<Rightarrow> (nat \<Rightarrow> bytes) \<Rightarrow> stream_center \<Rightarrow> (nat \<Rightarrow> dash_muxer) \<Rightarrow> bytes \<Rightarrow> (ret_code \<times> bytes) option" where
  \<comment> \<open>\<open>HandleRead\<close>\<close>
  "dash_serve junk lmsg center dash data =
     Option.bind (dash_parse junk lmsg center dash data)
       (\<lambda>(ret, out). if ret = kSuccess
          then map_option (\<lambda>(ret2, out2). (ret2, out @ out2)) (dash_parse junk lmsg center dash [])
          else Some (ret, out))"

section \<open>Segments are served\<close>

definition dash_request :: "bytes \<Rightarrow> bytes \<Rightarrow> bytes \<Rightarrow> bytes \<Rightarrow> (bytes \<times> bytes) list \<Rightarrow> bytes" where
  "dash_request app stream name type headers = http_text (hn_url app stream name type) headers"

definition dash_name :: "u8 \<Rightarrow> u32 \<Rightarrow> bytes" where
  \<comment> \<open>\<open>$RepresentationID$_$Time$\<close> of the manifest\<close>
  "dash_name t time = (if t = kVideoPayload then bs ''video'' else bs ''audio'') @ bs ''_'' @ dec (unat time)"

lemma digits_clean: "c \<in> set (dec n) \<Longrightarrow> is_digit c"
  using dec_digits [of n] by (simp add: list_all_iff)

lemma dash_name_plain: "hn_plain (dash_name t time)"
proof -
  have "\<not> is_digit c" if "c \<in> {32, 47, 46, 58, 13, 10}" for c using that by (auto simp: is_digit_def)
  then show ?thesis using digits_clean [of _ "unat time"] by (auto simp: hn_plain_def dash_name_def bs_def)
qed

lemma dash_m4s_answer:
  assumes "t = kVideoPayload \<or> t = kAudioPayload" and "hn_name s = dash_name t time"
  shows "dash_m4s junk lmsg d s =
    map_option (\<lambda>m4s. if m4s \<noteq> [] then (kSuccess, dash_ok (bs ''text/plain'') m4s)
      else (kSuccess, SendHttpRes (dash_where (lmsg 113) s @ bs '',segment_:'' @ hn_name s @ bs '' no found'' @ [10]))) (GetM4s t (ucast time) d)"
proof -
  define r where "r = (if t = kVideoPayload then bs ''video'' else bs ''audio'')"
  have "95 \<notin> set (dec (unat time))" using digits_clean [of 95] by (auto simp: is_digit_def)
  moreover have "95 \<notin> set r" by (simp add: r_def bs_def)
  ultimately have "sep_str (join [95] [r, dec (unat time)]) [95] = Some [r, dec (unat time)]" by (intro sep_str_join) simp_all
  then have sep: "sep_str (hn_name s) (bs ''_'') = Some [r, dec (unat time)]"
    by (simp add: assms(2) dash_name_def r_def bs_def)
  have has: "str_has r (bs ''video'') \<longleftrightarrow> t = kVideoPayload" "str_has r (bs ''audio'') \<longleftrightarrow> t \<noteq> kVideoPayload"
    by (auto simp: str_has_def r_def bs_def)
  have "unat time < 2 ^ 64" using unsigned_less [of time] by (rule order_less_trans) simp
  then have num: "str2num 64 (dec (unat time)) = Some (unat time)" by (rule str2num_dec)
  have "(if t = kVideoPayload then kVideoPayload else kAudioPayload) = t" using assms(1) by auto
  then show ?thesis by (auto simp: dash_m4s_def sep has num)
qed

lemma dash_answer:
  assumes "hn_plain app" and "hn_plain stream" and "app \<noteq> []" and "stream \<noteq> []" and "list_all (hn_header_ok dash_get) headers"
    and "sc_get app stream center = Some k" and t: "t = kVideoPayload \<or> t = kAudioPayload"
  shows "GetM4s t (ucast time) (dash k) = None \<Longrightarrow> dash_serve junk lmsg center dash (dash_request app stream (dash_name t time) (bs ''m4s'') headers) = None"
    and "GetM4s t (ucast time) (dash k) = Some seg \<Longrightarrow> seg \<noteq> [] \<Longrightarrow>
      dash_serve junk lmsg center dash (dash_request app stream (dash_name t time) (bs ''m4s'') headers) = Some (kNoEnoughData, dash_ok (bs ''text/plain'') seg)"
proof -
  have g: "dash_get (bs ''GET '' @ t)" for t by (simp add: dash_get_def bs_def)
  have empty: "dash_parse junk lmsg center dash [] = Some (kNoEnoughData, [])" by (simp add: dash_parse_def)
  have p: "hn_plain (bs ''m4s'')" by (simp add: hn_plain_def bs_def)
  obtain s where s: "hn_loop dash_get 0 (dash_request app stream (dash_name t time) (bs ''m4s'') headers) hn_new = Some s"
    "hn_app s = app" "hn_stream s = stream" "hn_name s = dash_name t time" "hn_type s = bs ''m4s''"
    using hn_request [OF assms(1,2) dash_name_plain p assms(5) g, of t time] by (auto simp: dash_request_def)
  note m = dash_m4s_answer [OF t s(4), of junk lmsg "dash k"]
  have "dash_parse junk lmsg center dash (dash_request app stream (dash_name t time) (bs ''m4s'') headers) = dash_m4s junk lmsg (dash k) s"
    using s assms(3,4,6) by (simp add: dash_parse_def)
  then show "GetM4s t (ucast time) (dash k) = None \<Longrightarrow> dash_serve junk lmsg center dash (dash_request app stream (dash_name t time) (bs ''m4s'') headers) = None"
    and "GetM4s t (ucast time) (dash k) = Some seg \<Longrightarrow> seg \<noteq> [] \<Longrightarrow>
      dash_serve junk lmsg center dash (dash_request app stream (dash_name t time) (bs ''m4s'') headers) = Some (kNoEnoughData, dash_ok (bs ''text/plain'') seg)"
    by (simp_all add: dash_serve_def m empty)
qed



text \<open>
  C30: a request for a media segment of a published stream before the track has its first segment (in its first seconds, or of a
  track the stream does not have) makes the server read outside the map; any client can do this.
\<close>

theorem dash_early_request_crashes:
  assumes "hn_plain app" and "hn_plain stream" and "app \<noteq> []" and "stream \<noteq> []" and "list_all (hn_header_ok dash_get) headers"
    and "sc_get app stream center = Some k" and "t = kVideoPayload \<or> t = kAudioPayload" and "dt_m4s (d_track t (dash k)) = []"
  shows "dash_serve junk lmsg center dash (dash_request app stream (dash_name t time) (bs ''m4s'') headers) = None"
  by (rule dash_answer(1) [OF assms(1-7)]) (simp add: GetM4s_def assms(8))

lemma dash_early_request_crashes_witness:
  "dash_serve 0 (\<lambda>_. []) [(bs ''live'', [(bs ''room'', 3)])] (\<lambda>_. dash_new 0 [])
     (dash_request (bs ''live'') (bs ''room'') (dash_name kVideoPayload 5000) (bs ''m4s'') [(bs ''Host'', bs ''a:80'')]) = None"
  by (rule dash_early_request_crashes [of _ _ _ _ 3])
    (simp_all add: hn_plain_def hn_header_ok_def dash_get_def sc_get_def bs_def d_track_def dash_new_def dash_track_new_def)

end
