(* ===== verification/Sdp.thy ===== *)
theory Sdp
  imports Util
begin

text \<open>
  \<open>src/sdp.h\<close>, \<open>src/sdp.cpp\<close>: session descriptions. An \<open>istringstream\<close> is the list of its unread bytes; \<open>getline\<close> and
  \<open>operator>>\<close> are those of the C++ library in the C locale. The object after a failed \<open>parse\<close>, the text of the error, and what is
  printed are left out: the caller drops the object. Members that the constructors do not initialise have the
  value \<open>junk\<close>.
\<close>

section \<open>Streams\<close>

datatype sdp_error =
    SdpInvalid \<comment> \<open>-1\<close>
  | SdpThrows \<comment> \<open>\<open>std::out_of_range\<close>\<close>

type_synonym 'a sdp_result = "sdp_error + 'a"

definition fetch :: "bytes \<Rightarrow> (bytes \<times> bytes) option" where
  \<comment> \<open>\<open>is >> word\<close> for a string\<close>
  "fetch is =
     (let s = dropWhile is_space is
      in if s = [] then None else Some (takeWhile (\<lambda>c. \<not> is_space c) s, dropWhile (\<lambda>c. \<not> is_space c) s))"

definition fetch_int :: "nat \<Rightarrow> bytes \<Rightarrow> (int \<times> bytes) option" where
  \<comment> \<open>\<open>is >> word\<close> for a signed integer of \<open>w\<close> bits\<close>
  "fetch_int w is =
     (let s = dropWhile is_space is;
          neg = (s \<noteq> [] \<and> hd s = 45);
          t = (if s \<noteq> [] \<and> (hd s = 45 \<or> hd s = 43) then tl s else s);
          ds = takeWhile is_digit t;
          v = (if neg then - int (dec_val ds) else int (dec_val ds))
      in if ds = [] \<or> v < - (2 ^ (w - 1)) \<or> 2 ^ (w - 1) \<le> v then None else Some (v, dropWhile is_digit t))"

definition atoi :: "bytes \<Rightarrow> int" where
  \<comment> \<open>\<open>(int) strtol(s, NULL, 10)\<close>\<close>
  "atoi str =
     (let s = dropWhile is_space str;
          neg = (s \<noteq> [] \<and> hd s = 45);
          t = (if s \<noteq> [] \<and> (hd s = 45 \<or> hd s = 43) then tl s else s);
          v = int (dec_val (takeWhile is_digit t));
          l = (if neg then max (- (2 ^ 63)) (- v) else min (2 ^ 63 - 1) v)
      in signed_take_bit 31 l)"

function getlines :: "bytes \<Rightarrow> bytes list" where
  \<comment> \<open>\<open>while (getline(is, line))\<close>\<close>
  "getlines s = (if s = [] then [] else takeWhile (\<lambda>c. c \<noteq> 10) s # getlines (drop 1 (dropWhile (\<lambda>c. c \<noteq> 10) s)))"
  by auto
termination
proof (relation "measure length")
  fix s :: bytes assume "s \<noteq> []"
  have "length (dropWhile (\<lambda>c. c \<noteq> 10) s) \<le> length s" by (rule length_dropWhile_le)
  then show "(drop 1 (dropWhile (\<lambda>c. c \<noteq> 10) s), s) \<in> measure length" using \<open>s \<noteq> []\<close> by (cases s) auto
qed simp

declare getlines.simps [simp del]

partial_function (option) split_str :: "bytes \<Rightarrow> bytes \<Rightarrow> bytes list option" where
  "split_str str delim =
     (case str_find str delim of
        None \<Rightarrow> Some [str]
      | Some pos \<Rightarrow> Option.bind (split_str (drop (pos + length delim) str) delim) (\<lambda>r. Some (substr str 0 pos # r)))"

definition show_int :: "int \<Rightarrow> bytes" where
  "show_int v = (if v < 0 then bs ''-'' @ dec (nat (- v)) else dec (nat v))"

definition kCRLF :: bytes where "kCRLF = [13, 10]"

section \<open>\<open>SdpSessionInfo\<close>\<close>

record sdp_session_info =
  si_ice_ufrag :: bytes
  si_ice_pwd :: bytes
  si_ice_options :: bytes
  si_fingerprint_algo :: bytes
  si_fingerprint :: bytes
  si_setup :: bytes

definition si_new :: sdp_session_info where
  "si_new = \<lparr>si_ice_ufrag = [], si_ice_pwd = [], si_ice_options = [], si_fingerprint_algo = [], si_fingerprint = [], si_setup = []\<rparr>"

definition si_parse_attribute :: "bytes \<Rightarrow> bytes \<Rightarrow> sdp_session_info \<Rightarrow> sdp_session_info sdp_result" where
  "si_parse_attribute attribute value s =
     (if attribute = bs ''ice-ufrag'' then Inr (s\<lparr>si_ice_ufrag := value\<rparr>)
      else if attribute = bs ''ice-pwd'' then Inr (s\<lparr>si_ice_pwd := value\<rparr>)
      else if attribute = bs ''ice-options'' then Inr (s\<lparr>si_ice_options := value\<rparr>)
      else if attribute = bs ''fingerprint'' then
        case fetch value of
          None \<Rightarrow> Inl SdpInvalid
        | Some (algo, is) \<Rightarrow>
            (case fetch is of None \<Rightarrow> Inl SdpInvalid | Some (f, is) \<Rightarrow> Inr (s\<lparr>si_fingerprint_algo := algo, si_fingerprint := f\<rparr>))
      else if attribute = bs ''setup'' then Inr (s\<lparr>si_setup := value\<rparr>)
      else Inr s)"

definition si_encode :: "sdp_session_info \<Rightarrow> bytes" where
  "si_encode s =
     (if si_ice_ufrag s \<noteq> [] then bs ''a=ice-ufrag:'' @ si_ice_ufrag s @ kCRLF else []) @
     (if si_ice_pwd s \<noteq> [] then bs ''a=ice-pwd:'' @ si_ice_pwd s @ kCRLF else []) @
     (if si_ice_options s \<noteq> [] then bs ''a=ice-options:'' @ si_ice_options s @ kCRLF else []) @
     (if si_fingerprint_algo s \<noteq> [] \<and> si_fingerprint s \<noteq> []
      then bs ''a=fingerprint:'' @ si_fingerprint_algo s @ bs '' '' @ si_fingerprint s @ kCRLF else []) @
     (if si_setup s \<noteq> [] then bs ''a=setup:'' @ si_setup s @ kCRLF else [])"

section \<open>\<open>SdpMediaPayload\<close>\<close>

record sdp_media_payload =
  sp_payload_type :: int
  sp_encoding_name :: bytes
  sp_clock_rate :: int
  sp_encoding_param :: bytes
  sp_rtcp_fb :: "bytes sset"
  sp_format_specific_param :: bytes

definition sp_new :: "int \<Rightarrow> int \<Rightarrow> sdp_media_payload" where
  "sp_new junk payload_type =
     \<lparr>sp_payload_type = payload_type, sp_encoding_name = [], sp_clock_rate = junk, sp_encoding_param = [], sp_rtcp_fb = [],
      sp_format_specific_param = []\<rparr>"

definition sp_encode :: "sdp_media_payload \<Rightarrow> bytes" where
  "sp_encode p =
     bs ''a=rtpmap:'' @ show_int (sp_payload_type p) @ bs '' '' @ sp_encoding_name p @ bs ''/'' @ show_int (sp_clock_rate p) @
     (if sp_encoding_param p \<noteq> [] then bs ''/'' @ sp_encoding_param p else []) @ kCRLF @
     concat (map (\<lambda>fb. bs ''a=rtcp-fb:'' @ show_int (sp_payload_type p) @ bs '' '' @ fb @ kCRLF) (sp_rtcp_fb p)) @
     (if sp_format_specific_param p \<noteq> []
      then bs ''a=fmtp:'' @ show_int (sp_payload_type p) @ bs '' '' @ sp_format_specific_param p @ kCRLF else [])"

section \<open>\<open>SdpMediaDesc\<close>\<close>

record sdp_media_desc =
  md_session_info :: sdp_session_info
  md_type :: bytes
  md_mid :: bytes
  md_protos :: "bytes sset"
  md_payloads :: "(int, sdp_media_payload) smap"

definition md_new :: "bytes \<Rightarrow> sdp_media_desc" where
  "md_new type = \<lparr>md_session_info = si_new, md_type = type, md_mid = [], md_protos = [], md_payloads = []\<rparr>"

definition find_media_payload :: "int \<Rightarrow> sdp_media_desc \<Rightarrow> sdp_media_payload option" where
  "find_media_payload payload_type d = sm_find payload_type (md_payloads d)"

definition md_set :: "int \<Rightarrow> sdp_media_payload \<Rightarrow> sdp_media_desc \<Rightarrow> sdp_media_desc" where
  \<comment> \<open>through the pointer that \<open>find_media_payload\<close> returned\<close>
  "md_set payload_type p d = d\<lparr>md_payloads := sm_put payload_type p (md_payloads d)\<rparr>"

definition parse_attr_rtpmap :: "bytes \<Rightarrow> sdp_media_desc \<Rightarrow> sdp_media_desc sdp_result" where
  "parse_attr_rtpmap value d =
     (case fetch_int 32 value of
        None \<Rightarrow> Inl SdpInvalid
      | Some (payload_type, is) \<Rightarrow>
      (case find_media_payload payload_type d of
        None \<Rightarrow> Inl SdpInvalid
      | Some payload \<Rightarrow>
      (case fetch is of
        None \<Rightarrow> Inl SdpInvalid
      | Some (word, is) \<Rightarrow>
          let vec = the (split_str word (bs ''/''))
          in if length vec < 2 then Inl SdpInvalid
             else
               let p1 = payload\<lparr>sp_encoding_name := vec ! 0, sp_clock_rate := atoi (vec ! 1)\<rparr>;
                   p2 = (if length vec = 3 then p1\<lparr>sp_encoding_param := vec ! 2\<rparr> else p1)
               in Inr (md_set payload_type p2 d))))"

definition parse_attr_rtcp_fb :: "bytes \<Rightarrow> sdp_media_desc \<Rightarrow> sdp_media_desc sdp_result" where
  \<comment> \<open>at the end of the stream \<open>tellg\<close> is -1 and \<open>substr\<close> throws\<close>
  "parse_attr_rtcp_fb value d =
     (case fetch_int 32 value of
        None \<Rightarrow> Inl SdpInvalid
      | Some (payload_type, is) \<Rightarrow>
      (case find_media_payload payload_type d of
        None \<Rightarrow> Inl SdpInvalid
      | Some payload \<Rightarrow>
          if is = [] then Inl SdpThrows
          else Inr (md_set payload_type (payload\<lparr>sp_rtcp_fb := ss_insert (dropWhile (\<lambda>c. c = 32) is) (sp_rtcp_fb payload)\<rparr>) d)))"

definition parse_attr_fmtp :: "bytes \<Rightarrow> sdp_media_desc \<Rightarrow> sdp_media_desc sdp_result" where
  "parse_attr_fmtp value d =
     (case fetch_int 32 value of
        None \<Rightarrow> Inl SdpInvalid
      | Some (payload_type, is) \<Rightarrow>
      (case find_media_payload payload_type d of
        None \<Rightarrow> Inl SdpInvalid
      | Some payload \<Rightarrow>
      (case fetch is of
        None \<Rightarrow> Inl SdpInvalid
      | Some (word, is) \<Rightarrow> Inr (md_set payload_type (payload\<lparr>sp_format_specific_param := word\<rparr>) d))))"

definition parse_attr_mid :: "bytes \<Rightarrow> sdp_media_desc \<Rightarrow> sdp_media_desc sdp_result" where
  "parse_attr_mid value d = (case fetch value of None \<Rightarrow> Inl SdpInvalid | Some (word, is) \<Rightarrow> Inr (d\<lparr>md_mid := word\<rparr>))"

definition sdp_attribute :: "bytes \<Rightarrow> bytes \<times> bytes" where
  \<comment> \<open>attribute and value; without \<open>':'\<close> both stay empty\<close>
  "sdp_attribute content =
     (case str_find content (bs '':'') of None \<Rightarrow> ([], []) | Some pos \<Rightarrow> (substr content 0 pos, drop (pos + 1) content))"

definition md_parse_attribute :: "bytes \<Rightarrow> sdp_media_desc \<Rightarrow> sdp_media_desc sdp_result" where
  "md_parse_attribute content d =
     (let (attribute, value) = sdp_attribute content
      in if attribute = bs ''extmap'' then Inr d
         else if attribute = bs ''rtpmap'' then parse_attr_rtpmap value d
         else if attribute = bs ''rtcp-fb'' then parse_attr_rtcp_fb value d
         else if attribute = bs ''fmtp'' then parse_attr_fmtp value d
         else if attribute = bs ''mid'' then parse_attr_mid value d
         else map_sum id (\<lambda>s. d\<lparr>md_session_info := s\<rparr>) (si_parse_attribute attribute value (md_session_info d)))"

definition md_parse_line :: "bytes \<Rightarrow> sdp_media_desc \<Rightarrow> sdp_media_desc sdp_result" where
  \<comment> \<open>\<open>'a'\<close>\<close>
  "md_parse_line line d = (if hd line = 97 then md_parse_attribute (drop 2 line) d else Inr d)"

definition md_encode :: "sdp_media_desc \<Rightarrow> bytes" where
  "md_encode d =
     bs ''m='' @ md_type d @ bs '' '' @ join (bs ''/'') (md_protos d) @
     concat (map (\<lambda>e. bs '' '' @ show_int (fst e)) (md_payloads d)) @ kCRLF @
     si_encode (md_session_info d) @ bs ''a=mid:'' @ md_mid d @ kCRLF @ concat (map (\<lambda>e. sp_encode (snd e)) (md_payloads d))"

section \<open>\<open>Sdp\<close>\<close>

record sdp =
  sdp_cur_media_desc :: "sdp_media_desc option"
  sdp_media_descs :: "sdp_media_desc list"
  sdp_session_info :: sdp_session_info
  sdp_version :: bytes
  sdp_username :: bytes
  sdp_session_id :: bytes
  sdp_session_version :: bytes
  sdp_nettype :: bytes
  sdp_addrtype :: bytes
  sdp_unicast_address :: bytes
  sdp_session_name :: bytes
  sdp_start_time :: int
  sdp_end_time :: int
  sdp_rtcp_mux :: bool
  sdp_sendonly :: bool
  sdp_recvonly :: bool
  sdp_sendrecv :: bool
  sdp_inactive :: bool
  sdp_group :: "bytes sset"

definition sdp_new :: "int \<Rightarrow> sdp" where
  "sdp_new junk =
     \<lparr>sdp_cur_media_desc = None, sdp_media_descs = [], sdp_session_info = si_new, sdp_version = [], sdp_username = [],
      sdp_session_id = [], sdp_session_version = [], sdp_nettype = [], sdp_addrtype = [], sdp_unicast_address = [],
      sdp_session_name = [], sdp_start_time = junk, sdp_end_time = junk, sdp_rtcp_mux = False, sdp_sendonly = False,
      sdp_recvonly = False, sdp_sendrecv = False, sdp_inactive = False, sdp_group = []\<rparr>"

fun fetch_all :: "nat \<Rightarrow> bytes \<Rightarrow> bytes list option" where
  \<comment> \<open>\<open>FETCH\<close> \<open>n\<close> times\<close>
  "fetch_all 0 is = Some []"
| "fetch_all (Suc n) is = (case fetch is of None \<Rightarrow> None | Some (word, is) \<Rightarrow> map_option ((#) word) (fetch_all n is))"

definition parse_origin :: "bytes \<Rightarrow> sdp \<Rightarrow> sdp sdp_result" where
  "parse_origin content s =
     (case fetch_all 6 content of
        None \<Rightarrow> Inl SdpInvalid
      | Some w \<Rightarrow> Inr (s\<lparr>sdp_username := w ! 0, sdp_session_id := w ! 1, sdp_session_version := w ! 2, sdp_nettype := w ! 3,
                       sdp_addrtype := w ! 4, sdp_unicast_address := w ! 5\<rparr>))"

definition parse_version :: "bytes \<Rightarrow> sdp \<Rightarrow> sdp sdp_result" where
  "parse_version content s = (case fetch content of None \<Rightarrow> Inl SdpInvalid | Some (word, is) \<Rightarrow> Inr (s\<lparr>sdp_version := word\<rparr>))"

definition parse_session_name :: "bytes \<Rightarrow> sdp \<Rightarrow> sdp sdp_result" where
  "parse_session_name content s = (case fetch content of None \<Rightarrow> Inl SdpInvalid | Some (word, is) \<Rightarrow> Inr (s\<lparr>sdp_session_name := word\<rparr>))"

definition parse_timing :: "bytes \<Rightarrow> sdp \<Rightarrow> sdp sdp_result" where
  "parse_timing content s =
     (case fetch_int 64 content of
        None \<Rightarrow> Inl SdpInvalid
      | Some (start_time, is) \<Rightarrow>
          (case fetch_int 64 is of
             None \<Rightarrow> Inl SdpInvalid
           | Some (end_time, is) \<Rightarrow> Inr (s\<lparr>sdp_start_time := start_time, sdp_end_time := end_time\<rparr>)))"

lemma fetch_shorter:
  assumes "fetch is = Some (w, r)"
  shows "length r < length is"
proof -
  have s: "dropWhile is_space is \<noteq> []" "r = dropWhile (\<lambda>c. \<not> is_space c) (dropWhile is_space is)"
    using assms by (auto simp: fetch_def Let_def split: if_splits)
  obtain a t where t: "dropWhile is_space is = a # t" using s(1) by (cases "dropWhile is_space is") auto
  have "\<not> is_space a" using hd_dropWhile [OF s(1)] t by simp
  then have "r = dropWhile (\<lambda>c. \<not> is_space c) t" using s(2) t by simp
  then have "length r \<le> length t" by (simp add: length_dropWhile_le)
  moreover have "length (a # t) \<le> length is" unfolding t [symmetric] by (rule length_dropWhile_le)
  ultimately show ?thesis by simp
qed

lemma fetch_int_shorter:
  assumes "fetch_int w is = Some (v, r)"
  shows "length r < length is"
proof -
  define s where "s = dropWhile is_space is"
  define t where "t = (if s \<noteq> [] \<and> (hd s = 45 \<or> hd s = 43) then tl s else s)"
  have r: "takeWhile is_digit t \<noteq> []" "r = dropWhile is_digit t"
    using assms by (auto simp: fetch_int_def Let_def s_def [symmetric] t_def [symmetric] split: if_splits)
  have "length t \<le> length s" by (simp add: t_def)
  moreover have "length s \<le> length is" unfolding s_def by (rule length_dropWhile_le)
  moreover have "length t = length (takeWhile is_digit t) + length r"
    unfolding r(2) by (simp flip: length_append)
  ultimately show ?thesis using r(1) by (cases "takeWhile is_digit t") auto
qed

function fetch_words :: "bytes \<Rightarrow> bytes list" where
  \<comment> \<open>\<open>while (is >> bundle)\<close>\<close>
  "fetch_words is = (case fetch is of None \<Rightarrow> [] | Some (word, is) \<Rightarrow> word # fetch_words is)"
  by auto
termination by (relation "measure length") (auto dest: fetch_shorter)

declare fetch_words.simps [simp del]

definition parse_attr_group :: "bytes \<Rightarrow> sdp \<Rightarrow> sdp sdp_result" where
  "parse_attr_group value s =
     (case fetch value of
        None \<Rightarrow> Inl SdpInvalid
      | Some (group_policy, is) \<Rightarrow>
          if group_policy \<noteq> bs ''BUNDLE'' then Inl SdpInvalid
          else Inr (s\<lparr>sdp_group := fold ss_insert (fetch_words is) (sdp_group s)\<rparr>))"

definition sdp_parse_attribute :: "bytes \<Rightarrow> sdp \<Rightarrow> sdp sdp_result" where
  "sdp_parse_attribute content s =
     (let (attribute, value) = sdp_attribute content
      in if attribute = bs ''group'' then parse_attr_group value s
         else if attribute = bs ''msid-semantic'' then (if str_find value (bs ''WMS'') = None then Inl SdpInvalid else Inr s)
         else if attribute = bs ''rtcp-mux'' then Inr (s\<lparr>sdp_rtcp_mux := True\<rparr>)
         else if attribute = bs ''recvonly'' then Inr (s\<lparr>sdp_recvonly := True\<rparr>)
         else if attribute = bs ''sendonly'' then Inr (s\<lparr>sdp_sendonly := True\<rparr>)
         else if attribute = bs ''sendrecv'' then Inr (s\<lparr>sdp_sendrecv := True\<rparr>)
         else if attribute = bs ''inactive'' then Inr (s\<lparr>sdp_inactive := True\<rparr>)
         else map_sum id (\<lambda>i. s\<lparr>sdp_session_info := i\<rparr>) (si_parse_attribute attribute value (sdp_session_info s)))"

definition sdp_close_media :: "sdp \<Rightarrow> sdp" where
  "sdp_close_media s =
     (case sdp_cur_media_desc s of
        None \<Rightarrow> s
      | Some d \<Rightarrow> s\<lparr>sdp_media_descs := sdp_media_descs s @ [d], sdp_cur_media_desc := None\<rparr>)"

function fetch_ints :: "bytes \<Rightarrow> int list" where
  \<comment> \<open>\<open>while (is >> fmt)\<close>\<close>
  "fetch_ints is = (case fetch_int 32 is of None \<Rightarrow> [] | Some (fmt, is) \<Rightarrow> fmt # fetch_ints is)"
  by auto
termination by (relation "measure length") (auto dest: fetch_int_shorter)

declare fetch_ints.simps [simp del]

definition parse_media_description :: "int \<Rightarrow> bytes \<Rightarrow> sdp \<Rightarrow> sdp sdp_result" where
  "parse_media_description junk content s =
     (let s1 = sdp_close_media s
      in case fetch content of
           None \<Rightarrow> Inl SdpInvalid
         | Some (media, is) \<Rightarrow>
         (case fetch is of
           None \<Rightarrow> Inl SdpInvalid
         | Some (port, is) \<Rightarrow>
         (case fetch is of
           None \<Rightarrow> Inl SdpInvalid
         | Some (proto, is) \<Rightarrow>
             let d = (md_new media)\<lparr>md_protos := fold ss_insert (the (split_str proto (bs ''/''))) []\<rparr>;
                 ps = fold (\<lambda>fmt. sm_insert fmt (sp_new junk fmt)) (fetch_ints is) []
             in Inr (s1\<lparr>sdp_cur_media_desc := Some (d\<lparr>md_payloads := ps\<rparr>)\<rparr>))))"

definition sdp_parse_line :: "int \<Rightarrow> bytes \<Rightarrow> sdp \<Rightarrow> sdp sdp_result" where
  \<comment> \<open>\<open>'o' 'v' 's' 't' 'a' 'm'\<close>\<close>
  "sdp_parse_line junk line s =
     (let content = drop 2 line
      in if hd line = 111 then parse_origin content s
         else if hd line = 118 then parse_version content s
         else if hd line = 115 then parse_session_name content s
         else if hd line = 116 then parse_timing content s
         else if hd line = 97 then
           case sdp_cur_media_desc s of
             Some d \<Rightarrow> map_sum id (\<lambda>d. s\<lparr>sdp_cur_media_desc := Some d\<rparr>) (md_parse_line line d)
           | None \<Rightarrow> sdp_parse_attribute content s
         else if hd line = 109 then parse_media_description junk content s
         else Inr s)"

fun sdp_parse_lines :: "int \<Rightarrow> bytes list \<Rightarrow> sdp \<Rightarrow> sdp sdp_result" where
  "sdp_parse_lines junk [] s = Inr s"
| "sdp_parse_lines junk (line # lines) s =
     (if length line < 2 \<or> line ! 1 \<noteq> 61 then Inl SdpInvalid
      else
        case sdp_parse_line junk (if last line = 13 then butlast line else line) s of
          Inl e \<Rightarrow> Inl e
        | Inr s1 \<Rightarrow> sdp_parse_lines junk lines s1)"

definition sdp_parse :: "int \<Rightarrow> bytes \<Rightarrow> sdp \<Rightarrow> sdp sdp_result" where
  "sdp_parse junk sdp_str s = map_sum id sdp_close_media (sdp_parse_lines junk (getlines sdp_str) s)"

definition sdp_encode :: "sdp \<Rightarrow> bytes" where
  "sdp_encode s =
     bs ''v='' @ sdp_version s @ kCRLF @
     bs ''o='' @ sdp_username s @ bs '' '' @ sdp_session_id s @ bs '' '' @ sdp_session_version s @ bs '' '' @ sdp_nettype s @ bs '' '' @
       sdp_addrtype s @ bs '' '' @ sdp_unicast_address s @ kCRLF @
     bs ''s='' @ sdp_session_name s @ kCRLF @
     bs ''t='' @ show_int (sdp_start_time s) @ bs '' '' @ show_int (sdp_end_time s) @ kCRLF @
     (if sdp_group s \<noteq> [] then bs ''a=group:BUNDLE'' @ concat (map (\<lambda>g. bs '' '' @ g) (sdp_group s)) @ kCRLF else []) @
     bs ''a=msid-semantic: WMS'' @ kCRLF @
     si_encode (sdp_session_info s) @ concat (map md_encode (sdp_media_descs s))"

end
