(* ===== verification/SdpText.thy ===== *)
theory SdpText
  imports Sdp
begin

text \<open>
  Session descriptions as texts: what the parser makes of a text that the encoder of \<open>src/sdp.cpp\<close> wrote, with and without the
  port that the encoder leaves out.
\<close>

section \<open>Well-formed descriptions\<close>

definition sdp_word :: "bytes \<Rightarrow> bool" where
  "sdp_word w \<longleftrightarrow> w \<noteq> [] \<and> list_all (\<lambda>c. \<not> is_space c) w"

definition sdp_token :: "bytes \<Rightarrow> bool" where
  "sdp_token w \<longleftrightarrow> list_all (\<lambda>c. \<not> is_space c \<and> c \<noteq> 47) w"

definition in_range :: "nat \<Rightarrow> int \<Rightarrow> bool" where
  "in_range w v \<longleftrightarrow> - (2 ^ (w - 1)) \<le> v \<and> v < 2 ^ (w - 1)"

definition si_ok :: "sdp_session_info \<Rightarrow> bool" where
  "si_ok i \<longleftrightarrow>
     list_all (\<lambda>v. 10 \<notin> set v) [si_ice_ufrag i, si_ice_pwd i, si_ice_options i, si_setup i] \<and>
     (si_fingerprint_algo i = [] \<and> si_fingerprint i = [] \<or> sdp_word (si_fingerprint_algo i) \<and> sdp_word (si_fingerprint i))"

definition sp_ok :: "int \<Rightarrow> sdp_media_payload \<Rightarrow> bool" where
  "sp_ok k p \<longleftrightarrow>
     sp_payload_type p = k \<and> in_range 32 k \<and> sdp_token (sp_encoding_name p) \<and> in_range 32 (sp_clock_rate p) \<and>
     sdp_token (sp_encoding_param p) \<and> sorted_wrt (<) (sp_rtcp_fb p) \<and>
     list_all (\<lambda>f. 10 \<notin> set f \<and> (f = [] \<or> hd f \<noteq> 32)) (sp_rtcp_fb p) \<and>
     (sp_format_specific_param p = [] \<or> sdp_word (sp_format_specific_param p))"

definition md_ok :: "sdp_media_desc \<Rightarrow> bool" where
  "md_ok d \<longleftrightarrow>
     sdp_word (md_type d) \<and> sdp_word (md_mid d) \<and> si_ok (md_session_info d) \<and>
     md_protos d \<noteq> [] \<and> sorted_wrt (<) (md_protos d) \<and> list_all (\<lambda>p. p \<noteq> [] \<and> sdp_token p) (md_protos d) \<and>
     sm_ok (md_payloads d) \<and> list_all (\<lambda>(k, p). sp_ok k p) (md_payloads d)"

definition sdp_ok :: "sdp \<Rightarrow> bool" where
  "sdp_ok s \<longleftrightarrow>
     sdp_cur_media_desc s = None \<and> \<not> sdp_rtcp_mux s \<and> \<not> sdp_sendonly s \<and> \<not> sdp_recvonly s \<and> \<not> sdp_sendrecv s \<and> \<not> sdp_inactive s \<and>
     si_ok (sdp_session_info s) \<and>
     list_all sdp_word [sdp_version s, sdp_username s, sdp_session_id s, sdp_session_version s, sdp_nettype s, sdp_addrtype s,
       sdp_unicast_address s, sdp_session_name s] \<and>
     in_range 64 (sdp_start_time s) \<and> in_range 64 (sdp_end_time s) \<and>
     sorted_wrt (<) (sdp_group s) \<and> list_all sdp_word (sdp_group s) \<and> list_all md_ok (sdp_media_descs s)"

text \<open>What the encoder writes, with the port put in behind the type of each media section.\<close>

definition md_text :: "bytes \<Rightarrow> sdp_media_desc \<Rightarrow> bytes" where
  "md_text port d = bs ''m='' @ md_type d @ bs '' '' @ port @ drop (2 + length (md_type d)) (md_encode d)"

definition sdp_text :: "bytes \<Rightarrow> sdp \<Rightarrow> bytes" where
  "sdp_text port s = sdp_encode (s\<lparr>sdp_media_descs := []\<rparr>) @ concat (map (md_text port) (sdp_media_descs s))"

section \<open>Words, numbers and lines\<close>

lemma fetch_skip: "is_space c \<Longrightarrow> fetch (c # r) = fetch r"
  by (simp add: fetch_def)

lemma fetch_word:
  assumes "sdp_word w" and "r = [] \<or> is_space (hd r)"
  shows "fetch (w @ r) = Some (w, r)"
proof -
  obtain a t where w: "w = a # t" "\<not> is_space a" using assms(1) by (cases w) (auto simp: sdp_word_def)
  have all: "\<forall>c \<in> set w. \<not> is_space c" using assms(1) by (simp add: sdp_word_def list_all_iff)
  have "takeWhile (\<lambda>c. \<not> is_space c) (w @ r) = w" using all assms(2) by (cases r) auto
  moreover have "dropWhile (\<lambda>c. \<not> is_space c) (w @ r) = r" using all assms(2) by (cases r) auto
  moreover have "dropWhile is_space (w @ r) = w @ r" using w by simp
  ultimately show ?thesis using w by (simp add: fetch_def)
qed

lemma fetch_last: "sdp_word w \<Longrightarrow> fetch w = Some (w, [])"
  using fetch_word [of w "[]"] by simp

lemma space_32 [simp]: "is_space 32"
  by (simp add: is_space_def)

lemma fetch_int_show:
  assumes "in_range w v" and "r = [] \<or> \<not> is_digit (hd r)"
  shows "fetch_int w (show_int v @ r) = Some (v, r)"
proof -
  define n where "n = nat \<bar>v\<bar>"
  note d = dec_digits [of n]
  obtain c ds where c: "dec n = c # ds" using d by (cases "dec n") auto
  have k: "is_digit c" "\<forall>x \<in> set (dec n). is_digit x" using d c by (auto simp: list_all_iff)
  have t: "takeWhile is_digit (dec n @ r) = dec n" "dropWhile is_digit (dec n @ r) = r"
    using k(2) assms(2) by (cases r; simp)+
  have v: "v = (if v < 0 then - int n else int n)" by (simp add: n_def)
  have s: "show_int v @ r = (if v < 0 then 45 # dec n @ r else dec n @ r)" by (simp add: show_int_def n_def bs_def)
  have m: "\<not> is_space 45" by (simp add: is_space_def)
  have "fetch_int w (if v < 0 then 45 # dec n @ r else dec n @ r) = Some (v, r)"
  proof (cases "v < 0")
    case True
    then show ?thesis using t d assms(1) v by (simp add: fetch_int_def m in_range_def Let_def)
  next
    case False
    have "dropWhile is_space (dec n @ r) = dec n @ r" "hd (dec n @ r) = c" using c digit_class [OF k(1)] by simp_all
    then show ?thesis using False t d assms(1) v digit_class [OF k(1)] by (simp add: fetch_int_def in_range_def Let_def)
  qed
  then show ?thesis unfolding s .
qed

lemma fetch_int_skip: "is_space c \<Longrightarrow> fetch_int w (c # r) = fetch_int w r"
  by (simp add: fetch_int_def)

lemma fetch_int_last: "in_range w v \<Longrightarrow> fetch_int w (show_int v) = Some (v, [])"
  using fetch_int_show [of w v "[]"] by simp

lemma atoi_show:
  assumes "in_range 32 v"
  shows "atoi (show_int v) = v"
proof -
  define n where "n = nat \<bar>v\<bar>"
  note d = dec_digits [of n]
  obtain c ds where c: "dec n = c # ds" using d by (cases "dec n") auto
  have k: "is_digit c" "\<forall>x \<in> set (dec n). is_digit x" using d c by (auto simp: list_all_iff)
  have t: "takeWhile is_digit (dec n) = dec n" using k(2) by simp
  have v: "v = (if v < 0 then - int n else int n)" by (simp add: n_def)
  have s: "show_int v = (if v < 0 then 45 # dec n else dec n)" by (simp add: show_int_def n_def bs_def)
  have m: "\<not> is_space 45" by (simp add: is_space_def)
  have b: "signed_take_bit 31 v = v" using assms by (auto simp: in_range_def intro: signed_take_bit_int_eq_self)
  show ?thesis
  proof (cases "v < 0")
    case True
    then have s1: "show_int v = 45 # dec n" using s by simp
    have "signed_take_bit 31 (max (- (2 ^ 63)) (- int n)) = v" using True assms b v by (simp add: in_range_def max_def)
    then show ?thesis unfolding atoi_def s1 using m by (simp add: Let_def t d)
  next
    case False
    then have s1: "show_int v = dec n" using s by simp
    have h: "dropWhile is_space (dec n) = dec n" "hd (dec n) = c" using c digit_class [OF k(1)] by simp_all
    have "signed_take_bit 31 (min (2 ^ 63 - 1) (int n)) = v" using False assms b v by (simp add: in_range_def min_def)
    then show ?thesis unfolding atoi_def s1 using digit_class [OF k(1)] by (simp add: Let_def h t d)
  qed
qed

text \<open>Splitting what was joined.\<close>

lemma split_join:
  assumes "ps \<noteq> []" and "\<forall>p \<in> set ps. c \<notin> set p"
  shows "split_str (join [c] ps) [c] = Some ps"
  using assms
proof (induction "[c]" ps rule: join.induct)
  case (2 p)
  then show ?case by (subst split_str.simps) (simp add: str_find_none1)
next
  case (3 p q ps)
  have "str_find (p @ c # join [c] (q # ps)) [c] = Some (length p)" using 3(3) by (intro str_find_skip1) simp
  then show ?case using 3 by (subst split_str.simps) (simp add: substr_def)
qed simp

text \<open>A text as its lines.\<close>

definition text_of :: "bytes list \<Rightarrow> bytes" where
  "text_of ls = concat (map (\<lambda>l. l @ kCRLF) ls)"

lemma text_of_simps [simp]: "text_of [] = []" "text_of (l # ls) = l @ kCRLF @ text_of ls" "text_of (ls @ ms) = text_of ls @ text_of ms"
  by (simp_all add: text_of_def)

lemma getlines_text: "\<forall>l \<in> set ls. 10 \<notin> set l \<Longrightarrow> getlines (text_of ls) = map (\<lambda>l. l @ [13]) ls"
proof (induction ls)
  case (Cons l ls)
  have "takeWhile (\<lambda>c. c \<noteq> 10) (l @ 13 # 10 # text_of ls) = l @ [13]"
    "dropWhile (\<lambda>c. c \<noteq> 10) (l @ 13 # 10 # text_of ls) = 10 # text_of ls"
    using Cons.prems by (auto simp: takeWhile_append dropWhile_append)
  then show ?case using Cons by (subst getlines.simps) (auto simp: kCRLF_def)
qed (simp add: getlines.simps)

abbreviation feed :: "int \<Rightarrow> bytes list \<Rightarrow> sdp \<Rightarrow> sdp sdp_result" where
  "feed junk ls s \<equiv> sdp_parse_lines junk (map (\<lambda>l. l @ [13]) ls) s"

lemma feed_line: "feed junk ((x # 61 # l) # ls) s = (case sdp_parse_line junk (x # 61 # l) s of Inl e \<Rightarrow> Inl e | Inr s1 \<Rightarrow> feed junk ls s1)"
  by simp

lemma feed_append: "feed junk (ls @ ms) s = (case feed junk ls s of Inl e \<Rightarrow> Inl e | Inr s1 \<Rightarrow> feed junk ms s1)"
  by (induction ls arbitrary: s) (auto split: sum.splits)

section \<open>Attributes\<close>

text \<open>Attribute after attribute.\<close>

fun each :: "(bytes \<Rightarrow> 's \<Rightarrow> 's sdp_result) \<Rightarrow> bytes list \<Rightarrow> 's \<Rightarrow> 's sdp_result" where
  "each f [] s = Inr s"
| "each f (c # cs) s = (case f c s of Inl e \<Rightarrow> Inl e | Inr s1 \<Rightarrow> each f cs s1)"

lemma each_append: "each f (as @ cs) s = (case each f as s of Inl e \<Rightarrow> Inl e | Inr s1 \<Rightarrow> each f cs s1)"
  by (induction as arbitrary: s) (auto split: sum.splits)

abbreviation attr_lines :: "bytes list \<Rightarrow> bytes list" where
  "attr_lines cs \<equiv> map (\<lambda>c. 97 # 61 # c) cs"

lemma feed_media:
  "sdp_cur_media_desc s = Some d \<Longrightarrow>
   feed junk (attr_lines cs) s = map_sum id (\<lambda>d. s\<lparr>sdp_cur_media_desc := Some d\<rparr>) (each md_parse_attribute cs d)"
proof (induction cs arbitrary: s d)
  case (Cons c cs)
  show ?case
  proof (cases "md_parse_attribute c d")
    case (Inr d1)
    then show ?thesis
      using Cons.prems Cons.IH [of "s\<lparr>sdp_cur_media_desc := Some d1\<rparr>" d1]
      by (simp add: sdp_parse_line_def md_parse_line_def)
  qed (use Cons.prems in \<open>simp add: sdp_parse_line_def md_parse_line_def\<close>)
qed simp

lemma feed_session:
  "sdp_cur_media_desc s = None \<Longrightarrow> feed junk (attr_lines cs) s = each sdp_parse_attribute cs s"
proof (induction cs arbitrary: s)
  case (Cons c cs)
  have "sdp_cur_media_desc s1 = None" if "sdp_parse_attribute c s = Inr s1" for s1
    using that Cons.prems
    by (cases "si_parse_attribute (fst (sdp_attribute c)) (snd (sdp_attribute c)) (sdp_session_info s)")
      (auto simp: sdp_parse_attribute_def parse_attr_group_def Let_def split: prod.splits if_splits option.splits)
  then show ?case using Cons by (auto simp: sdp_parse_line_def split: sum.splits)
qed simp

lemma sdp_attribute_split: "58 \<notin> set a \<Longrightarrow> sdp_attribute (a @ 58 # v) = (a, v)"
  using str_find_skip1 [of 58 a v] by (simp add: sdp_attribute_def bs_def substr_def)

section \<open>Session parameters\<close>

definition si_attrs :: "sdp_session_info \<Rightarrow> bytes list" where
  "si_attrs i =
     (if si_ice_ufrag i \<noteq> [] then [bs ''ice-ufrag'' @ 58 # si_ice_ufrag i] else []) @
     (if si_ice_pwd i \<noteq> [] then [bs ''ice-pwd'' @ 58 # si_ice_pwd i] else []) @
     (if si_ice_options i \<noteq> [] then [bs ''ice-options'' @ 58 # si_ice_options i] else []) @
     (if si_fingerprint_algo i \<noteq> [] \<and> si_fingerprint i \<noteq> []
      then [bs ''fingerprint'' @ 58 # si_fingerprint_algo i @ 32 # si_fingerprint i] else []) @
     (if si_setup i \<noteq> [] then [bs ''setup'' @ 58 # si_setup i] else [])"

lemma si_encode_lines: "si_encode i = text_of (attr_lines (si_attrs i))"
  by (simp add: si_encode_def si_attrs_def bs_def)

definition si_step :: "bytes \<Rightarrow> sdp_session_info \<Rightarrow> sdp_session_info sdp_result" where
  "si_step c i = (let (attribute, value) = sdp_attribute c in si_parse_attribute attribute value i)"

lemma si_step_split: "58 \<notin> set a \<Longrightarrow> si_step (a @ 58 # v) i = si_parse_attribute a v i"
  by (simp add: si_step_def sdp_attribute_split)

lemma si_fingerprint_step:
  "sdp_word a \<Longrightarrow> sdp_word f \<Longrightarrow>
   si_parse_attribute (bs ''fingerprint'') (a @ 32 # f) i = Inr (i\<lparr>si_fingerprint_algo := a, si_fingerprint := f\<rparr>)"
  using fetch_word [of a "32 # f"] by (simp add: si_parse_attribute_def bs_def fetch_skip fetch_last)

lemma si_attrs_parsed:
  assumes "si_ok i"
  shows "each si_step (si_attrs i) si_new = Inr i"
proof -
  have s: "si_step (bs ''ice-ufrag'' @ 58 # v) j = Inr (j\<lparr>si_ice_ufrag := v\<rparr>)"
    "si_step (bs ''ice-pwd'' @ 58 # v) j = Inr (j\<lparr>si_ice_pwd := v\<rparr>)"
    "si_step (bs ''ice-options'' @ 58 # v) j = Inr (j\<lparr>si_ice_options := v\<rparr>)"
    "si_step (bs ''setup'' @ 58 # v) j = Inr (j\<lparr>si_setup := v\<rparr>)"
    "si_step (bs ''fingerprint'' @ 58 # v) j = si_parse_attribute (bs ''fingerprint'') v j" for v j
    by (subst si_step_split; simp add: si_parse_attribute_def bs_def)+
  have e: "each si_step (if b then [c] else []) j = (if b then si_step c j else Inr j)" for b c j
    by (simp split: sum.splits)
  show ?thesis
    using assms unfolding si_attrs_def each_append e s
    by (cases i) (auto simp: si_new_def si_ok_def si_fingerprint_step sdp_word_def)
qed

definition si_attribute :: "bytes \<Rightarrow> bool" where
  \<comment> \<open>the attributes that a session and a media section share\<close>
  "si_attribute c \<longleftrightarrow> fst (sdp_attribute c) \<in> bs ` {''ice-ufrag'', ''ice-pwd'', ''ice-options'', ''fingerprint'', ''setup''}"

lemma si_attrs_shared: "c \<in> set (si_attrs i) \<Longrightarrow> si_attribute c"
proof -
  have s: "fst (sdp_attribute (bs ''ice-ufrag'' @ 58 # v)) = bs ''ice-ufrag''"
    "fst (sdp_attribute (bs ''ice-pwd'' @ 58 # v)) = bs ''ice-pwd''"
    "fst (sdp_attribute (bs ''ice-options'' @ 58 # v)) = bs ''ice-options''"
    "fst (sdp_attribute (bs ''setup'' @ 58 # v)) = bs ''setup''"
    "fst (sdp_attribute (bs ''fingerprint'' @ 58 # v)) = bs ''fingerprint''" for v
    by (subst sdp_attribute_split; simp add: bs_def)+
  show "c \<in> set (si_attrs i) \<Longrightarrow> si_attribute c"
    by (auto simp: si_attrs_def si_attribute_def s split: if_splits)
qed

lemma md_shared:
  assumes "si_attribute c"
  shows "md_parse_attribute c d = map_sum id (\<lambda>i. d\<lparr>md_session_info := i\<rparr>) (si_step c (md_session_info d))"
proof -
  obtain a v where c: "sdp_attribute c = (a, v)" by (cases "sdp_attribute c")
  have "a = bs ''ice-ufrag'' \<or> a = bs ''ice-pwd'' \<or> a = bs ''ice-options'' \<or> a = bs ''fingerprint'' \<or> a = bs ''setup''"
    using assms by (simp add: si_attribute_def c)
  then have "a \<notin> bs ` {''extmap'', ''rtpmap'', ''rtcp-fb'', ''fmtp'', ''mid''}" by (elim disjE) (simp_all add: bs_def)
  then show ?thesis unfolding md_parse_attribute_def si_step_def c by simp
qed

lemma sdp_shared:
  assumes "si_attribute c"
  shows "sdp_parse_attribute c s = map_sum id (\<lambda>i. s\<lparr>sdp_session_info := i\<rparr>) (si_step c (sdp_session_info s))"
proof -
  obtain a v where c: "sdp_attribute c = (a, v)" by (cases "sdp_attribute c")
  have "a = bs ''ice-ufrag'' \<or> a = bs ''ice-pwd'' \<or> a = bs ''ice-options'' \<or> a = bs ''fingerprint'' \<or> a = bs ''setup''"
    using assms by (simp add: si_attribute_def c)
  then have "a \<notin> bs ` {''group'', ''msid-semantic'', ''rtcp-mux'', ''recvonly'', ''sendonly'', ''sendrecv'', ''inactive''}"
    by (elim disjE) (simp_all add: bs_def)
  then show ?thesis unfolding sdp_parse_attribute_def si_step_def c by simp
qed

lemma each_lift:
  assumes "\<forall>c \<in> set cs. \<forall>x. f c x = map_sum id (\<lambda>i. put i x) (g c (get x))"
    and "\<And>i x. get (put i x) = i" and "\<And>i j x. put i (put j x) = put i x" and "\<And>x. put (get x) x = x"
  shows "each f cs x = map_sum id (\<lambda>i. put i x) (each g cs (get x))"
  using assms(1)
proof (induction cs arbitrary: x)
  case (Cons c cs)
  then show ?case by (auto simp: assms(2,3) split: sum.splits)
qed (simp add: assms(4))

lemma md_si_attrs:
  assumes "si_ok i" and "md_session_info d = si_new"
  shows "each md_parse_attribute (si_attrs i) d = Inr (d\<lparr>md_session_info := i\<rparr>)"
proof -
  have "each md_parse_attribute (si_attrs i) d = map_sum id (\<lambda>i. d\<lparr>md_session_info := i\<rparr>) (each si_step (si_attrs i) (md_session_info d))"
    by (rule each_lift) (auto dest: si_attrs_shared simp: md_shared)
  then show ?thesis using si_attrs_parsed [OF assms(1)] assms(2) by simp
qed

lemma sdp_si_attrs:
  assumes "si_ok i" and "sdp_session_info s = si_new"
  shows "each sdp_parse_attribute (si_attrs i) s = Inr (s\<lparr>sdp_session_info := i\<rparr>)"
proof -
  have "each sdp_parse_attribute (si_attrs i) s = map_sum id (\<lambda>i. s\<lparr>sdp_session_info := i\<rparr>) (each si_step (si_attrs i) (sdp_session_info s))"
    by (rule each_lift) (auto dest: si_attrs_shared simp: sdp_shared)
  then show ?thesis using si_attrs_parsed [OF assms(1)] assms(2) by simp
qed

section \<open>Payloads\<close>

definition sp_attrs :: "sdp_media_payload \<Rightarrow> bytes list" where
  "sp_attrs p =
     [bs ''rtpmap'' @ 58 # show_int (sp_payload_type p) @ 32 #
        join [47] ([sp_encoding_name p, show_int (sp_clock_rate p)] @ (if sp_encoding_param p \<noteq> [] then [sp_encoding_param p] else []))] @
     map (\<lambda>fb. bs ''rtcp-fb'' @ 58 # show_int (sp_payload_type p) @ 32 # fb) (sp_rtcp_fb p) @
     (if sp_format_specific_param p \<noteq> [] then [bs ''fmtp'' @ 58 # show_int (sp_payload_type p) @ 32 # sp_format_specific_param p] else [])"

lemma sp_encode_lines: "sp_encode p = text_of (attr_lines (sp_attrs p))"
  by (simp add: sp_encode_def sp_attrs_def bs_def text_of_def comp_def)

lemma find_put_mid:
  assumes "sm_ok (before @ (k, p) # after)"
  shows "sm_find k (before @ (k, p) # after) = Some p" and "sm_put k q (before @ (k, p) # after) = before @ (k, q) # after"
proof -
  have "\<forall>x \<in> set before. fst x < k" using assms by (auto simp: sm_ok_def sorted_wrt_append)
  then show "sm_find k (before @ (k, p) # after) = Some p" and "sm_put k q (before @ (k, p) # after) = before @ (k, q) # after"
    by (induction before) auto
qed

lemma sm_ok_mid: "sm_ok (before @ (k, p) # after) \<Longrightarrow> sm_ok (before @ (k, q) # after)"
  by (simp add: sm_ok_def)

lemma token_show: "47 \<notin> set (show_int v) \<and> list_all (\<lambda>c. \<not> is_space c) (show_int v) \<and> show_int v \<noteq> [] \<and> 10 \<notin> set (show_int v)"
proof -
  have d: "list_all is_digit (dec n) \<and> dec n \<noteq> []" for n using dec_digits by blast
  have "47 \<notin> set (dec n)" "10 \<notin> set (dec n)" "list_all (\<lambda>c. \<not> is_space c) (dec n)" for n
    using d [of n] digit_class by (auto simp: list_all_iff is_digit_def word_le_nat_alt)
  then show ?thesis using d by (simp add: show_int_def bs_def is_space_def)
qed

text \<open>One attribute of the payload \<open>k\<close>.\<close>

lemma md_split:
  "md_parse_attribute (bs ''rtpmap'' @ 58 # v) d = parse_attr_rtpmap v d"
  "md_parse_attribute (bs ''rtcp-fb'' @ 58 # v) d = parse_attr_rtcp_fb v d"
  "md_parse_attribute (bs ''fmtp'' @ 58 # v) d = parse_attr_fmtp v d"
  "md_parse_attribute (bs ''mid'' @ 58 # v) d = parse_attr_mid v d"
proof -
  have s: "58 \<notin> set (bs ''rtpmap'')" "58 \<notin> set (bs ''rtcp-fb'')" "58 \<notin> set (bs ''fmtp'')" "58 \<notin> set (bs ''mid'')" by (simp_all add: bs_def)
  show "md_parse_attribute (bs ''rtpmap'' @ 58 # v) d = parse_attr_rtpmap v d"
    unfolding md_parse_attribute_def sdp_attribute_split [OF s(1)] by (simp add: bs_def)
  show "md_parse_attribute (bs ''rtcp-fb'' @ 58 # v) d = parse_attr_rtcp_fb v d"
    unfolding md_parse_attribute_def sdp_attribute_split [OF s(2)] by (simp add: bs_def)
  show "md_parse_attribute (bs ''fmtp'' @ 58 # v) d = parse_attr_fmtp v d"
    unfolding md_parse_attribute_def sdp_attribute_split [OF s(3)] by (simp add: bs_def)
  show "md_parse_attribute (bs ''mid'' @ 58 # v) d = parse_attr_mid v d"
    unfolding md_parse_attribute_def sdp_attribute_split [OF s(4)] by (simp add: bs_def)
qed

lemma int_then_space:
  "in_range 32 k \<Longrightarrow> fetch_int 32 (show_int k @ 32 # r) = Some (k, 32 # r)"
  by (rule fetch_int_show) (simp_all add: is_digit_def)

lemma md_payload_mid:
  assumes "sm_ok (before @ (k, p) # after)" and "md_payloads d = before @ (k, p) # after"
  shows "find_media_payload k d = Some p" and "md_set k q d = d\<lparr>md_payloads := before @ (k, q) # after\<rparr>"
  using find_put_mid [OF assms(1)] assms(2) by (simp_all add: find_media_payload_def md_set_def)

lemma rtpmap_parsed:
  assumes "sm_ok (before @ (k, q) # after)" and "md_payloads d = before @ (k, q) # after" and "sp_encoding_param q = []"
    and "in_range 32 k" and "sdp_token name" and "in_range 32 rate" and "sdp_token param"
  shows "parse_attr_rtpmap (show_int k @ 32 # join [47] ([name, show_int rate] @ (if param \<noteq> [] then [param] else []))) d =
     Inr (d\<lparr>md_payloads := before @ (k, q\<lparr>sp_encoding_name := name, sp_clock_rate := rate, sp_encoding_param := param\<rparr>) # after\<rparr>)"
proof -
  define vec where "vec = [name, show_int rate] @ (if param \<noteq> [] then [param] else [])"
  have t: "\<forall>c \<in> set (show_int rate). \<not> is_space c" "47 \<notin> set (show_int rate)" using token_show [of rate] by (auto simp: list_all_iff)
  have n: "\<forall>c \<in> set name \<union> set param. \<not> is_space c" "47 \<notin> set name" "47 \<notin> set param" using assms(5,7) by (auto simp: sdp_token_def list_all_iff)
  have w: "sdp_word (join [47] vec)" using t n by (auto simp: vec_def sdp_word_def list_all_iff is_space_def)
  have v: "the (split_str (join [47] vec) [47]) = vec" using t n by (subst split_join) (auto simp: vec_def)
  show ?thesis
    unfolding vec_def [symmetric] parse_attr_rtpmap_def int_then_space [OF assms(4)]
    using assms(3) md_payload_mid [OF assms(1,2)] atoi_show [OF assms(6)]
    by (simp add: fetch_skip fetch_last [OF w] bs_def v) (simp add: vec_def)
qed

lemma ss_insert_last: "\<forall>y \<in> set s. y < x \<Longrightarrow> ss_insert x s = s @ [x]"
  by (induction s) (auto dest: less_asym)

lemma fold_ss_sorted: "sorted_wrt (<) (s @ xs) \<Longrightarrow> fold ss_insert xs s = s @ xs"
proof (induction xs arbitrary: s)
  case (Cons x xs)
  then have "ss_insert x s = s @ [x]" by (intro ss_insert_last) (auto simp: sorted_wrt_append)
  then show ?case using Cons by simp
qed simp

lemma rtcp_fb_parsed:
  assumes "sm_ok (before @ (k, q) # after)" and "md_payloads d = before @ (k, q) # after" and "in_range 32 k"
    and "sorted_wrt (<) (sp_rtcp_fb q @ fbs)" and "\<forall>f \<in> set fbs. f = [] \<or> hd f \<noteq> 32"
  shows "each md_parse_attribute (map (\<lambda>fb. bs ''rtcp-fb'' @ 58 # show_int k @ 32 # fb) fbs) d =
     Inr (d\<lparr>md_payloads := before @ (k, q\<lparr>sp_rtcp_fb := sp_rtcp_fb q @ fbs\<rparr>) # after\<rparr>)"
  using assms
proof (induction fbs arbitrary: d q)
  case (Cons f fbs)
  define q1 where "q1 = q\<lparr>sp_rtcp_fb := sp_rtcp_fb q @ [f]\<rparr>"
  define d1 where "d1 = d\<lparr>md_payloads := before @ (k, q1) # after\<rparr>"
  have "ss_insert f (sp_rtcp_fb q) = sp_rtcp_fb q @ [f]" using Cons.prems(4) by (intro ss_insert_last) (auto simp: sorted_wrt_append)
  moreover have "dropWhile (\<lambda>c. c = 32) f = f" using Cons.prems(5) by (cases f) auto
  ultimately have "md_parse_attribute (bs ''rtcp-fb'' @ 58 # show_int k @ 32 # f) d = Inr d1"
    using md_payload_mid [OF Cons.prems(1,2)]
    by (simp add: md_split parse_attr_rtcp_fb_def int_then_space [OF assms(3)] q1_def d1_def)
  moreover have "each md_parse_attribute (map (\<lambda>fb. bs ''rtcp-fb'' @ 58 # show_int k @ 32 # fb) fbs) d1 =
     Inr (d1\<lparr>md_payloads := before @ (k, q1\<lparr>sp_rtcp_fb := sp_rtcp_fb q1 @ fbs\<rparr>) # after\<rparr>)"
    using Cons.prems by (intro Cons.IH) (auto simp: d1_def q1_def intro: sm_ok_mid)
  ultimately show ?case by (simp add: d1_def q1_def)
qed simp

lemma sp_attrs_parsed:
  assumes "sm_ok (before @ (k, q) # after)" and "md_payloads d = before @ (k, q) # after" and "sp_ok k p"
    and "q = sp_new junk k"
  shows "each md_parse_attribute (sp_attrs p) d = Inr (d\<lparr>md_payloads := before @ (k, p) # after\<rparr>)"
proof -
  have p: "sp_payload_type p = k" "in_range 32 k" "sdp_token (sp_encoding_name p)" "in_range 32 (sp_clock_rate p)" "sdp_token (sp_encoding_param p)"
    "sorted_wrt (<) (sp_rtcp_fb p)" "\<forall>f \<in> set (sp_rtcp_fb p). f = [] \<or> hd f \<noteq> 32"
    "sp_format_specific_param p = [] \<or> sdp_word (sp_format_specific_param p)"
    using assms(3) by (auto simp: sp_ok_def list_all_iff)
  define q1 where "q1 = q\<lparr>sp_encoding_name := sp_encoding_name p, sp_clock_rate := sp_clock_rate p, sp_encoding_param := sp_encoding_param p\<rparr>"
  define q2 where "q2 = q1\<lparr>sp_rtcp_fb := sp_rtcp_fb p\<rparr>"
  define d1 where "d1 = d\<lparr>md_payloads := before @ (k, q1) # after\<rparr>"
  define d2 where "d2 = d\<lparr>md_payloads := before @ (k, q2) # after\<rparr>"
  have 1: "each md_parse_attribute [bs ''rtpmap'' @ 58 # show_int k @ 32 # join [47] ([sp_encoding_name p, show_int (sp_clock_rate p)] @
      (if sp_encoding_param p \<noteq> [] then [sp_encoding_param p] else []))] d = Inr d1"
    using rtpmap_parsed [OF assms(1,2) _ p(2,3,4,5)] assms(4) by (simp add: md_split d1_def q1_def sp_new_def)
  have 2: "each md_parse_attribute (map (\<lambda>fb. bs ''rtcp-fb'' @ 58 # show_int k @ 32 # fb) (sp_rtcp_fb p)) d1 = Inr d2"
    using rtcp_fb_parsed [of before k q1 after d1 "sp_rtcp_fb p"] sm_ok_mid [OF assms(1)] p assms(4)
    by (simp add: d1_def d2_def q1_def q2_def sp_new_def)
  have 3: "each md_parse_attribute (if sp_format_specific_param p \<noteq> [] then [bs ''fmtp'' @ 58 # show_int k @ 32 # sp_format_specific_param p] else []) d2
      = Inr (d\<lparr>md_payloads := before @ (k, p) # after\<rparr>)"
  proof (cases "sp_format_specific_param p = []")
    case True
    then show ?thesis using p(1) assms(4) by (simp add: d2_def q2_def q1_def sp_new_def)
  next
    case False
    then have w: "sdp_word (sp_format_specific_param p)" using p(8) by simp
    have m: "sm_ok (before @ (k, q2) # after)" using assms(1) by (rule sm_ok_mid)
    have d2: "md_payloads d2 = before @ (k, q2) # after" by (simp add: d2_def)
    have "q2\<lparr>sp_format_specific_param := sp_format_specific_param p\<rparr> = p"
      using p(1) assms(4) by (simp add: q2_def q1_def sp_new_def)
    then show ?thesis using False md_payload_mid [OF m d2]
      by (simp add: md_split parse_attr_fmtp_def int_then_space [OF p(2)] fetch_skip fetch_last [OF w] d2_def)
  qed
  show ?thesis unfolding sp_attrs_def each_append p(1) 1 2 3 by (simp add: 2 3)
qed

lemma payloads_parsed:
  assumes "sm_ok (before @ es)" and "list_all (\<lambda>(k, p). sp_ok k p) es"
    and "md_payloads d = before @ map (\<lambda>e. (fst e, sp_new junk (fst e))) es"
  shows "each md_parse_attribute (concat (map (\<lambda>e. sp_attrs (snd e)) es)) d = Inr (d\<lparr>md_payloads := before @ es\<rparr>)"
  using assms
proof (induction es arbitrary: before d)
  case (Cons e es)
  obtain k p where e: "e = (k, p)" by (cases e)
  let ?after = "map (\<lambda>e. (fst e, sp_new junk (fst e))) es"
  define d1 where "d1 = d\<lparr>md_payloads := before @ (k, p) # ?after\<rparr>"
  have "sm_ok (before @ (k, sp_new junk k) # ?after)" using Cons.prems(1) by (simp add: e sm_ok_def comp_def)
  then have "each md_parse_attribute (sp_attrs p) d = Inr d1"
    unfolding d1_def using Cons.prems(2,3) by (intro sp_attrs_parsed [where q = "sp_new junk k"]) (auto simp: e)
  moreover have "each md_parse_attribute (concat (map (\<lambda>e. sp_attrs (snd e)) es)) d1 = Inr (d1\<lparr>md_payloads := (before @ [e]) @ es\<rparr>)"
    using Cons.prems by (intro Cons.IH) (auto simp: d1_def e)
  ultimately show ?case by (simp add: e each_append d1_def)
qed simp

section \<open>Media sections\<close>

abbreviation spaced :: "bytes list \<Rightarrow> bytes" where
  "spaced ws \<equiv> concat (map (\<lambda>w. 32 # w) ws)"

lemma spaced_hd: "spaced ws = [] \<or> hd (spaced ws) = 32"
  by (cases ws) auto

lemma fetch_words_spaced: "list_all sdp_word ws \<Longrightarrow> fetch_words (spaced ws) = ws"
proof (induction ws)
  case (Cons w ws)
  have "spaced ws = [] \<or> is_space (hd (spaced ws))" using spaced_hd [of ws] by auto
  then have "fetch (32 # w @ spaced ws) = Some (w, spaced ws)" using Cons.prems by (simp add: fetch_skip fetch_word)
  then show ?case using Cons by (subst fetch_words.simps) simp
qed (simp add: fetch_words.simps fetch_def)

lemma fetch_ints_spaced: "list_all (in_range 32) ks \<Longrightarrow> fetch_ints (spaced (map show_int ks)) = ks"
proof (induction ks)
  case (Cons k ks)
  have "spaced (map show_int ks) = [] \<or> \<not> is_digit (hd (spaced (map show_int ks)))"
    using spaced_hd [of "map show_int ks"] by (auto simp: is_digit_def)
  then have "fetch_int 32 (32 # show_int k @ spaced (map show_int ks)) = Some (k, spaced (map show_int ks))"
    using Cons.prems by (simp add: fetch_int_skip fetch_int_show)
  then show ?case using Cons by (subst fetch_ints.simps) simp
qed (simp add: fetch_ints.simps fetch_int_def)

lemma fold_sm_sorted:
  assumes "sorted_wrt (<) (map fst m @ ks)"
  shows "fold (\<lambda>fmt. sm_insert fmt (f fmt)) ks m = m @ map (\<lambda>k. (k, f k)) ks"
  using assms
proof (induction ks arbitrary: m)
  case (Cons k ks)
  have l: "\<forall>x \<in> set m. fst x < k" using Cons.prems by (auto simp: sorted_wrt_append)
  then have "sm_find k m = None" by (auto simp: map_of_eq_None_iff)
  then have "sm_insert k (f k) m = m @ [(k, f k)]" using l by (simp add: sm_insert_def sm_put_last)
  moreover have "fold (\<lambda>fmt. sm_insert fmt (f fmt)) ks (m @ [(k, f k)]) = (m @ [(k, f k)]) @ map (\<lambda>k. (k, f k)) ks"
    using Cons.prems by (intro Cons.IH) simp
  ultimately show ?case by simp
qed simp

lemma join_set: "set (join [47] ps) \<subseteq> insert 47 (\<Union> (set ` set ps))"
  by (induction "[47] :: bytes" ps rule: join.induct) auto

lemma protos_word:
  assumes "protos \<noteq> []" and "list_all (\<lambda>p. p \<noteq> [] \<and> sdp_token p) protos"
  shows "sdp_word (join [47] protos)"
proof -
  have "\<forall>c \<in> set (join [47] protos). \<not> is_space c"
    using join_set [of protos] assms(2) by (auto simp: list_all_iff sdp_token_def is_space_def dest!: subsetD)
  moreover have "join [47] protos \<noteq> []" using assms by (cases protos; cases "tl protos") auto
  ultimately show ?thesis by (simp add: sdp_word_def list_all_iff)
qed

lemma media_line_parsed:
  assumes "sdp_word media" and "sdp_word port" and "protos \<noteq> []" and "sorted_wrt (<) protos" and "list_all (\<lambda>p. p \<noteq> [] \<and> sdp_token p) protos"
    and "sorted_wrt (<) ks" and "list_all (in_range 32) ks"
  shows "parse_media_description junk (media @ 32 # port @ 32 # join [47] protos @ spaced (map show_int ks)) s =
     Inr ((sdp_close_media s)\<lparr>sdp_cur_media_desc :=
       Some ((md_new media)\<lparr>md_protos := protos, md_payloads := map (\<lambda>k. (k, sp_new junk k)) ks\<rparr>)\<rparr>)"
proof -
  have p: "\<forall>p \<in> set protos. 47 \<notin> set p \<and> p \<noteq> []" using assms(5) by (auto simp: list_all_iff sdp_token_def)
  have w: "sdp_word (join [47] protos)" by (rule protos_word [OF assms(3,5)])
  have v: "the (split_str (join [47] protos) [47]) = protos" using p assms(3) by (subst split_join) auto
  have "spaced (map show_int ks) = [] \<or> is_space (hd (spaced (map show_int ks)))" using spaced_hd [of "map show_int ks"] by auto
  then have f: "fetch (media @ 32 # port @ 32 # join [47] protos @ spaced (map show_int ks))
      = Some (media, 32 # port @ 32 # join [47] protos @ spaced (map show_int ks))"
    "fetch (32 # port @ 32 # join [47] protos @ spaced (map show_int ks)) = Some (port, 32 # join [47] protos @ spaced (map show_int ks))"
    "fetch (32 # join [47] protos @ spaced (map show_int ks)) = Some (join [47] protos, spaced (map show_int ks))"
    using assms(1,2) w by (simp_all add: fetch_skip fetch_word)
  have o: "fold ss_insert protos [] = protos" using fold_ss_sorted [of "[]" protos] assms(4) by simp
  have m: "fold (\<lambda>fmt. sm_insert fmt (sp_new junk fmt)) ks [] = map (\<lambda>k. (k, sp_new junk k)) ks"
    using fold_sm_sorted [of "[]" ks] assms(6) by simp
  have b: "bs ''/'' = [47]" by (simp add: bs_def)
  show ?thesis
    unfolding parse_media_description_def Let_def f option.case prod.case b v o fetch_ints_spaced [OF assms(7)] m by simp
qed

definition md_attrs :: "sdp_media_desc \<Rightarrow> bytes list" where
  "md_attrs d = si_attrs (md_session_info d) @ [bs ''mid'' @ 58 # md_mid d] @ concat (map (\<lambda>e. sp_attrs (snd e)) (md_payloads d))"

definition md_lines :: "bytes \<Rightarrow> sdp_media_desc \<Rightarrow> bytes list" where
  "md_lines port d =
     (109 # 61 # md_type d @ 32 # port @ 32 # join [47] (md_protos d) @ spaced (map (\<lambda>e. show_int (fst e)) (md_payloads d))) #
     attr_lines (md_attrs d)"

definition md_bare_lines :: "sdp_media_desc \<Rightarrow> bytes list" where
  "md_bare_lines d =
     (109 # 61 # md_type d @ 32 # join [47] (md_protos d) @ spaced (map (\<lambda>e. show_int (fst e)) (md_payloads d))) #
     attr_lines (md_attrs d)"

lemma text_concat: "text_of (concat ls) = concat (map text_of ls)"
  by (induction ls) simp_all

lemma md_encode_lines: "md_encode d = text_of (md_bare_lines d)"
  by (simp add: md_encode_def md_bare_lines_def md_attrs_def si_encode_lines sp_encode_lines bs_def map_concat text_concat comp_def)

lemma md_text_lines: "md_text port d = text_of (md_lines port d)"
  unfolding md_text_def md_encode_lines by (simp add: md_bare_lines_def md_lines_def bs_def)

lemma md_attrs_parsed:
  assumes "md_ok d"
    and "d0 = (md_new (md_type d))\<lparr>md_protos := md_protos d, md_payloads := map (\<lambda>e. (fst e, sp_new junk (fst e))) (md_payloads d)\<rparr>"
  shows "each md_parse_attribute (md_attrs d) d0 = Inr d"
proof -
  have d: "sdp_word (md_mid d)" "si_ok (md_session_info d)" "sm_ok (md_payloads d)" "list_all (\<lambda>(k, p). sp_ok k p) (md_payloads d)"
    using assms(1) by (simp_all add: md_ok_def)
  define d1 where "d1 = d0\<lparr>md_session_info := md_session_info d\<rparr>"
  define d2 where "d2 = d1\<lparr>md_mid := md_mid d\<rparr>"
  have 1: "each md_parse_attribute (si_attrs (md_session_info d)) d0 = Inr d1"
    using md_si_attrs [OF d(2)] by (simp add: d1_def assms(2) md_new_def)
  have 2: "each md_parse_attribute [bs ''mid'' @ 58 # md_mid d] d1 = Inr d2"
    using d(1) by (simp add: md_split parse_attr_mid_def fetch_last d2_def)
  have 3: "each md_parse_attribute (concat (map (\<lambda>e. sp_attrs (snd e)) (md_payloads d))) d2 = Inr (d2\<lparr>md_payloads := md_payloads d\<rparr>)"
  proof -
    have "md_payloads d2 = [] @ map (\<lambda>e. (fst e, sp_new junk (fst e))) (md_payloads d)"
      by (simp add: d2_def d1_def assms(2))
    with payloads_parsed [of "[]" "md_payloads d" d2 junk] d show ?thesis by simp
  qed
  have "d2\<lparr>md_payloads := md_payloads d\<rparr> = d" by (simp add: d2_def d1_def assms(2) md_new_def)
  then show ?thesis unfolding md_attrs_def each_append 1 by (simp only: sum.case 2 3)
qed

lemma md_keys: "md_ok d \<Longrightarrow> sorted_wrt (<) (map fst (md_payloads d)) \<and> list_all (in_range 32) (map fst (md_payloads d))"
  by (auto simp: md_ok_def sm_ok_def sp_ok_def list_all_iff)

lemma md_lines_parsed:
  assumes "md_ok d" and "sdp_word port"
  shows "feed junk (md_lines port d) s = Inr ((sdp_close_media s)\<lparr>sdp_cur_media_desc := Some d\<rparr>)"
proof -
  define ks where "ks = map fst (md_payloads d)"
  define d0 where "d0 = (md_new (md_type d))\<lparr>md_protos := md_protos d, md_payloads := map (\<lambda>e. (fst e, sp_new junk (fst e))) (md_payloads d)\<rparr>"
  define s0 where "s0 = (sdp_close_media s)\<lparr>sdp_cur_media_desc := Some d0\<rparr>"
  have k: "spaced (map (\<lambda>e. show_int (fst e)) (md_payloads d)) = spaced (map show_int ks)" by (simp add: ks_def comp_def)
  have "parse_media_description junk (md_type d @ 32 # port @ 32 # join [47] (md_protos d) @ spaced (map show_int ks)) s = Inr s0"
    using assms md_keys [OF assms(1)]
    by (subst media_line_parsed) (simp_all add: md_ok_def ks_def s0_def d0_def comp_def)
  then have "feed junk (md_lines port d) s = feed junk (attr_lines (md_attrs d)) s0"
    unfolding md_lines_def feed_line k by (simp add: sdp_parse_line_def)
  also have "\<dots> = Inr (s0\<lparr>sdp_cur_media_desc := Some d\<rparr>)"
    using feed_media [of s0 d0 junk "md_attrs d"] md_attrs_parsed [OF assms(1) d0_def] by (simp add: s0_def)
  finally show ?thesis by (simp add: s0_def)
qed

lemma media_parsed:
  assumes "list_all md_ok ds" and "sdp_word port"
  shows "\<exists>s1. feed junk (concat (map (md_lines port) ds)) s = Inr s1 \<and>
     sdp_close_media s1 = (sdp_close_media s)\<lparr>sdp_media_descs := sdp_media_descs (sdp_close_media s) @ ds\<rparr>
     \<and> (ds \<noteq> [] \<longrightarrow> sdp_cur_media_desc s1 = Some (last ds))"
  using assms(1)
proof (induction ds arbitrary: s)
  case (Cons d ds)
  define s0 where "s0 = (sdp_close_media s)\<lparr>sdp_cur_media_desc := Some d\<rparr>"
  have c: "sdp_close_media s0 = (sdp_close_media s)\<lparr>sdp_media_descs := sdp_media_descs (sdp_close_media s) @ [d]\<rparr>"
    by (simp add: s0_def sdp_close_media_def split: option.splits)
  have s0_cur: "sdp_cur_media_desc s0 = Some d" by (simp add: s0_def)
  obtain s1 where f: "feed junk (concat (map (md_lines port) ds)) s0 = Inr s1"
    and c1: "sdp_close_media s1 = (sdp_close_media s0)\<lparr>sdp_media_descs := sdp_media_descs (sdp_close_media s0) @ ds\<rparr>"
    and l: "ds \<noteq> [] \<longrightarrow> sdp_cur_media_desc s1 = Some (last ds)"
    using Cons.IH [of s0] Cons.prems by auto
  have m: "feed junk (md_lines port d) s = Inr s0"
    using Cons.prems assms(2) by (simp add: md_lines_parsed s0_def)
  have "sdp_cur_media_desc s1 = Some (last (d # ds))" using f l s0_cur by (cases ds) auto
  moreover have "feed junk (concat (map (md_lines port) (d # ds))) s = Inr s1" unfolding list.map concat.simps feed_append m by (simp add: f)
  ultimately show ?case by (intro exI [of _ s1]) (simp add: c c1)
qed (simp)

section \<open>The head of a description\<close>

definition sdp_attrs :: "sdp \<Rightarrow> bytes list" where
  "sdp_attrs s =
     (if sdp_group s \<noteq> [] then [bs ''group'' @ 58 # bs ''BUNDLE'' @ spaced (sdp_group s)] else []) @
     [bs ''msid-semantic'' @ 58 # bs '' WMS''] @ si_attrs (sdp_session_info s)"

definition head_lines :: "sdp \<Rightarrow> bytes list" where
  "head_lines s =
     [118 # 61 # sdp_version s,
      111 # 61 # sdp_username s @ spaced [sdp_session_id s, sdp_session_version s, sdp_nettype s, sdp_addrtype s, sdp_unicast_address s],
      115 # 61 # sdp_session_name s,
      116 # 61 # show_int (sdp_start_time s) @ 32 # show_int (sdp_end_time s)] @
     attr_lines (sdp_attrs s)"

lemma sdp_encode_lines: "sdp_encode s = text_of (head_lines s) @ text_of (concat (map md_bare_lines (sdp_media_descs s)))"
proof -
  have "concat (map md_encode ds) = text_of (concat (map md_bare_lines ds))" for ds
    by (induction ds) (simp_all add: md_encode_lines)
  moreover have "(\<lambda>g. bs '' '' @ g) = (#) 32" by (auto simp: bs_def)
  ultimately show ?thesis
    by (simp add: sdp_encode_def head_lines_def sdp_attrs_def si_encode_lines) (simp add: bs_def)
qed

lemma sdp_text_lines: "sdp_text port s = text_of (head_lines s @ concat (map (md_lines port) (sdp_media_descs s)))"
proof -
  have "concat (map (md_text port) ds) = text_of (concat (map (md_lines port) ds))" for ds
    by (induction ds) (simp_all add: md_text_lines)
  then show ?thesis unfolding sdp_text_def sdp_encode_lines by (simp add: head_lines_def sdp_attrs_def)
qed

lemma sdp_split:
  "sdp_parse_attribute (bs ''group'' @ 58 # v) s = parse_attr_group v s"
  "sdp_parse_attribute (bs ''msid-semantic'' @ 58 # bs '' WMS'') s = Inr s"
proof -
  have s: "58 \<notin> set (bs ''group'')" "58 \<notin> set (bs ''msid-semantic'')" by (simp_all add: bs_def)
  show "sdp_parse_attribute (bs ''group'' @ 58 # v) s = parse_attr_group v s"
    unfolding sdp_parse_attribute_def sdp_attribute_split [OF s(1)] by (simp add: bs_def)
  show "sdp_parse_attribute (bs ''msid-semantic'' @ 58 # bs '' WMS'') s = Inr s"
    unfolding sdp_parse_attribute_def sdp_attribute_split [OF s(2)] by (simp add: bs_def)
qed

lemma group_parsed:
  assumes "list_all sdp_word g" and "sorted_wrt (<) g"
  shows "parse_attr_group (bs ''BUNDLE'' @ spaced g) s = Inr (s\<lparr>sdp_group := fold ss_insert g (sdp_group s)\<rparr>)"
proof -
  have "sdp_word (bs ''BUNDLE'')" by (simp add: sdp_word_def bs_def is_space_def)
  then have "fetch (bs ''BUNDLE'' @ spaced g) = Some (bs ''BUNDLE'', spaced g)" using spaced_hd [of g] by (intro fetch_word) auto
  then show ?thesis using fetch_words_spaced [OF assms(1)] by (simp add: parse_attr_group_def)
qed

lemma sdp_line:
  "sdp_parse_line junk (118 # 61 # v) s = parse_version v s"
  "sdp_parse_line junk (111 # 61 # v) s = parse_origin v s"
  "sdp_parse_line junk (115 # 61 # v) s = parse_session_name v s"
  "sdp_parse_line junk (116 # 61 # v) s = parse_timing v s"
  by (simp_all add: sdp_parse_line_def)

lemma head_parsed:
  assumes "sdp_ok s"
  shows "feed junk (head_lines s) (sdp_new junk) = Inr (s\<lparr>sdp_media_descs := []\<rparr>)"
proof -
  have w: "sdp_word (sdp_version s)" "sdp_word (sdp_username s)" "sdp_word (sdp_session_id s)" "sdp_word (sdp_session_version s)"
    "sdp_word (sdp_nettype s)" "sdp_word (sdp_addrtype s)" "sdp_word (sdp_unicast_address s)" "sdp_word (sdp_session_name s)"
    "in_range 64 (sdp_start_time s)" "in_range 64 (sdp_end_time s)" "sorted_wrt (<) (sdp_group s)" "list_all sdp_word (sdp_group s)"
    "si_ok (sdp_session_info s)"
    using assms by (simp_all add: sdp_ok_def)
  have o: "fetch_all 6 (sdp_username s @ 32 # sdp_session_id s @ 32 # sdp_session_version s @ 32 # sdp_nettype s @ 32 # sdp_addrtype s @
      32 # sdp_unicast_address s)
      = Some [sdp_username s, sdp_session_id s, sdp_session_version s, sdp_nettype s, sdp_addrtype s, sdp_unicast_address s]"
    using w by (simp add: numeral_eq_Suc fetch_word fetch_skip fetch_last)
  define s1 where "s1 = (sdp_new junk)\<lparr>sdp_version := sdp_version s, sdp_username := sdp_username s, sdp_session_id := sdp_session_id s,
      sdp_session_version := sdp_session_version s, sdp_nettype := sdp_nettype s, sdp_addrtype := sdp_addrtype s,
      sdp_unicast_address := sdp_unicast_address s, sdp_session_name := sdp_session_name s, sdp_start_time := sdp_start_time s,
      sdp_end_time := sdp_end_time s\<rparr>"
  have t: "fetch_int 64 (show_int (sdp_start_time s) @ 32 # show_int (sdp_end_time s)) = Some (sdp_start_time s, 32 # show_int (sdp_end_time s))"
    using w(9) by (rule fetch_int_show) (simp add: is_digit_def)
  have 1: "feed junk (head_lines s) (sdp_new junk) = feed junk (attr_lines (sdp_attrs s)) s1"
    unfolding head_lines_def append_Cons append_Nil feed_line sdp_line
    using w by (simp add: parse_version_def parse_origin_def o parse_session_name_def parse_timing_def t fetch_last fetch_int_skip fetch_int_last
        s1_def del: sdp_parse_lines.simps)
  have g: "fold ss_insert (sdp_group s) [] = sdp_group s" using fold_ss_sorted [of "[]" "sdp_group s"] w(11) by simp
  define s2 where "s2 = s1\<lparr>sdp_group := sdp_group s\<rparr>"
  have 2: "each sdp_parse_attribute ((if sdp_group s \<noteq> [] then [bs ''group'' @ 58 # bs ''BUNDLE'' @ spaced (sdp_group s)] else []) @
      [bs ''msid-semantic'' @ 58 # bs '' WMS'']) s1 = Inr s2"
    using group_parsed [OF w(12,11)] g by (simp add: sdp_split s2_def s1_def sdp_new_def)
  have 3: "each sdp_parse_attribute (si_attrs (sdp_session_info s)) s2 = Inr (s2\<lparr>sdp_session_info := sdp_session_info s\<rparr>)"
    by (rule sdp_si_attrs [OF w(13)]) (simp add: s2_def s1_def sdp_new_def)
  have "feed junk (attr_lines (sdp_attrs s)) s1 = each sdp_parse_attribute (sdp_attrs s) s1"
    by (rule feed_session) (simp add: s1_def sdp_new_def)
  also have "\<dots> = Inr (s2\<lparr>sdp_session_info := sdp_session_info s\<rparr>)"
    unfolding sdp_attrs_def append_assoc [symmetric] by (subst each_append) (simp only: 2 sum.case 3)
  also have "s2\<lparr>sdp_session_info := sdp_session_info s\<rparr> = s\<lparr>sdp_media_descs := []\<rparr>"
    using assms by (simp add: s2_def s1_def sdp_new_def sdp_ok_def)
  finally show ?thesis unfolding 1 .
qed

section \<open>Whole texts\<close>

lemma word_line: "sdp_word w \<Longrightarrow> 10 \<notin> set w" "sdp_token w \<Longrightarrow> 10 \<notin> set w"
  by (auto simp: sdp_word_def sdp_token_def is_space_def list_all_iff)

lemma si_line: "si_ok i \<Longrightarrow> c \<in> set (si_attrs i) \<Longrightarrow> 10 \<notin> set c"
  by (auto simp: si_attrs_def si_ok_def bs_def word_line split: if_splits)

lemma sp_line: "sp_ok k p \<Longrightarrow> c \<in> set (sp_attrs p) \<Longrightarrow> 10 \<notin> set c"
  using token_show [of "sp_payload_type p"] token_show [of "sp_clock_rate p"]
  by (auto simp: sp_attrs_def sp_ok_def bs_def word_line list_all_iff split: if_splits)

lemma head_no_newline:
  assumes "sdp_ok s"
  shows "\<forall>l \<in> set (head_lines s). 10 \<notin> set l"
proof -
  have "10 \<notin> set c" if "c \<in> set (sdp_attrs s)" for c
    using that assms by (auto simp: sdp_attrs_def sdp_ok_def bs_def list_all_iff word_line dest: si_line split: if_splits)
  then show ?thesis using assms token_show [of "sdp_start_time s"] token_show [of "sdp_end_time s"]
    by (auto simp: head_lines_def sdp_ok_def word_line)
qed

lemma md_no_newline:
  assumes "md_ok d" and "sdp_word port"
  shows "\<forall>l \<in> set (md_lines port d) \<union> set (md_bare_lines d). 10 \<notin> set l"
proof -
  have d: "si_ok (md_session_info d)" "sdp_word (md_mid d)" "sdp_word (md_type d)" "list_all (\<lambda>(k, p). sp_ok k p) (md_payloads d)"
    "10 \<notin> set (join [47] (md_protos d))"
    using assms(1) protos_word word_line by (auto simp: md_ok_def)
  have "10 \<notin> set c" if c: "c \<in> set (md_attrs d)" for c
  proof -
    consider "c \<in> set (si_attrs (md_session_info d))" | "c = bs ''mid'' @ 58 # md_mid d" | e where "e \<in> set (md_payloads d)" "c \<in> set (sp_attrs (snd e))"
      using c by (auto simp: md_attrs_def)
    then show ?thesis
    proof cases
      case 2
      then show ?thesis using word_line(1) [OF d(2)] by (simp add: bs_def)
    next
      case 3
      then have "sp_ok (fst e) (snd e)" using d(4) by (auto simp: list_all_iff)
      then show ?thesis using 3(2) by (rule sp_line)
    qed (use d(1) si_line in blast)
  qed
  moreover have "10 \<notin> set (spaced (map (\<lambda>e. show_int (fst e)) (md_payloads d)))" using token_show by auto
  ultimately show ?thesis using d(5) word_line(1) [OF d(3)] word_line(1) [OF assms(2)]
    by (auto simp: md_lines_def md_bare_lines_def)
qed

lemma sdp_parse_text: "\<forall>l \<in> set ls. 10 \<notin> set l \<Longrightarrow> sdp_parse junk (text_of ls) s = map_sum id sdp_close_media (feed junk ls s)"
  by (simp add: sdp_parse_def getlines_text)

text \<open>
  C21: Reading back what was written: a well-formed description (words without space, versions and times in range, protocols,
  groups and payloads in the order of their containers) is exactly what \<open>Sdp::parse\<close> makes of the text that \<open>Sdp::encode\<close> writes
  for it once the port, which the encoder leaves out, stands in each media line: every parameter, every payload with its clock rate,
  its feedback kinds and its format parameters, in every media section.
\<close>

theorem sdp_round_trip:
  assumes "sdp_ok s" and "sdp_word port"
  shows "sdp_parse junk (sdp_text port s) (sdp_new junk) = Inr s"
proof -
  have m: "list_all md_ok (sdp_media_descs s)" using assms(1) by (simp add: sdp_ok_def)
  have n: "\<forall>l \<in> set (head_lines s @ concat (map (md_lines port) (sdp_media_descs s))). 10 \<notin> set l"
    using head_no_newline [OF assms(1)] md_no_newline assms(2) m by (auto simp: list_all_iff)
  obtain s1 where "feed junk (concat (map (md_lines port) (sdp_media_descs s))) (s\<lparr>sdp_media_descs := []\<rparr>) = Inr s1"
    and "sdp_close_media s1 = (sdp_close_media (s\<lparr>sdp_media_descs := []\<rparr>))\<lparr>sdp_media_descs := sdp_media_descs (sdp_close_media (s\<lparr>sdp_media_descs := []\<rparr>)) @ sdp_media_descs s\<rparr>"
    using media_parsed [OF m assms(2)] by blast
  then show ?thesis
    unfolding sdp_text_lines sdp_parse_text [OF n] feed_append head_parsed [OF assms(1)]
    using assms(1) by (simp add: sdp_close_media_def sdp_ok_def del: sdp_parse_lines.simps)
qed

definition sdp_example :: sdp where
  "sdp_example = (sdp_new 0)\<lparr>
     sdp_session_info := si_new\<lparr>si_ice_ufrag := bs ''Oyef7uvBlwafI3hT'', si_fingerprint_algo := bs ''sha-256'', si_fingerprint := bs ''49:66''\<rparr>,
     sdp_version := bs ''0'', sdp_username := bs ''-'', sdp_session_id := bs ''9164462281920464688'', sdp_session_version := bs ''2'',
     sdp_nettype := bs ''IN'', sdp_addrtype := bs ''IP4'', sdp_unicast_address := bs ''127.0.0.1'', sdp_session_name := bs ''-'',
     sdp_group := [bs ''audio''],
     sdp_media_descs := [(md_new (bs ''audio''))\<lparr>md_mid := bs ''audio'', md_protos := [bs ''RTP'', bs ''SAVPF'', bs ''UDP''],
       md_payloads := [(111, (sp_new 48000 111)\<lparr>sp_encoding_name := bs ''opus'', sp_encoding_param := bs ''2'', sp_rtcp_fb := [bs ''nack pli''],
         sp_format_specific_param := bs ''minptime=10''\<rparr>)]\<rparr>]\<rparr>"

lemma sdp_example_ok: "sdp_ok sdp_example"
  by (simp add: sdp_example_def sdp_ok_def sdp_new_def si_ok_def si_new_def sdp_word_def md_ok_def md_new_def sp_ok_def sp_new_def sdp_token_def
      in_range_def is_space_def bs_def sm_ok_def)

lemma sdp_round_trip_witness: "sdp_parse 0 (sdp_text (bs ''9'') sdp_example) (sdp_new 0) = Inr sdp_example"
  by (rule sdp_round_trip [OF sdp_example_ok]) (simp add: sdp_word_def is_space_def bs_def)

section \<open>What the encoder writes as it stands\<close>

lemma bare_media_refused:
  assumes "md_ok d" and "sdp_cur_media_desc s = None"
  shows "feed junk (md_bare_lines d) s = Inl SdpInvalid"
proof -
  have d: "sdp_word (md_type d)" "sdp_word (md_mid d)" "si_ok (md_session_info d)" "sdp_word (join [47] (md_protos d))"
    "sm_ok (md_payloads d)" "list_all (\<lambda>(k, p). sp_ok k p) (md_payloads d)"
    using assms(1) protos_word by (auto simp: md_ok_def)
  show ?thesis
  proof (cases "md_payloads d")
    case Nil
    have "parse_media_description junk (md_type d @ 32 # join [47] (md_protos d)) s = Inl SdpInvalid"
      using d by (simp add: parse_media_description_def fetch_word fetch_skip fetch_last Let_def) (simp add: fetch_def)
    then show ?thesis unfolding md_bare_lines_def feed_line by (simp add: Nil sdp_parse_line_def)
  next
    case (Cons e es)
    obtain k p where e: "e = (k, p)" by (cases e)
    have p: "sp_payload_type p = k" "in_range 32 k" using d(6) by (simp_all add: Cons e sp_ok_def)
    define d0 where "d0 = (md_new (md_type d))\<lparr>md_protos := [show_int k], md_payloads := map (\<lambda>k. (k, sp_new junk k)) (map fst es)\<rparr>"
    define d1 where "d1 = d0\<lparr>md_session_info := md_session_info d, md_mid := md_mid d\<rparr>"
    have ks: "sorted_wrt (<) (map fst es)" "list_all (in_range 32) (map fst es)" "k \<notin> fst ` set es"
      using md_keys [OF assms(1)] by (auto simp: Cons e)
    have "list_all (\<lambda>p. p \<noteq> [] \<and> sdp_token p) [show_int k]" using token_show [of k] by (auto simp: sdp_token_def list_all_iff)
    then have "parse_media_description junk (md_type d @ 32 # join [47] (md_protos d) @ 32 # join [47] [show_int k] @ spaced (map show_int (map fst es))) s
        = Inr ((sdp_close_media s)\<lparr>sdp_cur_media_desc := Some d0\<rparr>)"
      unfolding d0_def by (intro media_line_parsed d ks) simp_all
    then have m: "parse_media_description junk (md_type d @ 32 # join [47] (md_protos d) @ spaced (map (\<lambda>e. show_int (fst e)) (md_payloads d))) s
        = Inr ((sdp_close_media s)\<lparr>sdp_cur_media_desc := Some d0\<rparr>)"
      by (simp add: Cons e comp_def)
    have 1: "each md_parse_attribute (si_attrs (md_session_info d) @ [bs ''mid'' @ 58 # md_mid d]) d0 = Inr d1"
      using md_si_attrs [OF d(3), of d0] d(2)
      by (simp add: each_append d1_def d0_def md_new_def md_split parse_attr_mid_def fetch_last)
    have "find_media_payload k d1 = None"
      using ks(3) by (simp add: find_media_payload_def d1_def d0_def map_of_eq_None_iff image_image)
    then have "md_parse_attribute (bs ''rtpmap'' @ 58 # show_int k @ 32 # v) d1 = Inl SdpInvalid" for v
      by (simp add: md_split parse_attr_rtpmap_def int_then_space [OF p(2)])
    then have 2: "each md_parse_attribute (concat (map (\<lambda>e. sp_attrs (snd e)) (md_payloads d))) d1 = Inl SdpInvalid"
      by (simp add: Cons e sp_attrs_def p(1))
    have "each md_parse_attribute (md_attrs d) d0 = Inl SdpInvalid"
      unfolding md_attrs_def append_assoc [symmetric] by (subst each_append) (simp only: 1 2 sum.case)
    then have "feed junk (attr_lines (md_attrs d)) ((sdp_close_media s)\<lparr>sdp_cur_media_desc := Some d0\<rparr>) = Inl SdpInvalid"
      by (subst feed_media [where d = d0]) simp_all
    then show ?thesis unfolding md_bare_lines_def feed_line using m by (simp add: sdp_parse_line_def)
  qed
qed

text \<open>
  C40: \<open>Sdp::encode\<close> leaves the port out of every media line, so the parser of the same class takes the protocols for the port and
  the first payload type for the protocols: whatever well-formed description with a media section is encoded, \<open>Sdp::parse\<close> refuses the
  text, because the \<open>rtpmap\<close> of the first payload names a payload that the media line then lacks, or because the line is too short.
\<close>

theorem sdp_encoding_refused:
  assumes "sdp_ok s" and "sdp_media_descs s \<noteq> []"
  shows "sdp_parse junk (sdp_encode s) (sdp_new junk) = Inl SdpInvalid"
proof -
  have m: "list_all md_ok (sdp_media_descs s)" and c: "sdp_cur_media_desc s = None" using assms(1) by (simp_all add: sdp_ok_def)
  obtain d ds where ds: "sdp_media_descs s = d # ds" using assms(2) by (cases "sdp_media_descs s") auto
  let ?ls = "head_lines s @ md_bare_lines d @ concat (map md_bare_lines ds)"
  have w: "sdp_word (bs ''9'')" by (simp add: sdp_word_def bs_def is_space_def)
  have t: "sdp_encode s = text_of ?ls" unfolding sdp_encode_lines by (simp add: ds)
  have n: "\<forall>l \<in> set ?ls. 10 \<notin> set l"
    using head_no_newline [OF assms(1)] md_no_newline [OF _ w] m by (auto simp: list_all_iff ds)
  have "feed junk (md_bare_lines d) (s\<lparr>sdp_media_descs := []\<rparr>) = Inl SdpInvalid"
    using m c ds by (intro bare_media_refused) auto
  then show ?thesis unfolding t sdp_parse_text [OF n] feed_append head_parsed [OF assms(1)] by simp
qed

lemma sdp_encoding_refused_witness: "sdp_parse 0 (sdp_encode sdp_example) (sdp_new 0) = Inl SdpInvalid"
  by (rule sdp_encoding_refused [OF sdp_example_ok]) (simp add: sdp_example_def)

text \<open>
  C29: A line \<open>a=rtcp-fb:96\<close> that ends with the number of a payload of the last media section: the stream is at its end, \<open>tellg\<close> gives -1
  and \<open>substr\<close> throws \<open>std::out_of_range\<close>, which nothing on the way catches; so such a line behind any well-formed description,
  as a peer may send it, ends the process.
\<close>

theorem sdp_short_feedback_throws:
  assumes "sdp_ok s" and "sdp_word port" and "sdp_media_descs s \<noteq> []"
    and "find_media_payload k (last (sdp_media_descs s)) \<noteq> None"
  shows "sdp_parse junk (sdp_text port s @ bs ''a=rtcp-fb:'' @ show_int k @ kCRLF) (sdp_new junk) = Inl SdpThrows"
proof -
  define d where "d = last (sdp_media_descs s)"
  have m: "list_all md_ok (sdp_media_descs s)" using assms(1) by (simp add: sdp_ok_def)
  then have d: "md_ok d" using assms(3) by (auto simp: d_def list_all_iff)
  obtain p where p: "find_media_payload k d = Some p" using assms(4) by (auto simp: d_def)
  then have "(k, p) \<in> set (md_payloads d)" by (auto simp: find_media_payload_def dest: map_of_SomeD)
  then have k: "in_range 32 k" using md_keys [OF d] by (auto simp: list_all_iff)
  let ?a = "bs ''rtcp-fb'' @ 58 # show_int k"
  let ?ls = "head_lines s @ concat (map (md_lines port) (sdp_media_descs s)) @ attr_lines [?a]"
  have t: "sdp_text port s @ bs ''a=rtcp-fb:'' @ show_int k @ kCRLF = text_of ?ls" unfolding sdp_text_lines by (simp add: bs_def)
  have "10 \<notin> set ?a" using token_show [of k] by (simp add: bs_def)
  then have n: "\<forall>l \<in> set ?ls. 10 \<notin> set l"
    using head_no_newline [OF assms(1)] md_no_newline [OF _ assms(2)] m by (auto simp: list_all_iff)
  obtain s1 where s1: "feed junk (concat (map (md_lines port) (sdp_media_descs s))) (s\<lparr>sdp_media_descs := []\<rparr>) = Inr s1"
    "sdp_cur_media_desc s1 = Some d"
    using media_parsed [OF m assms(2)] assms(3) unfolding d_def by blast
  have "md_parse_attribute ?a d = Inl SdpThrows"
    using p by (simp add: md_split parse_attr_rtcp_fb_def fetch_int_last [OF k])
  then have "feed junk (attr_lines [?a]) s1 = Inl SdpThrows" by (subst feed_media [OF s1(2)]) simp
  then show ?thesis
    unfolding t sdp_parse_text [OF n] feed_append head_parsed [OF assms(1)] by (simp only: s1 sum.case map_sum.simps id_apply)
qed

lemma sdp_short_feedback_throws_witness:
  "sdp_parse 0 (sdp_text (bs ''9'') sdp_example @ bs ''a=rtcp-fb:'' @ show_int 111 @ kCRLF) (sdp_new 0) = Inl SdpThrows"
  by (rule sdp_short_feedback_throws [OF sdp_example_ok])
    (simp_all add: sdp_word_def is_space_def bs_def sdp_example_def find_media_payload_def)

end
