(* ===== verification/Spec2Isabelle.thy ===== *)
theory Spec2Isabelle
  imports IoBuffer Base64 Crc32 RtmpLink TsLink Mp4File DashFile HttpFlv HttpHls HttpDash SdpText
begin

text \<open>
  \<^bold>\<open>tms, a media server in C++.\<close>

  \<^bold>\<open>The program.\<close> A stream is published over RTMP, WebRTC or SRT, and is played over RTMP, HTTP-FLV,
  HLS, DASH, WebRTC or SRT. One process, one thread, one epoll loop: a socket reads into its \<open>IoBuffer\<close>
  and calls \<open>Parse\<close> of its protocol until no whole message is left. The publishing protocol is a
  \<open>MediaPublisher\<close>: it turns what it receives into \<open>Payload\<close>s (frames with counted, shared bytes), hands
  them to its \<open>MediaMuxer\<close> (queues for a fast start, transport-stream segments for HLS, packets for
  SRT) and to its \<open>MediaSubscriber\<close>s, the playing protocols. \<open>LocalStreamCenter\<close> maps the name of
  a stream (application, stream) to its publisher.

  \<^bold>\<open>Theories and sources.\<close> Definitions have the names of the source where a name is free; the state of a class
  is a record whose fields are the members.

  \<^item> \<open>Prelude\<close>: widths, return codes (\<open>common/common_define.h\<close>), big-endian numbers, the
    operations of \<open>std::string\<close>. \<open>StdMap\<close>: \<open>std::map\<close> and \<open>std::set\<close> in key order, with the locale
    \<open>ordered_map\<close>.
  \<^item> \<open>IoBuffer\<close> (\<open>common/io_buffer\<close>): block, capacity and cursors; it refines a byte queue
    (locale \<open>byte_queue\<close>). \<open>Util\<close> (\<open>common/util\<close>): splitting, replacing, numbers, the command line.
  \<^item> \<open>BitIO\<close> (\<open>src/bit_buffer\<close>, \<open>src/bit_stream.h\<close>): bit reader and bit writer. \<open>Base64\<close>, \<open>Crc32\<close>:
    the codecs.
  \<^item> \<open>Payload\<close> (\<open>src/ref_ptr.h\<close>): the value of a payload, and the ownership of its bytes as a heap of
    counted blocks.
  \<^item> \<open>Amf0\<close> (\<open>src/any\<close>, \<open>src/amf_0\<close>): the values of commands, their encoder and decoder.
  \<^item> \<open>RtmpChunk\<close>, \<open>RtmpUrl\<close>, \<open>RtmpHandshake\<close>, \<open>RtmpSession\<close> (\<open>src/rtmp_protocol.cpp\<close>, \<open>src/dh_tool.cpp\<close>):
    chunks in both directions, the URL, the handshake in both roles, and messages, commands, media
    handlers, roles, \<open>HandleRead\<close> and closing of a connection. \<open>RtmpLink\<close>: two connections end to end.
  \<^item> \<open>TsMuxer\<close>, \<open>MediaMuxer\<close> (\<open>src/media_muxer\<close>): the packets of PAT, PMT and frames; queues, segments,
    playlist and decoder headers.
  \<^item> \<open>Publisher\<close> (\<open>src/media_publisher\<close>, \<open>src/media_subscriber.h\<close>): the subscribers of a stream.
    \<open>StreamCenter\<close> (\<open>src/local_stream_center\<close>): the registry (locale \<open>stream_registry\<close>).
  \<^item> \<open>Mp4Box\<close>, \<open>Mp4Muxer\<close>, \<open>Mp4File\<close> (\<open>src/mp4_muxer\<close>): the boxes as a small language of write statements,
    the muxer, and its files read by the format. \<open>DashMuxer\<close>, \<open>DashFile\<close> (\<open>src/dash_muxer\<close>): segments, their
    eviction, the manifest, and the segments read by the format.
  \<^item> \<open>HttpParse\<close> (\<open>src/http_parse\<close>): the request parser. \<open>HttpScan\<close>, \<open>HttpSender\<close>, \<open>HttpFlv\<close>, \<open>HttpHls\<close>, \<open>HttpDash\<close>
    (\<open>src/http_sender.h\<close> and the HTTP protocols): scanning file names, replies and the file server, the FLV
    player, the HLS and DASH requests.
  \<^item> \<open>Sdp\<close>, \<open>SdpText\<close> (\<open>src/sdp\<close>): the session description and its parser and printer.
  \<^item> \<open>TsReader\<close> (\<open>src/ts_reader\<close>): the demultiplexer of the SRT input, every parser a program of the
    state monad over the bit reader. \<open>TsLink\<close>: what \<open>TsMuxer\<close> writes, read by \<open>TsReader\<close>.

  \<^bold>\<open>What is proved.\<close> Round trips: messages and changes of the chunk size from one connection's
  senders to the other's \<open>HandleRead\<close>, however TCP cuts the stream; AMF values, bit fields, Base64, URLs, NAL units of a
  message, transport-stream packets from muxer to reader, HTTP requests, FLV tags, MP4 files, DASH
  segments, session descriptions.
  Refinement: the receive buffer is a byte queue, the registry is a partial function in which the first publisher
  keeps a name. Invariants over every sequence of events: headers reach a subscriber before frames and no
  frame is missed, DASH segments are cut where they are due, the playlist names only finished segments that are there, counted blocks are never used after
  they are freed, the file server opens only files of its directory, no reassembly leaves its block unless a peer changes a length inside a message.
  Equivalence: the table-driven checksums and bitwise division. Liveness: the two handshake roles complete
  with each other, a forwarding connection ends up subscribed. And the errors found: inputs that abort the
  server, keep it in a loop, make it write or read outside a block, or are decoded wrongly; each is
  a theorem at the code's own definitions.

  \<^bold>\<open>Effects, errors, loops.\<close> State is passed explicitly. A failed \<open>assert\<close> and an access outside a block are
  values (\<open>Abort\<close>, \<open>Fault\<close>, or a fault flag in the record). What the code calls and does not define (OpenSSL,
  the clock, random numbers, the allocator, the printing of a \<open>double\<close>, conversions between \<open>double\<close>
  and integers, bytes behind a block) is a parameter. Loops that the data bounds are \<open>fun\<close> with a measure.
  Loops that need not end are \<open>partial_function (option)\<close> (\<open>str_replace\<close>, \<open>ts_descriptors\<close>,
  \<open>ts_es_loop\<close>), or \<open>while_option\<close> (a CRC table), and that they return, or do not, is a
  theorem. The AMF decoder gets fuel; \<open>2 * length + 2\<close> is enough for every input
  (\<open>amf_decode_terminates\<close>).

  \<^bold>\<open>Not modelled.\<close> Sockets, epoll, timers and the main loop (calls to the system), TLS and SRT sockets
  (third-party libraries), logging, files and clocks. WebRTC, WebSocket and the SRT protocol around \<open>TsReader\<close>
  are not modelled yet. The calls of the media handlers of \<open>RtmpSession\<close> on the MP4 and DASH muxers are left out there;
  the muxers are modelled by themselves. Nowhere in the model: exhaustion of memory and of the C++ stack (the AMF decoder
  recurses as deep as its input is nested), and \<open>int\<close> positions in a buffer of 2 GB or more (\<open>HttpParse\<close>).
\<close>

end
